(* ===== verification/Prelude.thy ===== *)
theory Prelude
  imports "HOL-Library.Word" "HOL-Library.Signed_Division"
begin

unbundle bit_operations_syntax

text \<open>
  Shared vocabulary of the development: the C integer types of
  \<^verbatim>\<open>platform/coolsand/include/type.h\<close>, the lemma collections the component theories
  feed and draw on, and the generic facts on lists that are written by index.

  \<^verbatim>\<open>u8\<close>, \<^verbatim>\<open>u16\<close> and \<^verbatim>\<open>u32\<close> are words of their width, so \<open>+\<close>, \<open>-\<close> and the shifts wrap
  as they do in C; a C \<^verbatim>\<open>int\<close> that is only compared or counted is an \<open>int\<close>, one whose
  wrap-around or bit pattern matters is a \<open>32 word\<close> read by \<open>sint\<close>.
\<close>

type_synonym u8 = "8 word"
type_synonym u16 = "16 word"
type_synonym u32 = "32 word"
type_synonym u64 = "64 word"
type_synonym bytes = "8 word list"

named_theorems status_simps \<open>numeric values of status codes and enumerators\<close>
named_theorems ring_simps \<open>unfolding equations of ring buffers\<close>

subsection \<open>Status codes of platform.h\<close>

abbreviation (input) PLATFORM_ERR :: int where "PLATFORM_ERR \<equiv> 0"
abbreviation (input) PLATFORM_OK :: int where "PLATFORM_OK \<equiv> 1"
abbreviation (input) PLATFORM_UNDERFLOW :: int where "PLATFORM_UNDERFLOW \<equiv> - 1"

subsection \<open>The last elements of a list\<close>

definition lastn :: "nat \<Rightarrow> 'a list \<Rightarrow> 'a list" where
  "lastn n xs = drop (length xs - n) xs"

lemma length_lastn [simp]: "length (lastn n xs) = min n (length xs)"
  by (simp add: lastn_def)

lemma lastn_short [simp]: "length xs \<le> n \<Longrightarrow> lastn n xs = xs"
  by (simp add: lastn_def)

lemma lastn_Nil [simp]: "lastn n [] = []"
  by (simp add: lastn_def)

lemma lastn_eq_Nil: "0 < n \<Longrightarrow> lastn n xs = [] \<longleftrightarrow> xs = []"
  by (cases xs) (auto simp: lastn_def)

lemma lastn_append_lastn: "lastn n (lastn n xs @ ys) = lastn n (xs @ ys)"
proof (cases "length xs \<le> n")
  case False
  then have "length xs - n + (n - (n - length ys)) = length xs + length ys - n \<or> n \<le> length ys"
    by arith
  then show ?thesis
    using False by (auto simp: lastn_def add.commute)
qed simp

lemma lastn_snoc_full:
  "length xs = n \<Longrightarrow> 0 < n \<Longrightarrow> lastn n (xs @ [b]) = tl xs @ [b]"
  by (cases xs) (simp_all add: lastn_def)

subsection \<open>Slices of a ring\<close>

text \<open>\<open>ring_slice xs s n\<close>: the \<open>n\<close> elements from index \<open>s\<close> on, the index running modulo
  the length of the storage.\<close>

definition ring_slice :: "'a list \<Rightarrow> nat \<Rightarrow> nat \<Rightarrow> 'a list" where
  "ring_slice xs s n = map (\<lambda>i. xs ! ((s + i) mod length xs)) [0..<n]"

lemma length_ring_slice [simp]: "length (ring_slice xs s n) = n"
  by (simp add: ring_slice_def)

lemma ring_slice_0 [simp]: "ring_slice xs s 0 = []"
  by (simp add: ring_slice_def)

lemma nth_ring_slice: "i < n \<Longrightarrow> ring_slice xs s n ! i = xs ! ((s + i) mod length xs)"
  by (simp add: ring_slice_def)

lemma ring_slice_snoc:
  "ring_slice xs s (Suc n) = ring_slice xs s n @ [xs ! ((s + n) mod length xs)]"
  by (simp add: ring_slice_def)

lemma ring_slice_mod [simp]: "ring_slice xs (s mod length xs) n = ring_slice xs s n"
  by (simp add: ring_slice_def mod_add_left_eq)

lemma ring_slice_Cons:
  "ring_slice xs s (Suc n) = xs ! (s mod length xs) # ring_slice xs (Suc s) n"
proof -
  have "ring_slice xs s (Suc n) ! i = (xs ! (s mod length xs) # ring_slice xs (Suc s) n) ! i"
    if "i < Suc n" for i
    using that by (cases i) (simp_all add: nth_ring_slice)
  then show ?thesis
    by (intro nth_equalityI) simp_all
qed

lemma take_ring_slice: "k \<le> n \<Longrightarrow> take k (ring_slice xs s n) = ring_slice xs s k"
  by (simp add: ring_slice_def take_map)

lemma drop_ring_slice: "k \<le> n \<Longrightarrow> drop k (ring_slice xs s n) = ring_slice xs (s + k) (n - k)"
  by (intro nth_equalityI) (simp_all add: nth_ring_slice add.assoc)

lemma tl_ring_slice: "tl (ring_slice xs s (Suc n)) = ring_slice xs (Suc s) n"
  by (simp add: ring_slice_Cons)

lemma ring_index_neq:
  assumes "i < j" "j - i < L"
  shows "(s + i) mod L \<noteq> (s + j) mod (L::nat)"
proof
  assume "(s + i) mod L = (s + j) mod L"
  then have "L dvd (s + j) - (s + i)"
    using assms(1) by (metis add_le_cancel_left less_imp_le_nat mod_eq_dvd_iff_nat)
  then have "L dvd j - i" by simp
  with assms show False
    by (meson dvd_imp_le not_less zero_less_diff)
qed

lemma ring_index_inj:
  assumes "(s + i) mod L = (s + j) mod (L::nat)" "0 < i" "i \<le> L" "0 < j" "j \<le> L"
  shows "i = j"
proof (rule ccontr)
  assume "i \<noteq> j"
  then consider "i < j" "j - i < L" | "j < i" "i - j < L"
    using assms by linarith
  then show False
    using ring_index_neq [of i j L s] ring_index_neq [of j i L s] assms(1) by cases auto
qed

lemma ring_slice_update_outside:
  assumes "n \<le> j" "j < length xs"
  shows "ring_slice (xs[(s + j) mod length xs := b]) s n = ring_slice xs s n"
  using assms by (intro nth_equalityI)
    (auto simp: nth_ring_slice nth_list_update_neq ring_index_neq [symmetric])

lemma ring_slice_push:
  assumes "n < length xs"
  shows "ring_slice (xs[(s + n) mod length xs := b]) s (Suc n) = ring_slice xs s n @ [b]"
proof -
  have "(s + n) mod length xs < length xs"
    using assms by (intro mod_less_divisor) auto
  then show ?thesis
    using assms by (simp add: ring_slice_snoc ring_slice_update_outside)
qed

lemma ring_slice_rotate:
  assumes "s < length xs"
  shows "ring_slice (xs[s := b]) (Suc s) (length xs) = tl (ring_slice xs s (length xs)) @ [b]"
proof -
  obtain n where n: "length xs = Suc n"
    using assms by (cases "length xs") auto
  have s: "(Suc s + n) mod length xs = s"
    using assms n by (simp add: mod_if)
  have "ring_slice (xs[(Suc s + n) mod length xs := b]) (Suc s) (Suc n)
      = ring_slice xs (Suc s) n @ [b]"
    by (rule ring_slice_push) (simp add: n)
  then show ?thesis
    by (simp only: s) (simp add: n tl_ring_slice)
qed

lemma add_sub_mod_cases:
  assumes "h < L" "t < (L::nat)"
  shows "(h + L - t) mod L = (if t \<le> h then h - t else h + L - t)"
  using assms by (auto simp: mod_if)

lemma ring_end:
  assumes "h < L" "t < (L::nat)"
  shows "(t + (h + L - t) mod L) mod L = h"
  using assms by (auto simp: add_sub_mod_cases mod_if)

subsection \<open>Words read as natural numbers\<close>

lemma unat_add_one_less:
  fixes i n :: "'a::len word"
  assumes "i < n"
  shows "unat (i + 1) = Suc (unat i)" "i + 1 \<le> n"
proof -
  have le: "Suc (unat i) \<le> unat n"
    using assms by (simp add: word_less_nat_alt)
  then have "Suc (unat i) < 2 ^ LENGTH('a)"
    by (rule le_less_trans) simp
  then show "unat (i + 1) = Suc (unat i)" by (simp add: unat_word_ariths)
  with le show "i + 1 \<le> n" by (simp add: word_le_nat_alt)
qed

lemma unat_Suc_mod:
  fixes h s :: "'a::len word"
  shows "h < s \<Longrightarrow> unat ((h + 1) mod s) = Suc (unat h) mod unat s"
  by (simp add: unat_mod_distrib unat_add_one_less)

lemma mod_less_word: "0 < s \<Longrightarrow> (x::'a::len word) mod s < s"
  by (simp add: word_less_nat_alt unat_mod_distrib)

lemma unat_of_nat_small: "n < 2 ^ LENGTH('a) \<Longrightarrow> unat (of_nat n :: 'a::len word) = n"
  by (simp add: unat_of_nat take_bit_nat_eq_self)

text \<open>A 32-bit word read as a signed number.\<close>

lemma sint_low: "unat (w :: u32) < 2 ^ 31 \<Longrightarrow> sint w = int (unat w)"
proof -
  assume "unat w < 2 ^ 31"
  then have "uint w < 2 ^ 31" by (metis of_nat_less_iff of_nat_numeral of_nat_power of_nat_unat)
  moreover have "0 \<le> uint w" by simp
  ultimately have "signed_take_bit 31 (uint w) = uint w" by (intro signed_take_bit_int_eq_self) linarith+
  then show ?thesis by (simp add: sint_uint)
qed

lemma sint_high: "2 ^ 31 \<le> unat (w :: u32) \<Longrightarrow> sint w = int (unat w) - 2 ^ 32"
proof -
  assume "2 ^ 31 \<le> unat w"
  then have lo: "2 ^ 31 \<le> uint w" by (metis of_nat_le_iff of_nat_numeral of_nat_power of_nat_unat)
  have hi: "uint w < 2 ^ 32" using unsigned_less [of w, where ?'a = int] by simp
  have "sint w = (uint w + 2 ^ 31) mod 2 ^ 32 - 2 ^ 31" using int_word_sint [of "uint w", where ?'a = 32] by simp
  also have "(uint w + 2 ^ 31) mod 2 ^ 32 = (uint w + 2 ^ 31 - 2 ^ 32) mod 2 ^ 32" by (simp only: minus_mod_self2)
  also have "\<dots> = uint w + 2 ^ 31 - 2 ^ 32" using lo hi by (intro mod_pos_pos_trivial) simp_all
  finally show ?thesis by simp
qed

end
