(* ===== verification/Cycle_Queue.thy ===== *)
theory Cycle_Queue
  imports Prelude "HOL-Library.Sublist"
begin

text \<open>
  The byte ring \<^verbatim>\<open>CycleQueue\<close> of \<^verbatim>\<open>platform/coolsand/src/cycle_queue.c\<close>, which buffers the
  bytes that the UART interrupt and the virtual AT channel deliver until Lua reads them.

  The record keeps the C fields: the storage, its size, the two indices (\<^verbatim>\<open>uint32\<close>) and the
  three one-bit flags.  \<open>QueueInsert\<close> and \<open>QueueDelete\<close> are the loops of the source, one byte
  at a time; the abstraction \<open>q_list\<close> reads the stored bytes off the ring and every operation
  is shown to be an operation on that list: an insertion keeps the newest \<open>size\<close> bytes, a
  deletion takes the oldest.  The locale \<open>byte_fifo\<close> is the contract the readers rely on.
\<close>

subsection \<open>The structure and its operations\<close>

record cycle_queue =
  q_buf :: bytes
  q_size :: u32
  q_head :: u32
  q_tail :: u32
  q_empty :: bool
  q_full :: bool
  q_overflow :: bool

definition QueueClean :: "cycle_queue \<Rightarrow> cycle_queue" where
  "QueueClean q = q\<lparr>q_head := 0, q_tail := 0, q_empty := True, q_full := False,
     q_overflow := False\<rparr>"

text \<open>One round of the loop of \<open>QueueInsert\<close>.\<close>

definition insert_byte :: "u8 \<Rightarrow> cycle_queue \<Rightarrow> cycle_queue" where
  "insert_byte b q =
    (let q1 = q\<lparr>q_buf := (q_buf q)[unat (q_head q) := b]\<rparr>;
         q2 = (if q_full q1 \<and> q_head q1 = q_tail q1 then q1\<lparr>q_overflow := True\<rparr> else q1);
         q3 = q2\<lparr>q_head := (q_head q2 + 1) mod q_size q2\<rparr>;
         q4 = (if q_head q3 = q_tail q3 then q3\<lparr>q_full := True\<rparr> else q3)
     in if q_empty q4 then q4\<lparr>q_empty := False\<rparr> else q4)"

text \<open>The return value is the loop counter, the number of bytes offered.\<close>

definition QueueInsert :: "cycle_queue \<Rightarrow> bytes \<Rightarrow> nat \<times> cycle_queue" where
  "QueueInsert q data =
    (let q1 = fold insert_byte data q
     in (length data, if q_overflow q1 then q1\<lparr>q_tail := q_head q1\<rparr> else q1))"

text \<open>The \<open>while\<close> loop of \<open>QueueDelete\<close>, \<open>n\<close> being \<open>len - ret\<close>.\<close>

fun delete_loop :: "nat \<Rightarrow> cycle_queue \<Rightarrow> bytes \<times> cycle_queue" where
  "delete_loop 0 q = ([], q)"
| "delete_loop (Suc n) q =
    (let b = q_buf q ! unat (q_tail q);
         q1 = q\<lparr>q_tail := (q_tail q + 1) mod q_size q\<rparr>
     in if q_tail q1 = q_head q1 then ([b], q1\<lparr>q_empty := True\<rparr>)
        else (let (bs, q2) = delete_loop n q1 in (b # bs, q2)))"

text \<open>The bytes written to \<open>data\<close>; their number is the C return value.\<close>

definition QueueDelete :: "cycle_queue \<Rightarrow> nat \<Rightarrow> bytes \<times> cycle_queue" where
  "QueueDelete q len =
    (let (bs, q1) = (if \<not> q_empty q then delete_loop len q else ([], q))
     in (bs, if bs \<noteq> [] \<and> q_full q1 then q1\<lparr>q_full := False, q_overflow := False\<rparr> else q1))"

subsection \<open>Well-formed rings and what they hold\<close>

definition q_wf :: "cycle_queue \<Rightarrow> bool" where
  "q_wf q \<longleftrightarrow> 0 < q_size q \<and> length (q_buf q) = unat (q_size q) \<and>
     q_head q < q_size q \<and> q_tail q < q_size q \<and>
     (q_empty q \<longrightarrow> \<not> q_full q) \<and> (q_head q = q_tail q \<longleftrightarrow> q_empty q \<or> q_full q) \<and>
     (q_overflow q \<longrightarrow> q_full q)"

definition q_count :: "cycle_queue \<Rightarrow> nat" where
  "q_count q = (if q_empty q then 0 else if q_full q then unat (q_size q)
     else (unat (q_head q) + unat (q_size q) - unat (q_tail q)) mod unat (q_size q))"

definition q_list :: "cycle_queue \<Rightarrow> bytes" where
  "q_list q = ring_slice (q_buf q) (unat (q_tail q)) (q_count q)"

definition q_new :: "u32 \<Rightarrow> cycle_queue" where
  "q_new s = \<lparr>q_buf = replicate (unat s) 0, q_size = s, q_head = 0, q_tail = 0, q_empty = True,
     q_full = False, q_overflow = False\<rparr>"

lemma length_q_list [simp]: "length (q_list q) = q_count q"
  by (simp add: q_list_def)

lemma q_wfD:
  assumes "q_wf q"
  shows "length (q_buf q) = unat (q_size q)" "0 < unat (q_size q)"
    "unat (q_head q) < unat (q_size q)" "unat (q_tail q) < unat (q_size q)"
  using assms by (auto simp: q_wf_def word_less_nat_alt)

lemma q_wf_new: "0 < s \<Longrightarrow> q_wf (q_new s)"
  by (simp add: q_wf_def q_new_def)

lemma q_size_new [simp]: "q_size (q_new s) = s"
  by (simp add: q_new_def)

lemma q_list_new [simp]: "q_list (q_new s) = []"
  by (simp add: q_list_def q_count_def q_new_def)

lemma q_wf_clean: "q_wf q \<Longrightarrow> q_wf (QueueClean q)"
  by (auto simp: q_wf_def QueueClean_def)

lemma q_list_clean [simp]: "q_list (QueueClean q) = []"
  by (simp add: q_list_def q_count_def QueueClean_def)

lemma q_count_le: "q_wf q \<Longrightarrow> q_count q \<le> unat (q_size q)"
  using q_wfD [of q] by (auto simp: q_count_def intro: less_imp_le)

lemma q_count_pos: "q_wf q \<Longrightarrow> \<not> q_empty q \<Longrightarrow> 0 < q_count q"
proof -
  assume wf: "q_wf q" and ne: "\<not> q_empty q"
  show ?thesis
  proof (cases "q_full q")
    case True
    then show ?thesis using wf ne q_wfD(2) [OF wf] by (simp add: q_count_def)
  next
    case False
    then have "q_head q \<noteq> q_tail q" using wf ne by (auto simp: q_wf_def)
    then have "unat (q_head q) \<noteq> unat (q_tail q)" by (simp add: word_unat_eq_iff)
    then show ?thesis
      using False ne q_wfD [OF wf] by (auto simp: q_count_def add_sub_mod_cases)
  qed
qed

lemma q_empty_iff: "q_wf q \<Longrightarrow> q_empty q \<longleftrightarrow> q_list q = []"
  using q_count_pos [of q] by (cases "q_empty q") (simp_all add: q_count_def flip: length_0_conv)

lemma q_count_full_iff:
  assumes "q_wf q"
  shows "q_full q \<longleftrightarrow> q_count q = unat (q_size q)"
proof (cases "q_full q \<or> q_empty q")
  case True
  with assms q_wfD(2) [OF assms] show ?thesis by (auto simp: q_count_def q_wf_def)
next
  case False
  then have "q_count q < unat (q_size q)"
    using q_wfD(2) [OF assms] by (simp add: q_count_def)
  with False show ?thesis by simp
qed

lemma q_head_eq:
  assumes "q_wf q"
  shows "unat (q_head q) = (unat (q_tail q) + q_count q) mod unat (q_size q)"
proof (cases "q_head q = q_tail q")
  case True
  with assms q_wfD [OF assms] show ?thesis by (auto simp: q_count_def q_wf_def)
next
  case False
  with assms have "\<not> q_empty q" "\<not> q_full q" by (auto simp: q_wf_def)
  then show ?thesis
    using q_wfD [OF assms] by (simp add: q_count_def ring_end)
qed

subsection \<open>Insertion\<close>

text \<open>The tail is only moved after the loop, when the ring has overflowed; \<open>settle\<close> is that
  last assignment, and the loop is studied up to it.\<close>

definition settle :: "cycle_queue \<Rightarrow> cycle_queue" where
  "settle q = (if q_overflow q then q\<lparr>q_tail := q_head q\<rparr> else q)"

lemma insert_byte_eq:
  "insert_byte b q = q\<lparr>q_buf := (q_buf q)[unat (q_head q) := b],
     q_head := (q_head q + 1) mod q_size q, q_empty := False,
     q_full := (q_full q \<or> (q_head q + 1) mod q_size q = q_tail q),
     q_overflow := (q_overflow q \<or> q_full q \<and> q_head q = q_tail q)\<rparr>"
  by (cases q) (auto simp: insert_byte_def Let_def)

lemma settle_insert_byte:
  assumes "q_wf (settle q)"
  shows "settle (insert_byte b (settle q)) = settle (insert_byte b q)"
proof (cases "q_overflow q")
  case True
  with assms have "q_full q" "\<not> q_empty q" by (auto simp: settle_def q_wf_def)
  with True show ?thesis by (simp add: settle_def insert_byte_eq)
qed (simp add: settle_def)

lemma insert_byte_full:
  assumes wf: "q_wf q" and full: "q_full q"
  shows "q_wf (settle (insert_byte b q)) \<and> q_list (settle (insert_byte b q)) = tl (q_list q) @ [b]"
proof -
  let ?h = "q_head q" and ?s = "q_size q"
  have ht: "?h = q_tail q" "\<not> q_empty q" using wf full by (auto simp: q_wf_def)
  note len = q_wfD [OF wf]
  let ?q = "settle (insert_byte b q)"
  have q: "?q = q\<lparr>q_buf := (q_buf q)[unat ?h := b], q_head := (?h + 1) mod ?s,
      q_tail := (?h + 1) mod ?s, q_overflow := True\<rparr>"
    using ht full by (simp add: settle_def insert_byte_def Let_def)
  have "0 < ?s" "?h < ?s" using wf by (auto simp: q_wf_def)
  then have wf': "q_wf ?q"
    using wf full ht(2) unfolding q by (auto simp: q_wf_def mod_less_word)
  have "q_list ?q = ring_slice ((q_buf q)[unat ?h := b]) (Suc (unat ?h) mod unat ?s) (unat ?s)"
    using full ht(2) \<open>?h < ?s\<close> unfolding q by (simp add: q_list_def q_count_def unat_Suc_mod)
  also have "\<dots> = ring_slice ((q_buf q)[unat ?h := b]) (Suc (unat ?h)) (unat ?s)"
    using ring_slice_mod [of "(q_buf q)[unat ?h := b]" "Suc (unat ?h)"] len(1) by simp
  also have "\<dots> = tl (q_list q) @ [b]"
    using ring_slice_rotate [of "unat ?h" "q_buf q" b] len full ht
    by (simp add: q_list_def q_count_def)
  finally show ?thesis using wf' by simp
qed

lemma insert_byte_room:
  assumes wf: "q_wf q" and room: "\<not> q_full q"
  shows "q_wf (settle (insert_byte b q)) \<and> q_list (settle (insert_byte b q)) = q_list q @ [b]"
proof -
  let ?h = "q_head q" and ?s = "q_size q" and ?h' = "(q_head q + 1) mod q_size q"
  note len = q_wfD [OF wf]
  have ov: "\<not> q_overflow q" using wf room by (auto simp: q_wf_def)
  let ?q = "settle (insert_byte b q)"
  have q: "?q = q\<lparr>q_buf := (q_buf q)[unat ?h := b], q_head := ?h', q_empty := False,
      q_full := (?h' = q_tail q)\<rparr>"
    using ov room by (simp add: settle_def insert_byte_eq)
  have "0 < ?s" and hs: "?h < ?s" using wf by (auto simp: q_wf_def)
  then have wf': "q_wf ?q"
    using wf ov mod_less_word [of ?s "?h + 1"] unfolding q by (simp add: q_wf_def)
  have lt: "q_count q < unat ?s"
    using room q_count_full_iff [OF wf] q_count_le [OF wf] by auto
  have h: "unat ?h = (unat (q_tail q) + q_count q) mod unat ?s" by (rule q_head_eq [OF wf])
  have hd': "unat ?h' = (unat (q_tail q) + Suc (q_count q)) mod unat ?s"
    using unat_Suc_mod [OF hs] h by (simp add: mod_Suc_eq)
  have cnt: "q_count ?q = Suc (q_count q)"
  proof -
    have "(unat (q_tail q) + q_count ?q) mod unat ?s = (unat (q_tail q) + Suc (q_count q)) mod unat ?s"
      using q_head_eq [OF wf'] hd' unfolding q by simp
    moreover have "0 < q_count ?q" "q_count ?q \<le> unat ?s"
      using q_count_pos [OF wf'] q_count_le [OF wf'] by (simp_all add: q)
    ultimately show ?thesis
      by (rule ring_index_inj) (use lt in simp_all)
  qed
  have "q_list ?q = ring_slice ((q_buf q)[unat ?h := b]) (unat (q_tail q)) (Suc (q_count q))"
    using cnt unfolding q_list_def by (simp add: q)
  then show ?thesis
    using wf' ring_slice_push [of "q_count q" "q_buf q" "unat (q_tail q)" b] lt len h
    by (simp add: q_list_def)
qed

lemma insert_byte_settled:
  assumes "q_wf q"
  shows "q_wf (settle (insert_byte b q))"
    and "q_list (settle (insert_byte b q)) = lastn (unat (q_size q)) (q_list q @ [b])"
proof -
  have "0 < unat (q_size q)" using q_wfD [OF assms] by simp
  then show "q_wf (settle (insert_byte b q))"
    "q_list (settle (insert_byte b q)) = lastn (unat (q_size q)) (q_list q @ [b])"
    using insert_byte_full [OF assms] insert_byte_room [OF assms] q_count_full_iff [OF assms]
      q_count_le [OF assms]
    by (cases "q_full q"; simp add: lastn_snoc_full)+
qed

lemma size_insert_byte [simp]: "q_size (insert_byte b q) = q_size q"
  by (simp add: insert_byte_def Let_def)

lemma size_settle [simp]: "q_size (settle q) = q_size q"
  by (simp add: settle_def)

lemma insert_loop:
  assumes "q_wf (settle q)"
  shows "q_wf (settle (fold insert_byte data q)) \<and>
    q_list (settle (fold insert_byte data q)) = lastn (unat (q_size q)) (q_list (settle q) @ data) \<and>
    q_size (fold insert_byte data q) = q_size q"
  using assms
proof (induction data arbitrary: q)
  case Nil
  then show ?case using q_count_le [of "settle q"] by simp
next
  case (Cons b data)
  have "q_wf (settle (insert_byte b q))"
    and "q_list (settle (insert_byte b q)) = lastn (unat (q_size q)) (q_list (settle q) @ [b])"
    using insert_byte_settled [OF Cons.prems, of b] by (simp_all add: settle_insert_byte [OF Cons.prems])
  with Cons.IH [of "insert_byte b q"] show ?case
    by (simp add: lastn_append_lastn)
qed

lemma settle_id: "q_wf q \<Longrightarrow> settle q = q"
  by (auto simp: settle_def q_wf_def)

lemma QueueInsert_settle: "snd (QueueInsert q data) = settle (fold insert_byte data q)"
  by (simp add: QueueInsert_def settle_def Let_def)

lemma QueueInsert_wf: "q_wf q \<Longrightarrow> q_wf (snd (QueueInsert q data))"
  using insert_loop [of q data] by (simp add: QueueInsert_settle settle_id)

lemma QueueInsert_list:
  "q_wf q \<Longrightarrow> q_list (snd (QueueInsert q data)) = lastn (unat (q_size q)) (q_list q @ data)"
  using insert_loop [of q data] by (simp add: QueueInsert_settle settle_id)

lemma QueueInsert_size [simp]: "q_size (snd (QueueInsert q data)) = q_size q"
proof -
  have "q_size (fold insert_byte data q) = q_size q"
    by (induction data arbitrary: q) simp_all
  then show ?thesis by (simp add: QueueInsert_settle)
qed

lemma QueueInsert_count [simp]: "fst (QueueInsert q data) = length data"
  by (simp add: QueueInsert_def Let_def)

subsection \<open>Deletion\<close>

text \<open>The loop does not read the flags \<open>full\<close> and \<open>overflow\<close>, which are reset after it;
  \<open>unfull\<close> is that reset.\<close>

definition unfull :: "cycle_queue \<Rightarrow> cycle_queue" where
  "unfull q = q\<lparr>q_full := False, q_overflow := False\<rparr>"

definition advance_tail :: "cycle_queue \<Rightarrow> cycle_queue" where
  "advance_tail q = q\<lparr>q_tail := (q_tail q + 1) mod q_size q\<rparr>"

lemma delete_loop_Suc:
  "delete_loop (Suc n) q =
    (if q_tail (advance_tail q) = q_head q
     then ([q_buf q ! unat (q_tail q)], (advance_tail q)\<lparr>q_empty := True\<rparr>)
     else (q_buf q ! unat (q_tail q) # fst (delete_loop n (advance_tail q)),
           snd (delete_loop n (advance_tail q))))"
  by (simp add: advance_tail_def Let_def split: prod.split)

declare delete_loop.simps(2) [simp del]

lemma delete_loop_flags [simp]:
  "q_full (snd (delete_loop n q)) = q_full q"
  "q_overflow (snd (delete_loop n q)) = q_overflow q"
  "q_size (snd (delete_loop n q)) = q_size q"
  by (induction n arbitrary: q) (simp_all add: delete_loop_Suc advance_tail_def)

lemma unfull_unfull [simp]: "unfull (unfull q) = unfull q"
  by (simp add: unfull_def)

lemma delete_loop_unfull:
  "delete_loop n (unfull q) = (fst (delete_loop n q), unfull (snd (delete_loop n q)))"
proof (induction n arbitrary: q)
  case (Suc n)
  have "advance_tail (unfull q) = unfull (advance_tail q)"
    by (simp add: advance_tail_def unfull_def)
  moreover have "q_buf (unfull q) = q_buf q" "q_tail (unfull q) = q_tail q" "q_head (unfull q) = q_head q" for q
    by (simp_all add: unfull_def)
  ultimately show ?case
    by (simp add: delete_loop_Suc Suc.IH) (simp add: unfull_def)
qed simp

lemma delete_first:
  assumes wf: "q_wf q" and ne: "\<not> q_empty q"
  shows "q_list q = q_buf q ! unat (q_tail q) # tl (q_list q)"
proof -
  obtain n where "q_count q = Suc n" using q_count_pos [OF wf ne] by (cases "q_count q") auto
  then show ?thesis using q_wfD [OF wf] by (simp add: q_list_def ring_slice_Cons)
qed

lemma advance_tail_last:
  assumes wf: "q_wf q" and ne: "\<not> q_empty q" and hd: "q_tail (advance_tail q) = q_head q"
  shows "q_wf (unfull ((advance_tail q)\<lparr>q_empty := True\<rparr>))" "q_count q = 1"
proof -
  have ts: "q_tail q < q_size q" using wf by (simp add: q_wf_def)
  show "q_wf (unfull ((advance_tail q)\<lparr>q_empty := True\<rparr>))"
    using wf hd by (auto simp: q_wf_def unfull_def advance_tail_def)
  have "(unat (q_tail q) + q_count q) mod unat (q_size q) = (unat (q_tail q) + 1) mod unat (q_size q)"
    using hd q_head_eq [OF wf] unat_Suc_mod [OF ts] by (simp add: advance_tail_def)
  then show "q_count q = 1"
    by (rule ring_index_inj) (use q_count_pos [OF wf ne] q_count_le [OF wf] q_wfD [OF wf] in simp_all)
qed

lemma advance_tail_more:
  assumes wf: "q_wf q" and ne: "\<not> q_empty q" and hd: "q_tail (advance_tail q) \<noteq> q_head q"
  shows "q_wf (unfull (advance_tail q))" "q_list (unfull (advance_tail q)) = tl (q_list q)"
proof -
  let ?q = "unfull (advance_tail q)" and ?t = "unat (q_tail q)" and ?s = "unat (q_size q)"
  have ts: "q_tail q < q_size q" and "0 < q_size q" using wf by (simp_all add: q_wf_def)
  then show wf': "q_wf ?q"
    using wf ne hd mod_less_word [of "q_size q" "q_tail q + 1"]
    by (auto simp: q_wf_def unfull_def advance_tail_def)
  have tail: "unat (q_tail ?q) = Suc ?t mod ?s"
    using unat_Suc_mod [OF ts] by (simp add: unfull_def advance_tail_def)
  have lt: "q_count ?q < ?s"
    using q_count_full_iff [OF wf'] q_count_le [OF wf'] by (simp add: unfull_def advance_tail_def)
  have "(?t + Suc (q_count ?q)) mod ?s = unat (q_head q)"
    using q_head_eq [OF wf'] tail by (simp add: unfull_def advance_tail_def mod_add_left_eq)
  then have "(?t + q_count q) mod ?s = (?t + Suc (q_count ?q)) mod ?s"
    using q_head_eq [OF wf] by simp
  then have "q_count q = Suc (q_count ?q)"
    by (rule ring_index_inj) (use lt q_count_pos [OF wf ne] q_count_le [OF wf] in simp_all)
  then show "q_list ?q = tl (q_list q)"
    using tail q_wfD(1) [OF wf] ring_slice_mod [of "q_buf q" "Suc ?t"]
    by (simp add: q_list_def tl_ring_slice) (simp add: unfull_def advance_tail_def)
qed

lemma delete_loop_list:
  assumes "q_wf q" "\<not> q_empty q"
  shows "fst (delete_loop n q) = take n (q_list q) \<and> (0 < n \<longrightarrow>
    q_wf (unfull (snd (delete_loop n q))) \<and> q_list (unfull (snd (delete_loop n q))) = drop n (q_list q))"
  using assms
proof (induction n arbitrary: q)
  case (Suc n)
  let ?q1 = "advance_tail q"
  note first = delete_first [OF Suc.prems]
  show ?case
  proof (cases "q_tail ?q1 = q_head q")
    case True
    note last = advance_tail_last [OF Suc.prems True]
    have "length (q_list q) = 1" using last(2) by simp
    then have "q_list q = [q_buf q ! unat (q_tail q)]"
      using first by (cases "q_list q") auto
    moreover have "q_list (unfull (?q1\<lparr>q_empty := True\<rparr>)) = []"
      by (simp add: q_list_def q_count_def unfull_def)
    ultimately show ?thesis using last(1) True
      by (simp add: delete_loop_Suc)
  next
    case False
    note more = advance_tail_more [OF Suc.prems False]
    have "\<not> q_empty (unfull ?q1)" using Suc.prems(2) by (simp add: unfull_def advance_tail_def)
    note IH = Suc.IH [OF more(1) this, unfolded delete_loop_unfull fst_conv snd_conv more(2) unfull_unfull]
    have eq: "take (Suc n) (q_list q) = q_buf q ! unat (q_tail q) # take n (tl (q_list q))"
      "drop (Suc n) (q_list q) = drop n (tl (q_list q))"
      by (subst first, simp) (simp add: drop_Suc)
    show ?thesis
    proof (cases "n = 0")
      case True
      then show ?thesis using more eq False by (simp add: delete_loop_Suc drop_Suc)
    next
      case n: False
      then show ?thesis using IH eq False by (simp add: delete_loop_Suc [of n q])
    qed
  qed
qed simp

lemma QueueDelete_alt:
  "QueueDelete q n =
    (let r = (if q_empty q then ([], q) else delete_loop n q)
     in (fst r, if fst r \<noteq> [] \<and> q_full (snd r) then unfull (snd r) else snd r))"
  by (auto simp: QueueDelete_def unfull_def Let_def case_prod_beta simp del: delete_loop_flags)

lemma QueueDelete_eq:
  assumes wf: "q_wf q"
  shows "fst (QueueDelete q n) = take n (q_list q)"
    "q_wf (snd (QueueDelete q n))"
    "q_list (snd (QueueDelete q n)) = drop n (q_list q)"
proof -
  let ?r = "delete_loop n q"
  have "QueueDelete q n = (take n (q_list q), if take n (q_list q) = [] then q else unfull (snd ?r))"
  proof (cases "q_empty q")
    case True
    then show ?thesis using q_empty_iff [OF wf] by (simp add: QueueDelete_def)
  next
    case False
    have "fst ?r = take n (q_list q)" using delete_loop_list [OF wf False] by blast
    moreover have "take n (q_list q) = [] \<Longrightarrow> n = 0" using False q_empty_iff [OF wf] by simp
    moreover have "q_full (snd ?r) = q_full q" "\<not> q_full q \<Longrightarrow> unfull (snd ?r) = snd ?r"
      using wf delete_loop_flags(1,2) [of n q] by (auto simp: unfull_def q_wf_def)
    ultimately show ?thesis
      using False by (auto simp: QueueDelete_alt Let_def)
  qed
  then show "fst (QueueDelete q n) = take n (q_list q)"
    "q_wf (snd (QueueDelete q n))"
    "q_list (snd (QueueDelete q n)) = drop n (q_list q)"
    using delete_loop_list [OF wf, of n] wf q_empty_iff [OF wf] by (auto split: if_splits)
qed

lemma QueueDelete_size [simp]: "q_size (snd (QueueDelete q n)) = q_size q"
  by (simp add: QueueDelete_alt Let_def unfull_def)

subsection \<open>The contract of a bounded byte FIFO\<close>

datatype fifo_op = Put bytes | Get nat

text \<open>A run of operations returns the bytes taken out, in order, and the final state.\<close>

fun fifo_run :: "('q \<Rightarrow> bytes \<Rightarrow> 'q) \<Rightarrow> ('q \<Rightarrow> nat \<Rightarrow> bytes \<times> 'q) \<Rightarrow> fifo_op list \<Rightarrow> 'q \<Rightarrow> bytes \<times> 'q" where
  "fifo_run ins del [] q = ([], q)"
| "fifo_run ins del (Put d # ops) q = fifo_run ins del ops (ins q d)"
| "fifo_run ins del (Get n # ops) q =
    (let (out, q1) = del q n; (outs, q2) = fifo_run ins del ops q1 in (out @ outs, q2))"

fun fifo_input :: "fifo_op list \<Rightarrow> bytes" where
  "fifo_input [] = []"
| "fifo_input (Put d # ops) = d @ fifo_input ops"
| "fifo_input (Get n # ops) = fifo_input ops"

text \<open>\<open>stream_fits\<close>: every insertion of the run finds the room it needs in the state it meets.\<close>

fun stream_fits :: "('q \<Rightarrow> bytes \<Rightarrow> 'q) \<Rightarrow> ('q \<Rightarrow> nat \<Rightarrow> bytes \<times> 'q) \<Rightarrow> ('q \<Rightarrow> nat) \<Rightarrow> fifo_op list \<Rightarrow> 'q \<Rightarrow> bool" where
  "stream_fits ins del room [] q = True"
| "stream_fits ins del room (Put d # ops) q = (length d \<le> room q \<and> stream_fits ins del room ops (ins q d))"
| "stream_fits ins del room (Get n # ops) q = stream_fits ins del room ops (snd (del q n))"

text \<open>\<open>fifo_fits c ops k\<close>: from \<open>k\<close> stored bytes the run never needs more than \<open>c\<close>.\<close>

fun fifo_fits :: "nat \<Rightarrow> fifo_op list \<Rightarrow> nat \<Rightarrow> bool" where
  "fifo_fits c [] k = (k \<le> c)"
| "fifo_fits c (Put d # ops) k = (k + length d \<le> c \<and> fifo_fits c ops (k + length d))"
| "fifo_fits c (Get n # ops) k = fifo_fits c ops (k - n)"

lemma subseq_lastn: "subseq (lastn n xs) xs"
  unfolding lastn_def by (metis append_take_drop_id list_emb_append2 subseq_order.order_refl)

lemma subseq_same_prefix [intro]: "subseq xs ys \<Longrightarrow> subseq (p @ xs) (p @ ys)"
  by (rule list_emb_append_mono) simp_all

lemma subseq_take [simp]: "subseq (take n xs) xs"
  by (metis append_take_drop_id list_emb_append2 prefix_imp_subseq take_is_prefix)

lemma subseq_append_self [simp]: "subseq xs (xs @ ys)"
  by (simp add: prefix_imp_subseq)

text \<open>A byte stream may lose bytes when an insertion exceeds its room, but it never reorders.\<close>

locale byte_stream =
  fixes inv :: "'q \<Rightarrow> bool"
    and contents :: "'q \<Rightarrow> bytes"
    and room :: "'q \<Rightarrow> nat"
    and ins :: "'q \<Rightarrow> bytes \<Rightarrow> 'q"
    and del :: "'q \<Rightarrow> nat \<Rightarrow> bytes \<times> 'q"
  assumes ins_inv: "inv q \<Longrightarrow> inv (ins q d)"
    and del_inv: "inv q \<Longrightarrow> inv (snd (del q n))"
    and ins_subseq: "inv q \<Longrightarrow> subseq (contents (ins q d)) (contents q @ d)"
    and ins_room: "inv q \<Longrightarrow> length d \<le> room q \<Longrightarrow> contents (ins q d) = contents q @ d"
    and del_out: "inv q \<Longrightarrow> fst (del q n) = take n (contents q)"
    and del_contents: "inv q \<Longrightarrow> contents (snd (del q n)) = drop n (contents q)"
begin

lemma run_inv: "inv q \<Longrightarrow> inv (snd (fifo_run ins del ops q))"
proof (induction ops arbitrary: q)
  case (Cons op ops)
  then show ?case
    by (cases op) (simp_all add: ins_inv del_inv case_prod_beta)
qed simp

text \<open>Nothing is invented, duplicated or reordered, whatever overflows.\<close>

lemma run_subseq:
  "inv q \<Longrightarrow> subseq (fst (fifo_run ins del ops q) @ contents (snd (fifo_run ins del ops q)))
    (contents q @ fifo_input ops)"
proof (induction ops arbitrary: q)
  case (Cons op ops)
  show ?case
  proof (cases op)
    case (Put d)
    have "subseq (contents (ins q d) @ fifo_input ops) (contents q @ d @ fifo_input ops)"
      unfolding append.assoc [symmetric]
      by (rule list_emb_append_mono [OF ins_subseq [OF Cons.prems]]) simp
    from subseq_order.order_trans [OF Cons.IH [OF ins_inv [OF Cons.prems, of d]] this]
    show ?thesis by (simp add: Put)
  next
    case (Get n)
    note IH = Cons.IH [OF del_inv [OF Cons.prems], of n, unfolded del_contents [OF Cons.prems]]
    have "subseq (take n (contents q) @ x) (take n (contents q) @ drop n (contents q) @ fifo_input ops)"
      if "subseq x (drop n (contents q) @ fifo_input ops)" for x
      using that by (simp add: list_emb_append_mono)
    from this [OF IH] show ?thesis
      by (simp add: Get case_prod_beta del_out [OF Cons.prems] del: append_assoc)
        (simp only: append_assoc [symmetric] append_take_drop_id)
  qed
qed simp

text \<open>Nothing is lost while every insertion fits.\<close>

lemma run_lossless:
  "inv q \<Longrightarrow> stream_fits ins del room ops q \<Longrightarrow>
    fst (fifo_run ins del ops q) @ contents (snd (fifo_run ins del ops q)) = contents q @ fifo_input ops"
proof (induction ops arbitrary: q)
  case (Cons op ops)
  show ?case
  proof (cases op)
    case (Put d)
    then have "contents (ins q d) = contents q @ d"
      using Cons.prems by (simp add: ins_room)
    then show ?thesis
      using Cons.IH [of "ins q d"] Cons.prems Put by (simp add: ins_inv)
  next
    case (Get n)
    then show ?thesis
      using Cons.IH [of "snd (del q n)"] Cons.prems
      by (simp add: del_inv case_prod_beta del_out del_contents)
  qed
qed simp

end

text \<open>A bounded FIFO says exactly which bytes it keeps: the newest \<open>cap\<close>.\<close>

locale byte_fifo =
  fixes inv :: "'q \<Rightarrow> bool"
    and contents :: "'q \<Rightarrow> bytes"
    and cap :: "'q \<Rightarrow> nat"
    and ins :: "'q \<Rightarrow> bytes \<Rightarrow> 'q"
    and del :: "'q \<Rightarrow> nat \<Rightarrow> bytes \<times> 'q"
  assumes bounded: "inv q \<Longrightarrow> length (contents q) \<le> cap q"
    and put_inv: "inv q \<Longrightarrow> inv (ins q d)"
    and get_inv: "inv q \<Longrightarrow> inv (snd (del q n))"
    and put_cap: "inv q \<Longrightarrow> cap (ins q d) = cap q"
    and get_cap: "inv q \<Longrightarrow> cap (snd (del q n)) = cap q"
    and put_contents: "inv q \<Longrightarrow> contents (ins q d) = lastn (cap q) (contents q @ d)"
    and get_out: "inv q \<Longrightarrow> fst (del q n) = take n (contents q)"
    and get_contents: "inv q \<Longrightarrow> contents (snd (del q n)) = drop n (contents q)"

sublocale byte_fifo \<subseteq> stream: byte_stream inv contents "\<lambda>q. cap q - length (contents q)" ins del
proof unfold_locales
  fix q d
  assume q: "inv q"
  show "contents (ins q d) = contents q @ d" if "length d \<le> cap q - length (contents q)"
    using that put_contents [OF q, of d] bounded [OF q] by simp
qed (simp_all add: put_inv get_inv put_contents subseq_lastn get_out get_contents)

context byte_fifo
begin

lemma fits_stream:
  "inv q \<Longrightarrow> fifo_fits (cap q) ops (length (contents q)) \<Longrightarrow>
    stream_fits ins del (\<lambda>q. cap q - length (contents q)) ops q"
proof (induction ops arbitrary: q)
  case (Cons op ops)
  then show ?case
    using Cons.IH [of "ins q (case op of Put d \<Rightarrow> d | _ \<Rightarrow> [])"]
      Cons.IH [of "snd (del q (case op of Get n \<Rightarrow> n | _ \<Rightarrow> 0))"]
    by (cases op) (simp_all add: put_inv get_inv put_cap get_cap put_contents get_contents le_diff_conv2 bounded add.commute)
qed simp

end

definition queue_put :: "cycle_queue \<Rightarrow> bytes \<Rightarrow> cycle_queue" where
  "queue_put q d = snd (QueueInsert q d)"

definition queue_cap :: "cycle_queue \<Rightarrow> nat" where
  "queue_cap q = unat (q_size q)"

interpretation cq: byte_fifo q_wf q_list queue_cap queue_put QueueDelete
  by unfold_locales
    (simp_all add: queue_put_def queue_cap_def q_count_le QueueInsert_wf QueueInsert_list QueueDelete_eq)

subsection \<open>The contract of a buffered reader\<close>

text \<open>Both readers of \<^verbatim>\<open>platform_uart.c\<close> take bytes from a small prefetch buffer and refill it
  from a ring when it is used up.  \<open>pending\<close> is what a reader still has to deliver.\<close>

locale buffered_reader =
  fixes inv :: "'c \<Rightarrow> bool"
    and pending :: "'c \<Rightarrow> bytes"
    and avail :: "'c \<Rightarrow> bool"
    and refill :: "'c \<Rightarrow> 'c"
    and next_byte :: "'c \<Rightarrow> u8 \<times> 'c"
    and loop :: "nat \<Rightarrow> 'c \<Rightarrow> bytes \<times> 'c"
  assumes refill_inv: "inv c \<Longrightarrow> \<not> avail c \<Longrightarrow> inv (refill c)"
    and refill_pending: "inv c \<Longrightarrow> \<not> avail c \<Longrightarrow> pending (refill c) = pending c"
    and refill_empty: "inv c \<Longrightarrow> \<not> avail c \<Longrightarrow> \<not> avail (refill c) \<Longrightarrow> pending c = []"
    and next_inv: "inv c \<Longrightarrow> avail c \<Longrightarrow> inv (snd (next_byte c))"
    and next_pending: "inv c \<Longrightarrow> avail c \<Longrightarrow> pending c = fst (next_byte c) # pending (snd (next_byte c))"
    and loop_0: "loop 0 c = ([], c)"
    and loop_Suc: "loop (Suc n) c =
      (let c1 = (if avail c then c else refill c)
       in if avail c1 then (let (b, c2) = next_byte c1; (bs, c3) = loop n c2 in (b # bs, c3))
          else ([], c1))"
begin

lemma loop_correct:
  "inv c \<Longrightarrow> inv (snd (loop n c)) \<and> fst (loop n c) = take n (pending c) \<and>
    pending (snd (loop n c)) = drop n (pending c)"
proof (induction n arbitrary: c)
  case 0
  then show ?case by (simp add: loop_0)
next
  case (Suc n)
  define c1 where "c1 = (if avail c then c else refill c)"
  have c1: "inv c1" "pending c1 = pending c"
    using Suc.prems by (auto simp: c1_def refill_inv refill_pending)
  show ?case
  proof (cases "avail c1")
    case True
    note nxt = next_pending [OF c1(1) True] next_inv [OF c1(1) True]
    have "loop (Suc n) c = (fst (next_byte c1) # fst (loop n (snd (next_byte c1))),
        snd (loop n (snd (next_byte c1))))"
      using True by (simp add: loop_Suc c1_def [symmetric] Let_def case_prod_beta)
    then show ?thesis
      using Suc.IH [OF nxt(2)] nxt(1) c1(2) by simp
  next
    case False
    then have "pending c = []" "loop (Suc n) c = ([], c1)"
      using refill_empty [OF Suc.prems] c1_def loop_Suc [of n c]
      by (auto simp: Let_def split: if_splits)
    then show ?thesis using c1 by simp
  qed
qed

end

subsection \<open>Properties\<close>

text \<open>C2: Any sequence of insertions and deletions on a well-formed ring keeps it well formed;
  the bytes delivered, followed by the bytes still stored, are a subsequence of what was stored
  and inserted (nothing invented, duplicated or reordered), and they are exactly that stream
  when the stored bytes never exceed the size of the ring.\<close>

theorem queue_run_fifo:
  assumes "q_wf q"
  shows "q_wf (snd (fifo_run queue_put QueueDelete ops q)) \<and>
    subseq (fst (fifo_run queue_put QueueDelete ops q) @ q_list (snd (fifo_run queue_put QueueDelete ops q)))
      (q_list q @ fifo_input ops) \<and>
    (fifo_fits (unat (q_size q)) ops (length (q_list q)) \<longrightarrow>
      fst (fifo_run queue_put QueueDelete ops q) @ q_list (snd (fifo_run queue_put QueueDelete ops q))
        = q_list q @ fifo_input ops)"
  using cq.stream.run_inv [OF assms] cq.stream.run_subseq [OF assms]
    cq.stream.run_lossless [OF assms] cq.fits_stream [OF assms]
  by (simp add: queue_cap_def)

theorem queue_run_fifo_witness:
  "fst (fifo_run queue_put QueueDelete [Put [1, 2, 3], Get 2, Put [4, 5, 6], Get 9] (q_new 4))
    @ q_list (snd (fifo_run queue_put QueueDelete [Put [1, 2, 3], Get 2, Put [4, 5, 6], Get 9] (q_new 4)))
   = [1, 2, 3, 4, 5, 6]"
  using queue_run_fifo [OF q_wf_new, of 4 "[Put [1, 2, 3], Get 2, Put [4, 5, 6], Get 9]"]
  by simp

text \<open>\<open>QueueInsert\<close> returns the number of bytes offered, keeps the newest \<open>size\<close> bytes of
  the old contents followed by the data, and raises \<open>full\<close> exactly when the ring holds \<open>size\<close>
  bytes and \<open>empty\<close> exactly when it holds none.\<close>

theorem queue_insert_keeps_newest:
  assumes "q_wf q"
  shows "fst (QueueInsert q data) = length data \<and>
    q_list (snd (QueueInsert q data)) = lastn (unat (q_size q)) (q_list q @ data) \<and>
    (q_full (snd (QueueInsert q data)) \<longleftrightarrow> unat (q_size q) \<le> length (q_list q) + length data) \<and>
    (q_empty (snd (QueueInsert q data)) \<longleftrightarrow> q_list q @ data = [])"
proof -
  note wf' = QueueInsert_wf [OF assms, of data] and ls = QueueInsert_list [OF assms, of data]
  have "q_count (snd (QueueInsert q data)) = min (unat (q_size q)) (length (q_list q) + length data)"
    using arg_cong [OF ls, of length] by simp
  moreover have "lastn (unat (q_size q)) (q_list q @ data) = [] \<longleftrightarrow> q_list q @ data = []"
    using q_wfD(2) [OF assms] by (simp add: lastn_eq_Nil)
  ultimately show ?thesis
    using ls q_count_full_iff [OF wf'] q_empty_iff [OF wf'] by (simp add: min_def)
qed

theorem queue_insert_keeps_newest_witness:
  "q_list (snd (QueueInsert (q_new 4) [1, 2, 3, 4, 5, 6])) = [3, 4, 5, 6] \<and>
   q_full (snd (QueueInsert (q_new 4) [1, 2, 3, 4, 5, 6]))"
  using queue_insert_keeps_newest [OF q_wf_new, of 4 "[1, 2, 3, 4, 5, 6]"]
  by (simp add: lastn_def)

end
