(* ===== verification/Uart.thy ===== *)
theory Uart
  imports Cycle_Queue
begin

text \<open>
  The serial ports of \<^verbatim>\<open>platform/coolsand/src/platform_uart.c\<close>: four logical ports on
  three OpenAT ports, the virtual AT channel and the debug port.

  \<open>uart_sys\<close> holds the static variables of the file.  The OpenAT functions (\<^verbatim>\<open>IVTBL(...)\<close>, not
  part of the repository) are parameters: what they return is an argument of the operation and
  every call is recorded, in order, in the field \<open>calls\<close>, so that the order of interrupt
  masking, semaphores and messages is part of the model.  Received bytes go through the
  ring of \<^verbatim>\<open>Cycle_Queue\<close> and are handed out by two prefetching loops, both instances of the
  locale \<open>buffered_reader\<close>.
\<close>

subsection \<open>Data\<close>

datatype openat_baud =
    OPENAT_UART_BAUD_1200 | OPENAT_UART_BAUD_2400 | OPENAT_UART_BAUD_4800
  | OPENAT_UART_BAUD_9600 | OPENAT_UART_BAUD_14400 | OPENAT_UART_BAUD_19200
  | OPENAT_UART_BAUD_28800 | OPENAT_UART_BAUD_38400 | OPENAT_UART_BAUD_57600
  | OPENAT_UART_BAUD_76800 | OPENAT_UART_BAUD_115200 | OPENAT_UART_BAUD_230400
  | OPENAT_UART_BAUD_460800 | OPENAT_UART_BAUD_576000 | OPENAT_UART_BAUD_921600
  | OPENAT_UART_BAUD_1152000 | OPENAT_UART_BAUD_4000000 | OPENAT_UART_NUM_OF_BAUD_RATES

datatype openat_parity = OPENAT_UART_NO_PARITY | OPENAT_UART_ODD_PARITY | OPENAT_UART_EVEN_PARITY

datatype openat_flow = OPENAT_UART_FLOWCONTROL_NONE | OPENAT_UART_FLOWCONTROL_HW

text \<open>\<open>up_handler\<close> is \<open>None\<close> for \<^verbatim>\<open>NULL\<close> and the logical port whose message handler is installed.\<close>

record uart_param =
  up_baud :: openat_baud
  up_dataBits :: u32
  up_stopBits :: u32
  up_parity :: openat_parity
  up_flowControl :: openat_flow
  up_handler :: "nat option"

abbreviation (input) OPENAT_UART_1 :: nat where "OPENAT_UART_1 \<equiv> 0"
abbreviation (input) OPENAT_UART_2 :: nat where "OPENAT_UART_2 \<equiv> 1"
abbreviation (input) OPENAT_UART_3 :: nat where "OPENAT_UART_3 \<equiv> 2"

abbreviation (input) PLATFORM_UART_PARITY_EVEN :: int where "PLATFORM_UART_PARITY_EVEN \<equiv> 0"
abbreviation (input) PLATFORM_UART_PARITY_ODD :: int where "PLATFORM_UART_PARITY_ODD \<equiv> 1"
abbreviation (input) PLATFORM_UART_PARITY_NONE :: int where "PLATFORM_UART_PARITY_NONE \<equiv> 2"
abbreviation (input) PLATFORM_UART_STOPBITS_1 :: int where "PLATFORM_UART_STOPBITS_1 \<equiv> 0"
abbreviation (input) PLATFORM_UART_STOPBITS_1_5 :: int where "PLATFORM_UART_STOPBITS_1_5 \<equiv> 1"
abbreviation (input) PLATFORM_UART_STOPBITS_2 :: int where "PLATFORM_UART_STOPBITS_2 \<equiv> 2"

abbreviation (input) NUM_UART :: nat where "NUM_UART \<equiv> 4"
abbreviation (input) PLATFORM_UART_ID_ATC :: nat where "PLATFORM_UART_ID_ATC \<equiv> 0x7f"
abbreviation (input) PLATFORM_PORT_ID_DEBUG :: nat where "PLATFORM_PORT_ID_DEBUG \<equiv> 0x80"
abbreviation (input) RX_BUFFER_SIZE :: nat where "RX_BUFFER_SIZE \<equiv> 256"
abbreviation (input) READ_BUFFER_SIZE :: nat where "READ_BUFFER_SIZE \<equiv> 126"
abbreviation (input) UART_RX_BUF_SIZE :: u32 where "UART_RX_BUF_SIZE \<equiv> 1460"
abbreviation (input) VATC_RX_BUF_SIZE :: u32 where "VATC_RX_BUF_SIZE \<equiv> 8192"
abbreviation (input) VATC_READ_BUF_SIZE :: nat where "VATC_READ_BUF_SIZE \<equiv> 512"

text \<open>The calls that leave the file, as they happen.\<close>

datatype uart_call =
    Read_uart nat nat u32
  | Write_uart nat bytes bool
  | Config_uart nat uart_param
  | Close_uart nat
  | Host_init
  | Host_send_data bytes
  | Uart_enable_rx_int nat bool
  | Wait_semaphore
  | Release_semaphore
  | Create_semaphore nat
  | Send_at_command bytes
  | Print bytes
  | Post_rx_message nat

record uart_phy =
  rxqueue :: cycle_queue
  temprxbuff :: bytes
  readbuf :: bytes
  readindex :: u8
  readsize :: u8

record uart_ctx =
  opened :: bool
  workmode :: u8

record uart_sys =
  phys :: "uart_phy list"
  ctxs :: "uart_ctx list"
  vatcRx_Q :: cycle_queue
  vatc_read_buffer :: bytes
  vatc_read_buf_size :: u16
  vatc_read_buf_index :: u16
  debugStdoutBuffer :: bytes
  debugStdoutCachedCount :: u16
  consolePort :: nat
  calls :: "uart_call list"

definition uartPhyContext_init :: uart_phy where
  "uartPhyContext_init = \<lparr>rxqueue = q_new UART_RX_BUF_SIZE, temprxbuff = replicate RX_BUFFER_SIZE 0,
     readbuf = replicate READ_BUFFER_SIZE 0, readindex = 0, readsize = 0\<rparr>"

definition uart_sys_init :: "nat \<Rightarrow> uart_sys" where
  "uart_sys_init console = \<lparr>phys = replicate 3 uartPhyContext_init,
     ctxs = replicate NUM_UART \<lparr>opened = False, workmode = 0\<rparr>,
     vatcRx_Q = q_new VATC_RX_BUF_SIZE, vatc_read_buffer = replicate VATC_READ_BUF_SIZE 0,
     vatc_read_buf_size = 0, vatc_read_buf_index = 0,
     debugStdoutBuffer = replicate 128 0, debugStdoutCachedCount = 0,
     consolePort = console, calls = []\<rparr>"

text \<open>\<^verbatim>\<open>uartmap[id].port\<close>: logical ports 0 and 2 share the second OpenAT port.\<close>

definition uartmap :: "nat list" where
  "uartmap = [OPENAT_UART_2, OPENAT_UART_1, OPENAT_UART_2, OPENAT_UART_3]"

definition PHY_PORT :: "nat \<Rightarrow> nat" where
  "PHY_PORT i = uartmap ! i"

definition log_call :: "uart_call \<Rightarrow> uart_sys \<Rightarrow> uart_sys" where
  "log_call c s = s\<lparr>calls := calls s @ [c]\<rparr>"

definition sendUartMessage :: "nat \<Rightarrow> uart_sys \<Rightarrow> uart_sys" where
  "sendUartMessage uart_id s = log_call (Post_rx_message uart_id) s"

subsection \<open>Baud rates\<close>

definition baud2OpenatUartBaud :: "(u32 \<times> openat_baud) list" where
  "baud2OpenatUartBaud =
    [(1200, OPENAT_UART_BAUD_1200), (2400, OPENAT_UART_BAUD_2400), (4800, OPENAT_UART_BAUD_4800),
     (9600, OPENAT_UART_BAUD_9600), (14400, OPENAT_UART_BAUD_14400),
     (19200, OPENAT_UART_BAUD_19200), (28800, OPENAT_UART_BAUD_28800),
     (38400, OPENAT_UART_BAUD_38400), (57600, OPENAT_UART_BAUD_57600),
     (76800, OPENAT_UART_BAUD_76800), (115200, OPENAT_UART_BAUD_115200),
     (230400, OPENAT_UART_BAUD_230400), (460800, OPENAT_UART_BAUD_460800),
     (576000, OPENAT_UART_BAUD_576000), (921600, OPENAT_UART_BAUD_921600),
     (1152000, OPENAT_UART_BAUD_1152000), (4000000, OPENAT_UART_BAUD_4000000)]"

text \<open>The loop goes on after a hit and stops at the first larger entry.\<close>

fun find_baud_loop :: "u32 \<Rightarrow> (u32 \<times> openat_baud) list \<Rightarrow> openat_baud \<Rightarrow> openat_baud" where
  "find_baud_loop baud [] found = found"
| "find_baud_loop baud ((b, ob) # rest) found =
    (if baud = b then find_baud_loop baud rest ob
     else if baud < b then found
     else find_baud_loop baud rest found)"

definition findOpenatUartBaud :: "u32 \<Rightarrow> openat_baud" where
  "findOpenatUartBaud baud = find_baud_loop baud baud2OpenatUartBaud OPENAT_UART_NUM_OF_BAUD_RATES"

subsection \<open>Reception\<close>

text \<open>\<open>upd_phy\<close> replaces the context of one OpenAT port.\<close>

definition upd_phy :: "nat \<Rightarrow> (uart_phy \<Rightarrow> uart_phy) \<Rightarrow> uart_sys \<Rightarrow> uart_sys" where
  "upd_phy p f s = s\<lparr>phys := (phys s)[p := f (phys s ! p)]\<rparr>"

definition upd_ctx :: "nat \<Rightarrow> (uart_ctx \<Rightarrow> uart_ctx) \<Rightarrow> uart_sys \<Rightarrow> uart_sys" where
  "upd_ctx i f s = s\<lparr>ctxs := (ctxs s)[i := f (ctxs s ! i)]\<rparr>"

text \<open>\<open>overlay d b\<close>: the buffer \<open>b\<close> after \<open>d\<close> was written to its start.\<close>

definition overlay :: "bytes \<Rightarrow> bytes \<Rightarrow> bytes" where
  "overlay d b = d @ drop (length d) b"

text \<open>\<open>rd p len timeout\<close> are the bytes that \<^verbatim>\<open>IVTBL(read_uart)\<close> stores; it returns their number,
  which the C code keeps in a \<^verbatim>\<open>uint8\<close>.\<close>

definition uart_message_handle ::
  "(nat \<Rightarrow> nat \<Rightarrow> u32 \<Rightarrow> bytes) \<Rightarrow> nat \<Rightarrow> nat \<Rightarrow> uart_sys \<Rightarrow> uart_sys" where
  "uart_message_handle rd i dataLen s =
    (let phyid = PHY_PORT i;
         got = rd phyid dataLen 0;
         len = (of_nat (length got) :: u8);
         s1 = log_call (Read_uart phyid dataLen 0)
                (upd_phy phyid (\<lambda>c. c\<lparr>temprxbuff := overlay got (temprxbuff c)\<rparr>) s)
     in if len \<noteq> 0
        then (let needMsg = q_empty (rxqueue (phys s1 ! phyid));
                  s2 = upd_phy phyid (\<lambda>c. c\<lparr>rxqueue :=
                         snd (QueueInsert (rxqueue c) (take (unat len) (temprxbuff c)))\<rparr>) s1
              in if needMsg then sendUartMessage i s2 else s2)
        else s1)"

definition host_uart_recv :: "bytes \<Rightarrow> uart_sys \<Rightarrow> uart_sys" where
  "host_uart_recv data s =
    (if data \<noteq> []
     then (let needMsg = q_empty (rxqueue (phys s ! OPENAT_UART_3));
               s1 = upd_phy OPENAT_UART_3 (\<lambda>c. c\<lparr>rxqueue := snd (QueueInsert (rxqueue c) data)\<rparr>) s
           in if needMsg then sendUartMessage 3 s1 else s1)
     else s)"

text \<open>The ring of the virtual AT channel is filled under a semaphore.\<close>

definition RILAPI_ReceiveData :: "bytes \<Rightarrow> uart_sys \<Rightarrow> uart_sys" where
  "RILAPI_ReceiveData data s =
    (let s1 = log_call Wait_semaphore s;
         needMsg = q_empty (vatcRx_Q s1);
         s2 = s1\<lparr>vatcRx_Q := snd (QueueInsert (vatcRx_Q s1) data)\<rparr>;
         s3 = log_call Release_semaphore s2
     in if needMsg then sendUartMessage PLATFORM_UART_ID_ATC s3 else s3)"

definition platform_setup_vat_queue :: "uart_sys \<Rightarrow> uart_sys" where
  "platform_setup_vat_queue s =
    log_call (Create_semaphore 1) (s\<lparr>vatcRx_Q := QueueClean (vatcRx_Q s)\<rparr>)"

subsection \<open>Opening and closing\<close>

text \<open>The two \<open>switch\<close> statements; \<open>None\<close> is the jump to \<^verbatim>\<open>uart_open_error\<close>.\<close>

definition openat_stopbits :: "int \<Rightarrow> u32 option" where
  "openat_stopbits stopbits =
    (if stopbits = PLATFORM_UART_STOPBITS_1 then Some 1
     else if stopbits = PLATFORM_UART_STOPBITS_2 then Some 2
     else None)"

definition openat_parity_of :: "int \<Rightarrow> openat_parity option" where
  "openat_parity_of parity =
    (if parity = PLATFORM_UART_PARITY_EVEN then Some OPENAT_UART_EVEN_PARITY
     else if parity = PLATFORM_UART_PARITY_ODD then Some OPENAT_UART_ODD_PARITY
     else if parity = PLATFORM_UART_PARITY_NONE then Some OPENAT_UART_NO_PARITY
     else None)"

definition uart_open_param :: "nat \<Rightarrow> nat \<Rightarrow> u32 \<Rightarrow> int \<Rightarrow> int \<Rightarrow> int \<Rightarrow> u32 \<Rightarrow> uart_param option" where
  "uart_open_param console i baud databits parity stopbits mode =
    (let b = findOpenatUartBaud baud in
     if b = OPENAT_UART_NUM_OF_BAUD_RATES then None
     else (case openat_stopbits stopbits of None \<Rightarrow> None
     | Some sb \<Rightarrow> (case openat_parity_of parity of None \<Rightarrow> None
     | Some par \<Rightarrow> Some \<lparr>up_baud = b, up_dataBits = of_int databits, up_stopBits = sb,
         up_parity = par,
         up_flowControl = (if PHY_PORT i = OPENAT_UART_3 then OPENAT_UART_FLOWCONTROL_HW
                           else OPENAT_UART_FLOWCONTROL_NONE),
         up_handler = (if console = i then None else if mode = 1 then None else Some i)\<rparr>)))"

text \<open>\<open>config_uart\<close> and \<open>host_init\<close> stand for the results of the OpenAT functions.  The static
  rings have their storage, so the allocation for \<^verbatim>\<open>LOW_MEMORY_SUPPORT\<close> is not taken.\<close>

definition uart_phy_open ::
  "(nat \<Rightarrow> uart_param \<Rightarrow> bool) \<Rightarrow> bool \<Rightarrow> nat \<Rightarrow> u32 \<Rightarrow> int \<Rightarrow> int \<Rightarrow> int \<Rightarrow> u32 \<Rightarrow> uart_sys \<Rightarrow> u32 \<times> uart_sys" where
  "uart_phy_open config_uart host_init i baud databits parity stopbits mode s =
    (if opened (ctxs s ! i) then (baud, s)
     else if PHY_PORT i = OPENAT_UART_3 \<and> mode = 2 then
       (let s1 = log_call Host_init s in
        if host_init
        then (baud, upd_ctx i (\<lambda>c. c\<lparr>opened := True, workmode := ucast mode\<rparr>) s1)
        else (0, s1))
     else (case uart_open_param (consolePort s) i baud databits parity stopbits mode of
         None \<Rightarrow> (0, s)
       | Some par \<Rightarrow>
          (let s1 = log_call (Config_uart (PHY_PORT i) par) s in
           if config_uart (PHY_PORT i) par
           then (baud, upd_ctx i (\<lambda>c. c\<lparr>opened := True, workmode := ucast mode\<rparr>) s1)
           else (0, s1))))"

definition uart_phy_close :: "(nat \<Rightarrow> bool) \<Rightarrow> nat \<Rightarrow> uart_sys \<Rightarrow> int \<times> uart_sys" where
  "uart_phy_close close_uart i s =
    (if \<not> opened (ctxs s ! i) then (PLATFORM_OK, s)
     else if PHY_PORT i = OPENAT_UART_3 \<and> workmode (ctxs s ! i) = 2 then (PLATFORM_OK, s)
     else (let ret = (if close_uart (PHY_PORT i) then PLATFORM_OK else PLATFORM_ERR);
               s1 = log_call (Close_uart (PHY_PORT i)) s;
               s2 = upd_ctx i (\<lambda>c. c\<lparr>opened := False\<rparr>) s1;
               s3 = upd_phy (PHY_PORT i) (\<lambda>c. c\<lparr>rxqueue := QueueClean (rxqueue c),
                      readindex := 0, readsize := 0\<rparr>) s2
           in (ret, s3)))"

subsection \<open>Writing\<close>

text \<open>\<open>i\<close> is the \<^verbatim>\<open>u8\<close> parameter: the callers' \<^verbatim>\<open>unsigned\<close> is truncated on the way.\<close>

definition uart_phy_write ::
  "(nat \<Rightarrow> bytes \<Rightarrow> bool \<Rightarrow> u32) \<Rightarrow> u8 \<Rightarrow> bytes \<Rightarrow> uart_sys \<Rightarrow> u32 \<times> uart_sys" where
  "uart_phy_write write_uart i data s =
    (if NUM_UART \<le> unat i then (0, s)
     else if \<not> opened (ctxs s ! unat i) then (0, s)
     else if PHY_PORT (unat i) = OPENAT_UART_3 \<and> workmode (ctxs s ! unat i) = 2
     then (of_nat (length data), log_call (Host_send_data data) s)
     else (write_uart (PHY_PORT (unat i)) data False,
           log_call (Write_uart (PHY_PORT (unat i)) data False) s))"

definition uart_phy_sync_write ::
  "(nat \<Rightarrow> bytes \<Rightarrow> bool \<Rightarrow> u32) \<Rightarrow> u8 \<Rightarrow> bytes \<Rightarrow> uart_sys \<Rightarrow> u32 \<times> uart_sys" where
  "uart_phy_sync_write write_uart i data s =
    (if NUM_UART \<le> unat i then (0, s)
     else if \<not> opened (ctxs s ! unat i) then (0, s)
     else if PHY_PORT (unat i) = OPENAT_UART_3 \<and> workmode (ctxs s ! unat i) = 2
     then (of_nat (length data), log_call (Host_send_data data) s)
     else (write_uart (PHY_PORT (unat i)) data True,
           log_call (Write_uart (PHY_PORT (unat i)) data True) s))"

subsection \<open>Reading\<close>

text \<open>The prefetch buffer of one OpenAT port: when it is used up, the receive interrupt is masked
  around the transfer of up to \<open>READ_BUFFER_SIZE\<close> bytes from the ring.\<close>

definition uart_refill :: "nat \<Rightarrow> uart_phy \<times> uart_call list \<Rightarrow> uart_phy \<times> uart_call list" where
  "uart_refill p c =
    (let (ctx, tr) = c;
         (got, q) = QueueDelete (rxqueue ctx) READ_BUFFER_SIZE
     in (ctx\<lparr>rxqueue := q, readbuf := overlay got (readbuf ctx),
             readsize := of_nat (length got), readindex := 0\<rparr>,
         tr @ [Uart_enable_rx_int p False, Uart_enable_rx_int p True]))"

fun uart_read_loop ::
  "nat \<Rightarrow> nat \<Rightarrow> uart_phy \<times> uart_call list \<Rightarrow> bytes \<times> uart_phy \<times> uart_call list" where
  "uart_read_loop p 0 c = ([], c)"
| "uart_read_loop p (Suc n) c =
    (let used_up = (readsize (fst c) \<le> readindex (fst c));
         (ctx, tr) = (if used_up then uart_refill p c else c)
     in if used_up \<and> readsize ctx = 0 then ([], (ctx, tr))
        else (let b = readbuf ctx ! unat (readindex ctx);
                  (bs, c2) = uart_read_loop p n (ctx\<lparr>readindex := readindex ctx + 1\<rparr>, tr)
              in (b # bs, c2)))"

definition uart_phy_read ::
  "(nat \<Rightarrow> nat \<Rightarrow> u32 \<Rightarrow> bytes) \<Rightarrow> nat \<Rightarrow> nat \<Rightarrow> u32 \<Rightarrow> uart_sys \<Rightarrow> bytes \<times> uart_sys" where
  "uart_phy_read rd i len timeout s =
    (if \<not> opened (ctxs s ! i) then ([], s)
     else if workmode (ctxs s ! i) = 1
     then (rd (PHY_PORT i) len timeout, log_call (Read_uart (PHY_PORT i) len timeout) s)
     else (let (bs, ctx, tr) = uart_read_loop (PHY_PORT i) len (phys s ! PHY_PORT i, calls s)
           in (bs, s\<lparr>phys := (phys s)[PHY_PORT i := ctx], calls := tr\<rparr>)))"

definition vatc_refill :: "uart_sys \<Rightarrow> uart_sys" where
  "vatc_refill s =
    (let (got, q) = QueueDelete (vatcRx_Q s) VATC_READ_BUF_SIZE
     in s\<lparr>vatcRx_Q := q, vatc_read_buffer := overlay got (vatc_read_buffer s),
          vatc_read_buf_size := of_nat (length got), vatc_read_buf_index := 0,
          calls := calls s @ [Wait_semaphore, Release_semaphore]\<rparr>)"

fun vatc_read :: "nat \<Rightarrow> uart_sys \<Rightarrow> bytes \<times> uart_sys" where
  "vatc_read 0 s = ([], s)"
| "vatc_read (Suc n) s =
    (let used_up = (vatc_read_buf_size s \<le> vatc_read_buf_index s);
         s1 = (if used_up then vatc_refill s else s)
     in if used_up \<and> vatc_read_buf_size s1 = 0 then ([], s1)
        else (let b = vatc_read_buffer s1 ! unat (vatc_read_buf_index s1);
                  (bs, s2) = vatc_read n (s1\<lparr>vatc_read_buf_index := vatc_read_buf_index s1 + 1\<rparr>)
              in (b # bs, s2)))"

subsection \<open>The debug port\<close>

definition debugPortFlush :: "uart_sys \<Rightarrow> uart_sys" where
  "debugPortFlush s =
    (if debugStdoutCachedCount s \<noteq> 0
     then (let s1 = s\<lparr>debugStdoutBuffer := (debugStdoutBuffer s)[unat (debugStdoutCachedCount s) := 0]\<rparr>;
               s2 = log_call (Print (takeWhile (\<lambda>b. b \<noteq> 0) (debugStdoutBuffer s1))) s1
           in s2\<lparr>debugStdoutBuffer := replicate 128 0, debugStdoutCachedCount := 0\<rparr>)
     else s)"

definition debug_put :: "u8 \<Rightarrow> uart_sys \<Rightarrow> uart_sys" where
  "debug_put b s = s\<lparr>debugStdoutBuffer := (debugStdoutBuffer s)[unat (debugStdoutCachedCount s) := b],
     debugStdoutCachedCount := debugStdoutCachedCount s + 1\<rparr>"

definition debug_write_byte :: "u8 \<Rightarrow> uart_sys \<Rightarrow> uart_sys" where
  "debug_write_byte b s =
    (if b = 13 \<or> b = 10 then debugPortFlush s
     else if unat (debugStdoutCachedCount s) < 128 - 1 then debug_put b s
     else debug_put b (debugPortFlush s))"

definition debugPortWrite :: "bytes \<Rightarrow> uart_sys \<Rightarrow> uart_sys" where
  "debugPortWrite buff s = fold debug_write_byte buff s"

subsection \<open>The platform interface\<close>

definition platform_uart_setup ::
  "(nat \<Rightarrow> uart_param \<Rightarrow> bool) \<Rightarrow> bool \<Rightarrow> nat \<Rightarrow> u32 \<Rightarrow> int \<Rightarrow> int \<Rightarrow> int \<Rightarrow> u32 \<Rightarrow> uart_sys \<Rightarrow> u32 \<times> uart_sys" where
  "platform_uart_setup config_uart host_init i baud databits parity stopbits mode s =
    (if i = PLATFORM_UART_ID_ATC then (baud, s)
     else if i = PLATFORM_PORT_ID_DEBUG
     then (baud, s\<lparr>debugStdoutBuffer := replicate 128 0, debugStdoutCachedCount := 0\<rparr>)
     else uart_phy_open config_uart host_init i baud databits parity stopbits mode s)"

definition platform_uart_close :: "(nat \<Rightarrow> bool) \<Rightarrow> nat \<Rightarrow> uart_sys \<Rightarrow> int \<times> uart_sys" where
  "platform_uart_close close_uart i s =
    (if i < NUM_UART then uart_phy_close close_uart i s else (PLATFORM_ERR, s))"

text \<open>Single bytes and buffers take the same three ways; a buffer is at most 65535 bytes long.\<close>

definition platform_s_uart_send ::
  "(nat \<Rightarrow> bytes \<Rightarrow> bool \<Rightarrow> u32) \<Rightarrow> nat \<Rightarrow> u8 \<Rightarrow> uart_sys \<Rightarrow> u32 \<times> uart_sys" where
  "platform_s_uart_send write_uart i data s =
    (if i = PLATFORM_UART_ID_ATC then (1, log_call (Send_at_command [data]) s)
     else if i = PLATFORM_PORT_ID_DEBUG then (1, debugPortWrite [data] s)
     else uart_phy_write write_uart (of_nat i) [data] s)"

definition platform_s_uart_sync_send ::
  "(nat \<Rightarrow> bytes \<Rightarrow> bool \<Rightarrow> u32) \<Rightarrow> nat \<Rightarrow> u8 \<Rightarrow> uart_sys \<Rightarrow> u32 \<times> uart_sys" where
  "platform_s_uart_sync_send write_uart i data s =
    (if i = PLATFORM_UART_ID_ATC then (1, log_call (Send_at_command [data]) s)
     else if i = PLATFORM_PORT_ID_DEBUG then (1, debugPortWrite [data] s)
     else uart_phy_sync_write write_uart (of_nat i) [data] s)"

definition platform_s_uart_send_buff ::
  "(nat \<Rightarrow> bytes \<Rightarrow> bool \<Rightarrow> u32) \<Rightarrow> nat \<Rightarrow> bytes \<Rightarrow> uart_sys \<Rightarrow> u32 \<times> uart_sys" where
  "platform_s_uart_send_buff write_uart i buff s =
    (if i = PLATFORM_UART_ID_ATC then (of_nat (length buff), log_call (Send_at_command buff) s)
     else if i = PLATFORM_PORT_ID_DEBUG then (of_nat (length buff), debugPortWrite buff s)
     else uart_phy_write write_uart (of_nat i) buff s)"

definition platform_s_uart_sync_send_buff ::
  "(nat \<Rightarrow> bytes \<Rightarrow> bool \<Rightarrow> u32) \<Rightarrow> nat \<Rightarrow> bytes \<Rightarrow> uart_sys \<Rightarrow> u32 \<times> uart_sys" where
  "platform_s_uart_sync_send_buff write_uart i buff s =
    (if i = PLATFORM_UART_ID_ATC then (of_nat (length buff), log_call (Send_at_command buff) s)
     else if i = PLATFORM_PORT_ID_DEBUG then (of_nat (length buff), debugPortWrite buff s)
     else uart_phy_sync_write write_uart (of_nat i) buff s)"

text \<open>Reading from the debug port waits on a fresh semaphore that nobody releases: the thread
  stops, which is the result \<open>None\<close>.  Otherwise the byte, or -1.\<close>

definition platform_s_uart_recv ::
  "(nat \<Rightarrow> nat \<Rightarrow> u32 \<Rightarrow> bytes) \<Rightarrow> nat \<Rightarrow> int \<Rightarrow> uart_sys \<Rightarrow> (int \<times> uart_sys) option" where
  "platform_s_uart_recv rd i timeout s =
    (if i = PLATFORM_PORT_ID_DEBUG then None
     else (let (bs, s1) = (if i = PLATFORM_UART_ID_ATC then vatc_read 1 s
                           else uart_phy_read rd (i mod 256) 1 (of_int timeout) s)
           in Some (case bs of [] \<Rightarrow> -1 | b # _ \<Rightarrow> uint b, s1)))"

subsection \<open>The reader of a port\<close>

definition uart_reader_wf :: "uart_phy \<Rightarrow> bool" where
  "uart_reader_wf c \<longleftrightarrow> q_wf (rxqueue c) \<and> length (readbuf c) = READ_BUFFER_SIZE \<and>
     unat (readsize c) \<le> READ_BUFFER_SIZE \<and> readindex c \<le> readsize c"

definition uart_pending :: "uart_phy \<Rightarrow> bytes" where
  "uart_pending c = drop (unat (readindex c)) (take (unat (readsize c)) (readbuf c)) @ q_list (rxqueue c)"

definition uart_next :: "uart_phy \<times> uart_call list \<Rightarrow> u8 \<times> uart_phy \<times> uart_call list" where
  "uart_next c = (readbuf (fst c) ! unat (readindex (fst c)),
     (fst c)\<lparr>readindex := readindex (fst c) + 1\<rparr>, snd c)"

lemma length_overlay: "length d \<le> length b \<Longrightarrow> length (overlay d b) = length b"
  by (simp add: overlay_def)

lemma take_overlay [simp]: "take (length d) (overlay d b) = d"
  by (simp add: overlay_def)

lemma drop_take_nth:
  "i < n \<Longrightarrow> n \<le> length xs \<Longrightarrow> drop i (take n xs) = xs ! i # drop (Suc i) (take n xs)"
  by (simp add: Cons_nth_drop_Suc [symmetric])

lemma uart_refill_lemma:
  assumes "uart_reader_wf (fst c)" "readsize (fst c) \<le> readindex (fst c)"
  shows "uart_reader_wf (fst (uart_refill p c))"
    "uart_pending (fst (uart_refill p c)) = uart_pending (fst c)"
    "readindex (fst (uart_refill p c)) = 0"
    "readsize (fst (uart_refill p c)) = 0 \<Longrightarrow> uart_pending (fst c) = []"
proof -
  obtain ctx tr where c: "c = (ctx, tr)" by (cases c)
  have wf: "q_wf (rxqueue ctx)" "length (readbuf ctx) = 126"
    and none: "uart_pending ctx = q_list (rxqueue ctx)"
    using assms by (auto simp: c uart_reader_wf_def uart_pending_def word_le_nat_alt)
  note del = QueueDelete_eq [OF wf(1), of 126]
  let ?got = "take 126 (q_list (rxqueue ctx))"
  have eq: "uart_refill p c = (ctx\<lparr>rxqueue := snd (QueueDelete (rxqueue ctx) 126),
      readbuf := overlay ?got (readbuf ctx), readsize := of_nat (length ?got), readindex := 0\<rparr>,
      tr @ [Uart_enable_rx_int p False, Uart_enable_rx_int p True])"
    using del(1) by (simp add: uart_refill_def c case_prod_beta)
  have u: "unat (of_nat (length ?got) :: u8) = length ?got"
    by (rule unat_of_nat_small) simp
  show "uart_reader_wf (fst (uart_refill p c))"
    using wf u del(2) unfolding eq uart_reader_wf_def by (simp add: length_overlay)
  show "uart_pending (fst (uart_refill p c)) = uart_pending (fst c)"
    using u del(3) none unfolding eq by (simp add: c uart_pending_def del: length_take)
  show "readindex (fst (uart_refill p c)) = 0"
    by (simp add: eq)
  assume "readsize (fst (uart_refill p c)) = 0"
  then have "?got = []" using u unfolding eq by (simp del: length_take take_eq_Nil)
  then have "q_list (rxqueue ctx) = []" by simp
  then show "uart_pending (fst c) = []" using none by (simp add: c)
qed

lemma uart_next_lemma:
  assumes "uart_reader_wf (fst c)" "readindex (fst c) < readsize (fst c)"
  shows "uart_reader_wf (fst (snd (uart_next c)))"
    "uart_pending (fst c) = fst (uart_next c) # uart_pending (fst (snd (uart_next c)))"
  using assms unat_add_one_less [OF assms(2)]
  by (auto simp: uart_reader_wf_def uart_next_def uart_pending_def word_less_nat_alt drop_take_nth)

interpretation ur: buffered_reader "\<lambda>c. uart_reader_wf (fst c)" "\<lambda>c. uart_pending (fst c)"
  "\<lambda>c. readindex (fst c) < readsize (fst c)" "uart_refill p" uart_next "uart_read_loop p" for p
proof unfold_locales
  fix n c
  show "uart_read_loop p (Suc n) c =
    (let c1 = (if readindex (fst c) < readsize (fst c) then c else uart_refill p c)
     in if readindex (fst c1) < readsize (fst c1)
        then (let (b, c2) = uart_next c1; (bs, c3) = uart_read_loop p n c2 in (b # bs, c3))
        else ([], c1))"
  proof (cases "readindex (fst c) < readsize (fst c)")
    case True
    then show ?thesis
      by (simp add: uart_next_def case_prod_beta Let_def linorder_not_le [symmetric])
  next
    case False
    then have used_up: "readsize (fst c) \<le> readindex (fst c)" by simp
    have "readindex (fst (uart_refill p c)) = 0"
      by (simp add: uart_refill_def case_prod_beta)
    with False used_up show ?thesis
      by (cases "readsize (fst (uart_refill p c)) = 0")
        (simp_all add: uart_next_def case_prod_beta word_greater_zero_iff Let_def)
  qed
qed (use uart_refill_lemma uart_next_lemma in \<open>auto simp: linorder_not_less\<close>)

subsection \<open>The reader of the virtual AT channel\<close>

definition vatc_wf :: "uart_sys \<Rightarrow> bool" where
  "vatc_wf s \<longleftrightarrow> q_wf (vatcRx_Q s) \<and> length (vatc_read_buffer s) = VATC_READ_BUF_SIZE \<and>
     unat (vatc_read_buf_size s) \<le> VATC_READ_BUF_SIZE \<and> vatc_read_buf_index s \<le> vatc_read_buf_size s"

definition vatc_pending :: "uart_sys \<Rightarrow> bytes" where
  "vatc_pending s = drop (unat (vatc_read_buf_index s))
     (take (unat (vatc_read_buf_size s)) (vatc_read_buffer s)) @ q_list (vatcRx_Q s)"

definition vatc_next :: "uart_sys \<Rightarrow> u8 \<times> uart_sys" where
  "vatc_next s = (vatc_read_buffer s ! unat (vatc_read_buf_index s),
     s\<lparr>vatc_read_buf_index := vatc_read_buf_index s + 1\<rparr>)"

lemma vatc_refill_lemma:
  assumes "vatc_wf s" "vatc_read_buf_size s \<le> vatc_read_buf_index s"
  shows "vatc_wf (vatc_refill s)" "vatc_pending (vatc_refill s) = vatc_pending s"
    "vatc_read_buf_size (vatc_refill s) = 0 \<Longrightarrow> vatc_pending s = []"
proof -
  have wf: "q_wf (vatcRx_Q s)" "length (vatc_read_buffer s) = 512"
    and none: "vatc_pending s = q_list (vatcRx_Q s)"
    using assms by (auto simp: vatc_wf_def vatc_pending_def word_le_nat_alt)
  note del = QueueDelete_eq [OF wf(1), of 512]
  let ?got = "take 512 (q_list (vatcRx_Q s))"
  have eq: "vatc_refill s = s\<lparr>vatcRx_Q := snd (QueueDelete (vatcRx_Q s) 512),
      vatc_read_buffer := overlay ?got (vatc_read_buffer s),
      vatc_read_buf_size := of_nat (length ?got), vatc_read_buf_index := 0,
      calls := calls s @ [Wait_semaphore, Release_semaphore]\<rparr>"
    using del(1) by (simp add: vatc_refill_def case_prod_beta)
  have u: "unat (of_nat (length ?got) :: u16) = length ?got"
    by (rule unat_of_nat_small) simp
  show "vatc_wf (vatc_refill s)"
    using wf u del(2) unfolding eq vatc_wf_def by (simp add: length_overlay)
  show "vatc_pending (vatc_refill s) = vatc_pending s"
    using u del(3) none unfolding eq by (simp add: vatc_pending_def del: length_take)
  assume "vatc_read_buf_size (vatc_refill s) = 0"
  then have "?got = []" using u unfolding eq by (simp del: length_take take_eq_Nil)
  then show "vatc_pending s = []" using none by simp
qed

lemma vatc_next_lemma:
  assumes "vatc_wf s" "vatc_read_buf_index s < vatc_read_buf_size s"
  shows "vatc_wf (snd (vatc_next s))" "vatc_pending s = fst (vatc_next s) # vatc_pending (snd (vatc_next s))"
  using assms unat_add_one_less [OF assms(2)]
  by (auto simp: vatc_wf_def vatc_next_def vatc_pending_def word_less_nat_alt drop_take_nth)

interpretation vr: buffered_reader vatc_wf vatc_pending
  "\<lambda>s. vatc_read_buf_index s < vatc_read_buf_size s" vatc_refill vatc_next vatc_read
proof unfold_locales
  fix n s
  show "vatc_read (Suc n) s =
    (let s1 = (if vatc_read_buf_index s < vatc_read_buf_size s then s else vatc_refill s)
     in if vatc_read_buf_index s1 < vatc_read_buf_size s1
        then (let (b, s2) = vatc_next s1; (bs, s3) = vatc_read n s2 in (b # bs, s3))
        else ([], s1))"
  proof (cases "vatc_read_buf_index s < vatc_read_buf_size s")
    case True
    then show ?thesis
      by (simp add: vatc_next_def case_prod_beta Let_def linorder_not_le [symmetric])
  next
    case False
    then have used_up: "vatc_read_buf_size s \<le> vatc_read_buf_index s" by simp
    have "vatc_read_buf_index (vatc_refill s) = 0"
      by (simp add: vatc_refill_def case_prod_beta)
    with False used_up show ?thesis
      by (cases "vatc_read_buf_size (vatc_refill s) = 0")
        (simp_all add: vatc_next_def case_prod_beta word_greater_zero_iff Let_def)
  qed
next
  fix s assume "vatc_wf s" "\<not> vatc_read_buf_index s < vatc_read_buf_size s"
    "\<not> vatc_read_buf_index (vatc_refill s) < vatc_read_buf_size (vatc_refill s)"
  moreover have "vatc_read_buf_index (vatc_refill s) = 0"
    by (simp add: vatc_refill_def case_prod_beta)
  ultimately show "vatc_pending s = []"
    by (intro vatc_refill_lemma(3)) (auto simp: word_greater_zero_iff)
qed (use vatc_refill_lemma vatc_next_lemma in \<open>auto simp: linorder_not_less\<close>)

subsection \<open>Reception and reading as one stream\<close>

lemma length_overlay_max [simp]: "length (overlay d b) = max (length d) (length b)"
  by (simp add: overlay_def)

definition uart_wf :: "uart_sys \<Rightarrow> bool" where
  "uart_wf s \<longleftrightarrow> length (phys s) = 3 \<and> length (ctxs s) = NUM_UART \<and>
     (\<forall>c \<in> set (phys s). uart_reader_wf c) \<and> vatc_wf s \<and>
     length (debugStdoutBuffer s) = 128 \<and> unat (debugStdoutCachedCount s) \<le> 127"

text \<open>Port \<open>i\<close> is open and reports its data by messages.\<close>

definition uart_msg_mode :: "nat \<Rightarrow> uart_sys \<Rightarrow> bool" where
  "uart_msg_mode i s \<longleftrightarrow> uart_wf s \<and> i < NUM_UART \<and> opened (ctxs s ! i) \<and> workmode (ctxs s ! i) \<noteq> 1"

definition port_pending :: "nat \<Rightarrow> uart_sys \<Rightarrow> bytes" where
  "port_pending i s = uart_pending (phys s ! PHY_PORT i)"

definition port_room :: "nat \<Rightarrow> uart_sys \<Rightarrow> nat" where
  "port_room i s = (let q = rxqueue (phys s ! PHY_PORT i) in min 255 (unat (q_size q) - length (q_list q)))"

text \<open>The interrupt handler of port \<open>i\<close> when the hardware has the bytes \<open>d\<close>, and a read of up
  to \<open>n\<close> bytes.\<close>

definition port_rx :: "nat \<Rightarrow> uart_sys \<Rightarrow> bytes \<Rightarrow> uart_sys" where
  "port_rx i s d = uart_message_handle (\<lambda>_ _ _. d) i (length d) s"

definition port_read :: "nat \<Rightarrow> uart_sys \<Rightarrow> nat \<Rightarrow> bytes \<times> uart_sys" where
  "port_read i s n = uart_phy_read (\<lambda>_ _ _. []) i n 0 s"

lemma PHY_PORT_less: "i < NUM_UART \<Longrightarrow> PHY_PORT i < 3"
  by (auto simp: PHY_PORT_def uartmap_def nth_Cons split: nat.splits)

lemma uart_message_handle_eq:
  assumes "PHY_PORT i < length (phys s)" "rd (PHY_PORT i) n 0 = got"
  shows "uart_message_handle rd i n s =
    (let p = PHY_PORT i; k = length got mod 256; c = phys s ! p;
         c1 = c\<lparr>temprxbuff := overlay got (temprxbuff c)\<rparr>;
         c2 = (if k = 0 then c1 else c1\<lparr>rxqueue := snd (QueueInsert (rxqueue c) (take k got))\<rparr>)
     in s\<lparr>phys := (phys s)[p := c2],
          calls := calls s @ Read_uart p n 0 #
            (if k \<noteq> 0 \<and> q_empty (rxqueue c) then [Post_rx_message i] else [])\<rparr>)"
proof -
  have u: "unat (of_nat (length got) :: u8) = length got mod 256"
    by (simp add: unat_of_nat)
  then have z: "(of_nat (length got) :: u8) = 0 \<longleftrightarrow> length got mod 256 = 0"
    by (metis unat_0 unat_eq_zero)
  have t: "take (length got mod 256) (overlay got b) = take (length got mod 256) got" for b
    by (simp add: overlay_def)
  show ?thesis
    using assms u z t by (simp add: uart_message_handle_def Let_def upd_phy_def log_call_def sendUartMessage_def)
qed

lemma uart_wf_upd:
  "uart_wf s \<Longrightarrow> uart_reader_wf c \<Longrightarrow> uart_wf (s\<lparr>phys := (phys s)[p := c], calls := tr\<rparr>)"
  by (auto simp: uart_wf_def vatc_wf_def dest: set_update_subset_insert [THEN subsetD])

lemma uart_wf_phy: "uart_wf s \<Longrightarrow> i < NUM_UART \<Longrightarrow> uart_reader_wf (phys s ! PHY_PORT i)"
  using PHY_PORT_less [of i] by (simp add: uart_wf_def)

lemma uart_reader_wf_insert:
  "uart_reader_wf c \<Longrightarrow> uart_reader_wf (c\<lparr>temprxbuff := t, rxqueue := snd (QueueInsert (rxqueue c) d)\<rparr>)"
  "uart_reader_wf c \<Longrightarrow> uart_reader_wf (c\<lparr>temprxbuff := t\<rparr>)"
  "uart_reader_wf c \<Longrightarrow> uart_reader_wf (c\<lparr>rxqueue := snd (QueueInsert (rxqueue c) d)\<rparr>)"
  by (simp_all add: uart_reader_wf_def QueueInsert_wf)

lemma uart_pending_insert:
  assumes "uart_reader_wf c"
  shows "subseq (uart_pending (c\<lparr>temprxbuff := t, rxqueue := snd (QueueInsert (rxqueue c) d)\<rparr>)) (uart_pending c @ d)"
    "length d \<le> unat (q_size (rxqueue c)) - length (q_list (rxqueue c)) \<Longrightarrow>
      uart_pending (c\<lparr>temprxbuff := t, rxqueue := snd (QueueInsert (rxqueue c) d)\<rparr>) = uart_pending c @ d"
proof -
  have wf: "q_wf (rxqueue c)" using assms by (simp add: uart_reader_wf_def)
  show "subseq (uart_pending (c\<lparr>temprxbuff := t, rxqueue := snd (QueueInsert (rxqueue c) d)\<rparr>)) (uart_pending c @ d)"
    by (simp add: uart_pending_def QueueInsert_list [OF wf] subseq_lastn subseq_same_prefix)
  assume "length d \<le> unat (q_size (rxqueue c)) - length (q_list (rxqueue c))"
  then show "uart_pending (c\<lparr>temprxbuff := t, rxqueue := snd (QueueInsert (rxqueue c) d)\<rparr>) = uart_pending c @ d"
    using q_count_le [OF wf] by (simp add: uart_pending_def QueueInsert_list [OF wf])
qed

lemma uart_message_handle_wf:
  assumes "uart_wf s" "i < NUM_UART"
  shows "uart_wf (uart_message_handle rd i n s)"
proof -
  have "PHY_PORT i < length (phys s)" using assms PHY_PORT_less by (simp add: uart_wf_def)
  then show ?thesis
    using uart_wf_phy [OF assms]
    by (simp add: uart_message_handle_eq Let_def uart_wf_upd [OF assms(1)] uart_reader_wf_insert)
qed

lemma ctxs_uart_message_handle [simp]: "ctxs (uart_message_handle rd i n s) = ctxs s"
  by (simp add: uart_message_handle_def Let_def upd_phy_def log_call_def sendUartMessage_def)

lemma uart_phy_read_eq:
  assumes "uart_msg_mode i s"
  shows "fst (uart_phy_read rd i n t s) = take n (port_pending i s)"
    "uart_msg_mode i (snd (uart_phy_read rd i n t s))"
    "port_pending i (snd (uart_phy_read rd i n t s)) = drop n (port_pending i s)"
proof -
  let ?p = "PHY_PORT i"
  have i: "i < 4" and wf: "uart_wf s" and mode: "opened (ctxs s ! i)" "workmode (ctxs s ! i) \<noteq> 1"
    using assms by (simp_all add: uart_msg_mode_def)
  have p: "?p < length (phys s)" using wf PHY_PORT_less [OF i] by (simp add: uart_wf_def)
  obtain bs ctx tr where loop: "uart_read_loop ?p n (phys s ! ?p, calls s) = (bs, ctx, tr)"
    by (metis prod.collapse)
  have rd: "uart_phy_read rd i n t s = (bs, s\<lparr>phys := (phys s)[?p := ctx], calls := tr\<rparr>)"
    using mode loop by (simp add: uart_phy_read_def)
  have L: "uart_reader_wf ctx" "bs = take n (port_pending i s)" "uart_pending ctx = drop n (port_pending i s)"
    using ur.loop_correct [of "(phys s ! ?p, calls s)" ?p n] uart_wf_phy [OF wf i]
    by (simp_all add: loop port_pending_def)
  show "fst (uart_phy_read rd i n t s) = take n (port_pending i s)"
    using L by (simp add: rd)
  show "uart_msg_mode i (snd (uart_phy_read rd i n t s))"
    using L assms by (simp add: rd uart_msg_mode_def uart_wf_upd)
  show "port_pending i (snd (uart_phy_read rd i n t s)) = drop n (port_pending i s)"
    using L p by (simp add: rd) (simp add: port_pending_def)
qed

lemma port_rx_pending:
  assumes "uart_msg_mode i s"
  shows "subseq (port_pending i (port_rx i s d)) (port_pending i s @ d)"
    "length d \<le> port_room i s \<Longrightarrow> port_pending i (port_rx i s d) = port_pending i s @ d"
proof -
  let ?p = "PHY_PORT i" and ?k = "length d mod 256"
  have i: "i < 4" and wf: "uart_wf s" using assms by (simp_all add: uart_msg_mode_def)
  have p: "?p < length (phys s)" using wf PHY_PORT_less [OF i] by (simp add: uart_wf_def)
  note phy = uart_wf_phy [OF wf i]
  have pend: "port_pending i (port_rx i s d) =
    (if ?k = 0 then port_pending i s
     else uart_pending ((phys s ! ?p)\<lparr>temprxbuff := overlay d (temprxbuff (phys s ! ?p)),
       rxqueue := snd (QueueInsert (rxqueue (phys s ! ?p)) (take ?k d))\<rparr>))"
    using p by (simp add: port_rx_def uart_message_handle_eq port_pending_def Let_def uart_pending_def)
  have "subseq (port_pending i s @ take ?k d) (port_pending i s @ d)"
    by (simp add: subseq_same_prefix)
  from subseq_order.order_trans [OF uart_pending_insert(1) [OF phy] this [unfolded port_pending_def]]
  show "subseq (port_pending i (port_rx i s d)) (port_pending i s @ d)"
    unfolding pend by (simp add: port_pending_def)
  assume "length d \<le> port_room i s"
  then have le: "length d \<le> unat (q_size (rxqueue (phys s ! ?p))) - length (q_list (rxqueue (phys s ! ?p)))"
    and k: "?k = length d"
    by (simp_all add: port_room_def Let_def)
  show "port_pending i (port_rx i s d) = port_pending i s @ d"
    using uart_pending_insert(2) [OF phy le] k
    unfolding pend k by (simp add: port_pending_def)
qed

interpretation us: byte_stream "uart_msg_mode i" "port_pending i" "port_room i" "port_rx i" "port_read i" for i
proof unfold_locales
  fix s d
  assume "uart_msg_mode i s"
  then show "uart_msg_mode i (port_rx i s d)"
    by (simp add: uart_msg_mode_def port_rx_def uart_message_handle_wf)
qed (simp_all add: port_read_def uart_phy_read_eq port_rx_pending)

definition vatc_room :: "uart_sys \<Rightarrow> nat" where
  "vatc_room s = unat (q_size (vatcRx_Q s)) - length (q_list (vatcRx_Q s))"

definition vatc_rx :: "uart_sys \<Rightarrow> bytes \<Rightarrow> uart_sys" where
  "vatc_rx s d = RILAPI_ReceiveData d s"

definition vatc_get :: "uart_sys \<Rightarrow> nat \<Rightarrow> bytes \<times> uart_sys" where
  "vatc_get s n = vatc_read n s"

lemma RILAPI_ReceiveData_eq:
  "RILAPI_ReceiveData d s = s\<lparr>vatcRx_Q := snd (QueueInsert (vatcRx_Q s) d),
     calls := calls s @ [Wait_semaphore, Release_semaphore] @
       (if q_empty (vatcRx_Q s) then [Post_rx_message PLATFORM_UART_ID_ATC] else [])\<rparr>"
  by (simp add: RILAPI_ReceiveData_def Let_def log_call_def sendUartMessage_def)

interpretation vs: byte_stream vatc_wf vatc_pending vatc_room vatc_rx vatc_get
proof unfold_locales
  fix s d
  assume wf: "vatc_wf s"
  then have q: "q_wf (vatcRx_Q s)" by (simp add: vatc_wf_def)
  have pend: "vatc_pending (vatc_rx s d) = drop (unat (vatc_read_buf_index s))
      (take (unat (vatc_read_buf_size s)) (vatc_read_buffer s)) @
      lastn (unat (q_size (vatcRx_Q s))) (q_list (vatcRx_Q s) @ d)"
    by (simp add: vatc_rx_def RILAPI_ReceiveData_eq vatc_pending_def QueueInsert_list [OF q])
  show "vatc_wf (vatc_rx s d)"
    using wf q by (simp add: vatc_wf_def vatc_rx_def RILAPI_ReceiveData_eq QueueInsert_wf)
  show "subseq (vatc_pending (vatc_rx s d)) (vatc_pending s @ d)"
    unfolding pend by (simp add: vatc_pending_def subseq_lastn subseq_same_prefix)
  show "vatc_pending (vatc_rx s d) = vatc_pending s @ d" if "length d \<le> vatc_room s"
    using that q_count_le [OF q] unfolding pend by (simp add: vatc_pending_def vatc_room_def)
qed (simp_all add: vatc_get_def vr.loop_correct)

subsection \<open>The baud table\<close>

lemma find_baud_loop_sorted:
  "sorted_wrt (<) (map fst t) \<Longrightarrow>
    find_baud_loop b t f = (case map_of t b of Some ob \<Rightarrow> ob | None \<Rightarrow> f)"
proof (induction b t f rule: find_baud_loop.induct)
  case (2 baud b ob rest f)
  have later: "map_of rest baud = None" if "baud \<le> b"
    using "2.prems" that by (fastforce simp: map_of_eq_None_iff)
  show ?case
    using 2 later by (auto simp: less_imp_le split: option.splits)
qed simp

subsection \<open>The debug port\<close>

definition prints :: "uart_call list \<Rightarrow> bytes list" where
  "prints tr = concat (map (\<lambda>c. case c of Print t \<Rightarrow> [t] | _ \<Rightarrow> []) tr)"

definition debug_text :: "uart_sys \<Rightarrow> bytes" where
  "debug_text s = take (unat (debugStdoutCachedCount s)) (debugStdoutBuffer s)"

text \<open>What the debug port is meant to do: lines, cut into pieces of at most 127 bytes.\<close>

fun debug_chunks :: "bytes \<Rightarrow> bytes \<Rightarrow> bytes list \<times> bytes" where
  "debug_chunks cur [] = ([], cur)"
| "debug_chunks cur (b # bs) =
    (if b = 13 \<or> b = 10
     then (if cur = [] then debug_chunks [] bs
           else (cur # fst (debug_chunks [] bs), snd (debug_chunks [] bs)))
     else if length cur < 127 then debug_chunks (cur @ [b]) bs
     else (cur # fst (debug_chunks [b] bs), snd (debug_chunks [b] bs)))"

definition debug_wf :: "uart_sys \<Rightarrow> bool" where
  "debug_wf s \<longleftrightarrow> length (debugStdoutBuffer s) = 128 \<and> unat (debugStdoutCachedCount s) \<le> 127 \<and>
     0 \<notin> set (debug_text s)"

lemma prints_append [simp]: "prints (a @ b) = prints a @ prints b"
  by (simp add: prints_def)

lemma length_debug_text: "debug_wf s \<Longrightarrow> length (debug_text s) = unat (debugStdoutCachedCount s)"
  by (simp add: debug_wf_def debug_text_def)

lemma debugPortFlush_debug:
  assumes "debug_wf s"
  shows "debug_wf (debugPortFlush s)" "debug_text (debugPortFlush s) = []"
    "prints (calls (debugPortFlush s)) = prints (calls s) @ (if debug_text s = [] then [] else [debug_text s])"
    "debugStdoutCachedCount (debugPortFlush s) = 0"
proof -
  have wf: "length (debugStdoutBuffer s) = 128" "unat (debugStdoutCachedCount s) \<le> 127"
    "0 \<notin> set (debug_text s)"
    using assms by (simp_all add: debug_wf_def)
  have empty: "debug_text s = [] \<longleftrightarrow> debugStdoutCachedCount s = 0"
    using wf by (auto simp: debug_text_def unat_eq_zero)
  let ?n = "unat (debugStdoutCachedCount s)"
  have "(debugStdoutBuffer s)[?n := 0] = debug_text s @ 0 # drop (Suc ?n) (debugStdoutBuffer s)"
    using wf by (simp add: debug_text_def upd_conv_take_nth_drop)
  then have tw: "takeWhile (\<lambda>b. b \<noteq> 0) ((debugStdoutBuffer s)[?n := 0]) = debug_text s"
    using wf(3) by (simp add: takeWhile_append)
  show "debug_wf (debugPortFlush s)" "debug_text (debugPortFlush s) = []"
    "debugStdoutCachedCount (debugPortFlush s) = 0"
    using assms by (simp_all add: debugPortFlush_def Let_def debug_wf_def debug_text_def log_call_def)
  show "prints (calls (debugPortFlush s)) = prints (calls s) @ (if debug_text s = [] then [] else [debug_text s])"
    using tw empty by (simp add: debugPortFlush_def Let_def log_call_def prints_def)
qed

lemma debug_put_debug:
  assumes "debug_wf s" "unat (debugStdoutCachedCount s) < 127" "b \<noteq> 0"
  shows "debug_wf (debug_put b s)" "debug_text (debug_put b s) = debug_text s @ [b]"
    "calls (debug_put b s) = calls s"
proof -
  have n: "unat (debugStdoutCachedCount s + 1) = Suc (unat (debugStdoutCachedCount s))"
    using assms(2) by (intro unat_add_one_less(1) [of _ 127]) (simp add: word_less_nat_alt)
  show tx: "debug_text (debug_put b s) = debug_text s @ [b]"
    using assms by (simp add: debug_text_def debug_put_def n take_Suc_conv_app_nth debug_wf_def)
  show "calls (debug_put b s) = calls s" by (simp add: debug_put_def)
  show "debug_wf (debug_put b s)"
    using assms tx n by (simp add: debug_wf_def) (simp add: debug_put_def)
qed

lemma debugPortWrite_chunks:
  assumes "debug_wf s" "0 \<notin> set buff"
  shows "debug_wf (debugPortWrite buff s) \<and>
    prints (calls (debugPortWrite buff s)) = prints (calls s) @ fst (debug_chunks (debug_text s) buff) \<and>
    debug_text (debugPortWrite buff s) = snd (debug_chunks (debug_text s) buff)"
  using assms
proof (induction buff arbitrary: s)
  case Nil
  then show ?case by (simp add: debugPortWrite_def)
next
  case (Cons b bs)
  let ?s1 = "debug_write_byte b s"
  note flush = debugPortFlush_debug [OF Cons.prems(1)]
  have b: "b \<noteq> 0" and bs: "0 \<notin> set bs" using Cons.prems(2) by auto
  have len: "length (debug_text s) = unat (debugStdoutCachedCount s)"
    using Cons.prems(1) by (rule length_debug_text)
  have full: "\<not> unat (debugStdoutCachedCount s) < 127 \<Longrightarrow> debug_text s \<noteq> []"
    using len by auto
  consider "b = 13 \<or> b = 10" | "\<not> (b = 13 \<or> b = 10)" "unat (debugStdoutCachedCount s) < 127"
    | "\<not> (b = 13 \<or> b = 10)" "\<not> unat (debugStdoutCachedCount s) < 127" by blast
  then have step: "debug_wf ?s1 \<and> prints (calls ?s1) @ fst (debug_chunks (debug_text ?s1) bs)
      = prints (calls s) @ fst (debug_chunks (debug_text s) (b # bs)) \<and>
    snd (debug_chunks (debug_text ?s1) bs) = snd (debug_chunks (debug_text s) (b # bs))"
  proof cases
    case 1
    then show ?thesis using flush by (simp add: debug_write_byte_def)
  next
    case 2
    then show ?thesis using debug_put_debug [OF Cons.prems(1) 2(2) b] len by (simp add: debug_write_byte_def)
  next
    case 3
    have "unat (debugStdoutCachedCount (debugPortFlush s)) < 127" using flush(4) by simp
    from debug_put_debug [OF flush(1) this b] flush show ?thesis
      using 3 len full by (simp add: debug_write_byte_def)
  qed
  have "debugPortWrite (b # bs) s = debugPortWrite bs ?s1" by (simp add: debugPortWrite_def)
  with Cons.IH [of ?s1] bs step show ?case by simp
qed

lemma debug_chunks_props:
  "length cur \<le> 127 \<Longrightarrow>
    concat (fst (debug_chunks cur bs)) @ snd (debug_chunks cur bs)
      = cur @ filter (\<lambda>b. b \<noteq> 13 \<and> b \<noteq> 10) bs \<and>
    (\<forall>c \<in> set (fst (debug_chunks cur bs)). c \<noteq> [] \<and> length c \<le> 127) \<and>
    length (snd (debug_chunks cur bs)) \<le> 127"
proof (induction bs arbitrary: cur)
  case (Cons b bs)
  consider "b = 13 \<or> b = 10" | "\<not> (b = 13 \<or> b = 10)" "length cur < 127"
    | "\<not> (b = 13 \<or> b = 10)" "length cur = 127" using Cons.prems by linarith
  then show ?case
  proof cases
    case 1
    then have "filter (\<lambda>b. b \<noteq> 13 \<and> b \<noteq> 10) (b # bs) = filter (\<lambda>b. b \<noteq> 13 \<and> b \<noteq> 10) bs" by auto
    then show ?thesis using Cons.IH [of "[]"] Cons.prems 1 by (cases "cur = []") simp_all
  next
    case 2
    then show ?thesis using Cons.IH [of "cur @ [b]"] by simp
  next
    case 3
    then have "cur \<noteq> []" by auto
    then show ?thesis using Cons.IH [of "[b]"] 3 by simp
  qed
qed simp

subsection \<open>Opening\<close>

lemma uart_wf_init: "uart_wf (uart_sys_init c)"
  by (simp add: uart_wf_def uart_sys_init_def uartPhyContext_init_def uart_reader_wf_def vatc_wf_def q_wf_new)

lemma debug_wf_init: "debug_wf (uart_sys_init c)" "debug_text (uart_sys_init c) = []"
  by (simp_all add: debug_wf_def debug_text_def uart_sys_init_def)

lemma uart_wf_log [simp]: "uart_wf (log_call c s) = uart_wf s"
  by (simp add: uart_wf_def vatc_wf_def log_call_def)

lemma uart_wf_upd_ctx [simp]: "uart_wf (upd_ctx i f s) = uart_wf s"
  by (simp add: uart_wf_def vatc_wf_def upd_ctx_def)

lemma uart_phy_open_wf:
  "uart_wf s \<Longrightarrow> uart_wf (snd (uart_phy_open cfg hi i baud db par sb mode s))"
  by (simp add: uart_phy_open_def Let_def split: option.splits)

text \<open>A port of the initial state, opened to report its data by messages.\<close>

definition demo_port :: "uart_sys" where
  "demo_port = snd (uart_phy_open (\<lambda>_ _. True) True 1 115200 8 PLATFORM_UART_PARITY_NONE
     PLATFORM_UART_STOPBITS_1 0 (uart_sys_init 255))"

lemma demo_open_param: "uart_open_param 255 1 115200 8 2 0 0 = Some \<lparr>up_baud = OPENAT_UART_BAUD_115200,
  up_dataBits = 8, up_stopBits = 1, up_parity = OPENAT_UART_NO_PARITY,
  up_flowControl = OPENAT_UART_FLOWCONTROL_NONE, up_handler = Some 1\<rparr>"
  by (simp add: uart_open_param_def findOpenatUartBaud_def baud2OpenatUartBaud_def
      openat_stopbits_def openat_parity_of_def PHY_PORT_def uartmap_def Let_def)

lemma demo_port_mode: "uart_msg_mode 1 demo_port" "port_pending 1 demo_port = []"
proof -
  have ctx: "ctxs demo_port ! 1 = \<lparr>opened = True, workmode = 0\<rparr>"
    using demo_open_param
    by (simp add: demo_port_def uart_phy_open_def uart_sys_init_def PHY_PORT_def uartmap_def Let_def
        upd_ctx_def log_call_def)
  moreover have "uart_wf demo_port"
    unfolding demo_port_def by (rule uart_phy_open_wf) (rule uart_wf_init)
  ultimately show "uart_msg_mode 1 demo_port" by (simp add: uart_msg_mode_def)
  show "port_pending 1 demo_port = []"
    using demo_open_param
    by (simp add: demo_port_def uart_phy_open_def uart_sys_init_def PHY_PORT_def uartmap_def Let_def
        upd_ctx_def log_call_def port_pending_def uart_pending_def uartPhyContext_init_def)
qed

lemma uart_open_param_SomeD:
  "uart_open_param con i baud db par sb mode = Some p \<Longrightarrow>
    up_baud p = findOpenatUartBaud baud \<and> up_baud p \<noteq> OPENAT_UART_NUM_OF_BAUD_RATES \<and>
    up_handler p = (if con = i \<or> mode = 1 then None else Some i)"
  by (auto simp: uart_open_param_def Let_def split: if_splits option.splits)

subsection \<open>Properties\<close>

text \<open>C1: On a port opened in message mode, any interleaving of receive interrupts and reads keeps
  the state well formed; the bytes Lua reads, followed by those waiting in the prefetch buffer
  and the ring, are a subsequence of the bytes received, and are all of them when each
  interrupt delivers at most 255 bytes and finds room for them in the ring.\<close>

theorem uart_stream_fifo:
  assumes "uart_msg_mode i s"
  shows "uart_msg_mode i (snd (fifo_run (port_rx i) (port_read i) ops s)) \<and>
    subseq (fst (fifo_run (port_rx i) (port_read i) ops s) @ port_pending i (snd (fifo_run (port_rx i) (port_read i) ops s)))
      (port_pending i s @ fifo_input ops) \<and>
    (stream_fits (port_rx i) (port_read i) (port_room i) ops s \<longrightarrow>
      fst (fifo_run (port_rx i) (port_read i) ops s) @ port_pending i (snd (fifo_run (port_rx i) (port_read i) ops s))
        = port_pending i s @ fifo_input ops)"
  using us.run_inv [OF assms] us.run_subseq [OF assms] us.run_lossless [OF assms] by simp

text \<open>The virtual AT channel delivers the bytes of \<open>RILAPI_ReceiveData\<close> in order, for any
  interleaving with reads, all of them when they fit the 8192-byte ring.\<close>

theorem vatc_stream_fifo:
  assumes "vatc_wf s"
  shows "vatc_wf (snd (fifo_run vatc_rx vatc_get ops s)) \<and>
    subseq (fst (fifo_run vatc_rx vatc_get ops s) @ vatc_pending (snd (fifo_run vatc_rx vatc_get ops s)))
      (vatc_pending s @ fifo_input ops) \<and>
    (stream_fits vatc_rx vatc_get vatc_room ops s \<longrightarrow>
      fst (fifo_run vatc_rx vatc_get ops s) @ vatc_pending (snd (fifo_run vatc_rx vatc_get ops s))
        = vatc_pending s @ fifo_input ops)"
  using vs.run_inv [OF assms] vs.run_subseq [OF assms] vs.run_lossless [OF assms] by simp

text \<open>The baud-rate search returns the code of the table exactly for the seventeen listed
  rates, and the out-of-range code for every other rate.\<close>

theorem findOpenatUartBaud_table:
  "findOpenatUartBaud baud =
    (case map_of baud2OpenatUartBaud baud of Some ob \<Rightarrow> ob | None \<Rightarrow> OPENAT_UART_NUM_OF_BAUD_RATES)"
  unfolding findOpenatUartBaud_def
  by (rule find_baud_loop_sorted) (simp add: baud2OpenatUartBaud_def)

text \<open>The debug port prints its input as lines, cut into pieces of at most 127 bytes: the
  pieces printed and the text still cached are those of the reference function, together they
  are the input without its line ends, and no piece is empty or too long for the interface.\<close>

theorem debug_port_chunks:
  assumes "debug_wf s" "0 \<notin> set buff"
  shows "prints (calls (debugPortWrite buff s)) = prints (calls s) @ fst (debug_chunks (debug_text s) buff) \<and>
    debug_text (debugPortWrite buff s) = snd (debug_chunks (debug_text s) buff) \<and>
    concat (fst (debug_chunks (debug_text s) buff)) @ debug_text (debugPortWrite buff s)
      = debug_text s @ filter (\<lambda>b. b \<noteq> 13 \<and> b \<noteq> 10) buff \<and>
    (\<forall>c \<in> set (fst (debug_chunks (debug_text s) buff)). c \<noteq> [] \<and> length c \<le> 127)"
proof -
  have "length (debug_text s) \<le> 127"
    using assms(1) by (simp add: length_debug_text debug_wf_def)
  from debug_chunks_props [OF this, of buff] debugPortWrite_chunks [OF assms]
  show ?thesis by simp
qed

theorem uart_stream_fifo_witness:
  "subseq (fst (fifo_run (port_rx 1) (port_read 1) [Put [1, 2, 3], Get 2, Put [4], Get 5] demo_port) @
      port_pending 1 (snd (fifo_run (port_rx 1) (port_read 1) [Put [1, 2, 3], Get 2, Put [4], Get 5] demo_port)))
    [1, 2, 3, 4]"
  by (rule uart_stream_fifo [OF demo_port_mode(1), of "[Put [1, 2, 3], Get 2, Put [4], Get 5]",
        THEN conjunct2, THEN conjunct1, unfolded demo_port_mode(2) fifo_input.simps append_Nil append_Cons append_Nil2])

theorem vatc_stream_fifo_witness:
  "subseq (fst (fifo_run vatc_rx vatc_get [Put [1, 2, 3], Get 2, Put [4], Get 5] (uart_sys_init 0)) @
      vatc_pending (snd (fifo_run vatc_rx vatc_get [Put [1, 2, 3], Get 2, Put [4], Get 5] (uart_sys_init 0))))
    [1, 2, 3, 4]"
  using vatc_stream_fifo [of "uart_sys_init 0" "[Put [1, 2, 3], Get 2, Put [4], Get 5]"] uart_wf_init [of 0]
  by (simp add: uart_wf_def vatc_pending_def) (simp add: uart_sys_init_def)

theorem debug_port_chunks_witness:
  "prints (calls (debugPortWrite [104, 105, 13, 10, 33] (uart_sys_init 0))) = [[104, 105]]"
  using debug_port_chunks [of "uart_sys_init 0" "[104, 105, 13, 10, 33]"]
  by (simp add: debug_wf_init) (simp add: uart_sys_init_def prints_def)

text \<open>The receive handler of a port appends the bytes read to the ring, keeping the newest
  that fit, and posts one message to the Lua task exactly when the ring turns from empty to
  non-empty.  The length passes through a \<^verbatim>\<open>uint8\<close>: of a transfer of \<open>n\<close> bytes only
  \<open>n mod 256\<close> are taken, so that a transfer filling the 256-byte buffer is lost.\<close>

theorem uart_rx_notifies:
  assumes "uart_wf s" "i < NUM_UART"
  shows "let p = PHY_PORT i; got = rd p n 0; s' = uart_message_handle rd i n s;
      q = rxqueue (phys s ! p); q' = rxqueue (phys s' ! p)
    in uart_wf s' \<and>
       q_list q' = lastn (unat (q_size q)) (q_list q @ take (length got mod 256) got) \<and>
       calls s' = calls s @ Read_uart p n 0 #
         (if q_empty q \<and> \<not> q_empty q' then [Post_rx_message i] else []) \<and>
       (\<forall>p'. p' \<noteq> p \<longrightarrow> phys s' ! p' = phys s ! p')"
proof -
  let ?p = "PHY_PORT i" and ?got = "rd (PHY_PORT i) n 0"
  let ?q = "rxqueue (phys s ! ?p)" and ?k = "length ?got mod 256"
  have p: "?p < length (phys s)" using assms PHY_PORT_less by (simp add: uart_wf_def)
  have q: "q_wf ?q" using uart_wf_phy [OF assms] by (simp add: uart_reader_wf_def)
  have "q_empty (snd (QueueInsert ?q (take ?k ?got))) \<longleftrightarrow> q_list ?q = [] \<and> take ?k ?got = []"
    using q_empty_iff [OF QueueInsert_wf [OF q]] q_wfD(2) [OF q]
    by (simp add: QueueInsert_list [OF q] lastn_eq_Nil)
  moreover have "take ?k ?got = [] \<longleftrightarrow> ?k = 0" by auto
  moreover have "lastn (unat (q_size ?q)) (q_list ?q) = q_list ?q" using q_count_le [OF q] by simp
  ultimately show ?thesis
    using p q_empty_iff [OF q] uart_message_handle_wf [OF assms, of rd n]
    by (simp add: Let_def uart_message_handle_eq [OF p refl] QueueInsert_list [OF q])
qed

theorem uart_rx_notifies_witness:
  "q_list (rxqueue (phys (uart_message_handle (\<lambda>_ _ _. [7, 8]) 1 2 (uart_sys_init 0)) ! 0)) = [7, 8]"
  using uart_rx_notifies [OF uart_wf_init, of 1 "\<lambda>_ _ _. [7, 8]" 2 0]
  by (simp add: Let_def PHY_PORT_def uartmap_def) (simp add: uart_sys_init_def uartPhyContext_init_def)

text \<open>Opening a closed port succeeds exactly when the host channel starts or the hardware
  accepts the parameters built from a listed baud rate, 1 or 2 stop bits and a known parity; on
  success the requested rate is returned and only this port's entry changes, on failure 0 is
  returned and no port is opened.  Data already waiting is not touched.\<close>

theorem uart_phy_open_spec:
  assumes "uart_wf s" "i < NUM_UART" "\<not> opened (ctxs s ! i)"
  shows "let (r, s') = uart_phy_open cfg hi i baud db par sb mode s;
      host = (PHY_PORT i = OPENAT_UART_3 \<and> mode = 2);
      ok = (if host then hi else case uart_open_param (consolePort s) i baud db par sb mode of
              None \<Rightarrow> False | Some p \<Rightarrow> cfg (PHY_PORT i) p)
    in uart_wf s' \<and> opened (ctxs s' ! i) = ok \<and> r = (if ok then baud else 0) \<and>
       (ok \<longrightarrow> workmode (ctxs s' ! i) = ucast mode) \<and>
       (\<forall>j. j \<noteq> i \<longrightarrow> ctxs s' ! j = ctxs s ! j) \<and> phys s' = phys s"
proof -
  have "i < length (ctxs s)" using assms by (simp add: uart_wf_def)
  then show ?thesis
    using assms uart_phy_open_wf [OF assms(1), of cfg hi i baud db par sb mode]
    by (auto simp: uart_phy_open_def Let_def upd_ctx_def log_call_def case_prod_beta split: option.splits)
qed

theorem uart_phy_open_spec_witness:
  "fst (uart_phy_open (\<lambda>_ _. True) False 1 115200 8 2 0 0 (uart_sys_init 255)) = 115200"
  using uart_phy_open_spec [of "uart_sys_init 255" 1 "\<lambda>_ _. True" False 115200 8 2 0 0] uart_wf_init [of 255]
    demo_open_param
  by (simp add: case_prod_beta Let_def PHY_PORT_def uartmap_def) (simp add: uart_sys_init_def)

end
