(* ===== verification/Digest.thy ===== *)
theory Digest
  imports Prelude
begin

text \<open>
  The message digests of \<^verbatim>\<open>lib/crypto\<close>: \<^verbatim>\<open>aliyun_iot_common_md5.c\<close>,
  \<^verbatim>\<open>aliyun_iot_common_sha1.c\<close> and \<^verbatim>\<open>aliyun_iot_common_hmac.c\<close>.

  A context is the C structure: the 64-bit byte counter in two 32-bit words, the chaining
  words and the 64-byte block buffer.  The two \<^verbatim>\<open>update\<close> functions of the source have the same
  text up to the name of the compression function, so they share one definition that takes
  it as a parameter.  \<open>represents\<close> says that a context stands for a message; every operation
  preserves it, which makes the digest independent of how the message is cut into pieces.
  The locale \<open>streaming_hash\<close> is the contract HMAC relies on.
\<close>

subsection \<open>Contexts and rotation\<close>

record hash_ctx =
  total0 :: u32
  total1 :: u32
  hstate :: "u32 list"
  hbuffer :: bytes

text \<open>The macro \<^verbatim>\<open>S(x,n)\<close> of both files.\<close>

definition rotS :: "u32 \<Rightarrow> nat \<Rightarrow> u32" where
  "rotS x n = (push_bit n x) OR (drop_bit (32 - n) (x AND 0xFFFFFFFF))"

subsection \<open>The update function\<close>

text \<open>The \<open>while\<close> loop over full input blocks; the rest of the input is returned.\<close>

function process_blocks :: "(u32 list \<Rightarrow> bytes \<Rightarrow> u32 list) \<Rightarrow> u32 list \<Rightarrow> bytes \<Rightarrow> u32 list \<times> bytes" where
  "process_blocks process st input =
    (if 64 \<le> length input then process_blocks process (process st (take 64 input)) (drop 64 input)
     else (st, input))"
  by pat_completeness auto
termination
  by (relation "measure (\<lambda>(_, _, input). length input)") auto

declare process_blocks.simps [simp del]

text \<open>\<open>memcpy\<close> of \<open>d\<close> to the position \<open>k\<close> of the buffer \<open>b\<close>.\<close>

definition copy_at :: "nat \<Rightarrow> bytes \<Rightarrow> bytes \<Rightarrow> bytes" where
  "copy_at k d b = take k b @ d @ drop (k + length d) b"

definition hash_update :: "(u32 list \<Rightarrow> bytes \<Rightarrow> u32 list) \<Rightarrow> hash_ctx \<Rightarrow> bytes \<Rightarrow> hash_ctx" where
  "hash_update process ctx input =
    (if input = [] then ctx
     else
      (let left = unat (total0 ctx AND 0x3F);
           fill = 64 - left;
           ilen = of_nat (length input);
           ctx1 = ctx\<lparr>total0 := (total0 ctx + ilen) AND 0xFFFFFFFF\<rparr>;
           ctx2 = (if total0 ctx1 < ilen then ctx1\<lparr>total1 := total1 ctx1 + 1\<rparr> else ctx1);
           (ctx3, left3, rest) =
             (if left \<noteq> 0 \<and> fill \<le> length input
              then (let buf = copy_at left (take fill input) (hbuffer ctx2)
                    in (ctx2\<lparr>hbuffer := buf, hstate := process (hstate ctx2) buf\<rparr>, 0, drop fill input))
              else (ctx2, left, input));
           (st, rest1) = process_blocks process (hstate ctx3) rest;
           ctx4 = ctx3\<lparr>hstate := st\<rparr>
       in if rest1 \<noteq> [] then ctx4\<lparr>hbuffer := copy_at left3 rest1 (hbuffer ctx4)\<rparr> else ctx4))"

definition hash_padding :: bytes where
  "hash_padding = 0x80 # replicate 63 0"

text \<open>The tail of both \<^verbatim>\<open>finish\<close> functions up to the output: \<open>enc low high\<close> is the message
  length in the byte order of the digest.\<close>

definition hash_pad :: "(u32 list \<Rightarrow> bytes \<Rightarrow> u32 list) \<Rightarrow> (u32 \<Rightarrow> u32 \<Rightarrow> bytes) \<Rightarrow> hash_ctx \<Rightarrow> hash_ctx" where
  "hash_pad process enc ctx =
    (let high = (drop_bit 29 (total0 ctx)) OR (push_bit 3 (total1 ctx));
         low = push_bit 3 (total0 ctx);
         msglen = enc low high;
         last = unat (total0 ctx AND 0x3F);
         padn = (if last < 56 then 56 - last else 120 - last)
     in hash_update process (hash_update process ctx (take padn hash_padding)) msglen)"

subsection \<open>MD5\<close>

text \<open>\<^verbatim>\<open>IOT_MD5_GET_UINT32_LE\<close> and \<^verbatim>\<open>IOT_MD5_PUT_UINT32_LE\<close>.\<close>

definition get_uint32_le :: "bytes \<Rightarrow> nat \<Rightarrow> u32" where
  "get_uint32_le b i = ucast (b ! i) OR push_bit 8 (ucast (b ! (i + 1)))
     OR push_bit 16 (ucast (b ! (i + 2))) OR push_bit 24 (ucast (b ! (i + 3)))"

definition put_uint32_le :: "u32 \<Rightarrow> bytes" where
  "put_uint32_le n = [ucast (n AND 0xFF), ucast (drop_bit 8 n AND 0xFF),
     ucast (drop_bit 16 n AND 0xFF), ucast (drop_bit 24 n AND 0xFF)]"

type_synonym md5_regs = "u32 \<times> u32 \<times> u32 \<times> u32"

text \<open>The macro \<^verbatim>\<open>P(a,b,c,d,k,s,t)\<close>; the next use has the registers one place further.\<close>

definition md5_step :: "(u32 \<Rightarrow> u32 \<Rightarrow> u32 \<Rightarrow> u32) \<Rightarrow> u32 list \<Rightarrow> nat \<times> nat \<times> u32 \<Rightarrow> md5_regs \<Rightarrow> md5_regs" where
  "md5_step F X kst regs =
    (let (k, s, t) = kst; (a, b, c, d) = regs;
         a1 = a + (F b c d + X ! k + t);
         a2 = rotS a1 s + b
     in (d, a2, b, c))"

definition md5_F1 :: "u32 \<Rightarrow> u32 \<Rightarrow> u32 \<Rightarrow> u32" where
  "md5_F1 x y z = z XOR (x AND (y XOR z))"

definition md5_F2 :: "u32 \<Rightarrow> u32 \<Rightarrow> u32 \<Rightarrow> u32" where
  "md5_F2 x y z = y XOR (z AND (x XOR y))"

definition md5_F3 :: "u32 \<Rightarrow> u32 \<Rightarrow> u32 \<Rightarrow> u32" where
  "md5_F3 x y z = x XOR y XOR z"

definition md5_F4 :: "u32 \<Rightarrow> u32 \<Rightarrow> u32 \<Rightarrow> u32" where
  "md5_F4 x y z = y XOR (x OR NOT z)"

definition md5_round1 :: "(nat \<times> nat \<times> u32) list" where
  "md5_round1 =
    [(0, 7, 0xD76AA478), (1, 12, 0xE8C7B756), (2, 17, 0x242070DB), (3, 22, 0xC1BDCEEE),
     (4, 7, 0xF57C0FAF), (5, 12, 0x4787C62A), (6, 17, 0xA8304613), (7, 22, 0xFD469501),
     (8, 7, 0x698098D8), (9, 12, 0x8B44F7AF), (10, 17, 0xFFFF5BB1), (11, 22, 0x895CD7BE),
     (12, 7, 0x6B901122), (13, 12, 0xFD987193), (14, 17, 0xA679438E), (15, 22, 0x49B40821)]"

definition md5_round2 :: "(nat \<times> nat \<times> u32) list" where
  "md5_round2 =
    [(1, 5, 0xF61E2562), (6, 9, 0xC040B340), (11, 14, 0x265E5A51), (0, 20, 0xE9B6C7AA),
     (5, 5, 0xD62F105D), (10, 9, 0x02441453), (15, 14, 0xD8A1E681), (4, 20, 0xE7D3FBC8),
     (9, 5, 0x21E1CDE6), (14, 9, 0xC33707D6), (3, 14, 0xF4D50D87), (8, 20, 0x455A14ED),
     (13, 5, 0xA9E3E905), (2, 9, 0xFCEFA3F8), (7, 14, 0x676F02D9), (12, 20, 0x8D2A4C8A)]"

definition md5_round3 :: "(nat \<times> nat \<times> u32) list" where
  "md5_round3 =
    [(5, 4, 0xFFFA3942), (8, 11, 0x8771F681), (11, 16, 0x6D9D6122), (14, 23, 0xFDE5380C),
     (1, 4, 0xA4BEEA44), (4, 11, 0x4BDECFA9), (7, 16, 0xF6BB4B60), (10, 23, 0xBEBFBC70),
     (13, 4, 0x289B7EC6), (0, 11, 0xEAA127FA), (3, 16, 0xD4EF3085), (6, 23, 0x04881D05),
     (9, 4, 0xD9D4D039), (12, 11, 0xE6DB99E5), (15, 16, 0x1FA27CF8), (2, 23, 0xC4AC5665)]"

definition md5_round4 :: "(nat \<times> nat \<times> u32) list" where
  "md5_round4 =
    [(0, 6, 0xF4292244), (7, 10, 0x432AFF97), (14, 15, 0xAB9423A7), (5, 21, 0xFC93A039),
     (12, 6, 0x655B59C3), (3, 10, 0x8F0CCC92), (10, 15, 0xFFEFF47D), (1, 21, 0x85845DD1),
     (8, 6, 0x6FA87E4F), (15, 10, 0xFE2CE6E0), (6, 15, 0xA3014314), (13, 21, 0x4E0811A1),
     (4, 6, 0xF7537E82), (11, 10, 0xBD3AF235), (2, 15, 0x2AD7D2BB), (9, 21, 0xEB86D391)]"

definition aliyun_iot_md5_process :: "u32 list \<Rightarrow> bytes \<Rightarrow> u32 list" where
  "aliyun_iot_md5_process st data =
    (let X = map (\<lambda>i. get_uint32_le data (4 * i)) [0..<16];
         r0 = (st ! 0, st ! 1, st ! 2, st ! 3);
         r1 = fold (md5_step md5_F1 X) md5_round1 r0;
         r2 = fold (md5_step md5_F2 X) md5_round2 r1;
         r3 = fold (md5_step md5_F3 X) md5_round3 r2;
         (a, b, c, d) = fold (md5_step md5_F4 X) md5_round4 r3
     in [st ! 0 + a, st ! 1 + b, st ! 2 + c, st ! 3 + d])"

definition md5_iv :: "u32 list" where
  "md5_iv = [0x67452301, 0xEFCDAB89, 0x98BADCFE, 0x10325476]"

definition aliyun_iot_md5_init :: hash_ctx where
  "aliyun_iot_md5_init = \<lparr>total0 = 0, total1 = 0, hstate = replicate 4 0, hbuffer = replicate 64 0\<rparr>"

definition aliyun_iot_md5_starts :: "hash_ctx \<Rightarrow> hash_ctx" where
  "aliyun_iot_md5_starts ctx = ctx\<lparr>total0 := 0, total1 := 0, hstate := md5_iv\<rparr>"

definition aliyun_iot_md5_update :: "hash_ctx \<Rightarrow> bytes \<Rightarrow> hash_ctx" where
  "aliyun_iot_md5_update = hash_update aliyun_iot_md5_process"

definition aliyun_iot_md5_finish :: "hash_ctx \<Rightarrow> bytes" where
  "aliyun_iot_md5_finish ctx =
    concat (map put_uint32_le (hstate (hash_pad aliyun_iot_md5_process
      (\<lambda>low high. put_uint32_le low @ put_uint32_le high) ctx)))"

definition aliyun_iot_md5 :: "bytes \<Rightarrow> bytes" where
  "aliyun_iot_md5 input =
    aliyun_iot_md5_finish (aliyun_iot_md5_update (aliyun_iot_md5_starts aliyun_iot_md5_init) input)"

definition aliyun_iot_common_hb2hex :: "u8 \<Rightarrow> u8" where
  "aliyun_iot_common_hb2hex hb =
    (let h = hb AND 0xF in if h < 10 then 48 + h else h - 10 + 65)"

text \<open>The loop that prints every byte as two upper-case digits.\<close>

definition hex_digest :: "bytes \<Rightarrow> bytes" where
  "hex_digest out = concat (map (\<lambda>b. [aliyun_iot_common_hb2hex (drop_bit 4 b), aliyun_iot_common_hb2hex b]) out)"

definition aliyun_iot_common_md5 :: "bytes \<Rightarrow> bytes" where
  "aliyun_iot_common_md5 dat = hex_digest (aliyun_iot_md5 dat)"

subsection \<open>SHA-1\<close>

definition get_uint32_be :: "bytes \<Rightarrow> nat \<Rightarrow> u32" where
  "get_uint32_be b i = push_bit 24 (ucast (b ! i)) OR push_bit 16 (ucast (b ! (i + 1)))
     OR push_bit 8 (ucast (b ! (i + 2))) OR ucast (b ! (i + 3))"

definition put_uint32_be :: "u32 \<Rightarrow> bytes" where
  "put_uint32_be n = [ucast (drop_bit 24 n), ucast (drop_bit 16 n), ucast (drop_bit 8 n), ucast n]"

type_synonym sha1_regs = "u32 \<times> u32 \<times> u32 \<times> u32 \<times> u32"

text \<open>The macro \<^verbatim>\<open>R(t)\<close>: the schedule lives in sixteen words that are overwritten in turn.\<close>

definition sha1_R :: "nat \<Rightarrow> u32 list \<Rightarrow> u32 \<times> u32 list" where
  "sha1_R t W =
    (let temp = W ! ((t - 3) mod 16) XOR W ! ((t - 8) mod 16) XOR W ! ((t - 14) mod 16) XOR W ! (t mod 16);
         w = rotS temp 1
     in (w, W[t mod 16 := w]))"

definition sha1_F :: "nat \<Rightarrow> u32 \<Rightarrow> u32 \<Rightarrow> u32 \<Rightarrow> u32" where
  "sha1_F t x y z =
    (if t < 20 then z XOR (x AND (y XOR z))
     else if t < 40 then x XOR y XOR z
     else if t < 60 then (x AND y) OR (z AND (x OR y))
     else x XOR y XOR z)"

definition sha1_K :: "nat \<Rightarrow> u32" where
  "sha1_K t = (if t < 20 then 0x5A827999 else if t < 40 then 0x6ED9EBA1
     else if t < 60 then 0x8F1BBCDC else 0xCA62C1D6)"

text \<open>One line \<^verbatim>\<open>P(a,b,c,d,e,x)\<close>: \<open>x\<close> is \<open>W[t]\<close> for the first sixteen and \<open>R(t)\<close> after them.\<close>

definition sha1_step :: "nat \<Rightarrow> sha1_regs \<times> u32 list \<Rightarrow> sha1_regs \<times> u32 list" where
  "sha1_step t s =
    (let ((a, b, c, d, e), W) = s;
         (x, W1) = (if t < 16 then (W ! t, W) else sha1_R t W);
         e1 = e + (rotS a 5 + sha1_F t b c d + sha1_K t + x);
         b1 = rotS b 30
     in ((e1, a, b1, c, d), W1))"

definition aliyun_iot_sha1_process :: "u32 list \<Rightarrow> bytes \<Rightarrow> u32 list" where
  "aliyun_iot_sha1_process st data =
    (let W = map (\<lambda>i. get_uint32_be data (4 * i)) [0..<16];
         ((a, b, c, d, e), W1) = fold sha1_step [0..<80] ((st ! 0, st ! 1, st ! 2, st ! 3, st ! 4), W)
     in [st ! 0 + a, st ! 1 + b, st ! 2 + c, st ! 3 + d, st ! 4 + e])"

definition sha1_iv :: "u32 list" where
  "sha1_iv = [0x67452301, 0xEFCDAB89, 0x98BADCFE, 0x10325476, 0xC3D2E1F0]"

definition aliyun_iot_sha1_init :: hash_ctx where
  "aliyun_iot_sha1_init = \<lparr>total0 = 0, total1 = 0, hstate = replicate 5 0, hbuffer = replicate 64 0\<rparr>"

definition aliyun_iot_sha1_starts :: "hash_ctx \<Rightarrow> hash_ctx" where
  "aliyun_iot_sha1_starts ctx = ctx\<lparr>total0 := 0, total1 := 0, hstate := sha1_iv\<rparr>"

definition aliyun_iot_sha1_update :: "hash_ctx \<Rightarrow> bytes \<Rightarrow> hash_ctx" where
  "aliyun_iot_sha1_update = hash_update aliyun_iot_sha1_process"

definition aliyun_iot_sha1_finish :: "hash_ctx \<Rightarrow> bytes" where
  "aliyun_iot_sha1_finish ctx =
    concat (map put_uint32_be (hstate (hash_pad aliyun_iot_sha1_process
      (\<lambda>low high. put_uint32_be high @ put_uint32_be low) ctx)))"

definition aliyun_iot_sha1 :: "bytes \<Rightarrow> bytes" where
  "aliyun_iot_sha1 input =
    aliyun_iot_sha1_finish (aliyun_iot_sha1_update (aliyun_iot_sha1_starts aliyun_iot_sha1_init) input)"

subsection \<open>HMAC\<close>

text \<open>The key is copied into a zeroed 64-byte pad and xored: a longer key would overrun the pad,
  so the functions are defined for keys of at most 64 bytes.\<close>

definition key_pad :: "u8 \<Rightarrow> bytes \<Rightarrow> bytes" where
  "key_pad x key = map (\<lambda>b. b XOR x) (copy_at 0 key (replicate 64 0))"

definition aliyun_iot_common_hmac_md5 :: "bytes \<Rightarrow> bytes \<Rightarrow> bytes" where
  "aliyun_iot_common_hmac_md5 msg key =
    (let k_ipad = key_pad 0x36 key; k_opad = key_pad 0x5c key;
         c0 = aliyun_iot_md5_starts aliyun_iot_md5_init;
         out = aliyun_iot_md5_finish (aliyun_iot_md5_update (aliyun_iot_md5_update c0 k_ipad) msg);
         out2 = aliyun_iot_md5_finish (aliyun_iot_md5_update (aliyun_iot_md5_update c0 k_opad) out)
     in hex_digest out2)"

definition aliyun_iot_common_hmac_sha1 :: "bytes \<Rightarrow> bytes \<Rightarrow> bytes" where
  "aliyun_iot_common_hmac_sha1 msg key =
    (let k_ipad = key_pad 0x36 key; k_opad = key_pad 0x5c key;
         c0 = aliyun_iot_sha1_starts aliyun_iot_sha1_init;
         out = aliyun_iot_sha1_finish (aliyun_iot_sha1_update (aliyun_iot_sha1_update c0 k_ipad) msg);
         out2 = aliyun_iot_sha1_finish (aliyun_iot_sha1_update (aliyun_iot_sha1_update c0 k_opad) out)
     in hex_digest out2)"

subsection \<open>Blocks and counters\<close>

lemma process_blocks_less: "length m < 64 \<Longrightarrow> process_blocks process st m = (st, m)"
  by (subst process_blocks.simps) simp

lemma process_blocks_step:
  "64 \<le> length m \<Longrightarrow>
    process_blocks process st m = process_blocks process (process st (take 64 m)) (drop 64 m)"
  by (subst process_blocks.simps) simp

text \<open>The whole blocks of a message, and the compression function run over them.\<close>

definition blocks :: "bytes \<Rightarrow> bytes list" where
  "blocks m = map (\<lambda>i. take 64 (drop (64 * i) m)) [0..<length m div 64]"

lemma blocks_less [simp]: "length m < 64 \<Longrightarrow> blocks m = []"
  by (simp add: blocks_def)

lemma blocks_step:
  assumes "64 \<le> length m"
  shows "blocks m = take 64 m # blocks (drop 64 m)"
proof -
  have "length m div 64 = Suc ((length m - 64) div 64)"
    using assms by (simp add: le_div_geq)
  then show ?thesis
    by (simp add: blocks_def map_upt_Suc add.commute del: upt_Suc)
qed

lemma process_blocks_eq:
  "process_blocks process st m =
    (foldl process st (blocks m), drop (64 * (length m div 64)) m)"
proof (induction process st m rule: process_blocks.induct)
  case (1 process st m)
  show ?case
  proof (cases "64 \<le> length m")
    case True
    then have "length m div 64 = Suc ((length m - 64) div 64)" by (simp add: le_div_geq)
    with 1 True show ?thesis by (simp add: process_blocks_step blocks_step add.commute)
  next
    case False
    then show ?thesis by (simp add: process_blocks_less)
  qed
qed

lemma length_rest: "length (snd (process_blocks process st m)) = length m mod 64"
  by (simp add: process_blocks_eq minus_mult_div_eq_mod mult.commute)

lemma process_blocks_append:
  "process_blocks process st (m @ d) =
    process_blocks process (fst (process_blocks process st m)) (snd (process_blocks process st m) @ d)"
proof (induction process st m rule: process_blocks.induct)
  case (1 process st m)
  then show ?case
    by (cases "64 \<le> length m") (simp_all add: process_blocks_less process_blocks_step)
qed

lemma left_eq: "unat ((of_nat n :: u32) AND 0x3F) = n mod 64"
proof -
  have "(of_nat n :: u32) AND 0x3F = take_bit 6 (of_nat n)"
    unfolding take_bit_eq_mask by (simp add: mask_eq_exp_minus_1)
  then have "unat ((of_nat n :: u32) AND 0x3F) = take_bit 6 (unat (of_nat n :: u32))"
    by (simp only: unsigned_take_bit_eq)
  also have "\<dots> = n mod 64" unfolding unat_of_nat by (simp add: take_bit_eq_mod mod_mod_cancel)
  finally show ?thesis .
qed

text \<open>The carry between the two counter words.\<close>

lemma div_mod_carry1:
  assumes "e < (N::nat)"
  shows "(n mod N + e) mod N < e \<longleftrightarrow> N \<le> n mod N + e"
proof -
  have r: "n mod N < N" using assms by simp
  then have lt: "n mod N + e - N < N" "n mod N + e - N < e" if "N \<le> n mod N + e" using assms that by linarith+
  show ?thesis
  proof (cases "N \<le> n mod N + e")
    case True
    then have "(n mod N + e) mod N = n mod N + e - N" using lt(1) by (simp add: le_mod_geq)
    then show ?thesis using True lt(2) by simp
  qed simp
qed
lemma div_mod_carry2:
  assumes "e < (N::nat)"
  shows  "(n + e) div N = n div N + (if N \<le> n mod N + e then 1 else 0)"
proof -
  have r: "n mod N < N" using assms by simp
  have "(n + e) div N = n div N + (n mod N + e) div N"
    unfolding div_add1_eq [of n e N] using assms by simp
  moreover have "(n mod N + e) div N = (if N \<le> n mod N + e then 1 else 0)"
  proof (cases "n mod N + e < N")
    case False
    then have "(n mod N + e) div N = Suc ((n mod N + e - N) div N)" using assms by (simp add: le_div_geq)
    then show ?thesis using False r assms by simp
  qed simp
  ultimately show ?thesis by simp
qed

lemma counter_carry:
  assumes "e < 2 ^ 32"
  shows "(of_nat n + of_nat e :: u32) < of_nat e \<longleftrightarrow> 2 ^ 32 \<le> n mod 2 ^ 32 + e"
proof -
  have "unat (of_nat n + of_nat e :: u32) = (n mod 2 ^ 32 + e) mod 2 ^ 32"
    unfolding of_nat_add [symmetric] unat_of_nat by (simp add: mod_add_left_eq)
  moreover have "unat (of_nat e :: u32) = e"
    using assms by (intro unat_of_nat_small) simp
  ultimately show ?thesis
    unfolding word_less_nat_alt using div_mod_carry1 [OF assms] by simp
qed

lemma and_ones [simp]: "(x::u32) AND 0xFFFFFFFF = x"
proof -
  have "(0xFFFFFFFF :: u32) = - 1" by (simp add: minus_1_eq_mask mask_eq_exp_minus_1)
  show ?thesis unfolding \<open>(0xFFFFFFFF :: u32) = - 1\<close> by simp
qed

subsection \<open>What a context stands for\<close>

definition represents :: "(u32 list \<Rightarrow> bytes \<Rightarrow> u32 list) \<Rightarrow> u32 list \<Rightarrow> hash_ctx \<Rightarrow> bytes \<Rightarrow> bool" where
  "represents process iv c m \<longleftrightarrow>
     total0 c = of_nat (length m) \<and> total1 c = of_nat (length m div 2 ^ 32) \<and>
     length (hbuffer c) = 64 \<and> hstate c = fst (process_blocks process iv m) \<and>
     take (length m mod 64) (hbuffer c) = snd (process_blocks process iv m)"

lemma length_copy_at: "k + length d \<le> length b \<Longrightarrow> length (copy_at k d b) = length b"
  by (simp add: copy_at_def)

lemma take_copy_at: "k + length d \<le> length b \<Longrightarrow> take (k + length d) (copy_at k d b) = take k b @ d"
  by (simp add: copy_at_def)

lemma hash_update_represents:
  assumes R: "represents process iv c m" and len: "length d < 2 ^ 32"
  shows "represents process iv (hash_update process c d) (m @ d)"
proof (cases "d = []")
  case True
  then show ?thesis using R by (simp add: hash_update_def)
next
  case False
  let ?l = "length m mod 64" and ?st = "fst (process_blocks process iv m)"
    and ?rest = "snd (process_blocks process iv m)"
  have buf: "length (hbuffer c) = 64" "take ?l (hbuffer c) = ?rest" and st: "hstate c = ?st"
    and tot: "total0 c = of_nat (length m)" "total1 c = of_nat (length m div 2 ^ 32)"
    using R by (simp_all add: represents_def)
  have left: "unat (total0 c AND 0x3F) = ?l" by (simp add: tot left_eq)
  define c2 where "c2 = c\<lparr>total0 := of_nat (length (m @ d)), total1 := of_nat (length (m @ d) div 2 ^ 32)\<rparr>"
  have c2: "(let ctx1 = c\<lparr>total0 := (total0 c + of_nat (length d)) AND 0xFFFFFFFF\<rparr>
      in if total0 ctx1 < of_nat (length d) then ctx1\<lparr>total1 := total1 ctx1 + 1\<rparr> else ctx1) = c2"
  proof -
    have div: "length (m @ d) div 2 ^ 32 = length m div 2 ^ 32 +
        (if 2 ^ 32 \<le> length m mod 2 ^ 32 + length d then 1 else 0)"
      using div_mod_carry2 [OF len] by simp
    show ?thesis
      unfolding c2_def div using counter_carry [OF len, of "length m"]
      by (simp add: tot Let_def add.commute)
  qed
  have rest: "length ?rest = ?l" by (rule length_rest)
  have app: "process_blocks process iv (m @ d) = process_blocks process ?st (?rest @ d)"
    by (rule process_blocks_append)
  have lmd: "length (m @ d) mod 64 = length (snd (process_blocks process ?st (?rest @ d)))"
    unfolding app [symmetric] by (rule length_rest [symmetric])
  have fin: "represents process iv (c2\<lparr>hstate := fst (process_blocks process ?st (?rest @ d)), hbuffer := b\<rparr>) (m @ d)"
    if "length b = 64" "take (length (m @ d) mod 64) b = snd (process_blocks process ?st (?rest @ d))" for b
    using that unfolding represents_def app by (simp add: c2_def)
  show ?thesis
  proof (cases "?l \<noteq> 0 \<and> 64 - ?l \<le> length d")
    case True
    let ?buf = "copy_at ?l (take (64 - ?l) d) (hbuffer c)"
    have "?l + length (take (64 - ?l) d) = 64" using True by simp
    then have fullbuf: "?buf = ?rest @ take (64 - ?l) d"
      using buf by (simp add: copy_at_def)
    let ?pb = "process_blocks process (process ?st ?buf) (drop (64 - ?l) d)"
    have pb: "process_blocks process ?st (?rest @ d) = ?pb"
    proof -
      have "64 \<le> length (?rest @ d)" unfolding length_append rest using True by linarith
      from process_blocks_step [OF this, of process ?st] show ?thesis
        using True rest by (simp add: fullbuf)
    qed
    have upd: "hash_update process c d =
      c2\<lparr>hstate := fst ?pb, hbuffer := (if snd ?pb \<noteq> [] then copy_at 0 (snd ?pb) ?buf else ?buf)\<rparr>"
      using False True
      unfolding hash_update_def left c2 [unfolded Let_def] Let_def
      by (simp add: case_prod_beta c2_def st)
    have len64: "length ?buf = 64" "length (snd ?pb) \<le> 64"
      using fullbuf rest True length_rest [of process "process ?st ?buf" "drop (64 - ?l) d"] by simp_all
    have n: "length (m @ d) mod 64 = length (snd ?pb)" using lmd by (simp only: pb)
    show ?thesis
    proof (cases "snd ?pb = []")
      case True
      then have "take (length (m @ d) mod 64) ?buf = snd (process_blocks process ?st (?rest @ d))"
        unfolding pb n by simp
      from fin [OF len64(1) this] show ?thesis
        unfolding upd pb using True by (simp only: simp_thms if_False)
    next
      case ne: False
      have "take (length (m @ d) mod 64) (copy_at 0 (snd ?pb) ?buf) = snd (process_blocks process ?st (?rest @ d))"
        unfolding pb n using take_copy_at [of 0 "snd ?pb" ?buf] len64 by (simp only: add_0 take_0 append_Nil)
      moreover have "length (copy_at 0 (snd ?pb) ?buf) = 64"
        using len64 by (subst length_copy_at) (simp_all only: add_0)
      ultimately show ?thesis
        unfolding upd pb [symmetric] using ne fin by (simp only: simp_thms if_True pb)
    qed
  next
    case no: False
    let ?pb = "process_blocks process ?st d"
    have noc: "(?l \<noteq> 0 \<and> 64 - ?l \<le> length d) = False" using no by blast
    have upd: "hash_update process c d =
      c2\<lparr>hstate := fst ?pb, hbuffer := (if snd ?pb \<noteq> [] then copy_at ?l (snd ?pb) (hbuffer c) else hbuffer c)\<rparr>"
      using False
      unfolding hash_update_def left c2 [unfolded Let_def] Let_def noc if_False
      by (simp add: case_prod_beta c2_def st)
    show ?thesis
    proof (cases "?l = 0")
      case True
      then have "?rest = []" using rest by simp
      moreover have "length (snd ?pb) \<le> 64" using length_rest [of process ?st d] by simp
      ultimately show ?thesis
        unfolding upd using True fin [of "copy_at 0 (snd ?pb) (hbuffer c)"] fin [of "hbuffer c"] buf(1)
          take_copy_at [of 0 "snd ?pb" "hbuffer c"] lmd
        by (simp add: length_copy_at)
    next
      case False
      then have short: "?l + length d < 64" using no by simp
      then have "process_blocks process ?st (?rest @ d) = (?st, ?rest @ d)" "?pb = (?st, d)"
        using rest by (simp_all add: process_blocks_less)
      moreover have "length (copy_at ?l d (hbuffer c)) = 64" "take (?l + length d) (copy_at ?l d (hbuffer c)) = ?rest @ d"
        using short buf by (simp_all add: length_copy_at take_copy_at)
      ultimately show ?thesis
        unfolding upd using \<open>d \<noteq> []\<close> fin [of "copy_at ?l d (hbuffer c)"] lmd rest by simp
    qed
  qed
qed

subsection \<open>Padding and the reference digests\<close>

text \<open>The length field of the standards: the number of bits as a 64-bit integer.\<close>

definition length_le :: "nat \<Rightarrow> bytes" where
  "length_le n = map (\<lambda>i. ucast (drop_bit (8 * i) (of_nat (8 * n) :: u64))) [0..<8]"

definition length_be :: "nat \<Rightarrow> bytes" where
  "length_be n = rev (length_le n)"

text \<open>Padding of RFC 1321 and FIPS 180: a one bit, zeros up to 56 modulo 64, the length.\<close>

definition pad_message :: "(nat \<Rightarrow> bytes) \<Rightarrow> bytes \<Rightarrow> bytes" where
  "pad_message len_field m =
    m @ 0x80 # replicate ((119 - length m mod 64) mod 64) 0 @ len_field (length m)"

definition md5_spec :: "bytes \<Rightarrow> bytes" where
  "md5_spec m = concat (map put_uint32_le (foldl aliyun_iot_md5_process md5_iv (blocks (pad_message length_le m))))"

definition sha1_spec :: "bytes \<Rightarrow> bytes" where
  "sha1_spec m = concat (map put_uint32_be (foldl aliyun_iot_sha1_process sha1_iv (blocks (pad_message length_be m))))"

lemma take_padding:
  assumes "l < 64"
  shows "take (if l < 56 then 56 - l else 120 - l) hash_padding = 0x80 # replicate ((119 - l) mod 64) 0"
proof -
  have pre: "take (Suc k) hash_padding = 0x80 # replicate k 0" if "k < 64" for k
    using that by (simp add: hash_padding_def min_def)
  show ?thesis
  proof (cases "l < 56")
    case True
    then have "(119 - l) mod 64 = 55 - l" "56 - l = Suc (55 - l)" by (simp_all add: le_mod_geq)
    then show ?thesis using True pre [of "55 - l"] by simp
  next
    case False
    then have "(119 - l) mod 64 = 119 - l" "120 - l = Suc (119 - l)" using assms by simp_all
    then show ?thesis using False pre [of "119 - l"] by simp
  qed
qed

lemma counter_words:
  "(of_nat n :: u32) = ucast (of_nat n :: u64)"
  "(of_nat (n div 2 ^ 32) :: u32) = ucast (drop_bit 32 (of_nat n :: u64))"
proof -
  show "(of_nat n :: u32) = ucast (of_nat n :: u64)"
    by (simp add: unsigned_of_nat word_of_nat_eq_iff)
  show "(of_nat (n div 2 ^ 32) :: u32) = ucast (drop_bit 32 (of_nat n :: u64))"
    unfolding drop_bit_eq_div [symmetric]
    by (rule bit_word_eqI) (simp add: bit_simps)
qed

lemma length_words:
  fixes w :: u64
  defines "t0 \<equiv> ucast w :: u32" and "t1 \<equiv> ucast (drop_bit 32 w) :: u32"
  shows "put_uint32_le (push_bit 3 t0) @ put_uint32_le (drop_bit 29 t0 OR push_bit 3 t1) =
      map (\<lambda>i. ucast (drop_bit (8 * i) (push_bit 3 w))) [0..<8]"
    "put_uint32_be (drop_bit 29 t0 OR push_bit 3 t1) @ put_uint32_be (push_bit 3 t0) =
      rev (map (\<lambda>i. ucast (drop_bit (8 * i) (push_bit 3 w))) [0..<8])"
proof -
  have b: "(ucast (drop_bit k (push_bit 3 t0)) :: u8) = ucast (drop_bit k (push_bit 3 w))"
      "(ucast (drop_bit k (drop_bit 29 t0 OR push_bit 3 t1)) :: u8) = ucast (drop_bit (k + 32) (push_bit 3 w))"
    if "k \<le> 24" for k
  proof -
    show "(ucast (drop_bit k (push_bit 3 t0)) :: u8) = ucast (drop_bit k (push_bit 3 w))"
      using that by (intro bit_word_eqI) (auto simp: t0_def bit_simps)
    show "(ucast (drop_bit k (drop_bit 29 t0 OR push_bit 3 t1)) :: u8) = ucast (drop_bit (k + 32) (push_bit 3 w))"
    proof (rule bit_word_eqI)
      fix j assume "j < LENGTH(8)"
      then have j: "j < 8" by simp
      have i: "29 + (k + j) = k + 29 + j" "k + 32 + j - 3 = k + 29 + j" by simp_all
      show "bit (ucast (drop_bit k (drop_bit 29 t0 OR push_bit 3 t1)) :: u8) j =
          bit (ucast (drop_bit (k + 32) (push_bit 3 w)) :: u8) j"
      proof (cases "k + j < 3")
        case True
        then show ?thesis using that j
          by (simp add: t0_def t1_def bit_simps) (simp add: ac_simps)
      next
        case False
        then have "32 + (k + j - 3) = k + 29 + j" "k + j - 3 < 32" using that j by simp_all
        then show ?thesis using that j i False
          by (simp add: t0_def t1_def bit_simps)
      qed
    qed
  qed
  have m: "(ucast (x AND 0xFF) :: u8) = ucast x" for x :: u32
  proof -
    have "x AND 0xFF = take_bit 8 x" by (simp add: take_bit_eq_mask mask_eq_exp_minus_1)
    then show ?thesis by (intro bit_word_eqI) (simp add: bit_simps)
  qed
  show "put_uint32_le (push_bit 3 t0) @ put_uint32_le (drop_bit 29 t0 OR push_bit 3 t1) =
      map (\<lambda>i. ucast (drop_bit (8 * i) (push_bit 3 w))) [0..<8]"
    using b [of 0] b [of 8] b [of 16] b [of 24]
    by (simp add: put_uint32_le_def m upt_rec)
  show "put_uint32_be (drop_bit 29 t0 OR push_bit 3 t1) @ put_uint32_be (push_bit 3 t0) =
      rev (map (\<lambda>i. ucast (drop_bit (8 * i) (push_bit 3 w))) [0..<8])"
    using b [of 0] b [of 8] b [of 16] b [of 24]
    by (simp add: put_uint32_be_def upt_rec)
qed

lemma length_words_le:
  "put_uint32_le (push_bit 3 (of_nat n)) @
     put_uint32_le (drop_bit 29 (of_nat n) OR push_bit 3 (of_nat (n div 2 ^ 32))) = length_le n"
  "put_uint32_be (drop_bit 29 (of_nat n) OR push_bit 3 (of_nat (n div 2 ^ 32))) @
     put_uint32_be (push_bit 3 (of_nat n)) = length_be n"
proof -
  have "(of_nat (8 * n) :: u64) = push_bit 3 (of_nat n)"
    by (simp add: push_bit_eq_mult)
  then show "put_uint32_le (push_bit 3 (of_nat n)) @
     put_uint32_le (drop_bit 29 (of_nat n) OR push_bit 3 (of_nat (n div 2 ^ 32))) = length_le n"
    "put_uint32_be (drop_bit 29 (of_nat n) OR push_bit 3 (of_nat (n div 2 ^ 32))) @
     put_uint32_be (push_bit 3 (of_nat n)) = length_be n"
    unfolding length_be_def length_le_def counter_words(2) counter_words(1) [of n]
    using length_words [of "of_nat n"] by (simp_all only:)
qed

lemma hash_pad_represents:
  assumes R: "represents process iv c m"
    and enc: "enc (push_bit 3 (total0 c)) (drop_bit 29 (total0 c) OR push_bit 3 (total1 c)) = len_field (length m)"
    and len: "length (len_field (length m)) = 8"
  shows "hstate (hash_pad process enc c) = foldl process iv (blocks (pad_message len_field m))"
proof -
  let ?l = "length m mod 64"
  have t: "unat (total0 c AND 0x3F) = ?l" using R by (simp add: represents_def left_eq)
  have "?l < 64" by simp
  note pad = take_padding [OF this]
  define P where "P = 0x80 # replicate ((119 - ?l) mod 64) (0 :: u8)"
  have "hash_pad process enc c = hash_update process (hash_update process c P) (len_field (length m))"
    unfolding hash_pad_def Let_def t pad enc P_def ..
  moreover have "represents process iv (hash_update process (hash_update process c P) (len_field (length m)))
      ((m @ P) @ len_field (length m))"
    by (intro hash_update_represents R) (simp_all add: P_def len order.strict_trans [of _ 64])
  ultimately show ?thesis
    by (simp add: represents_def process_blocks_eq pad_message_def P_def)
qed

lemma length_length_le [simp]: "length (length_le n) = 8" "length (length_be n) = 8"
  by (simp_all add: length_be_def length_le_def)

lemma md5_finish:
  assumes "represents aliyun_iot_md5_process md5_iv c m"
  shows "aliyun_iot_md5_finish c = md5_spec m"
proof -
  have "total0 c = of_nat (length m)" "total1 c = of_nat (length m div 2 ^ 32)"
    using assms by (simp_all only: represents_def)
  then show ?thesis
    unfolding aliyun_iot_md5_finish_def md5_spec_def
    by (subst hash_pad_represents [OF assms, of _ length_le]) (simp_all only: length_words_le length_length_le)
qed

lemma sha1_finish:
  assumes "represents aliyun_iot_sha1_process sha1_iv c m"
  shows "aliyun_iot_sha1_finish c = sha1_spec m"
proof -
  have "total0 c = of_nat (length m)" "total1 c = of_nat (length m div 2 ^ 32)"
    using assms by (simp_all only: represents_def)
  then show ?thesis
    unfolding aliyun_iot_sha1_finish_def sha1_spec_def
    by (subst hash_pad_represents [OF assms, of _ length_be]) (simp_all only: length_words_le length_length_le)
qed

subsection \<open>The contract of a streaming digest and HMAC\<close>

text \<open>The construction of RFC 2104 over a digest \<open>H\<close> with 64-byte blocks.\<close>

definition hmac_spec :: "(bytes \<Rightarrow> bytes) \<Rightarrow> bytes \<Rightarrow> bytes \<Rightarrow> bytes" where
  "hmac_spec H key msg =
    (let k = key @ replicate (64 - length key) 0
     in H (map (\<lambda>b. b XOR 0x5c) k @ H (map (\<lambda>b. b XOR 0x36) k @ msg)))"

lemma key_pad_eq:
  "length key \<le> 64 \<Longrightarrow> key_pad x key = map (\<lambda>b. b XOR x) (key @ replicate (64 - length key) 0)"
  by (simp add: key_pad_def copy_at_def)

locale streaming_hash =
  fixes start :: 'c
    and update :: "'c \<Rightarrow> bytes \<Rightarrow> 'c"
    and finish :: "'c \<Rightarrow> bytes"
    and stands_for :: "'c \<Rightarrow> bytes \<Rightarrow> bool"
    and digest :: "bytes \<Rightarrow> bytes"
  assumes start_empty: "stands_for start []"
    and update_appends: "stands_for c m \<Longrightarrow> length d < 2 ^ 32 \<Longrightarrow> stands_for (update c d) (m @ d)"
    and finish_digest: "stands_for c m \<Longrightarrow> finish c = digest m"
    and digest_short: "length (digest m) < 2 ^ 32"
begin

text \<open>However the message is cut into pieces, the digest is that of the whole.\<close>

lemma foldl_update:
  "stands_for c m \<Longrightarrow> \<forall>d \<in> set ds. length d < 2 ^ 32 \<Longrightarrow>
    stands_for (foldl update c ds) (m @ concat ds)"
  by (induction ds arbitrary: c m) (simp_all add: update_appends del: append_assoc flip: append_assoc)

lemma pieces_digest:
  "\<forall>d \<in> set ds. length d < 2 ^ 32 \<Longrightarrow> finish (foldl update start ds) = digest (concat ds)"
  using foldl_update [OF start_empty] finish_digest by simp

lemma hmac:
  assumes "length key \<le> 64" "length msg < 2 ^ 32"
  shows "finish (update (update start (key_pad 0x5c key))
      (finish (update (update start (key_pad 0x36 key)) msg))) = hmac_spec digest key msg"
proof -
  have pad: "length (key_pad x key) < 2 ^ 32" for x
    using assms(1) by (simp add: key_pad_eq)
  have inner: "finish (update (update start (key_pad 0x36 key)) msg) = digest (key_pad 0x36 key @ msg)"
    using pieces_digest [of "[key_pad 0x36 key, msg]"] pad assms(2) by simp
  show ?thesis
    unfolding inner
    using pieces_digest [of "[key_pad 0x5c key, digest (key_pad 0x36 key @ msg)]"] pad digest_short assms(1)
    by (simp add: hmac_spec_def Let_def key_pad_eq)
qed

end

lemma foldl_process_length:
  "length (aliyun_iot_md5_process st d) = 4" "length (aliyun_iot_sha1_process st d) = 5"
  by (simp_all add: aliyun_iot_md5_process_def aliyun_iot_sha1_process_def Let_def case_prod_beta)

lemma length_foldl_process:
  "length (foldl aliyun_iot_md5_process md5_iv bs) = 4"
  "length (foldl aliyun_iot_sha1_process sha1_iv bs) = 5"
  by (induction bs rule: rev_induct) (simp_all add: md5_iv_def sha1_iv_def foldl_process_length)

lemma length_concat_const: "(\<And>x. length (f x) = k) \<Longrightarrow> length (concat (map f xs)) = k * length xs"
  by (induction xs) simp_all

lemma length_md5_spec [simp]: "length (md5_spec m) = 16"
  by (simp add: md5_spec_def length_concat_const [where k=4] put_uint32_le_def length_foldl_process)

lemma length_sha1_spec [simp]: "length (sha1_spec m) = 20"
  by (simp add: sha1_spec_def length_concat_const [where k=4] put_uint32_be_def length_foldl_process)

interpretation md5: streaming_hash "aliyun_iot_md5_starts aliyun_iot_md5_init" aliyun_iot_md5_update
  aliyun_iot_md5_finish "represents aliyun_iot_md5_process md5_iv" md5_spec
  by unfold_locales
    (simp_all add: aliyun_iot_md5_starts_def aliyun_iot_md5_init_def aliyun_iot_md5_update_def
      hash_update_represents md5_finish represents_def [where m="[]"] process_blocks_less)

interpretation sha1: streaming_hash "aliyun_iot_sha1_starts aliyun_iot_sha1_init" aliyun_iot_sha1_update
  aliyun_iot_sha1_finish "represents aliyun_iot_sha1_process sha1_iv" sha1_spec
  by unfold_locales
    (simp_all add: aliyun_iot_sha1_starts_def aliyun_iot_sha1_init_def aliyun_iot_sha1_update_def
      hash_update_represents sha1_finish represents_def [where m="[]"] process_blocks_less)

subsection \<open>The compression function of SHA-1\<close>

text \<open>The schedule and round functions as FIPS 180-4 states them.\<close>

fun sha1_W :: "bytes \<Rightarrow> nat \<Rightarrow> u32" where
  "sha1_W data t =
    (if t < 16 then get_uint32_be data (4 * t)
     else rotS (sha1_W data (t - 3) XOR sha1_W data (t - 8) XOR sha1_W data (t - 14) XOR sha1_W data (t - 16)) 1)"

declare sha1_W.simps [simp del]

definition fips_f :: "nat \<Rightarrow> u32 \<Rightarrow> u32 \<Rightarrow> u32 \<Rightarrow> u32" where
  "fips_f t x y z =
    (if t < 20 then (x AND y) XOR (NOT x AND z)
     else if 40 \<le> t \<and> t < 60 then (x AND y) XOR (x AND z) XOR (y AND z)
     else x XOR y XOR z)"

definition fips_step :: "bytes \<Rightarrow> nat \<Rightarrow> sha1_regs \<Rightarrow> sha1_regs" where
  "fips_step data t r =
    (let (a, b, c, d, e) = r in
     (rotS a 5 + fips_f t b c d + e + sha1_K t + sha1_W data t, a, rotS b 30, c, d))"

definition fips_sha1_block :: "u32 list \<Rightarrow> bytes \<Rightarrow> u32 list" where
  "fips_sha1_block st data =
    (let (a, b, c, d, e) = fold (fips_step data) [0..<80] (st ! 0, st ! 1, st ! 2, st ! 3, st ! 4)
     in [st ! 0 + a, st ! 1 + b, st ! 2 + c, st ! 3 + d, st ! 4 + e])"

lemma sha1_F_fips: "sha1_F t x y z = fips_f t x y z"
proof -
  have ch: "z XOR (x AND (y XOR z)) = (x AND y) XOR (NOT x AND z)"
    and maj: "(x AND y) OR (z AND (x OR y)) = (x AND y) XOR (x AND z) XOR (y AND z)"
    by (rule bit_word_eqI, auto simp: bit_simps)+
  show ?thesis by (simp add: sha1_F_def fips_f_def ch maj)
qed

text \<open>Before round \<open>t\<close> the sixteen words are the last sixteen of the schedule.\<close>

definition window :: "bytes \<Rightarrow> nat \<Rightarrow> u32 list \<Rightarrow> bool" where
  "window data t W \<longleftrightarrow> length W = 16 \<and>
     (\<forall>s. s < max 16 t \<and> max 16 t \<le> s + 16 \<longrightarrow> W ! (s mod 16) = sha1_W data s)"

lemma window_R:
  assumes win: "window data t W" and t: "16 \<le> t"
  shows "fst (sha1_R t W) = sha1_W data t" "window data (Suc t) (snd (sha1_R t W))"
proof -
  have len: "length W = 16" and old: "W ! (s mod 16) = sha1_W data s" if "s < t" "t \<le> s + 16" for s
    using win t that by (auto simp: window_def max_def)
  have w: "W ! ((t - 3) mod 16) = sha1_W data (t - 3)" "W ! ((t - 8) mod 16) = sha1_W data (t - 8)"
    "W ! ((t - 14) mod 16) = sha1_W data (t - 14)" "W ! ((t - 16) mod 16) = sha1_W data (t - 16)"
    using t by (simp_all add: old)
  have "t mod 16 = (t - 16) mod 16" using t by (simp add: le_mod_geq)
  then show R: "fst (sha1_R t W) = sha1_W data t"
    using t w by (simp add: sha1_R_def Let_def sha1_W.simps [of data t])
  have upd: "snd (sha1_R t W) = W[t mod 16 := sha1_W data t]"
    using R by (simp add: sha1_R_def Let_def)
  have L: "length W = 16" using win by (simp add: window_def)
  have "W[t mod 16 := sha1_W data t] ! (s mod 16) = sha1_W data s" if "s < Suc t" "Suc t \<le> s + 16" for s
  proof (cases "s = t")
    case True
    then show ?thesis using L by simp
  next
    case False
    then have "s mod 16 \<noteq> t mod 16"
      using that ring_index_neq [of 0 "t - s" 16 s] by auto
    then show ?thesis using False that old by simp
  qed
  then show "window data (Suc t) (snd (sha1_R t W))"
    using t L by (simp add: window_def upd)
qed

lemma sha1_step_fips:
  assumes "window data t W"
  shows "fst (sha1_step t (r, W)) = fips_step data t r \<and> window data (Suc t) (snd (sha1_step t (r, W)))"
proof (cases "t < 16")
  case True
  then have "W ! t = sha1_W data t" "window data (Suc t) W"
    using assms by (auto simp: window_def max_def dest: spec [of _ t])
  then show ?thesis
    using True by (simp add: sha1_step_def fips_step_def sha1_F_fips case_prod_beta Let_def ac_simps)
next
  case False
  then show ?thesis
    using window_R [OF assms]
    by (simp add: sha1_step_def fips_step_def sha1_F_fips case_prod_beta Let_def ac_simps)
qed

lemma sha1_fold_fips:
  assumes "window data 0 W"
  shows "fst (fold sha1_step [0..<t] (r, W)) = fold (fips_step data) [0..<t] r \<and>
    window data t (snd (fold sha1_step [0..<t] (r, W)))"
proof (induction t)
  case (Suc t)
  obtain r1 W1 where "fold sha1_step [0..<t] (r, W) = (r1, W1)" by (metis prod.collapse)
  with Suc sha1_step_fips [of data t W1 r1] show ?case by simp
qed (simp add: assms)

lemma window_init: "window data 0 (map (\<lambda>i. get_uint32_be data (4 * i)) [0..<16])"
  by (simp add: window_def sha1_W.simps)

subsection \<open>Properties\<close>

text \<open>C12: The SHA-1 compression function, which keeps sixteen schedule words and overwrites them
  in turn, computes the block transform of FIPS 180-4 with its eighty-word schedule.\<close>

theorem sha1_process_fips: "aliyun_iot_sha1_process st data = fips_sha1_block st data"
proof -
  let ?r = "(st ! 0, st ! 1, st ! 2, st ! 3, st ! 4)"
  have "fst (fold sha1_step [0..<80] (?r, map (\<lambda>i. get_uint32_be data (4 * i)) [0..<16]))
      = fold (fips_step data) [0..<80] ?r"
    using sha1_fold_fips [OF window_init] by blast
  then show ?thesis
    unfolding aliyun_iot_sha1_process_def fips_sha1_block_def Let_def
    by (simp only: case_prod_beta)
qed

text \<open>C13: Feeding a message to MD5 or SHA-1 in any number of pieces gives the digest of the
  padded message: the blocks of the message followed by a one bit, zeros and the 64-bit length
  in the byte order of the standard, run through the compression function.  The carry between
  the two 32-bit counters is covered: the total length is not bounded.\<close>

theorem digests_of_pieces:
  assumes "\<forall>d \<in> set ds. length d < 2 ^ 32"
  shows "aliyun_iot_md5_finish (foldl aliyun_iot_md5_update (aliyun_iot_md5_starts aliyun_iot_md5_init) ds)
      = md5_spec (concat ds) \<and>
    aliyun_iot_sha1_finish (foldl aliyun_iot_sha1_update (aliyun_iot_sha1_starts aliyun_iot_sha1_init) ds)
      = sha1_spec (concat ds)"
  using md5.pieces_digest [OF assms] sha1.pieces_digest [OF assms] by simp

theorem digests_of_pieces_witness:
  "aliyun_iot_md5_finish (aliyun_iot_md5_update (aliyun_iot_md5_update
     (aliyun_iot_md5_starts aliyun_iot_md5_init) [97, 98]) [99]) = md5_spec [97, 98, 99]"
  using digests_of_pieces [of "[[97, 98], [99]]"] by simp

text \<open>C14: For keys of at most 64 bytes, the two HMAC functions print the hexadecimal form of
  the RFC 2104 construction over MD5 and SHA-1.\<close>

theorem hmac_rfc2104:
  assumes "length key \<le> 64" "length msg < 2 ^ 32"
  shows "aliyun_iot_common_hmac_md5 msg key = hex_digest (hmac_spec md5_spec key msg) \<and>
    aliyun_iot_common_hmac_sha1 msg key = hex_digest (hmac_spec sha1_spec key msg)"
  using md5.hmac [OF assms] sha1.hmac [OF assms]
  by (simp add: aliyun_iot_common_hmac_md5_def aliyun_iot_common_hmac_sha1_def Let_def)

theorem hmac_rfc2104_witness:
  "aliyun_iot_common_hmac_md5 [104, 105] [74, 101] = hex_digest (hmac_spec md5_spec [74, 101] [104, 105])"
  using hmac_rfc2104 [of "[74, 101]" "[104, 105]"] by simp

text \<open>Known answers of MD5 (RFC 1321): the hexadecimal digests of the empty message and of
  "abc", evaluated through init, starts, update, finish and the printing loop.\<close>

theorem md5_known_answers:
  "aliyun_iot_common_md5 [] = map (of_nat \<circ> of_char) ''D41D8CD98F00B204E9800998ECF8427E'' \<and>
   aliyun_iot_common_md5 [97, 98, 99] = map (of_nat \<circ> of_char) ''900150983CD24FB0D6963F7D28E17F72''"
  by code_simp

end
