(* ===== verification/Crc.thy ===== *)
theory Crc
  imports Prelude
begin

text \<open>
  The table-driven checksums of \<^verbatim>\<open>platform/src/crc.c\<close>: CRC-16 (Modbus), kept as two bytes with
  two byte tables, and CRC-32.  The tables are those of the source; they are shown to be the
  remainders of all bytes for the reflected polynomials 0xA001 and 0xEDB88320, and the loops to
  be the bit-by-bit division.
\<close>

definition CRCHiTable :: bytes where
  "CRCHiTable =
    [0x00, 0xC1, 0x81, 0x40, 0x01, 0xC0, 0x80, 0x41, 0x01, 0xC0, 0x80, 0x41,
     0x00, 0xC1, 0x81, 0x40, 0x01, 0xC0, 0x80, 0x41, 0x00, 0xC1, 0x81, 0x40,
     0x00, 0xC1, 0x81, 0x40, 0x01, 0xC0, 0x80, 0x41, 0x01, 0xC0, 0x80, 0x41,
     0x00, 0xC1, 0x81, 0x40, 0x00, 0xC1, 0x81, 0x40, 0x01, 0xC0, 0x80, 0x41,
     0x00, 0xC1, 0x81, 0x40, 0x01, 0xC0, 0x80, 0x41, 0x01, 0xC0, 0x80, 0x41,
     0x00, 0xC1, 0x81, 0x40, 0x01, 0xC0, 0x80, 0x41, 0x00, 0xC1, 0x81, 0x40,
     0x00, 0xC1, 0x81, 0x40, 0x01, 0xC0, 0x80, 0x41, 0x00, 0xC1, 0x81, 0x40,
     0x01, 0xC0, 0x80, 0x41, 0x01, 0xC0, 0x80, 0x41, 0x00, 0xC1, 0x81, 0x40,
     0x00, 0xC1, 0x81, 0x40, 0x01, 0xC0, 0x80, 0x41, 0x01, 0xC0, 0x80, 0x41,
     0x00, 0xC1, 0x81, 0x40, 0x01, 0xC0, 0x80, 0x41, 0x00, 0xC1, 0x81, 0x40,
     0x00, 0xC1, 0x81, 0x40, 0x01, 0xC0, 0x80, 0x41, 0x01, 0xC0, 0x80, 0x41,
     0x00, 0xC1, 0x81, 0x40, 0x00, 0xC1, 0x81, 0x40, 0x01, 0xC0, 0x80, 0x41,
     0x00, 0xC1, 0x81, 0x40, 0x01, 0xC0, 0x80, 0x41, 0x01, 0xC0, 0x80, 0x41,
     0x00, 0xC1, 0x81, 0x40, 0x00, 0xC1, 0x81, 0x40, 0x01, 0xC0, 0x80, 0x41,
     0x01, 0xC0, 0x80, 0x41, 0x00, 0xC1, 0x81, 0x40, 0x01, 0xC0, 0x80, 0x41,
     0x00, 0xC1, 0x81, 0x40, 0x00, 0xC1, 0x81, 0x40, 0x01, 0xC0, 0x80, 0x41,
     0x00, 0xC1, 0x81, 0x40, 0x01, 0xC0, 0x80, 0x41, 0x01, 0xC0, 0x80, 0x41,
     0x00, 0xC1, 0x81, 0x40, 0x01, 0xC0, 0x80, 0x41, 0x00, 0xC1, 0x81, 0x40,
     0x00, 0xC1, 0x81, 0x40, 0x01, 0xC0, 0x80, 0x41, 0x01, 0xC0, 0x80, 0x41,
     0x00, 0xC1, 0x81, 0x40, 0x00, 0xC1, 0x81, 0x40, 0x01, 0xC0, 0x80, 0x41,
     0x00, 0xC1, 0x81, 0x40, 0x01, 0xC0, 0x80, 0x41, 0x01, 0xC0, 0x80, 0x41,
     0x00, 0xC1, 0x81, 0x40]"

definition CRCLoTable :: bytes where
  "CRCLoTable =
    [0x00, 0xC0, 0xC1, 0x01, 0xC3, 0x03, 0x02, 0xC2, 0xC6, 0x06, 0x07, 0xC7,
     0x05, 0xC5, 0xC4, 0x04, 0xCC, 0x0C, 0x0D, 0xCD, 0x0F, 0xCF, 0xCE, 0x0E,
     0x0A, 0xCA, 0xCB, 0x0B, 0xC9, 0x09, 0x08, 0xC8, 0xD8, 0x18, 0x19, 0xD9,
     0x1B, 0xDB, 0xDA, 0x1A, 0x1E, 0xDE, 0xDF, 0x1F, 0xDD, 0x1D, 0x1C, 0xDC,
     0x14, 0xD4, 0xD5, 0x15, 0xD7, 0x17, 0x16, 0xD6, 0xD2, 0x12, 0x13, 0xD3,
     0x11, 0xD1, 0xD0, 0x10, 0xF0, 0x30, 0x31, 0xF1, 0x33, 0xF3, 0xF2, 0x32,
     0x36, 0xF6, 0xF7, 0x37, 0xF5, 0x35, 0x34, 0xF4, 0x3C, 0xFC, 0xFD, 0x3D,
     0xFF, 0x3F, 0x3E, 0xFE, 0xFA, 0x3A, 0x3B, 0xFB, 0x39, 0xF9, 0xF8, 0x38,
     0x28, 0xE8, 0xE9, 0x29, 0xEB, 0x2B, 0x2A, 0xEA, 0xEE, 0x2E, 0x2F, 0xEF,
     0x2D, 0xED, 0xEC, 0x2C, 0xE4, 0x24, 0x25, 0xE5, 0x27, 0xE7, 0xE6, 0x26,
     0x22, 0xE2, 0xE3, 0x23, 0xE1, 0x21, 0x20, 0xE0, 0xA0, 0x60, 0x61, 0xA1,
     0x63, 0xA3, 0xA2, 0x62, 0x66, 0xA6, 0xA7, 0x67, 0xA5, 0x65, 0x64, 0xA4,
     0x6C, 0xAC, 0xAD, 0x6D, 0xAF, 0x6F, 0x6E, 0xAE, 0xAA, 0x6A, 0x6B, 0xAB,
     0x69, 0xA9, 0xA8, 0x68, 0x78, 0xB8, 0xB9, 0x79, 0xBB, 0x7B, 0x7A, 0xBA,
     0xBE, 0x7E, 0x7F, 0xBF, 0x7D, 0xBD, 0xBC, 0x7C, 0xB4, 0x74, 0x75, 0xB5,
     0x77, 0xB7, 0xB6, 0x76, 0x72, 0xB2, 0xB3, 0x73, 0xB1, 0x71, 0x70, 0xB0,
     0x50, 0x90, 0x91, 0x51, 0x93, 0x53, 0x52, 0x92, 0x96, 0x56, 0x57, 0x97,
     0x55, 0x95, 0x94, 0x54, 0x9C, 0x5C, 0x5D, 0x9D, 0x5F, 0x9F, 0x9E, 0x5E,
     0x5A, 0x9A, 0x9B, 0x5B, 0x99, 0x59, 0x58, 0x98, 0x88, 0x48, 0x49, 0x89,
     0x4B, 0x8B, 0x8A, 0x4A, 0x4E, 0x8E, 0x8F, 0x4F, 0x8D, 0x4D, 0x4C, 0x8C,
     0x44, 0x84, 0x85, 0x45, 0x87, 0x47, 0x46, 0x86, 0x82, 0x42, 0x43, 0x83,
     0x41, 0x81, 0x80, 0x40]"

text \<open>One round of the \<open>while\<close> loop on \<^verbatim>\<open>crcHi\<close> and \<^verbatim>\<open>crcLo\<close>.\<close>

definition crc16_step :: "u8 \<Rightarrow> u8 \<times> u8 \<Rightarrow> u8 \<times> u8" where
  "crc16_step b crc =
    (let (crcHi, crcLo) = crc;
         index = crcLo XOR b
     in (CRCLoTable ! unat index, crcHi XOR (CRCHiTable ! unat index)))"

definition calcCRC16 :: "bytes \<Rightarrow> u16" where
  "calcCRC16 data =
    (let (crcHi, crcLo) = fold crc16_step data (0xFF, 0xFF)
     in (push_bit 8 (ucast crcHi)) OR ucast crcLo)"

definition CRC32_table :: "u32 list" where
  "CRC32_table =
    [0x00000000, 0x77073096, 0xEE0E612C, 0x990951BA,
     0x076DC419, 0x706AF48F, 0xE963A535, 0x9E6495A3,
     0x0EDB8832, 0x79DCB8A4, 0xE0D5E91E, 0x97D2D988,
     0x09B64C2B, 0x7EB17CBD, 0xE7B82D07, 0x90BF1D91,
     0x1DB71064, 0x6AB020F2, 0xF3B97148, 0x84BE41DE,
     0x1ADAD47D, 0x6DDDE4EB, 0xF4D4B551, 0x83D385C7,
     0x136C9856, 0x646BA8C0, 0xFD62F97A, 0x8A65C9EC,
     0x14015C4F, 0x63066CD9, 0xFA0F3D63, 0x8D080DF5,
     0x3B6E20C8, 0x4C69105E, 0xD56041E4, 0xA2677172,
     0x3C03E4D1, 0x4B04D447, 0xD20D85FD, 0xA50AB56B,
     0x35B5A8FA, 0x42B2986C, 0xDBBBC9D6, 0xACBCF940,
     0x32D86CE3, 0x45DF5C75, 0xDCD60DCF, 0xABD13D59,
     0x26D930AC, 0x51DE003A, 0xC8D75180, 0xBFD06116,
     0x21B4F4B5, 0x56B3C423, 0xCFBA9599, 0xB8BDA50F,
     0x2802B89E, 0x5F058808, 0xC60CD9B2, 0xB10BE924,
     0x2F6F7C87, 0x58684C11, 0xC1611DAB, 0xB6662D3D,
     0x76DC4190, 0x01DB7106, 0x98D220BC, 0xEFD5102A,
     0x71B18589, 0x06B6B51F, 0x9FBFE4A5, 0xE8B8D433,
     0x7807C9A2, 0x0F00F934, 0x9609A88E, 0xE10E9818,
     0x7F6A0DBB, 0x086D3D2D, 0x91646C97, 0xE6635C01,
     0x6B6B51F4, 0x1C6C6162, 0x856530D8, 0xF262004E,
     0x6C0695ED, 0x1B01A57B, 0x8208F4C1, 0xF50FC457,
     0x65B0D9C6, 0x12B7E950, 0x8BBEB8EA, 0xFCB9887C,
     0x62DD1DDF, 0x15DA2D49, 0x8CD37CF3, 0xFBD44C65,
     0x4DB26158, 0x3AB551CE, 0xA3BC0074, 0xD4BB30E2,
     0x4ADFA541, 0x3DD895D7, 0xA4D1C46D, 0xD3D6F4FB,
     0x4369E96A, 0x346ED9FC, 0xAD678846, 0xDA60B8D0,
     0x44042D73, 0x33031DE5, 0xAA0A4C5F, 0xDD0D7CC9,
     0x5005713C, 0x270241AA, 0xBE0B1010, 0xC90C2086,
     0x5768B525, 0x206F85B3, 0xB966D409, 0xCE61E49F,
     0x5EDEF90E, 0x29D9C998, 0xB0D09822, 0xC7D7A8B4,
     0x59B33D17, 0x2EB40D81, 0xB7BD5C3B, 0xC0BA6CAD,
     0xEDB88320, 0x9ABFB3B6, 0x03B6E20C, 0x74B1D29A,
     0xEAD54739, 0x9DD277AF, 0x04DB2615, 0x73DC1683,
     0xE3630B12, 0x94643B84, 0x0D6D6A3E, 0x7A6A5AA8,
     0xE40ECF0B, 0x9309FF9D, 0x0A00AE27, 0x7D079EB1,
     0xF00F9344, 0x8708A3D2, 0x1E01F268, 0x6906C2FE,
     0xF762575D, 0x806567CB, 0x196C3671, 0x6E6B06E7,
     0xFED41B76, 0x89D32BE0, 0x10DA7A5A, 0x67DD4ACC,
     0xF9B9DF6F, 0x8EBEEFF9, 0x17B7BE43, 0x60B08ED5,
     0xD6D6A3E8, 0xA1D1937E, 0x38D8C2C4, 0x4FDFF252,
     0xD1BB67F1, 0xA6BC5767, 0x3FB506DD, 0x48B2364B,
     0xD80D2BDA, 0xAF0A1B4C, 0x36034AF6, 0x41047A60,
     0xDF60EFC3, 0xA867DF55, 0x316E8EEF, 0x4669BE79,
     0xCB61B38C, 0xBC66831A, 0x256FD2A0, 0x5268E236,
     0xCC0C7795, 0xBB0B4703, 0x220216B9, 0x5505262F,
     0xC5BA3BBE, 0xB2BD0B28, 0x2BB45A92, 0x5CB36A04,
     0xC2D7FFA7, 0xB5D0CF31, 0x2CD99E8B, 0x5BDEAE1D,
     0x9B64C2B0, 0xEC63F226, 0x756AA39C, 0x026D930A,
     0x9C0906A9, 0xEB0E363F, 0x72076785, 0x05005713,
     0x95BF4A82, 0xE2B87A14, 0x7BB12BAE, 0x0CB61B38,
     0x92D28E9B, 0xE5D5BE0D, 0x7CDCEFB7, 0x0BDBDF21,
     0x86D3D2D4, 0xF1D4E242, 0x68DDB3F8, 0x1FDA836E,
     0x81BE16CD, 0xF6B9265B, 0x6FB077E1, 0x18B74777,
     0x88085AE6, 0xFF0F6A70, 0x66063BCA, 0x11010B5C,
     0x8F659EFF, 0xF862AE69, 0x616BFFD3, 0x166CCF45,
     0xA00AE278, 0xD70DD2EE, 0x4E048354, 0x3903B3C2,
     0xA7672661, 0xD06016F7, 0x4969474D, 0x3E6E77DB,
     0xAED16A4A, 0xD9D65ADC, 0x40DF0B66, 0x37D83BF0,
     0xA9BCAE53, 0xDEBB9EC5, 0x47B2CF7F, 0x30B5FFE9,
     0xBDBDF21C, 0xCABAC28A, 0x53B39330, 0x24B4A3A6,
     0xBAD03605, 0xCDD70693, 0x54DE5729, 0x23D967BF,
     0xB3667A2E, 0xC4614AB8, 0x5D681B02, 0x2A6F2B94,
     0xB40BBE37, 0xC30C8EA1, 0x5A05DF1B, 0x2D02EF8D]"

definition crc32_step :: "u8 \<Rightarrow> u32 \<Rightarrow> u32" where
  "crc32_step b crc =
    (let t = (crc XOR ucast b) AND 0xFF
     in (drop_bit 8 crc AND 0xFFFFFF) XOR (CRC32_table ! unat t))"

definition calcCRC32 :: "bytes \<Rightarrow> u32" where
  "calcCRC32 buf = NOT (fold crc32_step buf 0xFFFFFFFF)"

subsection \<open>Bitwise division\<close>

text \<open>One bit of the reflected division, and one byte.\<close>

definition crc_bit :: "'a::len word \<Rightarrow> 'a word \<Rightarrow> 'a word" where
  "crc_bit p c = (if bit c 0 then drop_bit 1 c XOR p else drop_bit 1 c)"

definition crc_byte :: "'a::len word \<Rightarrow> u8 \<Rightarrow> 'a word \<Rightarrow> 'a word" where
  "crc_byte p b c = (crc_bit p ^^ 8) (c XOR ucast b)"

lemma drop_bit_xor: "drop_bit n (x XOR y) = drop_bit n x XOR drop_bit n (y :: 'a::len word)"
  by (rule bit_word_eqI) (simp add: bit_simps)

lemma crc_bit_xor: "crc_bit p (x XOR y) = crc_bit p x XOR crc_bit p y"
  by (simp add: crc_bit_def drop_bit_xor bit_xor_iff ac_simps)

lemma crc_bits_xor: "(crc_bit p ^^ k) (x XOR y) = (crc_bit p ^^ k) x XOR (crc_bit p ^^ k) y"
  by (induction k) (simp_all add: crc_bit_xor)

text \<open>Bits above the ones divided are only shifted down.\<close>

lemma crc_bits_high:
  "(\<And>i. i < k \<Longrightarrow> \<not> bit c i) \<Longrightarrow> (crc_bit p ^^ k) c = drop_bit k c"
proof (induction k)
  case (Suc k)
  then have "(crc_bit p ^^ k) c = drop_bit k c" by simp
  then have "(crc_bit p ^^ Suc k) c = crc_bit p (drop_bit k c)" by simp
  also have "\<dots> = drop_bit (Suc k) c"
    using Suc.prems [of k] by (simp add: crc_bit_def bit_simps)
  finally show ?case .
qed simp

lemma crc_byte_split:
  "(crc_bit p ^^ 8) c = drop_bit 8 c XOR (crc_bit p ^^ 8) (take_bit 8 c)"
proof -
  let ?h = "c AND NOT (mask 8)"
  have "c = ?h XOR take_bit 8 c"
    by (rule bit_word_eqI) (auto simp: bit_simps)
  then have "(crc_bit p ^^ 8) c = (crc_bit p ^^ 8) ?h XOR (crc_bit p ^^ 8) (take_bit 8 c)"
    using crc_bits_xor by metis
  moreover have "(crc_bit p ^^ 8) ?h = drop_bit 8 ?h"
    by (rule crc_bits_high) (simp add: bit_simps)
  moreover have "drop_bit 8 ?h = drop_bit 8 c"
    by (rule bit_word_eqI) (auto simp: bit_simps dest: bit_imp_le_length)
  ultimately show ?thesis by simp
qed

text \<open>The tables hold the remainders of the 256 bytes: a table that is doubled by the remainders
  of the powers of two is the table of all remainders.\<close>

definition doubling :: "'a::len word list \<Rightarrow> bool" where
  "doubling t \<longleftrightarrow> list_all (\<lambda>k. map (\<lambda>x. x XOR (t ! (2 ^ k))) (take (2 ^ k) t) = take (2 ^ k) (drop (2 ^ k) t)) [0..<8]"

definition crc_basis :: "'a::len word \<Rightarrow> 'a word list" where
  "crc_basis p = map (\<lambda>k. (crc_bit p ^^ 8) (of_nat (2 ^ k))) [0..<8]"

lemma xor_pow: 
  fixes j k :: nat
  assumes "j < 2 ^ k"
  shows "j XOR 2 ^ k = 2 ^ k + j"
proof -
  have "\<not> bit j n" if "k \<le> n" for n
    using assms that by (metis bit_take_bit_iff not_less take_bit_nat_eq_self)
  then have "j AND 2 ^ k = 0"
    by (intro bit_eqI) (auto simp: bit_and_iff bit_exp_iff)
  then show ?thesis
    by (simp add: disjunctive_xor_eq_or disjunctive_add_eq_or add.commute flip: disjunctive_add_eq_or)
qed
lemma doubling_table:
  fixes p :: "'a::len word"
  assumes d: "doubling t" and len: "length t = 256" and z: "t ! 0 = 0"
    and b: "map (\<lambda>k. t ! (2 ^ k)) [0..<8] = crc_basis p" and w: "8 \<le> LENGTH('a)"
  shows "i < 256 \<Longrightarrow> t ! i = (crc_bit p ^^ 8) (of_nat i)"
proof -
  have basis: "t ! (2 ^ k) = (crc_bit p ^^ 8) (of_nat (2 ^ k))" if "k < 8" for k
    using arg_cong [OF b, of "\<lambda>l. l ! k"] that by (simp add: crc_basis_def)
  have "k \<le> 8 \<Longrightarrow> \<forall>i < 2 ^ k. t ! i = (crc_bit p ^^ 8) (of_nat i)" for k
  proof (induction k)
    case 0
    have "(crc_bit p ^^ 8) 0 = 0" using crc_bits_high [of 8 0 p] by simp
    then show ?case using z by simp
  next
    case (Suc k)
    then have k: "k < 8" and IH: "\<And>i. i < 2 ^ k \<Longrightarrow> t ! i = (crc_bit p ^^ 8) (of_nat i)" by simp_all
    have pow: "(2::nat) ^ k \<le> 128" using k power_increasing [of k 7 "2::nat"] by simp
    show ?case
    proof (intro allI impI)
      fix i :: nat assume i: "i < 2 ^ Suc k"
      show "t ! i = (crc_bit p ^^ 8) (of_nat i)"
      proof (cases "i < 2 ^ k")
        case False
        define j where "j = i - 2 ^ k"
        have j: "i = 2 ^ k + j" "j < 2 ^ k" using False i by (simp_all add: j_def)
        have "map (\<lambda>x. x XOR (t ! (2 ^ k))) (take (2 ^ k) t) = take (2 ^ k) (drop (2 ^ k) t)"
          using d k by (simp add: doubling_def list_all_iff)
        from arg_cong [OF this, of "\<lambda>l. l ! j"] have "t ! i = t ! j XOR t ! (2 ^ k)"
          using j len pow by simp
        also have "\<dots> = (crc_bit p ^^ 8) (of_nat j XOR of_nat (2 ^ k))"
          by (simp only: IH [OF j(2)] basis [OF k] crc_bits_xor)
        also have "(of_nat j XOR of_nat (2 ^ k) :: 'a word) = of_nat i"
          by (simp only: of_nat_xor_eq [symmetric] xor_pow [OF j(2)] j(1))
        finally show ?thesis .
      qed (simp add: IH)
    qed
  qed
  from this [of 8] show "i < 256 \<Longrightarrow> t ! i = (crc_bit p ^^ 8) (of_nat i)" by simp
qed

lemma crc32_table: "i < 256 \<Longrightarrow> CRC32_table ! i = (crc_bit 0xEDB88320 ^^ 8) (of_nat i)"
proof (rule doubling_table)
  show "doubling CRC32_table" by code_simp
  show "map (\<lambda>k. CRC32_table ! (2 ^ k)) [0..<8] = crc_basis 0xEDB88320" by code_simp
qed (simp_all add: CRC32_table_def)

definition crc16_table :: "u16 list" where
  "crc16_table = map2 (\<lambda>h l. push_bit 8 (ucast l :: u16) OR ucast h) CRCHiTable CRCLoTable"

lemma length_crc16_tables: "length CRCHiTable = 256" "length CRCLoTable = 256"
  by (simp_all add: CRCHiTable_def CRCLoTable_def)

lemma crc16_table: "i < 256 \<Longrightarrow> crc16_table ! i = (crc_bit 0xA001 ^^ 8) (of_nat i)"
proof (rule doubling_table)
  show "doubling crc16_table" by code_simp
  show "map (\<lambda>k. crc16_table ! (2 ^ k)) [0..<8] = crc_basis 0xA001" by code_simp
  show "crc16_table ! 0 = 0" by code_simp
qed (simp_all add: crc16_table_def length_crc16_tables)

subsection \<open>The loops are bitwise division\<close>

lemma take_bit_8_xor:
  "take_bit 8 (c XOR ucast (b :: u8)) = (of_nat (unat (ucast c XOR b)) :: 'a::len word)"
  by (rule bit_word_eqI) (auto simp: bit_simps unsigned_xor_eq dest: bit_imp_le_length)

lemma crc32_step_byte: "crc32_step b c = crc_byte 0xEDB88320 b c"
proof -
  have low: "(c XOR ucast b) AND 0xFF = take_bit 8 (c XOR ucast b)" for c :: u32
    by (simp add: take_bit_eq_mask mask_eq_exp_minus_1)
  have high: "drop_bit 8 c AND 0xFFFFFF = drop_bit 8 (c XOR ucast b)"
  proof -
    have "drop_bit 8 c AND 0xFFFFFF = take_bit 24 (drop_bit 8 c)"
      by (simp add: take_bit_eq_mask mask_eq_exp_minus_1)
    then show ?thesis
      by (intro bit_word_eqI) (auto simp: bit_simps dest: bit_imp_le_length)
  qed
  let ?t = "take_bit 8 (c XOR ucast b)"
  have "unat (take_bit 8 x) < 2 ^ 8" for x :: u32
    unfolding unsigned_take_bit_eq by (rule take_bit_nat_less_exp)
  from this [of "c XOR ucast b"] have "unat ?t < 256" by (simp del: take_bit_xor)
  then have "CRC32_table ! unat ?t = (crc_bit 0xEDB88320 ^^ 8) ?t"
    using crc32_table [of "unat ?t"] by (simp del: take_bit_xor)
  then show ?thesis
    unfolding crc32_step_def crc_byte_def Let_def low high
    by (subst crc_byte_split) simp
qed

definition join16 :: "u8 \<times> u8 \<Rightarrow> u16" where
  "join16 crc = push_bit 8 (ucast (fst crc)) OR ucast (snd crc)"

lemma crc16_step_byte: "join16 (crc16_step b crc) = crc_byte 0xA001 b (join16 crc)"
proof -
  obtain hi lo where crc: "crc = (hi, lo)" by (cases crc)
  let ?i = "lo XOR b"
  have i: "unat ?i < 256" using unsigned_less [of ?i, where ?'a = nat] by simp
  have tab: "push_bit 8 (ucast (CRCLoTable ! unat ?i) :: u16) OR ucast (CRCHiTable ! unat ?i)
      = (crc_bit 0xA001 ^^ 8) (of_nat (unat ?i))"
    using crc16_table [OF i] i by (simp add: crc16_table_def length_crc16_tables)
  have split: "join16 crc XOR ucast b = (push_bit 8 (ucast hi) OR ucast ?i :: u16)"
    unfolding crc join16_def by (rule bit_word_eqI) (auto simp: bit_simps dest: bit_imp_le_length)
  have low: "take_bit 8 (push_bit 8 (ucast hi) OR ucast ?i :: u16) = of_nat (unat ?i)"
    by (rule bit_word_eqI) (auto simp: bit_simps dest: bit_imp_le_length)
  have high: "drop_bit 8 (push_bit 8 (ucast hi) OR ucast ?i :: u16) = ucast hi"
    by (rule bit_word_eqI) (auto simp: bit_simps dest: bit_imp_le_length)
  have "crc_byte 0xA001 b (join16 crc) =
      ucast hi XOR (push_bit 8 (ucast (CRCLoTable ! unat ?i)) OR ucast (CRCHiTable ! unat ?i))"
    unfolding crc_byte_def split by (subst crc_byte_split) (simp only: low high tab)
  also have "\<dots> = join16 (crc16_step b crc)"
    unfolding crc crc16_step_def join16_def Let_def
    by (rule bit_word_eqI) (auto simp: bit_simps dest: bit_imp_le_length)
  finally show ?thesis by simp
qed

subsection \<open>Properties\<close>

text \<open>\<open>calcCRC16\<close> is the Modbus checksum: the bit-by-bit reflected division by 0xA001 of the
  data, starting from 0xFFFF.\<close>

theorem calcCRC16_modbus: "calcCRC16 data = fold (crc_byte 0xA001) data 0xFFFF"
proof -
  have "join16 (fold crc16_step data crc) = fold (crc_byte 0xA001) data (join16 crc)" for crc
    by (induction data arbitrary: crc) (simp_all add: crc16_step_byte)
  moreover have "join16 (0xFF, 0xFF) = 0xFFFF" by (simp add: join16_def)
  ultimately show ?thesis
    unfolding calcCRC16_def by (simp add: case_prod_beta join16_def)
qed

text \<open>C23: \<open>calcCRC32\<close> is the CRC-32 of IEEE 802.3: the bit-by-bit reflected division by
  0xEDB88320, starting from all ones and complemented at the end.\<close>

theorem calcCRC32_ieee: "calcCRC32 data = NOT (fold (crc_byte 0xEDB88320) data 0xFFFFFFFF)"
proof -
  have "fold crc32_step data c = fold (crc_byte 0xEDB88320) data c" for c
    by (induction data arbitrary: c) (simp_all add: crc32_step_byte)
  then show ?thesis by (simp add: calcCRC32_def)
qed

end
