(* ===== verification/Base64.thy ===== *)
theory Base64
  imports Prelude
begin

text \<open>
  Base64 of \<^verbatim>\<open>lib/crypto/src/aliyun_iot_common_base64.c\<close>.

  The encoder works on groups of three bytes, the decoder on groups of four characters; both
  loops are recursions over the input.  \<open>FAIL_RETURN\<close> is \<open>Failed\<close>; the decoder's look at the
  last two characters of an empty input is \<open>Out_of_bounds\<close>.
\<close>

datatype iot_result = Success bytes | Failed | Out_of_bounds

definition g_encodingTable :: bytes where
  "g_encodingTable = map (of_nat \<circ> of_char)
    ''ABCDEFGHIJKLMNOPQRSTUVWXYZabcdefghijklmnopqrstuvwxyz0123456789+/''"

text \<open>\<^verbatim>\<open>build_decoding_table\<close>: a zeroed table with the 64 positions written.\<close>

definition g_decodingTable :: bytes where
  "g_decodingTable = fold (\<lambda>i t. t[unat (g_encodingTable ! i) := of_nat i]) [0..<64] (replicate 256 0)"

definition g_modTable :: "nat list" where
  "g_modTable = [0, 2, 1]"

subsection \<open>Encoding\<close>

definition encode_triple :: "u8 \<Rightarrow> u8 \<Rightarrow> u8 \<Rightarrow> bytes" where
  "encode_triple a b c =
    (let triple = push_bit 0x10 (ucast a) + push_bit 0x08 (ucast b) + ucast c :: u32
     in [g_encodingTable ! unat (drop_bit (3 * 6) triple AND 0x3F),
         g_encodingTable ! unat (drop_bit (2 * 6) triple AND 0x3F),
         g_encodingTable ! unat (drop_bit (1 * 6) triple AND 0x3F),
         g_encodingTable ! unat (drop_bit (0 * 6) triple AND 0x3F)])"

text \<open>Bytes past the end of the input count as zero.\<close>

fun encode_loop :: "bytes \<Rightarrow> bytes" where
  "encode_loop [] = []"
| "encode_loop [a] = encode_triple a 0 0"
| "encode_loop [a, b] = encode_triple a b 0"
| "encode_loop (a # b # c # rest) = encode_triple a b c @ encode_loop rest"

definition base64encode :: "bytes \<Rightarrow> nat \<Rightarrow> iot_result" where
  "base64encode data outputLenMax =
    (let outputLength = 4 * ((length data + 2) div 3) in
     if outputLenMax < outputLength then Failed
     else (let out = encode_loop data; k = g_modTable ! (length data mod 3)
           in Success (take (outputLength - k) out @ replicate k 61)))"

subsection \<open>Decoding\<close>

definition sextet :: "u8 \<Rightarrow> u32" where
  "sextet c = (if c = 61 then 0 else ucast (g_decodingTable ! unat c))"

definition decode_quad :: "u8 \<Rightarrow> u8 \<Rightarrow> u8 \<Rightarrow> u8 \<Rightarrow> bytes" where
  "decode_quad a b c d =
    (let triple = push_bit (3 * 6) (sextet a) + push_bit (2 * 6) (sextet b)
                  + push_bit (1 * 6) (sextet c) + push_bit (0 * 6) (sextet d)
     in [ucast (drop_bit (2 * 8) triple AND 0xFF), ucast (drop_bit (1 * 8) triple AND 0xFF),
         ucast (drop_bit (0 * 8) triple AND 0xFF)])"

text \<open>\<open>n\<close> is the room left in the output; the length of the input is a multiple of four.\<close>

fun decode_loop :: "nat \<Rightarrow> bytes \<Rightarrow> bytes" where
  "decode_loop n (a # b # c # d # rest) =
    take n (decode_quad a b c d) @ decode_loop (n - 3) rest"
| "decode_loop n _ = []"

definition base64decode :: "bytes \<Rightarrow> nat \<Rightarrow> iot_result" where
  "base64decode data outputLenMax =
    (if length data mod 4 \<noteq> 0 then Failed
     else if data = [] then Out_of_bounds
     else
      (let n0 = length data div 4 * 3;
           n1 = (if data ! (length data - 1) = 61 then n0 - 1 else n0);
           n2 = (if data ! (length data - 2) = 61 then n1 - 1 else n1)
       in if outputLenMax < n2 then Failed else Success (decode_loop n2 data)))"

subsection \<open>The tables are inverse\<close>

lemma length_tables [simp]: "length g_encodingTable = 64"
  by (simp add: g_encodingTable_def)

lemma distinct_table: "distinct g_encodingTable"
  by code_simp

lemma no_padding_char: "i < 64 \<Longrightarrow> g_encodingTable ! i \<noteq> 61"
proof -
  have "61 \<notin> set g_encodingTable" by code_simp
  then show "i < 64 \<Longrightarrow> g_encodingTable ! i \<noteq> 61" by (metis length_tables nth_mem)
qed

lemma fold_table:
  fixes e :: bytes
  assumes "distinct e" "n \<le> length e" "length t = 256"
  shows "length (fold (\<lambda>i t. t[unat (e ! i) := of_nat i]) [0..<n] t) = 256 \<and>
    (\<forall>i < n. fold (\<lambda>i t. t[unat (e ! i) := of_nat i]) [0..<n] t ! unat (e ! i) = (of_nat i :: u8))"
  using assms(2)
proof (induction n)
  case (Suc n)
  have ne: "unat (e ! i) \<noteq> unat (e ! n)" if "i < n" for i
    using assms(1) Suc.prems that by (simp add: nth_eq_iff_index_eq word_unat_eq_iff [symmetric])
  have "unat (e ! n) < 256" using unsigned_less [of "e ! n", where ?'a = nat] by simp
  moreover have "(x[unat (e ! n) := of_nat n]) ! unat (e ! i) = (if i = n then of_nat n else x ! unat (e ! i))"
    if "length x = 256" "i < Suc n" for x :: bytes and i
    using that ne [of i] calculation by (cases "i = n") simp_all
  ultimately show ?case using Suc by (simp add: less_Suc_eq)
qed (simp add: assms)

lemma sextet_encoding:
  assumes "i < 64"
  shows "sextet (g_encodingTable ! i) = of_nat i"
proof -
  have "g_decodingTable ! unat (g_encodingTable ! i) = of_nat i"
    using fold_table [OF distinct_table, of 64 "replicate 256 0"] assms
    by (simp add: g_decodingTable_def)
  moreover have "g_encodingTable ! i \<noteq> 61"
    using assms no_padding_char by simp
  ultimately show ?thesis
    using assms by (simp add: sextet_def unsigned_of_nat take_bit_nat_eq_self)
qed

subsection \<open>One group\<close>

definition triple_of :: "u8 \<Rightarrow> u8 \<Rightarrow> u8 \<Rightarrow> u32" where
  "triple_of a b c = push_bit 0x10 (ucast a) + push_bit 0x08 (ucast b) + ucast c"

definition sext :: "u32 \<Rightarrow> nat \<Rightarrow> u32" where
  "sext t k = drop_bit (6 * k) t AND 0x3F"

lemma sext_less: "unat (sext t k) < 64"
proof -
  have "sext t k = take_bit 6 (drop_bit (6 * k) t)"
    by (simp add: sext_def take_bit_eq_mask mask_eq_exp_minus_1)
  then show ?thesis
    by (simp only: unsigned_take_bit_eq) (rule take_bit_nat_less_exp [of 6, simplified])
qed

lemma sext_join:
  assumes "t = take_bit 24 t"
  shows "push_bit 18 (sext t 3) + push_bit 12 (sext t 2) + push_bit 6 (sext t 1) + sext t 0 = t"
proof -
  have s: "sext t k = take_bit 6 (drop_bit (6 * k) t)" for k
    by (simp add: sext_def take_bit_eq_mask mask_eq_exp_minus_1)
  have "push_bit 6 (sext t 1) + sext t 0 = take_bit 12 t"
    unfolding s by (subst disjunctive_add) (auto simp: bit_eq_iff bit_simps)
  moreover have "push_bit 12 (sext t 2) + take_bit 12 t = take_bit 18 t"
    unfolding s by (subst disjunctive_add) (auto simp: bit_eq_iff bit_simps)
  moreover have "push_bit 18 (sext t 3) + take_bit 18 t = take_bit 24 t"
    unfolding s by (subst disjunctive_add) (auto simp: bit_eq_iff bit_simps)
  ultimately show ?thesis using assms by (simp add: add.assoc)
qed

lemma triple_bits:
  "triple_of a b c = take_bit 24 (triple_of a b c)"
  "(ucast (drop_bit 16 (triple_of a b c)) :: u8) = a"
  "(ucast (drop_bit 8 (triple_of a b c)) :: u8) = b"
  "(ucast (triple_of a b c) :: u8) = c"
proof -
  have "push_bit 8 (ucast b) + ucast c = (push_bit 8 (ucast b) OR ucast c :: u32)"
    by (rule disjunctive_add) (auto simp: bit_simps dest: bit_imp_le_length)
  moreover have "push_bit 16 (ucast a) + (push_bit 8 (ucast b) OR ucast c)
      = (push_bit 16 (ucast a) OR (push_bit 8 (ucast b) OR ucast c) :: u32)"
    by (rule disjunctive_add) (auto simp: bit_simps dest: bit_imp_le_length)
  ultimately have t: "triple_of a b c = push_bit 16 (ucast a) OR (push_bit 8 (ucast b) OR ucast c)"
    by (simp add: triple_of_def add.assoc)
  show "triple_of a b c = take_bit 24 (triple_of a b c)"
    unfolding t by (rule bit_word_eqI) (auto simp: bit_simps dest: bit_imp_le_length)
  show "(ucast (drop_bit 16 (triple_of a b c)) :: u8) = a"
    "(ucast (drop_bit 8 (triple_of a b c)) :: u8) = b"
    "(ucast (triple_of a b c) :: u8) = c"
    unfolding t by (rule bit_word_eqI, auto simp: bit_simps dest: bit_imp_le_length)+
qed

lemma ucast_and_FF [simp]: "(ucast (x AND 0xFF) :: u8) = ucast (x :: u32)"
proof -
  have "x AND 0xFF = take_bit 8 x" by (simp add: take_bit_eq_mask mask_eq_exp_minus_1)
  then show ?thesis by (intro bit_word_eqI) (simp add: bit_simps)
qed

lemma encode_triple_alt:
  "encode_triple a b c = map (\<lambda>k. g_encodingTable ! unat (sext (triple_of a b c) k)) [3, 2, 1, 0]"
  by (simp add: encode_triple_def triple_of_def sext_def Let_def)

lemma sextet_sext: "sextet (g_encodingTable ! unat (sext t k)) = sext t k"
  using sextet_encoding [OF sext_less [of t k]] by simp

lemma sext_no_pad: "g_encodingTable ! unat (sext t k) \<noteq> 61"
  by (rule no_padding_char) (rule sext_less)

lemma decode_sextets:
  assumes "sextet x3 = sext (triple_of a b c) 3" "sextet x2 = sext (triple_of a b c) 2"
    "sextet x1 = sext (triple_of a b c) 1" "sextet x0 = sext (triple_of a b c) 0"
  shows "decode_quad x3 x2 x1 x0 = [a, b, c]"
proof -
  have "push_bit (3 * 6) (sext (triple_of a b c) 3) + push_bit (2 * 6) (sext (triple_of a b c) 2)
      + push_bit (1 * 6) (sext (triple_of a b c) 1) + push_bit (0 * 6) (sext (triple_of a b c) 0)
      = triple_of a b c"
    using sext_join [OF triple_bits(1)] by simp
  then show ?thesis
    unfolding decode_quad_def assms Let_def by (simp add: triple_bits(2-4))
qed

text \<open>A missing byte is zero, so the character replaced by the padding stands for zero bits.\<close>

lemma sext_zero_tail:
  "sext (triple_of a b 0) 0 = 0" "sext (triple_of a 0 0) 0 = 0" "sext (triple_of a 0 0) 1 = 0"
proof -
  have s: "sext t k = take_bit 6 (drop_bit (6 * k) t)" for t k
    by (simp add: sext_def take_bit_eq_mask mask_eq_exp_minus_1)
  have "push_bit 16 (ucast a) + push_bit 8 (ucast b) = (push_bit 16 (ucast a) OR push_bit 8 (ucast b) :: u32)"
    by (rule disjunctive_add) (auto simp: bit_simps dest: bit_imp_le_length)
  then show "sext (triple_of a b 0) 0 = 0"
    unfolding s triple_of_def by (intro bit_word_eqI) (auto simp: bit_simps)
  show "sext (triple_of a 0 0) 0 = 0" "sext (triple_of a 0 0) 1 = 0"
    unfolding s triple_of_def by (rule bit_word_eqI, auto simp: bit_simps)+
qed

subsection \<open>The whole input\<close>

lemma length_encode_triple [simp]: "length (encode_triple a b c) = 4"
  by (simp add: encode_triple_def Let_def)

lemma groups_of_3: "(5 + n) div 3 = Suc (Suc (Suc n) div 3)" "Suc (Suc (Suc n)) mod 3 = n mod 3"
  by presburger+

lemma length_encode_loop: "length (encode_loop data) = 4 * ((length data + 2) div 3)"
  by (induction data rule: encode_loop.induct) (simp_all add: groups_of_3)

text \<open>The encoder's output with its padding, by recursion.\<close>

fun encode_padded :: "bytes \<Rightarrow> bytes" where
  "encode_padded [] = []"
| "encode_padded [a] = take 2 (encode_triple a 0 0) @ [61, 61]"
| "encode_padded [a, b] = take 3 (encode_triple a b 0) @ [61]"
| "encode_padded (a # b # c # rest) = encode_triple a b c @ encode_padded rest"

lemma mod_3_cases:
  "(length (a # b # c # rest)) mod 3 = length rest mod 3"
  by (simp add: groups_of_3)

lemma encode_padded_eq:
  "(let n = 4 * ((length data + 2) div 3); k = g_modTable ! (length data mod 3)
    in take (n - k) (encode_loop data) @ replicate k 61) = encode_padded data"
proof (induction data rule: encode_loop.induct)
  case (4 a b c rest)
  have m: "length (a # b # c # rest) mod 3 = length rest mod 3" by (rule mod_3_cases)
  let ?k = "g_modTable ! (length rest mod 3)"
  have k: "?k \<le> 2" "length rest = 0 \<Longrightarrow> ?k = 0"
  proof -
    have "length rest mod 3 < 3" by simp
    then have "length rest mod 3 = 0 \<or> length rest mod 3 = 1 \<or> length rest mod 3 = 2" by linarith
    then show "?k \<le> 2" by (auto simp: g_modTable_def)
    show "length rest = 0 \<Longrightarrow> ?k = 0" by (simp add: g_modTable_def)
  qed
  have n: "4 * ((length (a # b # c # rest) + 2) div 3) = 4 + 4 * ((length rest + 2) div 3)"
    by (simp add: groups_of_3)
  have "?k \<le> 4 * ((length rest + 2) div 3)"
  proof (cases "length rest = 0")
    case True
    then show ?thesis using k by simp
  next
    case False
    then have "1 \<le> (length rest + 2) div 3" by (simp add: Suc_le_eq div_greater_zero_iff)
    then show ?thesis using k by linarith
  qed
  then have sub: "4 + 4 * ((length rest + 2) div 3) - ?k = 4 + (4 * ((length rest + 2) div 3) - ?k)" by simp
  have cut: "take (4 + j) (encode_triple a b c @ l) = encode_triple a b c @ take j l" for j l
    by simp
  show ?case
    unfolding Let_def m n sub encode_loop.simps encode_padded.simps cut append_assoc 4 [unfolded Let_def] ..
qed (simp_all add: g_modTable_def encode_triple_def Let_def numeral_2_eq_2)

lemma sextet_pad [simp]: "sextet 61 = 0"
  by (simp add: sextet_def)

lemma length_encode_padded: "length (encode_padded data) = 4 * ((length data + 2) div 3)"
  by (induction data rule: encode_padded.induct) (simp_all add: groups_of_3)

lemma decode_encode_padded: "decode_loop (length data) (encode_padded data) = data"
proof (induction data rule: encode_padded.induct)
  case (2 a)
  have "decode_quad (g_encodingTable ! unat (sext (triple_of a 0 0) 3))
      (g_encodingTable ! unat (sext (triple_of a 0 0) 2)) 61 61 = [a, 0, 0]"
    by (rule decode_sextets) (simp_all add: sextet_sext sext_zero_tail sext_zero_tail(3) [unfolded One_nat_def])
  then show ?case by (simp add: encode_triple_alt)
next
  case (3 a b)
  have "decode_quad (g_encodingTable ! unat (sext (triple_of a b 0) 3))
      (g_encodingTable ! unat (sext (triple_of a b 0) 2))
      (g_encodingTable ! unat (sext (triple_of a b 0) 1)) 61 = [a, b, 0]"
    by (rule decode_sextets) (simp_all add: sextet_sext sext_zero_tail)
  then show ?case by (simp add: encode_triple_alt numeral_2_eq_2)
next
  case (4 a b c rest)
  have "decode_quad (g_encodingTable ! unat (sext (triple_of a b c) 3))
      (g_encodingTable ! unat (sext (triple_of a b c) 2))
      (g_encodingTable ! unat (sext (triple_of a b c) 1))
      (g_encodingTable ! unat (sext (triple_of a b c) 0)) = [a, b, c]"
    by (rule decode_sextets) (simp_all add: sextet_sext)
  with 4 show ?case by (simp add: encode_triple_alt)
qed simp

lemma padding_chars:
  "data \<noteq> [] \<Longrightarrow> (encode_padded data ! (length (encode_padded data) - 1) = 61 \<longleftrightarrow> length data mod 3 \<noteq> 0) \<and>
    (encode_padded data ! (length (encode_padded data) - 2) = 61 \<longleftrightarrow> length data mod 3 = 1)"
proof (induction data rule: encode_padded.induct)
  case (4 a b c rest)
  show ?case
  proof (cases "rest = []")
    case True
    then show ?thesis by (simp add: encode_triple_alt sext_no_pad)
  next
    case False
    then have "4 \<le> length (encode_padded rest)"
      by (cases rest rule: encode_padded.cases) (simp_all add: length_encode_padded)
    moreover from this have "encode_padded rest \<noteq> []" by auto
    ultimately show ?thesis
      using 4 False by (simp add: groups_of_3 nth_append)
  qed
qed (simp_all add: encode_triple_alt sext_no_pad)

lemma base64encode_eq:
  "base64encode data m =
    (if m < 4 * ((length data + 2) div 3) then Failed else Success (encode_padded data))"
  unfolding base64encode_def using encode_padded_eq [of data] by (simp only: Let_def)

subsection \<open>Properties\<close>

text \<open>C22: Base64 round trip: for non-empty data and enough room in both buffers, decoding what
  the encoder wrote gives the data back; with less room each function reports the failure
  instead of writing past the buffer.\<close>

theorem base64_roundtrip:
  assumes "data \<noteq> []"
  shows "base64encode data m =
      (if m < 4 * ((length data + 2) div 3) then Failed else Success (encode_padded data)) \<and>
    base64decode (encode_padded data) m' = (if m' < length data then Failed else Success data)"
proof -
  let ?e = "encode_padded data"
  have len: "length ?e = 4 * ((length data + 2) div 3)" by (rule length_encode_padded)
  have ne: "?e \<noteq> []" using assms by (cases data rule: encode_padded.cases) (simp_all add: encode_triple_alt)
  have "length data mod 3 < 3" by simp
  then consider "length data mod 3 = 0" | "length data mod 3 = 1" | "length data mod 3 = 2" by linarith
  then have "(let n0 = length ?e div 4 * 3;
      n1 = (if ?e ! (length ?e - 1) = 61 then n0 - 1 else n0)
    in if ?e ! (length ?e - 2) = 61 then n1 - 1 else n1) = length data"
    using padding_chars [OF assms] len by cases (simp_all, presburger+)
  then have "base64decode ?e m' = (if m' < length data then Failed else Success (decode_loop (length data) ?e))"
    unfolding base64decode_def using ne len by (simp add: Let_def)
  then show ?thesis
    by (simp add: base64encode_eq decode_encode_padded)
qed

theorem base64_roundtrip_witness:
  "base64encode [77, 97] 8 = Success (encode_padded [77, 97]) \<and>
   base64decode (encode_padded [77, 97]) 2 = Success [77, 97]"
  using base64_roundtrip [of "[77, 97]" 8 2] by simp

end
