(* ===== verification/Interrupts.thy ===== *)
theory Interrupts
  imports Prelude
begin

text \<open>
  Interrupt delivery to Lua: \<^verbatim>\<open>platform/src/elua_int.c\<close>, the interrupt functions of
  \<^verbatim>\<open>platform/src/common.c\<close>, the descriptor table of \<^verbatim>\<open>platform/coolsand/src/platform_int.c\<close>
  and \<^verbatim>\<open>cpu.set_int_handler\<close> of \<^verbatim>\<open>modules/src/cpu.c\<close>.

  An interrupt is queued in a ring of 32 slots, a slot with id 0 being free, and the Lua hook is
  armed; the hook takes one interrupt, calls its Lua handler and disarms itself when the next
  slot is free.  The hook is modelled in two parts, since interrupts arrive while the handler
  runs.  The Lua functions are numbers; \<open>lua_calls\<close> records the calls.
\<close>

subsection \<open>State\<close>

record int_sys =
  read_idx :: u8
  write_idx :: u8
  int_queue :: "(u8 \<times> u16) list"
  int_flags :: "u32 list"
  lua_running :: bool
  hook_set :: bool
  in_hook :: bool
  int_table :: "u8 \<Rightarrow> nat option"
  c_handler_list :: "nat option list"
  lua_calls :: "(nat \<times> u16) list"
  c_calls :: "(nat \<times> u16) list"

abbreviation (input) ELUA_INT_EMPTY_SLOT :: u8 where "ELUA_INT_EMPTY_SLOT \<equiv> 0"
abbreviation (input) ELUA_INT_FIRST_ID :: u8 where "ELUA_INT_FIRST_ID \<equiv> 1"
abbreviation (input) INT_GPIO_POSEDGE :: u8 where "INT_GPIO_POSEDGE \<equiv> 1"
abbreviation (input) INT_GPIO_NEGEDGE :: u8 where "INT_GPIO_NEGEDGE \<equiv> 2"
abbreviation (input) INT_ELUA_LAST :: u8 where "INT_ELUA_LAST \<equiv> 2"
abbreviation (input) INT_QUEUE_SIZE :: nat where "INT_QUEUE_SIZE \<equiv> 32"
abbreviation (input) LUA_INT_MAX_SOURCES :: u8 where "LUA_INT_MAX_SOURCES \<equiv> 128"
abbreviation (input) PLATFORM_INT_OK :: int where "PLATFORM_INT_OK \<equiv> 0"
abbreviation (input) PLATFORM_INT_INVALID :: int where "PLATFORM_INT_INVALID \<equiv> - 2"
abbreviation (input) PLATFORM_INT_NOT_HANDLED :: int where "PLATFORM_INT_NOT_HANDLED \<equiv> - 3"

definition INT_IDX_MASK :: u8 where
  "INT_IDX_MASK = 0x1F"

definition int_sys_init :: int_sys where
  "int_sys_init = \<lparr>read_idx = 0, write_idx = 0, int_queue = replicate INT_QUEUE_SIZE (0, 0),
     int_flags = replicate 4 0, lua_running = True, hook_set = False, in_hook = False,
     int_table = (\<lambda>_. None), c_handler_list = [None, None], lua_calls = [], c_calls = []\<rparr>"

subsection \<open>Enabling\<close>

definition elua_int_enable :: "u8 \<Rightarrow> int_sys \<Rightarrow> int_sys" where
  "elua_int_enable i s =
    (if i < LUA_INT_MAX_SOURCES
     then (let w = unat (drop_bit 5 i)
           in s\<lparr>int_flags := (int_flags s)[w := (int_flags s ! w) OR push_bit (unat (i AND 0x1F)) 1]\<rparr>)
     else s)"

definition elua_int_disable :: "u8 \<Rightarrow> int_sys \<Rightarrow> int_sys" where
  "elua_int_disable i s =
    (if i < LUA_INT_MAX_SOURCES
     then (let w = unat (drop_bit 5 i)
           in s\<lparr>int_flags := (int_flags s)[w := (int_flags s ! w) AND NOT (push_bit (unat (i AND 0x1F)) 1)]\<rparr>)
     else s)"

definition elua_int_is_enabled :: "u8 \<Rightarrow> int_sys \<Rightarrow> bool" where
  "elua_int_is_enabled i s =
    (if i < LUA_INT_MAX_SOURCES
     then (int_flags s ! unat (drop_bit 5 i)) AND push_bit (unat (i AND 0x1F)) 1 \<noteq> 0
     else False)"

definition elua_int_disable_all :: "int_sys \<Rightarrow> int_sys" where
  "elua_int_disable_all s = s\<lparr>int_flags := fold (\<lambda>i f. f[i := 0]) [0..<4] (int_flags s)\<rparr>"

definition elua_int_cleanup :: "int_sys \<Rightarrow> int_sys" where
  "elua_int_cleanup s = (elua_int_disable_all s)\<lparr>read_idx := 0, write_idx := 0,
     int_queue := replicate INT_QUEUE_SIZE (0, 0)\<rparr>"

subsection \<open>Queueing and the hook\<close>

definition elua_int_add :: "u8 \<Rightarrow> u16 \<Rightarrow> int_sys \<Rightarrow> int \<times> int_sys" where
  "elua_int_add inttype resnum s =
    (if inttype < ELUA_INT_FIRST_ID \<or> INT_ELUA_LAST < inttype then (PLATFORM_ERR, s)
     else if \<not> lua_running s \<or> \<not> elua_int_is_enabled inttype s then (PLATFORM_ERR, s)
     else if fst (int_queue s ! unat (write_idx s)) \<noteq> ELUA_INT_EMPTY_SLOT then (PLATFORM_ERR, s)
     else (PLATFORM_OK,
       s\<lparr>int_queue := (int_queue s)[unat (write_idx s) := (inttype, resnum)],
         write_idx := (write_idx s + 1) AND INT_IDX_MASK, hook_set := True\<rparr>))"

text \<open>The first part of \<open>elua_int_hook\<close>: take the interrupt and start its handler, if it is
  still enabled and has one.  A slot keeps its resource number when it is freed.\<close>

definition hook_take :: "int_sys \<Rightarrow> (u8 \<times> u16) \<times> int_sys" where
  "hook_take s =
    (let r = unat (read_idx s); crt = int_queue s ! r
     in (crt, s\<lparr>int_queue := (int_queue s)[r := (ELUA_INT_EMPTY_SLOT, snd crt)],
                read_idx := (read_idx s + 1) AND INT_IDX_MASK\<rparr>))"

definition hook_call :: "u8 \<times> u16 \<Rightarrow> int_sys \<Rightarrow> int_sys" where
  "hook_call crt s =
    (if elua_int_is_enabled (fst crt) s
     then (case int_table s (fst crt) of
             Some f \<Rightarrow> s\<lparr>lua_calls := lua_calls s @ [(f, snd crt)]\<rparr>
           | None \<Rightarrow> s)
     else s)"

definition hook_begin :: "int_sys \<Rightarrow> int_sys" where
  "hook_begin s = (let (crt, s1) = hook_take s in (hook_call crt s1)\<lparr>in_hook := True\<rparr>)"

text \<open>The second part: with interrupts off, disarm the hook when nothing is queued.\<close>

definition hook_finish :: "int_sys \<Rightarrow> int_sys" where
  "hook_finish s =
    (if fst (int_queue s ! unat (read_idx s)) = ELUA_INT_EMPTY_SLOT
     then s\<lparr>hook_set := False, in_hook := False\<rparr> else s\<lparr>in_hook := False\<rparr>)"

text \<open>A handler that raises an error leaves through \<^verbatim>\<open>longjmp\<close>: the second part is skipped.\<close>

definition hook_abort :: "int_sys \<Rightarrow> int_sys" where
  "hook_abort s = s\<lparr>in_hook := False\<rparr>"

subsection \<open>C handlers and the common entry point\<close>

definition elua_int_set_c_handler :: "u8 \<Rightarrow> nat option \<Rightarrow> int_sys \<Rightarrow> nat option \<times> int_sys" where
  "elua_int_set_c_handler inttype phandler s =
    (if inttype < ELUA_INT_FIRST_ID \<or> INT_ELUA_LAST < inttype then (None, s)
     else (let i = unat (inttype - ELUA_INT_FIRST_ID)
           in (c_handler_list s ! i, s\<lparr>c_handler_list := (c_handler_list s)[i := phandler]\<rparr>)))"

definition elua_int_get_c_handler :: "u8 \<Rightarrow> int_sys \<Rightarrow> nat option" where
  "elua_int_get_c_handler inttype s =
    (if inttype < ELUA_INT_FIRST_ID \<or> INT_ELUA_LAST < inttype then None
     else c_handler_list s ! unat (inttype - ELUA_INT_FIRST_ID))"

definition cmn_int_handler :: "u8 \<Rightarrow> u16 \<Rightarrow> int_sys \<Rightarrow> int_sys" where
  "cmn_int_handler i resnum s =
    (let s1 = snd (elua_int_add i resnum s)
     in case elua_int_get_c_handler i s1 of
          Some h \<Rightarrow> s1\<lparr>c_calls := c_calls s1 @ [(h, resnum)]\<rparr>
        | None \<Rightarrow> s1)"

text \<open>The descriptor table has an entry for both edge interrupts; their three functions return 0.\<close>

definition gpioh_set_int_status :: "u8 \<Rightarrow> u16 \<Rightarrow> int \<Rightarrow> int" where
  "gpioh_set_int_status i resnum status = 0"

definition gpioh_get_int_status :: "u8 \<Rightarrow> u16 \<Rightarrow> int" where
  "gpioh_get_int_status i resnum = 0"

definition gpioh_get_int_flag :: "u8 \<Rightarrow> u16 \<Rightarrow> int \<Rightarrow> int" where
  "gpioh_get_int_flag i resnum clear = 0"

definition platform_cpu_set_interrupt :: "u8 \<Rightarrow> u16 \<Rightarrow> int \<Rightarrow> int" where
  "platform_cpu_set_interrupt i resnum status =
    (if i < ELUA_INT_FIRST_ID \<or> INT_ELUA_LAST < i then PLATFORM_INT_INVALID
     else gpioh_set_int_status i resnum status)"

definition platform_cpu_get_interrupt :: "u8 \<Rightarrow> u16 \<Rightarrow> int" where
  "platform_cpu_get_interrupt i resnum =
    (if i < ELUA_INT_FIRST_ID \<or> INT_ELUA_LAST < i then PLATFORM_INT_INVALID
     else gpioh_get_int_status i resnum)"

definition platform_cpu_get_interrupt_flag :: "u8 \<Rightarrow> u16 \<Rightarrow> int \<Rightarrow> int" where
  "platform_cpu_get_interrupt_flag i resnum clear =
    (if i < ELUA_INT_FIRST_ID \<or> INT_ELUA_LAST < i then PLATFORM_INT_INVALID
     else gpioh_get_int_flag i resnum clear)"

text \<open>\<^verbatim>\<open>cpu.set_int_handler(id, f)\<close> with \<open>f\<close> a function or \<open>nil\<close>; the previous handler is returned,
  \<open>None\<close> outside is the Lua error.\<close>

definition cpu_set_int_handler :: "int \<Rightarrow> nat option \<Rightarrow> int_sys \<Rightarrow> (nat option \<times> int_sys) option" where
  "cpu_set_int_handler i f s =
    (if i < 1 \<or> 2 < i then None
     else (let n = of_int i;
               s1 = (case f of None \<Rightarrow> elua_int_disable n s | Some _ \<Rightarrow> elua_int_enable n s)
           in Some (int_table s1 n, s1\<lparr>int_table := (int_table s1)(n := f)\<rparr>)))"

subsection \<open>The ring of interrupts\<close>

definition int_repr :: "int_sys \<Rightarrow> (u8 \<times> u16) list \<Rightarrow> bool" where
  "int_repr s xs \<longleftrightarrow>
     length (int_queue s) = 32 \<and> length (int_flags s) = 4 \<and> unat (read_idx s) < 32 \<and> length xs \<le> 32 \<and>
     unat (write_idx s) = (unat (read_idx s) + length xs) mod 32 \<and>
     (\<forall>e \<in> set xs. fst e \<noteq> 0) \<and> ring_slice (int_queue s) (unat (read_idx s)) (length xs) = xs \<and>
     (\<forall>i. length xs \<le> i \<and> i < 32 \<longrightarrow> fst (int_queue s ! ((unat (read_idx s) + i) mod 32)) = 0)"

lemma next_idx: "unat i < 32 \<Longrightarrow> unat ((i + 1) AND INT_IDX_MASK) = Suc (unat i) mod 32"
proof -
  assume i: "unat i < 32"
  have "(i + 1) AND INT_IDX_MASK = take_bit 5 (i + 1)"
    by (simp add: INT_IDX_MASK_def take_bit_eq_mask mask_eq_exp_minus_1)
  moreover have "unat (i + 1) = Suc (unat i)"
    using i by (intro unat_add_one_less(1) [of i 32]) (simp add: word_less_nat_alt)
  ultimately show ?thesis by (simp add: take_bit_eq_mod unat_mod_distrib)
qed

lemma int_repr_init: "int_repr int_sys_init []"
  by (simp add: int_repr_def int_sys_init_def)

lemma int_repr_cong:
  "int_repr s xs \<Longrightarrow> int_queue s' = int_queue s \<Longrightarrow> length (int_flags s') = length (int_flags s) \<Longrightarrow>
    read_idx s' = read_idx s \<Longrightarrow> write_idx s' = write_idx s \<Longrightarrow> int_repr s' xs"
  by (simp add: int_repr_def)

text \<open>The slot under the write index is free exactly when there is room, and the one under the
  read index exactly when nothing is queued.\<close>

lemma write_slot:
  assumes "int_repr s xs"
  shows "fst (int_queue s ! unat (write_idx s)) = 0 \<longleftrightarrow> length xs < 32"
proof (cases "length xs < 32")
  case True
  then show ?thesis using assms by (simp add: int_repr_def)
next
  case False
  then have 32: "length xs = 32" using assms by (simp add: int_repr_def)
  then obtain e ys where xs: "xs = e # ys" by (cases xs) auto
  have "unat (write_idx s) = unat (read_idx s)"
    using assms 32 by (simp add: int_repr_def)
  moreover have "ring_slice (int_queue s) (unat (read_idx s)) (Suc (length ys)) = e # ys"
    using assms xs by (simp add: int_repr_def)
  ultimately have "int_queue s ! unat (write_idx s) = e"
    using assms by (simp add: ring_slice_Cons int_repr_def)
  then show ?thesis using assms 32 xs by (simp add: int_repr_def)
qed

lemma read_slot:
  assumes "int_repr s xs"
  shows "fst (int_queue s ! unat (read_idx s)) = 0 \<longleftrightarrow> xs = []"
    "xs = e # ys \<Longrightarrow> int_queue s ! unat (read_idx s) = e"
proof -
  show one: "int_queue s ! unat (read_idx s) = e" if "xs = e # ys" for e ys
    using assms that by (auto simp: int_repr_def ring_slice_Cons)
  show "fst (int_queue s ! unat (read_idx s)) = 0 \<longleftrightarrow> xs = []"
  proof (cases xs)
    case Nil
    then show ?thesis using assms by (auto simp: int_repr_def dest: spec [of _ 0])
  next
    case (Cons e ys)
    then show ?thesis using one [OF Cons] assms by (simp add: int_repr_def)
  qed
qed

lemma int_repr_push:
  assumes R: "int_repr s xs" and len: "length xs < 32" and e: "fst e \<noteq> 0"
  shows "int_repr (s\<lparr>int_queue := (int_queue s)[unat (write_idx s) := e],
      write_idx := (write_idx s + 1) AND INT_IDX_MASK, hook_set := h\<rparr>) (xs @ [e])"
proof -
  let ?r = "unat (read_idx s)" and ?n = "length xs"
  have L: "length (int_queue s) = 32" and w: "unat (write_idx s) = (?r + ?n) mod 32"
    using R by (simp_all add: int_repr_def)
  have "unat (write_idx s) < 32" using w by simp
  from next_idx [OF this] have "unat ((write_idx s + 1) AND INT_IDX_MASK) = (?r + Suc ?n) mod 32"
    using w by (simp add: mod_Suc_eq)
  moreover have "ring_slice ((int_queue s)[(?r + ?n) mod 32 := e]) ?r (Suc ?n) = xs @ [e]"
    using ring_slice_push [of ?n "int_queue s" ?r e] R len L by (simp add: int_repr_def)
  moreover have "fst ((int_queue s)[(?r + ?n) mod 32 := e] ! ((?r + i) mod 32)) = 0"
    if "Suc ?n \<le> i" "i < 32" for i
  proof -
    have "(?r + ?n) mod 32 \<noteq> (?r + i) mod 32" using that by (intro ring_index_neq) auto
    then show ?thesis using R that by (simp add: int_repr_def)
  qed
  ultimately show ?thesis
    using R len e w by (simp add: int_repr_def Suc_le_eq)
qed

lemma int_repr_pop:
  assumes R: "int_repr s (e # ys)"
  shows "fst (hook_take s) = e" "int_repr (snd (hook_take s)) ys"
proof -
  let ?r = "unat (read_idx s)" and ?n = "length ys"
  have r: "?r < 32" and L: "length (int_queue s) = 32" and n: "Suc ?n \<le> 32"
    using R by (simp_all add: int_repr_def)
  show e: "fst (hook_take s) = e"
    using read_slot(2) [OF R refl] by (simp add: hook_take_def Let_def)
  let ?q = "(int_queue s)[?r := (0, snd (int_queue s ! ?r))]"
  have idx: "(Suc ?r mod 32 + i) mod 32 = (?r + Suc i) mod 32" for i
    by (simp add: mod_add_left_eq)
  have other: "?q ! ((?r + Suc i) mod 32) = int_queue s ! ((?r + Suc i) mod 32)" if "Suc i < 32" for i
  proof -
    have "(?r + 0) mod 32 \<noteq> (?r + Suc i) mod 32" using that by (intro ring_index_neq) auto
    then show ?thesis using r by (simp add: nth_list_update_neq)
  qed
  have xs: "int_queue s ! ((?r + i) mod 32) = (e # ys) ! i" if "i < Suc ?n" for i
    using R that L nth_ring_slice [of i "Suc ?n" "int_queue s" ?r] by (simp add: int_repr_def)
  have "ring_slice ?q (Suc ?r mod 32) ?n = ys"
  proof (rule nth_equalityI)
    fix i assume "i < length (ring_slice ?q (Suc ?r mod 32) ?n)"
    then have i: "i < ?n" by simp
    then have "ring_slice ?q (Suc ?r mod 32) ?n ! i = ?q ! ((?r + Suc i) mod 32)"
      using L idx [of i] by (simp add: nth_ring_slice)
    then show "ring_slice ?q (Suc ?r mod 32) ?n ! i = ys ! i"
      using i n other [of i] xs [of "Suc i"] by simp
  qed simp
  moreover have "fst (?q ! ((Suc ?r mod 32 + i) mod 32)) = 0" if "?n \<le> i" "i < 32" for i
  proof (cases "i = 31")
    case True
    then have "(?r + Suc i) mod 32 = ?r" using r by simp
    then show ?thesis using idx [of i] r L by simp
  next
    case False
    then have i: "Suc i < 32" "length (e # ys) \<le> Suc i" using that by simp_all
    have "fst (int_queue s ! ((?r + j) mod 32)) = 0" if "length (e # ys) \<le> j" "j < 32" for j
      using R that by (simp add: int_repr_def)
    from this [OF i(2,1)] show ?thesis by (simp only: idx other [OF i(1)])
  qed
  moreover have "unat (write_idx s) = (Suc ?r mod 32 + ?n) mod 32"
    using R idx [of ?n] by (simp add: int_repr_def)
  ultimately show "int_repr (snd (hook_take s)) ys"
    using R next_idx [OF r] n by (simp add: int_repr_def hook_take_def Let_def)
qed

subsection \<open>The enable bits\<close>

lemma id_split:
  fixes i :: u8
  shows "unat (drop_bit 5 i) = unat i div 32" "unat (i AND 0x1F) = unat i mod 32"
proof -
  show "unat (drop_bit 5 i) = unat i div 32"
    by (simp add: drop_bit_eq_div unat_div_distrib)
  have "i AND 0x1F = take_bit 5 i" by (simp add: take_bit_eq_mask mask_eq_exp_minus_1)
  then show "unat (i AND 0x1F) = unat i mod 32"
    by (simp add: take_bit_eq_mod unat_mod_distrib)
qed

lemma enabled_bit:
  "elua_int_is_enabled i s \<longleftrightarrow> i < 128 \<and> bit (int_flags s ! (unat i div 32)) (unat i mod 32)"
proof -
  have "x AND push_bit n 1 \<noteq> 0 \<longleftrightarrow> bit x n" if "n < 32" for x :: u32 and n
    using that by (simp add: push_bit_eq_mult and_exp_eq_0_iff_not_bit)
  then show ?thesis by (simp add: elua_int_is_enabled_def id_split)
qed

lemma enabled_enable:
  assumes "length (int_flags s) = 4"
  shows "elua_int_is_enabled j (elua_int_enable i s) \<longleftrightarrow> elua_int_is_enabled j s \<or> (j = i \<and> i < 128)"
    "elua_int_is_enabled j (elua_int_disable i s) \<longleftrightarrow> elua_int_is_enabled j s \<and> j \<noteq> i"
proof -
  have lt: "unat i div 32 < 4" if "i < 128"
    using that by (simp add: word_less_nat_alt)
  have same: "j = i \<longleftrightarrow> unat j div 32 = unat i div 32 \<and> unat j mod 32 = unat i mod 32"
    by (metis div_mult_mod_eq word_unat_eq_iff)
  show "elua_int_is_enabled j (elua_int_enable i s) \<longleftrightarrow> elua_int_is_enabled j s \<or> (j = i \<and> i < 128)"
    using assms lt same
    by (cases "unat j div 32 = unat i div 32")
      (auto simp: enabled_bit elua_int_enable_def Let_def id_split bit_simps)
  show "elua_int_is_enabled j (elua_int_disable i s) \<longleftrightarrow> elua_int_is_enabled j s \<and> j \<noteq> i"
    using assms lt same
    by (cases "unat j div 32 = unat i div 32")
      (auto simp: enabled_bit elua_int_disable_def Let_def id_split bit_simps)
qed

subsection \<open>Runs\<close>

text \<open>Interrupts may be added at any moment; the hook runs when it is armed and not already
  running, and its handler returns or raises an error; the queue may be cleaned up.  A run collects
  the interrupts accepted and those taken since the last clean-up, and whether the hook was ever left
  armed over an empty ring: by a handler that raised an error with nothing waiting, or by a
  clean-up while the hook was armed, which nothing under \<^verbatim>\<open>src/\<close> does.\<close>

definition nothing_waits :: "int_sys \<Rightarrow> bool" where
  "nothing_waits s \<longleftrightarrow> fst (int_queue s ! unat (read_idx s)) = ELUA_INT_EMPTY_SLOT"

inductive int_run :: "int_sys \<Rightarrow> (u8 \<times> u16) list \<Rightarrow> (u8 \<times> u16) list \<Rightarrow> bool \<Rightarrow> int_sys \<Rightarrow> bool" for s0 where
  start: "int_run s0 [] [] False s0"
| accept: "int_run s0 acc tak stale s \<Longrightarrow> elua_int_add i r s = (PLATFORM_OK, s1) \<Longrightarrow>
    int_run s0 (acc @ [(i, r)]) tak stale s1"
| reject: "int_run s0 acc tak stale s \<Longrightarrow> elua_int_add i r s = (PLATFORM_ERR, s1) \<Longrightarrow> int_run s0 acc tak stale s1"
| set_handler: "int_run s0 acc tak stale s \<Longrightarrow> cpu_set_int_handler i f s = Some (old, s1) \<Longrightarrow>
    int_run s0 acc tak stale s1"
| hook_begins: "int_run s0 acc tak stale s \<Longrightarrow> hook_set s \<Longrightarrow> \<not> in_hook s \<Longrightarrow>
    int_run s0 acc (tak @ [fst (hook_take s)]) stale (hook_begin s)"
| hook_finishes: "int_run s0 acc tak stale s \<Longrightarrow> in_hook s \<Longrightarrow> int_run s0 acc tak stale (hook_finish s)"
| handler_fails: "int_run s0 acc tak stale s \<Longrightarrow> in_hook s \<Longrightarrow>
    int_run s0 acc tak (stale \<or> nothing_waits s) (hook_abort s)"
| cleans_up: "int_run s0 acc tak stale s \<Longrightarrow>
    int_run s0 [] [] (stale \<or> hook_set s \<and> \<not> in_hook s) (elua_int_cleanup s)"

inductive_cases int_run_elim: "int_run s0 acc tak stale s"

definition hook_inv :: "int_sys \<Rightarrow> (u8 \<times> u16) list \<Rightarrow> bool" where
  "hook_inv s xs \<longleftrightarrow> int_repr s xs \<and> (hook_set s \<longleftrightarrow> xs \<noteq> [] \<or> in_hook s)"

lemma elua_int_add_cases:
  assumes "int_repr s xs"
  shows "elua_int_add i r s =
    (if 1 \<le> i \<and> i \<le> 2 \<and> lua_running s \<and> elua_int_is_enabled i s \<and> length xs < 32
     then (PLATFORM_OK, s\<lparr>int_queue := (int_queue s)[unat (write_idx s) := (i, r)],
         write_idx := (write_idx s + 1) AND INT_IDX_MASK, hook_set := True\<rparr>)
     else (PLATFORM_ERR, s))"
proof -
  have "i < 1 \<longleftrightarrow> \<not> 1 \<le> i" "2 < i \<longleftrightarrow> \<not> i \<le> 2" by (simp_all add: linorder_not_le)
  then show ?thesis
    using write_slot [OF assms] by (cases "1 \<le> i"; cases "i \<le> 2"; simp add: elua_int_add_def)
qed

lemma hook_inv_add:
  assumes "hook_inv s xs" "elua_int_add i r s = (res, s1)"
  shows "res = PLATFORM_OK \<longrightarrow> hook_inv s1 (xs @ [(i, r)])" "res = PLATFORM_ERR \<longrightarrow> s1 = s"
proof -
  have R: "int_repr s xs" using assms(1) by (simp add: hook_inv_def)
  show "res = PLATFORM_ERR \<longrightarrow> s1 = s"
    using assms(2) by (auto simp: elua_int_add_cases [OF R] split: if_splits)
  show "res = PLATFORM_OK \<longrightarrow> hook_inv s1 (xs @ [(i, r)])"
  proof
    assume "res = PLATFORM_OK"
    then have c: "1 \<le> i" "length xs < 32" and s1: "s1 = s\<lparr>int_queue := (int_queue s)[unat (write_idx s) := (i, r)],
         write_idx := (write_idx s + 1) AND INT_IDX_MASK, hook_set := True\<rparr>"
      using assms(2) by (auto simp: elua_int_add_cases [OF R] split: if_splits)
    have "i \<noteq> 0" using c(1) by auto
    then show "hook_inv s1 (xs @ [(i, r)])"
      using int_repr_push [OF R c(2), of "(i, r)" True] by (simp add: s1 hook_inv_def)
  qed
qed

lemma hook_call_fields [simp]:
  "int_queue (hook_call c s) = int_queue s" "int_flags (hook_call c s) = int_flags s"
  "read_idx (hook_call c s) = read_idx s" "write_idx (hook_call c s) = write_idx s"
  "hook_set (hook_call c s) = hook_set s" "in_hook (hook_call c s) = in_hook s"
  by (simp_all add: hook_call_def split: option.splits)

lemma hook_inv_begin:
  assumes "hook_inv s xs" "hook_set s" "\<not> in_hook s"
  shows "\<exists>ys. xs = fst (hook_take s) # ys \<and> hook_inv (hook_begin s) ys"
proof -
  obtain e ys where xs: "xs = e # ys" using assms by (cases xs) (auto simp: hook_inv_def)
  have R: "int_repr s (e # ys)" using assms xs by (simp add: hook_inv_def)
  have "int_repr (hook_begin s) ys"
    using int_repr_pop(2) [OF R]
    by (rule int_repr_cong) (simp_all add: hook_begin_def case_prod_beta)
  moreover have "hook_set (hook_begin s)" "in_hook (hook_begin s)"
    using assms(2) by (simp_all add: hook_begin_def case_prod_beta hook_take_def Let_def)
  ultimately show ?thesis
    using int_repr_pop(1) [OF R] by (simp add: xs hook_inv_def)
qed

lemma hook_inv_finish:
  assumes "hook_inv s xs"
  shows "hook_inv (hook_finish s) xs"
proof -
  have R: "int_repr s xs" and "hook_set s \<or> xs = []" using assms by (auto simp: hook_inv_def)
  moreover have "int_repr (hook_finish s) xs"
    using R by (rule int_repr_cong) (simp_all add: hook_finish_def)
  ultimately show ?thesis
    using read_slot(1) [OF R] by (auto simp: hook_inv_def hook_finish_def)
qed

lemma hook_inv_set_handler:
  "hook_inv s xs \<Longrightarrow> cpu_set_int_handler i f s = Some (old, s1) \<Longrightarrow> hook_inv s1 xs"
  by (auto simp: cpu_set_int_handler_def hook_inv_def Let_def elua_int_enable_def elua_int_disable_def
      split: if_splits option.splits elim!: int_repr_cong)

lemma hook_inv_abort:
  assumes "hook_inv s xs" "in_hook s" "\<not> nothing_waits s"
  shows "hook_inv (hook_abort s) xs"
proof -
  have R: "int_repr s xs" using assms by (simp add: hook_inv_def)
  then have "xs \<noteq> []" using assms(3) read_slot(1) [OF R] by (simp add: nothing_waits_def)
  moreover have "int_repr (hook_abort s) xs"
    using R by (rule int_repr_cong) (simp_all add: hook_abort_def)
  ultimately show ?thesis using assms by (simp add: hook_inv_def hook_abort_def)
qed

lemma length_clear [simp]: "length (fold (\<lambda>i f. f[i := a]) is f) = length f"
  by (induction "is" arbitrary: f) simp_all

lemma cleanup_fields:
  "int_repr s xs \<Longrightarrow> int_repr (elua_int_cleanup s) []"
  "hook_set (elua_int_cleanup s) = hook_set s" "in_hook (elua_int_cleanup s) = in_hook s"
  by (simp_all add: elua_int_cleanup_def elua_int_disable_all_def int_repr_def del: upt_rec_numeral)

lemma hook_inv_cleanup:
  "hook_inv s xs \<Longrightarrow> \<not> (hook_set s \<and> \<not> in_hook s) \<Longrightarrow> hook_inv (elua_int_cleanup s) []"
  using cleanup_fields(1) [of s xs] by (auto simp: hook_inv_def cleanup_fields(2,3))

lemma int_run_inv:
  "int_run s0 acc tak stale s \<Longrightarrow> hook_inv s0 [] \<Longrightarrow> \<not> stale \<Longrightarrow> \<exists>xs. hook_inv s xs \<and> acc = tak @ xs"
proof (induction rule: int_run.induct)
  case (accept acc tak stale s i r s1)
  then obtain xs where "hook_inv s xs" "acc = tak @ xs" by blast
  with hook_inv_add(1) [OF _ accept.hyps(2)] show ?case by (intro exI [of _ "xs @ [(i, r)]"]) simp
next
  case (reject acc tak stale s i r s1)
  then show ?case using hook_inv_add(2) by blast
next
  case (set_handler acc tak stale s i f old s1)
  then show ?case using hook_inv_set_handler by blast
next
  case (hook_begins acc tak stale s)
  then obtain xs where xs: "hook_inv s xs" "acc = tak @ xs" by blast
  with hook_inv_begin [OF xs(1) hook_begins.hyps(2,3)] show ?case by auto
next
  case (hook_finishes acc tak stale s)
  then show ?case using hook_inv_finish by blast
next
  case (handler_fails acc tak stale s)
  then show ?case using hook_inv_abort by blast
next
  case (cleans_up acc tak stale s)
  then show ?case using hook_inv_cleanup by fastforce
qed simp

subsection \<open>Properties\<close>

text \<open>C6: In every run from the initial state - interrupts, runs of the hook, handlers that
  return, that raise an error or that are changed, clean-ups - in which the hook was not left armed
  over an empty ring (by an error of a handler while nothing waited, or a clean-up of an armed
  hook), the interrupts taken by the hook, followed by those in the ring, are exactly the
  accepted ones in order since the last clean-up, and the hook is armed exactly when an interrupt
  waits or the handler runs.\<close>

theorem int_run_fifo:
  assumes "int_run int_sys_init acc tak False s"
  shows "\<exists>xs. int_repr s xs \<and> acc = tak @ xs \<and> (hook_set s \<longleftrightarrow> xs \<noteq> [] \<or> in_hook s)"
proof -
  have "hook_inv int_sys_init []"
    by (simp add: hook_inv_def int_repr_init) (simp add: int_sys_init_def)
  from int_run_inv [OF assms this] show ?thesis by (auto simp: hook_inv_def)
qed

text \<open>A source enabled with a handler, as \<open>cpu.set_int_handler(1, f)\<close> leaves it.\<close>

definition demo_int :: int_sys where
  "demo_int = (elua_int_enable 1 int_sys_init)\<lparr>int_table := (\<lambda>_. None)(1 := Some 7)\<rparr>"

lemma demo_int_run: "int_run int_sys_init [] [] False demo_int"
proof (rule int_run.set_handler [OF int_run.start])
  show "cpu_set_int_handler 1 (Some 7) int_sys_init = Some (None, demo_int)"
    by (simp add: cpu_set_int_handler_def Let_def elua_int_enable_def demo_int_def) (simp add: int_sys_init_def)
qed

lemma demo_int_add: "elua_int_add 1 5 demo_int = (PLATFORM_OK, snd (elua_int_add 1 5 demo_int))"
  by (simp add: demo_int_def int_sys_init_def elua_int_enable_def elua_int_add_def elua_int_is_enabled_def)

text \<open>Two interrupts are accepted; the handler of the first one raises an error.\<close>

definition demo_two :: int_sys where
  "demo_two = snd (elua_int_add 1 6 (snd (elua_int_add 1 5 demo_int)))"

lemmas demo_int_simps = demo_two_def demo_int_def int_sys_init_def elua_int_enable_def elua_int_add_def
  elua_int_is_enabled_def hook_begin_def hook_take_def hook_call_def hook_finish_def hook_abort_def
  INT_IDX_MASK_def nothing_waits_def

lemma demo_two_run:
  "int_run int_sys_init [(1, 5), (1, 6)] [(1, 5)] False (hook_abort (hook_begin demo_two))"
proof -
  have "elua_int_add 1 6 (snd (elua_int_add 1 5 demo_int)) = (PLATFORM_OK, demo_two)"
    by (simp add: demo_int_simps)
  from int_run.accept [OF int_run.accept [OF demo_int_run demo_int_add] this]
  have "int_run int_sys_init [(1, 5), (1, 6)] [] False demo_two" by simp
  then have "int_run int_sys_init [(1, 5), (1, 6)] ([] @ [fst (hook_take demo_two)]) False (hook_begin demo_two)"
    by (rule int_run.hook_begins) (simp_all add: demo_int_simps)
  moreover have "fst (hook_take demo_two) = (1, 5)"
    by (simp add: demo_int_simps Let_def)
  moreover have "in_hook (hook_begin demo_two)"
    by (simp add: hook_begin_def case_prod_beta)
  ultimately have "int_run int_sys_init [(1, 5), (1, 6)] [(1, 5)] (False \<or> nothing_waits (hook_begin demo_two))
      (hook_abort (hook_begin demo_two))"
    by (intro int_run.handler_fails) simp_all
  moreover have "\<not> nothing_waits (hook_begin demo_two)"
    by (simp add: demo_int_simps Let_def)
  ultimately show ?thesis by simp
qed

theorem int_run_fifo_witness:
  "\<exists>xs. int_repr (hook_abort (hook_begin demo_two)) xs \<and> [(1, 5), (1, 6)] = [(1, 5)] @ xs \<and>
    (hook_set (hook_abort (hook_begin demo_two)) \<longleftrightarrow> xs \<noteq> [] \<or> in_hook (hook_abort (hook_begin demo_two)))"
  by (rule int_run_fifo [OF demo_two_run])

text \<open>Enabling and disabling an interrupt source changes exactly the bit of that source, and
  an interrupt is accepted exactly when its id is one of the two edge interrupts, a Lua state
  exists, the source is enabled and fewer than 32 interrupts wait.\<close>

theorem int_enable_accept:
  assumes "int_repr s xs"
  shows "(elua_int_is_enabled j (elua_int_enable i s) \<longleftrightarrow> elua_int_is_enabled j s \<or> (j = i \<and> i < LUA_INT_MAX_SOURCES)) \<and>
    (elua_int_is_enabled j (elua_int_disable i s) \<longleftrightarrow> elua_int_is_enabled j s \<and> j \<noteq> i) \<and>
    (fst (elua_int_add i r s) = PLATFORM_OK \<longleftrightarrow>
      1 \<le> i \<and> i \<le> INT_ELUA_LAST \<and> lua_running s \<and> elua_int_is_enabled i s \<and> length xs < 32)"
proof -
  have "length (int_flags s) = 4" using assms by (simp add: int_repr_def)
  then show ?thesis by (simp add: enabled_enable elua_int_add_cases [OF assms])
qed

theorem int_enable_accept_witness:
  "elua_int_is_enabled 1 (elua_int_enable 1 int_sys_init)"
  using int_enable_accept [OF int_repr_init, of 1 1 0] by simp

text \<open>When a Lua handler raises an error, the hook stays armed although the ring is empty;
  its next run advances the read index past the write index, and the interrupt accepted after
  that stays in the ring with the hook disarmed: it is not delivered.\<close>

theorem handler_error_loses_interrupt:
  "let s1 = hook_abort (hook_begin (snd (elua_int_add 1 5 demo_int)));
       s2 = hook_finish (hook_begin s1);
       (res, s3) = elua_int_add 1 6 s2;
       s4 = hook_finish (hook_begin s3)
   in hook_set s1 \<and> int_repr s1 [] \<and> res = PLATFORM_OK \<and> hook_set s3 \<and>
      \<not> hook_set s4 \<and> int_queue s4 ! 1 = (1, 6) \<and> lua_calls s4 = [(7, 5)]"
  by (simp add: demo_int_def int_sys_init_def elua_int_enable_def elua_int_add_def elua_int_is_enabled_def
      hook_begin_def hook_take_def hook_call_def hook_finish_def hook_abort_def Let_def int_repr_def INT_IDX_MASK_def)
    (auto simp: nth_list_update)

end
