(* ===== verification/Rtos.thy ===== *)
theory Rtos
  imports Prelude
begin

text \<open>
  The task interface: \<^verbatim>\<open>platform/coolsand/src/platform_rtos.c\<close> (the 30-entry timer table, the
  power-on flag, sending and receiving messages) and \<^verbatim>\<open>modules/src/rtos.c\<close> (what a message looks
  like to Lua).

  OpenAT calls are recorded in \<open>rtos_calls\<close>; their results (a new timer handle, whether a timer
  starts, the message that arrives) are arguments of the operations.  A handle is a number, 0
  being \<^verbatim>\<open>OPENAT_INVALID_HANDLE\<close>.
\<close>

subsection \<open>Data\<close>

datatype platform_msg =
    RTOS_MSG_WAIT_MSG_TIMEOUT
  | RTOS_MSG_TIMER int
  | RTOS_MSG_UART_RX_DATA int
  | RTOS_MSG_KEYPAD bool u8 u8
  | RTOS_MSG_INT u8 u16
  | RTOS_MSG_PMD bool bool u8 u8 u16
  | RTOS_MSG_AUDIO bool bool
  | RTOS_MSG_UNKNOWN int

datatype lua_val = LInt int | LBool bool | LTable "(string \<times> lua_val) list"

datatype rtos_call =
    Send_message platform_msg
  | Send_high_priority_message platform_msg
  | Create_timer bool int nat
  | Create_wait_timer nat
  | Start_timer nat u32
  | Stop_timer nat
  | Delete_timer nat
  | Create_sem
  | Wait_sem
  | Release_sem
  | Wait_message
  | Init_keypad int int
  | Cust_poweron_system
  | Shut_down
  | Poweroff_system
  | Restart

abbreviation (input) MAX_LUA_TIMERS :: nat where "MAX_LUA_TIMERS \<equiv> 30"
abbreviation (input) OPENAT_INVALID_HANDLE :: nat where "OPENAT_INVALID_HANDLE \<equiv> 0"

text \<open>A table entry is the pair of \<^verbatim>\<open>hOsTimer\<close> and \<^verbatim>\<open>luaTimerId\<close>.\<close>

record rtos_sys =
  luaTimerParam :: "(nat \<times> int) list"
  hLuaTimerSem :: bool
  hRTOSWaitMsgTimer :: nat
  poweron_flag :: int
  cust_sys_flag :: bool
  firstRecv :: bool
  rtos_calls :: "rtos_call list"

definition rtos_sys_init :: rtos_sys where
  "rtos_sys_init = \<lparr>luaTimerParam = replicate MAX_LUA_TIMERS (0, 0), hLuaTimerSem = False,
     hRTOSWaitMsgTimer = 0, poweron_flag = - 1, cust_sys_flag = False, firstRecv = True,
     rtos_calls = []\<rparr>"

definition rlog :: "rtos_call list \<Rightarrow> rtos_sys \<Rightarrow> rtos_sys" where
  "rlog cs s = s\<lparr>rtos_calls := rtos_calls s @ cs\<rparr>"

text \<open>The index at which a search loop stops; the length when it runs through.\<close>

definition find_slot :: "('a \<Rightarrow> bool) \<Rightarrow> 'a list \<Rightarrow> nat" where
  "find_slot P xs = length (takeWhile (\<lambda>x. \<not> P x) xs)"

subsection \<open>Messages and timers\<close>

definition platform_rtos_send :: "platform_msg \<Rightarrow> rtos_sys \<Rightarrow> int \<times> rtos_sys" where
  "platform_rtos_send m s = (PLATFORM_OK, rlog [Send_message m] s)"

definition platform_rtos_send_high_priority :: "platform_msg \<Rightarrow> rtos_sys \<Rightarrow> int \<times> rtos_sys" where
  "platform_rtos_send_high_priority m s = (PLATFORM_OK, rlog [Send_high_priority_message m] s)"

definition platform_rtos_receive :: "bool \<Rightarrow> u32 \<Rightarrow> rtos_sys \<Rightarrow> int \<times> rtos_sys" where
  "platform_rtos_receive wait_ok timeout s =
    (let s1 = (if timeout = 0 then rlog [Stop_timer (hRTOSWaitMsgTimer s)] s
               else rlog [Start_timer (hRTOSWaitMsgTimer s) timeout] s)
     in (if wait_ok then PLATFORM_OK else PLATFORM_ERR, rlog [Wait_message] s1))"

text \<open>The part of both callbacks after the message: the expired timer leaves the table.\<close>

definition timer_expired :: "nat \<Rightarrow> rtos_sys \<Rightarrow> rtos_sys" where
  "timer_expired hTimer s =
    (let s1 = rlog [Wait_sem] s;
         index = find_slot (\<lambda>e. fst e = hTimer) (luaTimerParam s1);
         s2 = (if index < MAX_LUA_TIMERS
               then (rlog [Delete_timer (fst (luaTimerParam s1 ! index))] s1)
                      \<lparr>luaTimerParam := (luaTimerParam s1)[index := (OPENAT_INVALID_HANDLE, snd (luaTimerParam s1 ! index))]\<rparr>
               else s1)
     in rlog [Release_sem] s2)"

definition platform_rtos_timer_callback :: "nat \<Rightarrow> int \<Rightarrow> rtos_sys \<Rightarrow> rtos_sys" where
  "platform_rtos_timer_callback hTimer timer_id s =
    timer_expired hTimer (snd (platform_rtos_send (RTOS_MSG_TIMER timer_id) s))"

definition platform_rtos_timer_high_priority_callback :: "nat \<Rightarrow> int \<Rightarrow> rtos_sys \<Rightarrow> rtos_sys" where
  "platform_rtos_timer_high_priority_callback hTimer timer_id s =
    timer_expired hTimer (snd (platform_rtos_send_high_priority (RTOS_MSG_TIMER timer_id) s))"

definition ensure_sem :: "rtos_sys \<Rightarrow> rtos_sys" where
  "ensure_sem s = (if \<not> hLuaTimerSem s then (rlog [Create_sem] s)\<lparr>hLuaTimerSem := True\<rparr> else s)"

definition timer_live :: "int \<Rightarrow> nat \<times> int \<Rightarrow> bool" where
  "timer_live timer_id e \<longleftrightarrow> fst e \<noteq> OPENAT_INVALID_HANDLE \<and> snd e = timer_id"

definition platform_rtos_stop_timer :: "int \<Rightarrow> rtos_sys \<Rightarrow> int \<times> rtos_sys" where
  "platform_rtos_stop_timer timer_id s =
    (let s1 = rlog [Wait_sem] (ensure_sem s);
         index = find_slot (timer_live timer_id) (luaTimerParam s1);
         s2 = (if index < MAX_LUA_TIMERS
               then (let h = fst (luaTimerParam s1 ! index)
                     in (rlog [Stop_timer h, Delete_timer h] s1)
                          \<lparr>luaTimerParam := (luaTimerParam s1)[index := (OPENAT_INVALID_HANDLE, timer_id)]\<rparr>)
               else s1)
     in (PLATFORM_OK, rlog [Release_sem] s2))"

text \<open>\<open>hTimer\<close> is the handle that \<^verbatim>\<open>create_timer\<close> returns, \<open>started\<close> the result of \<^verbatim>\<open>start_timer\<close>.\<close>

definition platform_rtos_start_timer :: "nat \<Rightarrow> bool \<Rightarrow> int \<Rightarrow> u32 \<Rightarrow> bool \<Rightarrow> rtos_sys \<Rightarrow> int \<times> rtos_sys" where
  "platform_rtos_start_timer hTimer started timer_id milliSecond high s =
    (let s1 = ensure_sem s;
         s2 = (if find_slot (timer_live timer_id) (luaTimerParam s1) < MAX_LUA_TIMERS
               then snd (platform_rtos_stop_timer timer_id s1) else s1);
         s3 = rlog [Wait_sem] s2;
         index = find_slot (\<lambda>e. fst e = OPENAT_INVALID_HANDLE) (luaTimerParam s3)
     in if MAX_LUA_TIMERS \<le> index then (PLATFORM_ERR, rlog [Release_sem] s3)
        else (let s4 = rlog [Create_timer high timer_id hTimer] s3 in
          if hTimer = OPENAT_INVALID_HANDLE then (PLATFORM_ERR, rlog [Release_sem] s4)
          else (let s5 = rlog [Start_timer hTimer milliSecond] s4 in
            if \<not> started then (PLATFORM_ERR, rlog [Release_sem, Delete_timer hTimer] s5)
            else (PLATFORM_OK, rlog [Release_sem]
                    (s5\<lparr>luaTimerParam := (luaTimerParam s5)[index := (hTimer, timer_id)]\<rparr>)))))"

definition platform_keypad_message :: "bool \<Rightarrow> u8 \<Rightarrow> u8 \<Rightarrow> rtos_sys \<Rightarrow> rtos_sys" where
  "platform_keypad_message pressed r c s = snd (platform_rtos_send (RTOS_MSG_KEYPAD pressed r c) s)"

definition platform_rtos_init_module :: "int \<Rightarrow> int \<Rightarrow> int \<Rightarrow> rtos_sys \<Rightarrow> int \<times> rtos_sys" where
  "platform_rtos_init_module module inMask outMask s =
    (if module = 0 then (PLATFORM_OK, rlog [Init_keypad inMask outMask] s) else (PLATFORM_ERR, s))"

definition rtos_wait_message_timeout :: "rtos_sys \<Rightarrow> rtos_sys" where
  "rtos_wait_message_timeout s = snd (platform_rtos_send RTOS_MSG_WAIT_MSG_TIMEOUT s)"

definition platform_rtos_init :: "nat \<Rightarrow> rtos_sys \<Rightarrow> int \<times> rtos_sys" where
  "platform_rtos_init hTimer s = (PLATFORM_OK, (rlog [Create_wait_timer hTimer] s)\<lparr>hRTOSWaitMsgTimer := hTimer\<rparr>)"

subsection \<open>Power\<close>

definition start_system :: "rtos_sys \<Rightarrow> rtos_sys" where
  "start_system s = (rlog [Cust_poweron_system] s)\<lparr>cust_sys_flag := True\<rparr>"

definition platform_rtos_poweron :: "int \<Rightarrow> rtos_sys \<Rightarrow> int \<times> rtos_sys" where
  "platform_rtos_poweron flag s =
    (let s1 = s\<lparr>poweron_flag := flag\<rparr>
     in (PLATFORM_OK, if poweron_flag s1 = 1 then start_system s1 else s1))"

definition platform_poweron_try :: "rtos_sys \<Rightarrow> rtos_sys" where
  "platform_poweron_try s = (if poweron_flag s = - 1 then start_system s else s)"

text \<open>\<open>by_charger\<close>: the power-on reason is \<^verbatim>\<open>OPENAT_PM_POWERON_BY_CHARGER\<close>.\<close>

definition platform_rtos_poweroff :: "bool \<Rightarrow> rtos_sys \<Rightarrow> int \<times> rtos_sys" where
  "platform_rtos_poweroff by_charger s =
    (PLATFORM_OK, if by_charger \<and> \<not> cust_sys_flag s then rlog [Shut_down] s else rlog [Poweroff_system] s)"

definition platform_rtos_restart :: "rtos_sys \<Rightarrow> int \<times> rtos_sys" where
  "platform_rtos_restart s = (PLATFORM_OK, rlog [Restart] s)"

subsection \<open>The Lua side\<close>

definition msg_id :: "platform_msg \<Rightarrow> int" where
  "msg_id m = (case m of RTOS_MSG_WAIT_MSG_TIMEOUT \<Rightarrow> 0 | RTOS_MSG_TIMER _ \<Rightarrow> 1
     | RTOS_MSG_UART_RX_DATA _ \<Rightarrow> 2 | RTOS_MSG_KEYPAD _ _ _ \<Rightarrow> 3 | RTOS_MSG_INT _ _ \<Rightarrow> 4
     | RTOS_MSG_PMD _ _ _ _ _ \<Rightarrow> 5 | RTOS_MSG_AUDIO _ _ \<Rightarrow> 6 | RTOS_MSG_UNKNOWN i \<Rightarrow> i)"

text \<open>The values \<open>handle_msg\<close> returns to Lua.\<close>

definition handle_msg :: "platform_msg \<Rightarrow> lua_val list" where
  "handle_msg m =
    (case m of
       RTOS_MSG_WAIT_MSG_TIMEOUT \<Rightarrow> [LInt (msg_id m)]
     | RTOS_MSG_TIMER t \<Rightarrow> [LInt (msg_id m), LInt t]
     | RTOS_MSG_UART_RX_DATA u \<Rightarrow> [LInt (msg_id m), LInt u]
     | RTOS_MSG_KEYPAD pressed row col \<Rightarrow>
         [LTable [(''id'', LInt (msg_id m)), (''pressed'', LBool pressed),
                  (''key_matrix_row'', LInt (uint row)), (''key_matrix_col'', LInt (uint col))]]
     | RTOS_MSG_INT i resnum \<Rightarrow>
         [LTable [(''id'', LInt (msg_id m)), (''int_id'', LInt (uint i)), (''int_resnum'', LInt (uint resnum))]]
     | RTOS_MSG_PMD present charger state level voltage \<Rightarrow>
         [LTable [(''id'', LInt (msg_id m)), (''present'', LBool present), (''voltage'', LInt (uint voltage)),
                  (''level'', LInt (uint level)), (''charger'', LBool charger), (''state'', LInt (uint state))]]
     | RTOS_MSG_AUDIO play_end play_error \<Rightarrow>
         [LTable ((''id'', LInt (msg_id m)) #
            (if play_end then [(''play_end_ind'', LBool True)]
             else if play_error then [(''play_error_ind'', LBool True)] else []))]
     | RTOS_MSG_UNKNOWN _ \<Rightarrow> [])"

text \<open>\<open>arrived\<close> is the message \<^verbatim>\<open>wait_message\<close> delivers, or its failure, a Lua error.\<close>

definition l_rtos_receive :: "platform_msg option \<Rightarrow> u32 \<Rightarrow> rtos_sys \<Rightarrow> lua_val list option \<times> rtos_sys" where
  "l_rtos_receive arrived timeout s =
    (let s1 = (if firstRecv s then platform_poweron_try (s\<lparr>firstRecv := False\<rparr>) else s);
         (r, s2) = platform_rtos_receive (arrived \<noteq> None) timeout s1
     in (if r \<noteq> PLATFORM_OK then None else map_option handle_msg arrived, s2))"

text \<open>The other entries of the module.  Each returns the integers it pushes; \<open>l_rtos_init_module\<close>
  raises a Lua error for an unknown module.\<close>

definition l_rtos_timer_start :: "nat \<Rightarrow> bool \<Rightarrow> int \<Rightarrow> u32 \<Rightarrow> rtos_sys \<Rightarrow> lua_val list \<times> rtos_sys" where
  "l_rtos_timer_start hTimer started timer_id ms s =
    (let (r, s1) = platform_rtos_start_timer hTimer started timer_id ms False s in ([LInt r], s1))"

definition l_rtos_timer_high_priority_start :: "nat \<Rightarrow> bool \<Rightarrow> int \<Rightarrow> u32 \<Rightarrow> rtos_sys \<Rightarrow> lua_val list \<times> rtos_sys" where
  "l_rtos_timer_high_priority_start hTimer started timer_id ms s =
    (let (r, s1) = platform_rtos_start_timer hTimer started timer_id ms True s in ([LInt r], s1))"

definition l_rtos_timer_stop :: "int \<Rightarrow> rtos_sys \<Rightarrow> lua_val list \<times> rtos_sys" where
  "l_rtos_timer_stop timer_id s = (let (r, s1) = platform_rtos_stop_timer timer_id s in ([LInt r], s1))"

definition l_rtos_init_module :: "int \<Rightarrow> int \<Rightarrow> int \<Rightarrow> rtos_sys \<Rightarrow> lua_val list option \<times> rtos_sys" where
  "l_rtos_init_module module_id inmask outmask s =
    (if module_id = 0 then (let (r, s1) = platform_rtos_init_module 0 inmask outmask s in (Some [LInt r], s1))
     else (None, s))"

definition l_rtos_poweron :: "int \<Rightarrow> rtos_sys \<Rightarrow> lua_val list \<times> rtos_sys" where
  "l_rtos_poweron flag s = ([], snd (platform_rtos_poweron flag s))"

definition l_rtos_poweroff :: "bool \<Rightarrow> rtos_sys \<Rightarrow> lua_val list \<times> rtos_sys" where
  "l_rtos_poweroff by_charger s = ([], snd (platform_rtos_poweroff by_charger s))"

definition l_rtos_restart :: "rtos_sys \<Rightarrow> lua_val list \<times> rtos_sys" where
  "l_rtos_restart s = ([], snd (platform_rtos_restart s))"

lemma l_rtos_simps [simp]:
  "snd (l_rtos_timer_start h started timer_id ms s) = snd (platform_rtos_start_timer h started timer_id ms False s)"
  "snd (l_rtos_timer_high_priority_start h started timer_id ms s) = snd (platform_rtos_start_timer h started timer_id ms True s)"
  "snd (l_rtos_timer_stop timer_id s) = snd (platform_rtos_stop_timer timer_id s)"
  "snd (l_rtos_init_module m i out s) = snd (platform_rtos_init_module m i out s)"
  "snd (l_rtos_poweron flag s) = snd (platform_rtos_poweron flag s)"
  "snd (l_rtos_poweroff by_charger s) = snd (platform_rtos_poweroff by_charger s)"
  "snd (l_rtos_restart s) = snd (platform_rtos_restart s)"
  by (simp_all add: l_rtos_timer_start_def l_rtos_timer_high_priority_start_def l_rtos_timer_stop_def
    l_rtos_init_module_def l_rtos_poweron_def l_rtos_poweroff_def l_rtos_restart_def
    platform_rtos_init_module_def Let_def split: prod.split)

subsection \<open>The timer table\<close>

lemma find_slot_le: "find_slot P xs \<le> length xs"
  by (simp add: find_slot_def length_takeWhile_le)

lemma find_slot_hit: "find_slot P xs < length xs \<Longrightarrow> P (xs ! find_slot P xs)"
  using nth_length_takeWhile [of "\<lambda>x. \<not> P x" xs] by (simp add: find_slot_def)

lemma find_slot_iff: "find_slot P xs < length xs \<longleftrightarrow> (\<exists>i < length xs. P (xs ! i))"
proof
  assume "\<exists>i < length xs. P (xs ! i)"
  then have "takeWhile (\<lambda>x. \<not> P x) xs \<noteq> xs" by (auto simp: takeWhile_eq_all_conv)
  then show "find_slot P xs < length xs"
    unfolding find_slot_def
    by (metis length_takeWhile_le linorder_le_less_linear order_antisym takeWhile_eq_take take_all)
qed (use find_slot_hit in blast)

text \<open>The timers Lua has running: pairs of its own id and the OpenAT handle.\<close>

definition timers_of :: "(nat \<times> int) list \<Rightarrow> (int \<times> nat) set" where
  "timers_of t = {(snd (t ! i), fst (t ! i)) | i. i < length t \<and> fst (t ! i) \<noteq> 0}"

definition timers :: "rtos_sys \<Rightarrow> (int \<times> nat) set" where
  "timers s = timers_of (luaTimerParam s)"

text \<open>The handles created and not yet deleted, read off the calls.\<close>

fun os_step :: "rtos_call \<Rightarrow> nat set \<Rightarrow> nat set" where
  "os_step (Create_timer _ _ h) L = (if h = 0 then L else insert h L)"
| "os_step (Delete_timer h) L = L - {h}"
| "os_step _ L = L"

definition os_live :: "rtos_call list \<Rightarrow> nat set" where
  "os_live tr = fold os_step tr {}"

lemma os_live_append [simp]: "os_live (tr @ cs) = fold os_step cs (os_live tr)"
  by (simp add: os_live_def)

definition one_entry :: "(nat \<times> int) list \<Rightarrow> bool" where
  "one_entry t \<longleftrightarrow> (\<forall>i < length t. \<forall>j < length t. fst (t ! i) \<noteq> 0 \<and> fst (t ! j) \<noteq> 0 \<and>
     (snd (t ! i) = snd (t ! j) \<or> fst (t ! i) = fst (t ! j)) \<longrightarrow> i = j)"

definition rtos_wf :: "rtos_sys \<Rightarrow> bool" where
  "rtos_wf s \<longleftrightarrow> length (luaTimerParam s) = 30 \<and> one_entry (luaTimerParam s) \<and>
     os_live (rtos_calls s) = snd ` timers s"

lemma one_entryD:
  "one_entry t \<Longrightarrow> i < length t \<Longrightarrow> j < length t \<Longrightarrow> fst (t ! i) \<noteq> 0 \<Longrightarrow> fst (t ! j) \<noteq> 0 \<Longrightarrow>
    snd (t ! i) = snd (t ! j) \<or> fst (t ! i) = fst (t ! j) \<Longrightarrow> i = j"
  by (simp add: one_entry_def)

lemma timers_of_iff:
  "(x, h) \<in> timers_of t \<longleftrightarrow> h \<noteq> 0 \<and> (\<exists>i < length t. t ! i = (h, x))"
  by (auto simp: timers_of_def prod_eq_iff)

lemma timers_of_clear:
  assumes one: "one_entry t" and k: "k < length t" "fst (t ! k) \<noteq> 0"
  shows "timers_of (t[k := (0, x)]) = timers_of t - {(snd (t ! k), fst (t ! k))}"
    "one_entry (t[k := (0, x)])"
proof -
  note upd = nth_list_update [OF k(1)]
  show "one_entry (t[k := (0, x)])"
    unfolding one_entry_def
  proof (intro allI impI, elim conjE)
    fix i j assume a: "i < length (t[k := (0, x)])" "j < length (t[k := (0, x)])"
      "fst (t[k := (0, x)] ! i) \<noteq> 0" "fst (t[k := (0, x)] ! j) \<noteq> 0"
      "snd (t[k := (0, x)] ! i) = snd (t[k := (0, x)] ! j) \<or> fst (t[k := (0, x)] ! i) = fst (t[k := (0, x)] ! j)"
    then have "i \<noteq> k" "j \<noteq> k" by (auto simp: upd)
    with a show "i = j" using one_entryD [OF one, of i j] by (simp add: upd)
  qed
  show "timers_of (t[k := (0, x)]) = timers_of t - {(snd (t ! k), fst (t ! k))}"
  proof (rule set_eqI)
    fix p :: "int \<times> nat"
    obtain y h where p: "p = (y, h)" by (cases p)
    have "h \<noteq> 0 \<and> i < length t \<and> t[k := (0, x)] ! i = (h, y) \<longleftrightarrow>
        h \<noteq> 0 \<and> i < length t \<and> t ! i = (h, y) \<and> (y, h) \<noteq> (snd (t ! k), fst (t ! k))" for i
      using one_entryD [OF one, of i k] k by (cases "i = k") (auto simp: upd)
    then show "p \<in> timers_of (t[k := (0, x)]) \<longleftrightarrow> p \<in> timers_of t - {(snd (t ! k), fst (t ! k))}"
      unfolding p by (auto simp: timers_of_iff)
  qed
qed

lemma timers_of_put:
  assumes one: "one_entry t" and k: "k < length t" "fst (t ! k) = 0"
    and h: "h \<noteq> 0" "h \<notin> snd ` timers_of t" and x: "x \<notin> fst ` timers_of t"
  shows "timers_of (t[k := (h, x)]) = insert (x, h) (timers_of t)" "one_entry (t[k := (h, x)])"
proof -
  note upd = nth_list_update [OF k(1)]
  have new: "fst (t ! i) \<noteq> h \<and> snd (t ! i) \<noteq> x" if "i < length t" "fst (t ! i) \<noteq> 0" for i
    using that h x by (auto simp: timers_of_def image_iff)
  show "one_entry (t[k := (h, x)])"
    unfolding one_entry_def
  proof (intro allI impI, elim conjE)
    fix i j assume "i < length (t[k := (h, x)])" "j < length (t[k := (h, x)])"
      "fst (t[k := (h, x)] ! i) \<noteq> 0" "fst (t[k := (h, x)] ! j) \<noteq> 0"
      "snd (t[k := (h, x)] ! i) = snd (t[k := (h, x)] ! j) \<or> fst (t[k := (h, x)] ! i) = fst (t[k := (h, x)] ! j)"
    then show "i = j"
      using new [of i] new [of j] one_entryD [OF one, of i j]
      by (cases "i = k"; cases "j = k") (auto simp: upd)
  qed
  show "timers_of (t[k := (h, x)]) = insert (x, h) (timers_of t)"
  proof (rule set_eqI)
    fix p :: "int \<times> nat"
    obtain y g where p: "p = (y, g)" by (cases p)
    have "(g \<noteq> 0 \<and> (\<exists>i < length t. t[k := (h, x)] ! i = (g, y))) \<longleftrightarrow>
        (y, g) = (x, h) \<or> g \<noteq> 0 \<and> (\<exists>i < length t. t ! i = (g, y))"
    proof
      assume "g \<noteq> 0 \<and> (\<exists>i < length t. t[k := (h, x)] ! i = (g, y))"
      then show "(y, g) = (x, h) \<or> g \<noteq> 0 \<and> (\<exists>i < length t. t ! i = (g, y))"
        by (auto simp: upd split: if_splits)
    next
      assume "(y, g) = (x, h) \<or> g \<noteq> 0 \<and> (\<exists>i < length t. t ! i = (g, y))"
      then show "g \<noteq> 0 \<and> (\<exists>i < length t. t[k := (h, x)] ! i = (g, y))"
      proof
        assume "(y, g) = (x, h)"
        then show ?thesis using h k by (auto simp: upd intro!: exI [of _ k])
      next
        assume "g \<noteq> 0 \<and> (\<exists>i < length t. t ! i = (g, y))"
        then obtain i where i: "i < length t" "t ! i = (g, y)" "g \<noteq> 0" by blast
        then have "i \<noteq> k" using k by auto
        then show ?thesis using i by (auto simp: upd intro!: exI [of _ i])
      qed
    qed
    then show "p \<in> timers_of (t[k := (h, x)]) \<longleftrightarrow> p \<in> insert (x, h) (timers_of t)"
      unfolding p by (simp add: timers_of_iff)
  qed
qed

text \<open>A free slot exists exactly while fewer timers run than the table has entries.\<close>

lemma card_timers_of:
  assumes one: "one_entry t"
  shows "card (timers_of t) = card {i. i < length t \<and> fst (t ! i) \<noteq> 0}"
proof -
  let ?f = "\<lambda>i. (snd (t ! i), fst (t ! i))"
  have img: "timers_of t = ?f ` {i. i < length t \<and> fst (t ! i) \<noteq> 0}"
    unfolding timers_of_def by blast
  have "inj_on ?f {i. i < length t \<and> fst (t ! i) \<noteq> 0}"
  proof (rule inj_onI)
    fix i j assume i: "i \<in> {i. i < length t \<and> fst (t ! i) \<noteq> 0}"
      and j: "j \<in> {i. i < length t \<and> fst (t ! i) \<noteq> 0}" and e: "?f i = ?f j"
    show "i = j" using i j e by (intro one_entryD [OF one]) simp_all
  qed
  then show ?thesis unfolding img by (rule card_image)
qed

lemma free_slot:
  assumes "one_entry t"
  shows "find_slot (\<lambda>e. fst e = 0) t < length t \<longleftrightarrow> card (timers_of t) < length t"
proof -
  define used where "used = {i. i < length t \<and> fst (t ! i) \<noteq> 0}"
  have sub: "used \<subseteq> {..<length t}" unfolding used_def by (rule subsetI) simp
  have eq: "used = {..<length t} \<longleftrightarrow> \<not> (\<exists>i < length t. fst (t ! i) = 0)"
  proof
    assume "used = {..<length t}"
    then have "i \<in> used" if "i < length t" for i using that by simp
    then show "\<not> (\<exists>i < length t. fst (t ! i) = 0)" by (simp add: used_def)
  next
    assume "\<not> (\<exists>i < length t. fst (t ! i) = 0)"
    then have "{..<length t} \<subseteq> used" by (simp add: used_def subset_iff)
    then show "used = {..<length t}" using sub by (rule subset_antisym [rotated])
  qed
  have "card used < length t \<longleftrightarrow> used \<noteq> {..<length t}"
  proof
    assume "card used < length t"
    then show "used \<noteq> {..<length t}" by (metis card_lessThan less_irrefl)
  next
    assume "used \<noteq> {..<length t}"
    then have "used \<subset> {..<length t}" using sub by (rule psubsetI [rotated])
    then have "card used < card {..<length t}" by (rule psubset_card_mono [OF finite_lessThan])
    then show "card used < length t" by (simp only: card_lessThan)
  qed
  then show ?thesis
    unfolding card_timers_of [OF assms] used_def [symmetric] find_slot_iff eq by simp
qed

lemma rlog_simps [simp]:
  "luaTimerParam (rlog cs s) = luaTimerParam s" "rtos_calls (rlog cs s) = rtos_calls s @ cs"
  "timers (rlog cs s) = timers s"
  by (simp_all add: rlog_def timers_def)

lemma ensure_sem_simps [simp]:
  "luaTimerParam (ensure_sem s) = luaTimerParam s" "timers (ensure_sem s) = timers s"
  "os_live (rtos_calls (ensure_sem s)) = os_live (rtos_calls s)"
  by (simp_all add: ensure_sem_def timers_def)

lemma rtos_wf_init: "rtos_wf rtos_sys_init"
  by (auto simp: rtos_wf_def rtos_sys_init_def one_entry_def os_live_def timers_def timers_of_def)

lemma timer_removed:
  assumes wf: "rtos_wf s" and k: "k < 30" "fst (luaTimerParam s ! k) = h" "h \<noteq> 0"
    and live: "os_live (rtos_calls s') = os_live (rtos_calls s) - {h}"
    and tab: "luaTimerParam s' = (luaTimerParam s)[k := (0, x)]"
  shows "rtos_wf s' \<and> timers s' = timers s - {(snd (luaTimerParam s ! k), h)} \<and>
    timers s' = {p \<in> timers s. snd p \<noteq> h} \<and> timers s' = {p \<in> timers s. fst p \<noteq> snd (luaTimerParam s ! k)}"
proof -
  let ?t = "luaTimerParam s"
  have one: "one_entry ?t" and len: "length ?t = 30" and os: "os_live (rtos_calls s) = snd ` timers s"
    using wf by (simp_all add: rtos_wf_def)
  have kk: "k < length ?t" "fst (?t ! k) \<noteq> 0" using k len by simp_all
  note clear = timers_of_clear [OF one kk, of x]
  have rem: "timers s' = timers s - {(snd (?t ! k), h)}"
    using clear(1) k(2) by (simp add: timers_def tab)
  have "(p = (snd (?t ! k), h) \<longleftrightarrow> snd p = h) \<and> (p = (snd (?t ! k), h) \<longleftrightarrow> fst p = snd (?t ! k))"
    if p: "p \<in> timers s" for p
  proof -
    obtain i where i: "i < length ?t" "fst (?t ! i) \<noteq> 0" "p = (snd (?t ! i), fst (?t ! i))"
      using p by (auto simp: timers_def timers_of_def)
    then show ?thesis using one_entryD [OF one i(1) kk(1) i(2) kk(2)] k(2) by auto
  qed
  then have both: "timers s' = {p \<in> timers s. snd p \<noteq> h}" "timers s' = {p \<in> timers s. fst p \<noteq> snd (?t ! k)}"
    unfolding rem by auto
  have "snd ` timers s - {h} = snd ` timers s'" unfolding both(1) by auto
  then have "rtos_wf s'"
    using clear(2) len live os by (simp add: rtos_wf_def tab)
  then show ?thesis using rem both by simp
qed

lemma stop_timer_lemma:
  assumes wf: "rtos_wf s"
  shows "rtos_wf (snd (platform_rtos_stop_timer timer_id s)) \<and>
    timers (snd (platform_rtos_stop_timer timer_id s)) = {p \<in> timers s. fst p \<noteq> timer_id}"
proof -
  let ?t = "luaTimerParam s" and ?k = "find_slot (timer_live timer_id) (luaTimerParam s)"
  have len: "length ?t = 30" using wf by (simp add: rtos_wf_def)
  show ?thesis
  proof (cases "?k < 30")
    case True
    then have "timer_live timer_id (?t ! ?k)" using find_slot_hit [of "timer_live timer_id" ?t] len by simp
    then have k: "fst (?t ! ?k) \<noteq> 0" "snd (?t ! ?k) = timer_id" by (simp_all add: timer_live_def)
    have "os_live (rtos_calls (snd (platform_rtos_stop_timer timer_id s))) = os_live (rtos_calls s) - {fst (?t ! ?k)}"
      "luaTimerParam (snd (platform_rtos_stop_timer timer_id s)) = ?t[?k := (0, timer_id)]"
      using True by (simp_all add: platform_rtos_stop_timer_def Let_def rlog_def)
    from timer_removed [OF wf True refl k(1) this, unfolded k(2)] show ?thesis by blast
  next
    case False
    then have none: "\<And>i. i < 30 \<Longrightarrow> \<not> timer_live timer_id (?t ! i)"
      using find_slot_iff [of "timer_live timer_id" ?t] len by auto
    have "fst p \<noteq> timer_id" if p: "p \<in> timers s" for p
    proof -
      obtain i where "i < 30" "fst (?t ! i) \<noteq> 0" "p = (snd (?t ! i), fst (?t ! i))"
        using p len by (auto simp: timers_def timers_of_def)
      then show ?thesis using none [of i] by (simp add: timer_live_def)
    qed
    then have "{p \<in> timers s. fst p \<noteq> timer_id} = timers s" by blast
    then show ?thesis
      using False wf by (simp add: platform_rtos_stop_timer_def Let_def rtos_wf_def)
  qed
qed

lemma expired_lemma:
  assumes wf: "rtos_wf s" and h: "h \<noteq> 0"
  shows "rtos_wf (timer_expired h s) \<and> timers (timer_expired h s) = {p \<in> timers s. snd p \<noteq> h}"
proof -
  let ?t = "luaTimerParam s" and ?k = "find_slot (\<lambda>e. fst e = h) (luaTimerParam s)"
  have len: "length ?t = 30" using wf by (simp add: rtos_wf_def)
  show ?thesis
  proof (cases "?k < 30")
    case True
    then have k: "fst (?t ! ?k) = h" using find_slot_hit [of "\<lambda>e. fst e = h" ?t] len by simp
    have "os_live (rtos_calls (timer_expired h s)) = os_live (rtos_calls s) - {h}"
      "luaTimerParam (timer_expired h s) = ?t[?k := (0, snd (?t ! ?k))]"
      using True k by (simp_all add: timer_expired_def Let_def rlog_def)
    from timer_removed [OF wf True k h this] show ?thesis by blast
  next
    case False
    then have none: "\<And>i. i < 30 \<Longrightarrow> fst (?t ! i) \<noteq> h"
      using find_slot_iff [of "\<lambda>e. fst e = h" ?t] len by auto
    have "snd p \<noteq> h" if p: "p \<in> timers s" for p
    proof -
      obtain i where "i < 30" "p = (snd (?t ! i), fst (?t ! i))"
        using p len by (auto simp: timers_def timers_of_def)
      then show ?thesis using none [of i] by simp
    qed
    then have "{p \<in> timers s. snd p \<noteq> h} = timers s" by blast
    then show ?thesis
      using False wf by (simp add: timer_expired_def Let_def rtos_wf_def)
  qed
qed

lemma rtos_wf_rlog:
  assumes "rtos_wf s" "os_live (rtos_calls s @ cs) = os_live (rtos_calls s)"
  shows "rtos_wf (rlog cs s)"
  using assms unfolding rtos_wf_def rlog_simps by simp

lemma rtos_wf_ensure_sem: "rtos_wf s \<Longrightarrow> rtos_wf (ensure_sem s)"
  unfolding rtos_wf_def ensure_sem_simps by simp

text \<open>The first half of \<open>platform_rtos_start_timer\<close>: a running timer of the same id goes.\<close>

definition start_prepare :: "int \<Rightarrow> rtos_sys \<Rightarrow> rtos_sys" where
  "start_prepare timer_id s =
    (let s1 = ensure_sem s
     in rlog [Wait_sem] (if find_slot (timer_live timer_id) (luaTimerParam s1) < MAX_LUA_TIMERS
               then snd (platform_rtos_stop_timer timer_id s1) else s1))"

lemma start_prepare_lemma:
  assumes wf: "rtos_wf s"
  shows "rtos_wf (start_prepare timer_id s) \<and> timers (start_prepare timer_id s) = {p \<in> timers s. fst p \<noteq> timer_id}"
proof -
  let ?s1 = "ensure_sem s"
  have wf1: "rtos_wf ?s1" using wf by (rule rtos_wf_ensure_sem)
  have stop: "rtos_wf (snd (platform_rtos_stop_timer timer_id ?s1)) \<and>
      timers (snd (platform_rtos_stop_timer timer_id ?s1)) = {p \<in> timers s. fst p \<noteq> timer_id}"
    using stop_timer_lemma [OF wf1, of timer_id] by simp
  show ?thesis
  proof (cases "find_slot (timer_live timer_id) (luaTimerParam ?s1) < 30")
    case True
    then have "start_prepare timer_id s = rlog [Wait_sem] (snd (platform_rtos_stop_timer timer_id ?s1))"
      by (simp add: start_prepare_def Let_def)
    then show ?thesis using stop by (simp add: rtos_wf_rlog)
  next
    case False
    then have none: "\<not> (\<exists>i < length (luaTimerParam s). timer_live timer_id (luaTimerParam s ! i))"
      using find_slot_iff [of "timer_live timer_id" "luaTimerParam s"] wf by (simp add: rtos_wf_def)
    have "fst p \<noteq> timer_id" if p: "p \<in> timers s" for p
    proof -
      obtain i where "i < length (luaTimerParam s)" "fst (luaTimerParam s ! i) \<noteq> 0"
          "p = (snd (luaTimerParam s ! i), fst (luaTimerParam s ! i))"
        using p by (auto simp: timers_def timers_of_def)
      then show ?thesis using none by (auto simp: timer_live_def)
    qed
    then have "{p \<in> timers s. fst p \<noteq> timer_id} = timers s" by blast
    moreover have "start_prepare timer_id s = rlog [Wait_sem] ?s1"
      using False by (simp add: start_prepare_def Let_def)
    ultimately show ?thesis using wf1 by (simp add: rtos_wf_rlog)
  qed
qed

lemma start_timer_eq:
  "platform_rtos_start_timer hTimer started timer_id ms high s =
    (let s3 = start_prepare timer_id s; index = find_slot (\<lambda>e. fst e = 0) (luaTimerParam s3)
     in if 30 \<le> index then (PLATFORM_ERR, rlog [Release_sem] s3)
        else if hTimer = 0 then (PLATFORM_ERR, rlog [Create_timer high timer_id hTimer, Release_sem] s3)
        else if \<not> started then
          (PLATFORM_ERR, rlog [Create_timer high timer_id hTimer, Start_timer hTimer ms, Release_sem, Delete_timer hTimer] s3)
        else (PLATFORM_OK, (rlog [Create_timer high timer_id hTimer, Start_timer hTimer ms, Release_sem] s3)
                \<lparr>luaTimerParam := (luaTimerParam s3)[index := (hTimer, timer_id)]\<rparr>))"
  by (simp add: platform_rtos_start_timer_def start_prepare_def Let_def rlog_def)

lemma start_timer_lemma:
  fixes timer_id :: int and started :: bool and ms :: u32
  assumes wf: "rtos_wf s" and fresh: "hTimer \<notin> snd ` timers s"
  defines "rest \<equiv> {p \<in> timers s. fst p \<noteq> timer_id}"
  defines "ok \<equiv> card rest < 30 \<and> hTimer \<noteq> 0 \<and> started"
  shows "fst (platform_rtos_start_timer hTimer started timer_id ms high s) = (if ok then PLATFORM_OK else PLATFORM_ERR) \<and>
    timers (snd (platform_rtos_start_timer hTimer started timer_id ms high s)) =
      (if ok then insert (timer_id, hTimer) rest else rest) \<and>
    rtos_wf (snd (platform_rtos_start_timer hTimer started timer_id ms high s))"
proof -
  let ?s = "start_prepare timer_id s"
  let ?t = "luaTimerParam ?s" and ?k = "find_slot (\<lambda>e. fst e = 0) (luaTimerParam (start_prepare timer_id s))"
  have wf3: "rtos_wf ?s" and tim: "timers ?s = rest"
    using start_prepare_lemma [OF wf, of timer_id] by (simp_all add: rest_def)
  have len: "length ?t = 30" and one: "one_entry ?t" and os: "os_live (rtos_calls ?s) = snd ` rest"
    using wf3 tim by (simp_all add: rtos_wf_def)
  have tt: "timers_of ?t = rest" using tim by (simp add: timers_def)
  have nh: "hTimer \<notin> snd ` rest" using fresh by (auto simp: rest_def)
  have free: "?k < 30 \<longleftrightarrow> card rest < 30" using free_slot [OF one] len tt by simp
  consider (full) "\<not> ?k < 30" | (nohandle) "?k < 30" "hTimer = 0"
    | (notstarted) "?k < 30" "hTimer \<noteq> 0" "\<not> started" | (done_) "?k < 30" "hTimer \<noteq> 0" "started" by blast
  then show ?thesis
  proof cases
    case full
    then show ?thesis using free wf3 tim
      by (simp add: start_timer_eq Let_def ok_def rtos_wf_rlog)
  next
    case nohandle
    then show ?thesis using free wf3 tim
      by (simp add: start_timer_eq Let_def ok_def rtos_wf_rlog)
  next
    case notstarted
    then show ?thesis using free wf3 tim nh
      by (simp add: start_timer_eq Let_def ok_def rtos_wf_rlog os)
  next
    case done_
    then have k: "?k < length ?t" "fst (?t ! ?k) = 0"
      using find_slot_hit [of "\<lambda>e. fst e = 0" ?t] len by simp_all
    have x: "timer_id \<notin> fst ` timers_of ?t" unfolding tt by (auto simp: rest_def)
    have h: "hTimer \<notin> snd ` timers_of ?t" using nh by (simp add: tt)
    note put = timers_of_put [OF one k done_(2) h x]
    show ?thesis using done_ free put os len
      by (simp add: start_timer_eq Let_def ok_def rtos_wf_def timers_def tt)
  qed
qed

subsection \<open>Runs\<close>

datatype rtos_op =
    Op_start nat bool int u32 bool
  | Op_stop int
  | Op_expire nat int bool
  | Op_receive "platform_msg option" u32
  | Op_poweron int
  | Op_poweroff bool
  | Op_restart
  | Op_send platform_msg
  | Op_init_module int int int

fun rtos_do :: "rtos_op \<Rightarrow> rtos_sys \<Rightarrow> rtos_sys" where
  "rtos_do (Op_start h started timer_id ms high) s =
    snd (if high then l_rtos_timer_high_priority_start h started timer_id ms s
         else l_rtos_timer_start h started timer_id ms s)"
| "rtos_do (Op_stop timer_id) s = snd (l_rtos_timer_stop timer_id s)"
| "rtos_do (Op_expire h timer_id high) s =
    (if high then platform_rtos_timer_high_priority_callback h timer_id s
     else platform_rtos_timer_callback h timer_id s)"
| "rtos_do (Op_receive arrived timeout) s = snd (l_rtos_receive arrived timeout s)"
| "rtos_do (Op_poweron flag) s = snd (l_rtos_poweron flag s)"
| "rtos_do (Op_poweroff by_charger) s = snd (l_rtos_poweroff by_charger s)"
| "rtos_do Op_restart s = snd (l_rtos_restart s)"
| "rtos_do (Op_send m) s = snd (platform_rtos_send m s)"
| "rtos_do (Op_init_module m inMask outMask) s = snd (l_rtos_init_module m inMask outMask s)"

text \<open>OpenAT gives out no handle that is still in use, and calls back with a real handle.\<close>

fun op_ok :: "rtos_op \<Rightarrow> rtos_sys \<Rightarrow> bool" where
  "op_ok (Op_start h _ _ _ _) s \<longleftrightarrow> h \<notin> os_live (rtos_calls s)"
| "op_ok (Op_expire h _ _) s \<longleftrightarrow> h \<noteq> 0"
| "op_ok _ s \<longleftrightarrow> True"

inductive rtos_reach :: "rtos_sys \<Rightarrow> bool" where
  reach_init: "rtos_reach rtos_sys_init"
| reach_op: "rtos_reach s \<Longrightarrow> op_ok x s \<Longrightarrow> rtos_reach (rtos_do x s)"

definition power_calls :: "rtos_sys \<Rightarrow> rtos_call list" where
  "power_calls s = filter (\<lambda>c. c = Cust_poweron_system \<or> c = Shut_down) (rtos_calls s)"

definition power_wf :: "rtos_sys \<Rightarrow> bool" where
  "power_wf s \<longleftrightarrow> (\<exists>n m. power_calls s = replicate n Shut_down @ replicate m Cust_poweron_system \<and>
     (cust_sys_flag s \<longleftrightarrow> 0 < m))"

lemmas power_frame = power_calls_def rlog_def ensure_sem_def Let_def

lemma power_stop: "power_calls (snd (platform_rtos_stop_timer timer_id s)) = power_calls s"
    "cust_sys_flag (snd (platform_rtos_stop_timer timer_id s)) = cust_sys_flag s"
  by (simp_all add: platform_rtos_stop_timer_def power_frame)

lemma power_prepare: "power_calls (start_prepare timer_id s) = power_calls s"
    "cust_sys_flag (start_prepare timer_id s) = cust_sys_flag s"
  by (simp_all add: start_prepare_def power_stop [unfolded power_calls_def] power_frame)

lemma power_start: "power_calls (snd (platform_rtos_start_timer h started timer_id ms high s)) = power_calls s"
    "cust_sys_flag (snd (platform_rtos_start_timer h started timer_id ms high s)) = cust_sys_flag s"
  using power_prepare [of timer_id s] by (simp_all add: start_timer_eq power_frame)

lemma power_expired: "power_calls (timer_expired h s) = power_calls s" "cust_sys_flag (timer_expired h s) = cust_sys_flag s"
  by (simp_all add: timer_expired_def power_frame)

lemma power_wf_cong:
  "power_wf s \<Longrightarrow> power_calls s' = power_calls s \<Longrightarrow> cust_sys_flag s' = cust_sys_flag s \<Longrightarrow> power_wf s'"
  by (simp add: power_wf_def)

lemma power_wf_rlog:
  "power_wf s \<Longrightarrow> filter (\<lambda>c. c = Cust_poweron_system \<or> c = Shut_down) cs = [] \<Longrightarrow> power_wf (rlog cs s)"
  by (erule power_wf_cong) (simp_all add: power_frame)

lemma power_wf_start_system: "power_wf s \<Longrightarrow> power_wf (start_system s)"
proof -
  assume "power_wf s"
  then obtain n m where "power_calls s = replicate n Shut_down @ replicate m Cust_poweron_system"
    by (auto simp: power_wf_def)
  then have "power_calls (start_system s) = replicate n Shut_down @ replicate (Suc m) Cust_poweron_system"
    by (simp add: start_system_def power_frame replicate_append_same)
  moreover have "cust_sys_flag (start_system s) \<longleftrightarrow> 0 < Suc m" by (simp add: start_system_def)
  ultimately show ?thesis unfolding power_wf_def by blast
qed

lemma power_wf_poweroff: "power_wf s \<Longrightarrow> power_wf (snd (platform_rtos_poweroff by_charger s))"
proof -
  assume wf: "power_wf s"
  show ?thesis
  proof (cases "by_charger \<and> \<not> cust_sys_flag s")
    case True
    with wf obtain n where "power_calls s = replicate n Shut_down" by (auto simp: power_wf_def)
    then have "power_calls (snd (platform_rtos_poweroff by_charger s)) =
        replicate (Suc n) Shut_down @ replicate 0 Cust_poweron_system"
      using True by (simp add: platform_rtos_poweroff_def power_frame replicate_append_same)
    moreover have "cust_sys_flag (snd (platform_rtos_poweroff by_charger s)) \<longleftrightarrow> 0 < (0::nat)"
      using True by (simp add: platform_rtos_poweroff_def rlog_def)
    ultimately show ?thesis unfolding power_wf_def by blast
  next
    case False
    with wf show ?thesis by (auto simp: platform_rtos_poweroff_def power_frame power_wf_def)
  qed
qed

lemma poweron_try_receive:
  "rtos_wf s \<Longrightarrow> power_wf s \<Longrightarrow> rtos_wf (snd (l_rtos_receive arrived timeout s)) \<and>
    power_wf (snd (l_rtos_receive arrived timeout s))"
proof -
  assume wf: "rtos_wf s" and pw: "power_wf s"
  define s0 where "s0 = s\<lparr>firstRecv := False\<rparr>"
  define s1 where "s1 = (if firstRecv s then platform_poweron_try s0 else s)"
  have 0: "rtos_wf s0" "power_wf s0"
    using wf pw by (simp_all add: s0_def rtos_wf_def power_wf_def power_calls_def timers_def)
  have "rtos_wf (start_system s0)" using 0(1)
    by (simp add: start_system_def rtos_wf_def timers_def rlog_def)
  with 0 wf pw have 1: "rtos_wf s1" "power_wf s1"
    by (simp_all add: s1_def platform_poweron_try_def power_wf_start_system)
  have "snd (l_rtos_receive arrived timeout s) =
      rlog [if timeout = 0 then Stop_timer (hRTOSWaitMsgTimer s1) else Start_timer (hRTOSWaitMsgTimer s1) timeout,
            Wait_message] s1"
    by (simp add: l_rtos_receive_def platform_rtos_receive_def s1_def s0_def Let_def rlog_def split: prod.split)
  moreover have "rtos_wf (rlog [if timeout = 0 then Stop_timer (hRTOSWaitMsgTimer s1)
      else Start_timer (hRTOSWaitMsgTimer s1) timeout, Wait_message] s1)"
    using 1(1) by (rule rtos_wf_rlog) simp
  moreover have "power_wf (rlog [if timeout = 0 then Stop_timer (hRTOSWaitMsgTimer s1)
      else Start_timer (hRTOSWaitMsgTimer s1) timeout, Wait_message] s1)"
    using 1(2) by (rule power_wf_cong) (simp_all add: power_frame)
  ultimately show ?thesis by (simp only:)
qed

lemma rtos_reach_wf: "rtos_reach s \<Longrightarrow> rtos_wf s \<and> power_wf s"
proof (induction rule: rtos_reach.induct)
  case reach_init
  then show ?case
    using rtos_wf_init by (simp add: power_wf_def power_calls_def) (simp add: rtos_sys_init_def)
next
  case (reach_op s x)
  then have wf: "rtos_wf s" and pw: "power_wf s" by simp_all
  show ?case
  proof (cases x)
    case (Op_start h started timer_id ms high)
    then have "h \<notin> snd ` timers s" using reach_op wf by (simp add: rtos_wf_def)
    then show ?thesis using Op_start start_timer_lemma [OF wf] power_wf_cong [OF pw power_start] by simp
  next
    case (Op_stop timer_id)
    then show ?thesis using stop_timer_lemma [OF wf] power_wf_cong [OF pw power_stop] by simp
  next
    case (Op_expire h timer_id high)
    have "rtos_wf (timer_expired h (rlog [c] s)) \<and> power_wf (timer_expired h (rlog [c] s))"
      if c: "c = Send_message m \<or> c = Send_high_priority_message m" for c m
    proof -
      have "rtos_wf (rlog [c] s)" using wf c by (auto intro!: rtos_wf_rlog)
      moreover have "power_wf (rlog [c] s)" using pw c by (auto simp: power_wf_def power_calls_def rlog_def)
      ultimately show ?thesis
        using expired_lemma [of "rlog [c] s" h] power_wf_cong [OF _ power_expired] reach_op(2) Op_expire by simp
    qed
    then show ?thesis
      using Op_expire by (simp add: platform_rtos_timer_callback_def platform_rtos_send_def
        platform_rtos_timer_high_priority_callback_def platform_rtos_send_high_priority_def)
  next
    case (Op_receive arrived timeout)
    then show ?thesis using poweron_try_receive [OF wf pw] by simp
  next
    case (Op_poweron flag)
    define s1 where "s1 = s\<lparr>poweron_flag := flag\<rparr>"
    have 1: "rtos_wf s1" "power_wf s1"
      using wf pw by (simp_all add: s1_def rtos_wf_def power_wf_def power_calls_def timers_def)
    have "rtos_wf (start_system s1)" using 1(1)
      by (simp add: start_system_def rtos_wf_def timers_def rlog_def)
    with 1 have "rtos_wf (if poweron_flag s1 = 1 then start_system s1 else s1)"
        "power_wf (if poweron_flag s1 = 1 then start_system s1 else s1)"
      by (simp_all add: power_wf_start_system)
    then show ?thesis
      unfolding Op_poweron rtos_do.simps l_rtos_simps platform_rtos_poweron_def Let_def snd_conv s1_def by blast
  next
    case (Op_poweroff by_charger)
    then show ?thesis using power_wf_poweroff [OF pw] wf
      by (simp add: platform_rtos_poweroff_def rtos_wf_rlog)
  next
    case Op_restart
    then show ?thesis using wf pw
      by (simp add: platform_rtos_restart_def rtos_wf_rlog power_wf_rlog)
  next
    case (Op_send m)
    then show ?thesis using wf pw
      by (simp add: platform_rtos_send_def rtos_wf_rlog power_wf_rlog)
  next
    case (Op_init_module m inMask outMask)
    then show ?thesis using wf pw
      by (simp add: platform_rtos_init_module_def rtos_wf_rlog power_wf_rlog)
  qed
qed

subsection \<open>Properties\<close>

text \<open>C3: Stopping, starting and expiring a timer act on the set of running timers (id, handle) as map
  operations: stop removes the id; start first removes a running timer of the same id, then adds the
  new handle exactly when fewer than 30 others run, a handle was created and it started, and returns
  an error (the old timer stays stopped) otherwise; the callback removes the expired handle.  Every
  operation keeps the table well formed and leaks no handle.\<close>

theorem rtos_timer_refinement:
  fixes timer_id :: int and started :: bool and ms :: u32
  assumes "rtos_wf s" "hTimer \<notin> snd ` timers s" "h \<noteq> 0"
  shows "timers (snd (platform_rtos_stop_timer timer_id s)) = {p \<in> timers s. fst p \<noteq> timer_id} \<and>
    rtos_wf (snd (platform_rtos_stop_timer timer_id s)) \<and>
    timers (timer_expired h s) = {p \<in> timers s. snd p \<noteq> h} \<and> rtos_wf (timer_expired h s) \<and>
    (let rest = {p \<in> timers s. fst p \<noteq> timer_id};
         (r, s') = platform_rtos_start_timer hTimer started timer_id ms high s
     in r = (if card rest < 30 \<and> hTimer \<noteq> 0 \<and> started then PLATFORM_OK else PLATFORM_ERR) \<and>
        timers s' = (if r = PLATFORM_OK then insert (timer_id, hTimer) rest else rest) \<and> rtos_wf s')"
proof -
  obtain r s' where rs: "platform_rtos_start_timer hTimer started timer_id ms high s = (r, s')"
    by (cases "platform_rtos_start_timer hTimer started timer_id ms high s")
  show ?thesis
    using stop_timer_lemma [OF assms(1), of timer_id] expired_lemma [OF assms(1,3)]
      start_timer_lemma [OF assms(1,2), of started timer_id ms high]
    unfolding rs Let_def by simp
qed

theorem rtos_timer_refinement_witness:
  "timers (snd (platform_rtos_stop_timer 3 rtos_sys_init)) = {p \<in> timers rtos_sys_init. fst p \<noteq> 3}"
proof -
  have "(7::nat) \<notin> snd ` timers rtos_sys_init"
    by (auto simp: timers_def timers_of_def rtos_sys_init_def)
  from rtos_timer_refinement [OF rtos_wf_init this, of 7 3 True 100 False] show ?thesis by simp
qed

text \<open>C10: Over any run of timer, message and power operations the handles created and not yet
  deleted are exactly those in the table, no two running timers share an id or a handle, and at
  most 30 run: nothing leaks, whatever fails on the way.\<close>

theorem rtos_no_timer_leak:
  assumes "rtos_reach s"
  shows "os_live (rtos_calls s) = snd ` timers s \<and> inj_on fst (timers s) \<and> inj_on snd (timers s) \<and>
    card (timers s) \<le> 30"
proof -
  let ?t = "luaTimerParam s"
  have one: "one_entry ?t" and len: "length ?t = 30" and os: "os_live (rtos_calls s) = snd ` timers s"
    using rtos_reach_wf [OF assms] by (simp_all add: rtos_wf_def)
  have same: "p = q" if p: "p \<in> timers s" and q: "q \<in> timers s" and e: "fst p = fst q \<or> snd p = snd q" for p q
  proof -
    obtain i where i: "i < length ?t" "fst (?t ! i) \<noteq> 0" "p = (snd (?t ! i), fst (?t ! i))"
      using p by (auto simp: timers_def timers_of_def)
    obtain j where j: "j < length ?t" "fst (?t ! j) \<noteq> 0" "q = (snd (?t ! j), fst (?t ! j))"
      using q by (auto simp: timers_def timers_of_def)
    have "i = j" using e i j by (intro one_entryD [OF one]) simp_all
    then show ?thesis using i j by simp
  qed
  have "card {i. i < length ?t \<and> fst (?t ! i) \<noteq> 0} \<le> card {..<length ?t}"
    by (rule card_mono) auto
  then have "card (timers s) \<le> 30" using card_timers_of [OF one] len by (simp add: timers_def)
  then show ?thesis using os same by (auto simp: inj_on_def)
qed

theorem rtos_no_timer_leak_witness:
  "os_live (rtos_calls (rtos_do (Op_start 7 True 1 100 False) rtos_sys_init)) =
     snd ` timers (rtos_do (Op_start 7 True 1 100 False) rtos_sys_init)"
proof -
  have "op_ok (Op_start 7 True 1 100 False) rtos_sys_init" by (simp add: os_live_def rtos_sys_init_def)
  from rtos_no_timer_leak [OF reach_op [OF reach_init this]] show ?thesis by blast
qed

text \<open>The customer system is started at the flag's word, and \<^verbatim>\<open>shut_down\<close> is used only before the script
  ever started it (the task that starts it as well is in \<open>Power_On\<close>): over any run the calls of the two kinds are some \<^verbatim>\<open>shut_down\<close>s followed by
  some \<^verbatim>\<open>cust_poweron_system\<close>s, the second kind present exactly when \<^verbatim>\<open>cust_sys_flag\<close> is set.\<close>

theorem rtos_script_start_calls:
  assumes "rtos_reach s"
  shows "\<exists>n m. filter (\<lambda>c. c = Cust_poweron_system \<or> c = Shut_down) (rtos_calls s) =
      replicate n Shut_down @ replicate m Cust_poweron_system \<and> (cust_sys_flag s \<longleftrightarrow> 0 < m)"
  using rtos_reach_wf [OF assms] by (simp add: power_wf_def power_calls_def)

theorem rtos_script_start_calls_witness:
  "\<exists>n m. filter (\<lambda>c. c = Cust_poweron_system \<or> c = Shut_down) (rtos_calls (rtos_do (Op_poweron 1) rtos_sys_init)) =
      replicate n Shut_down @ replicate m Cust_poweron_system \<and>
      (cust_sys_flag (rtos_do (Op_poweron 1) rtos_sys_init) \<longleftrightarrow> 0 < m)"
proof -
  have "op_ok (Op_poweron 1) rtos_sys_init" by simp
  from rtos_script_start_calls [OF reach_op [OF reach_init this]] show ?thesis .
qed

text \<open>The first \<^verbatim>\<open>rtos.receive\<close> starts the system unless a power-on flag was set before, later ones
  never do; a timeout of 0 stops the wait timer and any other starts it, both before the wait; and
  the message that arrives reaches Lua with its number first, as plain values or as a table.\<close>

theorem rtos_receive_spec:
  "l_rtos_receive arrived timeout s =
    (case arrived of None \<Rightarrow> None | Some m \<Rightarrow> Some (handle_msg m),
     let s1 = s\<lparr>firstRecv := False\<rparr>;
         s2 = (if firstRecv s \<and> poweron_flag s = - 1
               then s1\<lparr>cust_sys_flag := True, rtos_calls := rtos_calls s @ [Cust_poweron_system]\<rparr> else s1)
     in s2\<lparr>rtos_calls := rtos_calls s2 @
           [if timeout = 0 then Stop_timer (hRTOSWaitMsgTimer s) else Start_timer (hRTOSWaitMsgTimer s) timeout,
            Wait_message]\<rparr>) \<and>
   (\<forall>m. (\<exists>vs. handle_msg m = LInt (msg_id m) # vs) \<or>
        (\<exists>fs. handle_msg m = [LTable ((''id'', LInt (msg_id m)) # fs)]) \<or>
        (\<exists>i. m = RTOS_MSG_UNKNOWN i \<and> handle_msg m = []))"
proof
  have "s\<lparr>firstRecv := False\<rparr> = s" if "\<not> firstRecv s" using that by simp
  then show "l_rtos_receive arrived timeout s =
    (case arrived of None \<Rightarrow> None | Some m \<Rightarrow> Some (handle_msg m),
     let s1 = s\<lparr>firstRecv := False\<rparr>;
         s2 = (if firstRecv s \<and> poweron_flag s = - 1
               then s1\<lparr>cust_sys_flag := True, rtos_calls := rtos_calls s @ [Cust_poweron_system]\<rparr> else s1)
     in s2\<lparr>rtos_calls := rtos_calls s2 @
           [if timeout = 0 then Stop_timer (hRTOSWaitMsgTimer s) else Start_timer (hRTOSWaitMsgTimer s) timeout,
            Wait_message]\<rparr>)"
    by (simp add: l_rtos_receive_def platform_rtos_receive_def platform_poweron_try_def start_system_def
      rlog_def Let_def split: option.split)
  show "\<forall>m. (\<exists>vs. handle_msg m = LInt (msg_id m) # vs) \<or>
        (\<exists>fs. handle_msg m = [LTable ((''id'', LInt (msg_id m)) # fs)]) \<or>
        (\<exists>i. m = RTOS_MSG_UNKNOWN i \<and> handle_msg m = [])"
  proof
    fix m
    show "(\<exists>vs. handle_msg m = LInt (msg_id m) # vs) \<or>
        (\<exists>fs. handle_msg m = [LTable ((''id'', LInt (msg_id m)) # fs)]) \<or>
        (\<exists>i. m = RTOS_MSG_UNKNOWN i \<and> handle_msg m = [])"
      by (cases m) (simp_all add: handle_msg_def)
  qed
qed

end
