(* ===== verification/Aes.thy ===== *)
theory Aes
  imports Prelude
begin

unbundle bit_operations_syntax

text \<open>
  AES-128: \<^verbatim>\<open>lib/crypto/src/aes.c\<close> (key expansion, the round transformations, ECB and CBC) and the
  Lua entries of \<^verbatim>\<open>lib/crypto/src/crypto.c\<close> that cut a string into blocks.

  The 4 by 4 state is the 16-byte list it lies over in memory, \<^verbatim>\<open>(*state)[i][j]\<close> being byte
  \<open>4 * i + j\<close>; the static array \<^verbatim>\<open>RoundKey\<close> is a 176-byte list.  What a statement writes is written
  by a list update, in the order of the code.
\<close>

subsection \<open>Tables\<close>

definition sbox :: "u8 list" where
  "sbox = [0x63, 0x7c, 0x77, 0x7b, 0xf2, 0x6b, 0x6f, 0xc5, 0x30, 0x01, 0x67, 0x2b, 0xfe, 0xd7, 0xab, 0x76,
   0xca, 0x82, 0xc9, 0x7d, 0xfa, 0x59, 0x47, 0xf0, 0xad, 0xd4, 0xa2, 0xaf, 0x9c, 0xa4, 0x72, 0xc0,
   0xb7, 0xfd, 0x93, 0x26, 0x36, 0x3f, 0xf7, 0xcc, 0x34, 0xa5, 0xe5, 0xf1, 0x71, 0xd8, 0x31, 0x15,
   0x04, 0xc7, 0x23, 0xc3, 0x18, 0x96, 0x05, 0x9a, 0x07, 0x12, 0x80, 0xe2, 0xeb, 0x27, 0xb2, 0x75,
   0x09, 0x83, 0x2c, 0x1a, 0x1b, 0x6e, 0x5a, 0xa0, 0x52, 0x3b, 0xd6, 0xb3, 0x29, 0xe3, 0x2f, 0x84,
   0x53, 0xd1, 0x00, 0xed, 0x20, 0xfc, 0xb1, 0x5b, 0x6a, 0xcb, 0xbe, 0x39, 0x4a, 0x4c, 0x58, 0xcf,
   0xd0, 0xef, 0xaa, 0xfb, 0x43, 0x4d, 0x33, 0x85, 0x45, 0xf9, 0x02, 0x7f, 0x50, 0x3c, 0x9f, 0xa8,
   0x51, 0xa3, 0x40, 0x8f, 0x92, 0x9d, 0x38, 0xf5, 0xbc, 0xb6, 0xda, 0x21, 0x10, 0xff, 0xf3, 0xd2,
   0xcd, 0x0c, 0x13, 0xec, 0x5f, 0x97, 0x44, 0x17, 0xc4, 0xa7, 0x7e, 0x3d, 0x64, 0x5d, 0x19, 0x73,
   0x60, 0x81, 0x4f, 0xdc, 0x22, 0x2a, 0x90, 0x88, 0x46, 0xee, 0xb8, 0x14, 0xde, 0x5e, 0x0b, 0xdb,
   0xe0, 0x32, 0x3a, 0x0a, 0x49, 0x06, 0x24, 0x5c, 0xc2, 0xd3, 0xac, 0x62, 0x91, 0x95, 0xe4, 0x79,
   0xe7, 0xc8, 0x37, 0x6d, 0x8d, 0xd5, 0x4e, 0xa9, 0x6c, 0x56, 0xf4, 0xea, 0x65, 0x7a, 0xae, 0x08,
   0xba, 0x78, 0x25, 0x2e, 0x1c, 0xa6, 0xb4, 0xc6, 0xe8, 0xdd, 0x74, 0x1f, 0x4b, 0xbd, 0x8b, 0x8a,
   0x70, 0x3e, 0xb5, 0x66, 0x48, 0x03, 0xf6, 0x0e, 0x61, 0x35, 0x57, 0xb9, 0x86, 0xc1, 0x1d, 0x9e,
   0xe1, 0xf8, 0x98, 0x11, 0x69, 0xd9, 0x8e, 0x94, 0x9b, 0x1e, 0x87, 0xe9, 0xce, 0x55, 0x28, 0xdf,
   0x8c, 0xa1, 0x89, 0x0d, 0xbf, 0xe6, 0x42, 0x68, 0x41, 0x99, 0x2d, 0x0f, 0xb0, 0x54, 0xbb, 0x16]"
definition rsbox :: "u8 list" where
  "rsbox = [0x52, 0x09, 0x6a, 0xd5, 0x30, 0x36, 0xa5, 0x38, 0xbf, 0x40, 0xa3, 0x9e, 0x81, 0xf3, 0xd7, 0xfb,
   0x7c, 0xe3, 0x39, 0x82, 0x9b, 0x2f, 0xff, 0x87, 0x34, 0x8e, 0x43, 0x44, 0xc4, 0xde, 0xe9, 0xcb,
   0x54, 0x7b, 0x94, 0x32, 0xa6, 0xc2, 0x23, 0x3d, 0xee, 0x4c, 0x95, 0x0b, 0x42, 0xfa, 0xc3, 0x4e,
   0x08, 0x2e, 0xa1, 0x66, 0x28, 0xd9, 0x24, 0xb2, 0x76, 0x5b, 0xa2, 0x49, 0x6d, 0x8b, 0xd1, 0x25,
   0x72, 0xf8, 0xf6, 0x64, 0x86, 0x68, 0x98, 0x16, 0xd4, 0xa4, 0x5c, 0xcc, 0x5d, 0x65, 0xb6, 0x92,
   0x6c, 0x70, 0x48, 0x50, 0xfd, 0xed, 0xb9, 0xda, 0x5e, 0x15, 0x46, 0x57, 0xa7, 0x8d, 0x9d, 0x84,
   0x90, 0xd8, 0xab, 0x00, 0x8c, 0xbc, 0xd3, 0x0a, 0xf7, 0xe4, 0x58, 0x05, 0xb8, 0xb3, 0x45, 0x06,
   0xd0, 0x2c, 0x1e, 0x8f, 0xca, 0x3f, 0x0f, 0x02, 0xc1, 0xaf, 0xbd, 0x03, 0x01, 0x13, 0x8a, 0x6b,
   0x3a, 0x91, 0x11, 0x41, 0x4f, 0x67, 0xdc, 0xea, 0x97, 0xf2, 0xcf, 0xce, 0xf0, 0xb4, 0xe6, 0x73,
   0x96, 0xac, 0x74, 0x22, 0xe7, 0xad, 0x35, 0x85, 0xe2, 0xf9, 0x37, 0xe8, 0x1c, 0x75, 0xdf, 0x6e,
   0x47, 0xf1, 0x1a, 0x71, 0x1d, 0x29, 0xc5, 0x89, 0x6f, 0xb7, 0x62, 0x0e, 0xaa, 0x18, 0xbe, 0x1b,
   0xfc, 0x56, 0x3e, 0x4b, 0xc6, 0xd2, 0x79, 0x20, 0x9a, 0xdb, 0xc0, 0xfe, 0x78, 0xcd, 0x5a, 0xf4,
   0x1f, 0xdd, 0xa8, 0x33, 0x88, 0x07, 0xc7, 0x31, 0xb1, 0x12, 0x10, 0x59, 0x27, 0x80, 0xec, 0x5f,
   0x60, 0x51, 0x7f, 0xa9, 0x19, 0xb5, 0x4a, 0x0d, 0x2d, 0xe5, 0x7a, 0x9f, 0x93, 0xc9, 0x9c, 0xef,
   0xa0, 0xe0, 0x3b, 0x4d, 0xae, 0x2a, 0xf5, 0xb0, 0xc8, 0xeb, 0xbb, 0x3c, 0x83, 0x53, 0x99, 0x61,
   0x17, 0x2b, 0x04, 0x7e, 0xba, 0x77, 0xd6, 0x26, 0xe1, 0x69, 0x14, 0x63, 0x55, 0x21, 0x0c, 0x7d]"
definition Rcon :: "u8 list" where
  "Rcon = [0x8d, 0x01, 0x02, 0x04, 0x08, 0x10, 0x20, 0x40, 0x80, 0x1b, 0x36, 0x6c, 0xd8, 0xab, 0x4d, 0x9a,
   0x2f, 0x5e, 0xbc, 0x63, 0xc6, 0x97, 0x35, 0x6a, 0xd4, 0xb3, 0x7d, 0xfa, 0xef, 0xc5, 0x91, 0x39,
   0x72, 0xe4, 0xd3, 0xbd, 0x61, 0xc2, 0x9f, 0x25, 0x4a, 0x94, 0x33, 0x66, 0xcc, 0x83, 0x1d, 0x3a,
   0x74, 0xe8, 0xcb, 0x8d, 0x01, 0x02, 0x04, 0x08, 0x10, 0x20, 0x40, 0x80, 0x1b, 0x36, 0x6c, 0xd8,
   0xab, 0x4d, 0x9a, 0x2f, 0x5e, 0xbc, 0x63, 0xc6, 0x97, 0x35, 0x6a, 0xd4, 0xb3, 0x7d, 0xfa, 0xef,
   0xc5, 0x91, 0x39, 0x72, 0xe4, 0xd3, 0xbd, 0x61, 0xc2, 0x9f, 0x25, 0x4a, 0x94, 0x33, 0x66, 0xcc,
   0x83, 0x1d, 0x3a, 0x74, 0xe8, 0xcb, 0x8d, 0x01, 0x02, 0x04, 0x08, 0x10, 0x20, 0x40, 0x80, 0x1b,
   0x36, 0x6c, 0xd8, 0xab, 0x4d, 0x9a, 0x2f, 0x5e, 0xbc, 0x63, 0xc6, 0x97, 0x35, 0x6a, 0xd4, 0xb3,
   0x7d, 0xfa, 0xef, 0xc5, 0x91, 0x39, 0x72, 0xe4, 0xd3, 0xbd, 0x61, 0xc2, 0x9f, 0x25, 0x4a, 0x94,
   0x33, 0x66, 0xcc, 0x83, 0x1d, 0x3a, 0x74, 0xe8, 0xcb, 0x8d, 0x01, 0x02, 0x04, 0x08, 0x10, 0x20,
   0x40, 0x80, 0x1b, 0x36, 0x6c, 0xd8, 0xab, 0x4d, 0x9a, 0x2f, 0x5e, 0xbc, 0x63, 0xc6, 0x97, 0x35,
   0x6a, 0xd4, 0xb3, 0x7d, 0xfa, 0xef, 0xc5, 0x91, 0x39, 0x72, 0xe4, 0xd3, 0xbd, 0x61, 0xc2, 0x9f,
   0x25, 0x4a, 0x94, 0x33, 0x66, 0xcc, 0x83, 0x1d, 0x3a, 0x74, 0xe8, 0xcb, 0x8d, 0x01, 0x02, 0x04,
   0x08, 0x10, 0x20, 0x40, 0x80, 0x1b, 0x36, 0x6c, 0xd8, 0xab, 0x4d, 0x9a, 0x2f, 0x5e, 0xbc, 0x63,
   0xc6, 0x97, 0x35, 0x6a, 0xd4, 0xb3, 0x7d, 0xfa, 0xef, 0xc5, 0x91, 0x39, 0x72, 0xe4, 0xd3, 0xbd,
   0x61, 0xc2, 0x9f, 0x25, 0x4a, 0x94, 0x33, 0x66, 0xcc, 0x83, 0x1d, 0x3a, 0x74, 0xe8, 0xcb]"

subsection \<open>The state\<close>

abbreviation (input) Nb :: nat where "Nb \<equiv> 4"
abbreviation (input) Nk :: nat where "Nk \<equiv> 4"
abbreviation (input) KEYLEN :: nat where "KEYLEN \<equiv> 16"
abbreviation (input) Nr :: nat where "Nr \<equiv> 10"

definition st :: "bytes \<Rightarrow> nat \<Rightarrow> nat \<Rightarrow> u8" where
  "st s i j = s ! (4 * i + j)"

definition put :: "nat \<Rightarrow> nat \<Rightarrow> u8 \<Rightarrow> bytes \<Rightarrow> bytes" where
  "put i j v s = s[4 * i + j := v]"

definition getSBoxValue :: "u8 \<Rightarrow> u8" where
  "getSBoxValue num = sbox ! unat num"

definition getSBoxInvert :: "u8 \<Rightarrow> u8" where
  "getSBoxInvert num = rsbox ! unat num"

subsection \<open>Key expansion\<close>

definition temp_word :: "nat \<Rightarrow> bytes \<Rightarrow> bytes" where
  "temp_word i rk =
    (let tempa = map (\<lambda>j. rk ! ((i - 1) * 4 + j)) [0..<4]
     in if i mod Nk = 0
        then (let rot = [tempa ! 1, tempa ! 2, tempa ! 3, tempa ! 0];
                  sub = map getSBoxValue rot
              in sub[0 := sub ! 0 XOR Rcon ! (i div Nk)])
        else if Nk > 6 \<and> i mod Nk = 4 then map getSBoxValue tempa
        else tempa)"

definition expand_step :: "nat \<Rightarrow> bytes \<Rightarrow> bytes" where
  "expand_step i rk =
    (let tempa = temp_word i rk
     in fold (\<lambda>j rk. rk[i * 4 + j := rk ! ((i - Nk) * 4 + j) XOR tempa ! j]) [0..<4] rk)"

definition KeyExpansion :: "bytes \<Rightarrow> bytes \<Rightarrow> bytes" where
  "KeyExpansion Key RoundKey =
    fold expand_step [Nk..<Nb * (Nr + 1)]
      (fold (\<lambda>i rk. fold (\<lambda>j rk. rk[i * 4 + j := Key ! (i * 4 + j)]) [0..<4] rk) [0..<Nk] RoundKey)"

subsection \<open>Round transformations\<close>

definition AddRoundKey :: "bytes \<Rightarrow> nat \<Rightarrow> bytes \<Rightarrow> bytes" where
  "AddRoundKey RoundKey round s =
    fold (\<lambda>i. fold (\<lambda>j s. put i j (st s i j XOR RoundKey ! (round * Nb * 4 + i * Nb + j)) s) [0..<4]) [0..<4] s"

definition SubBytes :: "bytes \<Rightarrow> bytes" where
  "SubBytes s = fold (\<lambda>i. fold (\<lambda>j s. put j i (getSBoxValue (st s j i)) s) [0..<4]) [0..<4] s"

definition InvSubBytes :: "bytes \<Rightarrow> bytes" where
  "InvSubBytes s = fold (\<lambda>i. fold (\<lambda>j s. put j i (getSBoxInvert (st s j i)) s) [0..<4]) [0..<4] s"

definition ShiftRows :: "bytes \<Rightarrow> bytes" where
  "ShiftRows s =
    (let temp = st s 0 1;
         s = put 0 1 (st s 1 1) s; s = put 1 1 (st s 2 1) s; s = put 2 1 (st s 3 1) s; s = put 3 1 temp s;
         temp = st s 0 2; s = put 0 2 (st s 2 2) s; s = put 2 2 temp s;
         temp = st s 1 2; s = put 1 2 (st s 3 2) s; s = put 3 2 temp s;
         temp = st s 0 3; s = put 0 3 (st s 3 3) s; s = put 3 3 (st s 2 3) s; s = put 2 3 (st s 1 3) s
     in put 1 3 temp s)"

definition InvShiftRows :: "bytes \<Rightarrow> bytes" where
  "InvShiftRows s =
    (let temp = st s 3 1;
         s = put 3 1 (st s 2 1) s; s = put 2 1 (st s 1 1) s; s = put 1 1 (st s 0 1) s; s = put 0 1 temp s;
         temp = st s 0 2; s = put 0 2 (st s 2 2) s; s = put 2 2 temp s;
         temp = st s 1 2; s = put 1 2 (st s 3 2) s; s = put 3 2 temp s;
         temp = st s 0 3; s = put 0 3 (st s 1 3) s; s = put 1 3 (st s 2 3) s; s = put 2 3 (st s 3 3) s
     in put 3 3 temp s)"

definition xtime :: "u8 \<Rightarrow> u8" where
  "xtime x = push_bit 1 x XOR ((drop_bit 7 x AND 1) * 0x1b)"

definition mix_column :: "nat \<Rightarrow> bytes \<Rightarrow> bytes" where
  "mix_column i s =
    (let t = st s i 0;
         Tmp = st s i 0 XOR st s i 1 XOR st s i 2 XOR st s i 3;
         Tm = xtime (st s i 0 XOR st s i 1); s = put i 0 (st s i 0 XOR (Tm XOR Tmp)) s;
         Tm = xtime (st s i 1 XOR st s i 2); s = put i 1 (st s i 1 XOR (Tm XOR Tmp)) s;
         Tm = xtime (st s i 2 XOR st s i 3); s = put i 2 (st s i 2 XOR (Tm XOR Tmp)) s;
         Tm = xtime (st s i 3 XOR t)
     in put i 3 (st s i 3 XOR (Tm XOR Tmp)) s)"

definition MixColumns :: "bytes \<Rightarrow> bytes" where
  "MixColumns s = fold mix_column [0..<4] s"

definition Multiply :: "u8 \<Rightarrow> u8 \<Rightarrow> u8" where
  "Multiply x y = ((y AND 1) * x) XOR
     ((drop_bit 1 y AND 1) * xtime x) XOR
     ((drop_bit 2 y AND 1) * xtime (xtime x)) XOR
     ((drop_bit 3 y AND 1) * xtime (xtime (xtime x))) XOR
     ((drop_bit 4 y AND 1) * xtime (xtime (xtime (xtime x))))"

definition inv_mix_column :: "nat \<Rightarrow> bytes \<Rightarrow> bytes" where
  "inv_mix_column i s =
    (let a = st s i 0; b = st s i 1; c = st s i 2; d = st s i 3;
         s = put i 0 (Multiply a 0x0e XOR Multiply b 0x0b XOR Multiply c 0x0d XOR Multiply d 0x09) s;
         s = put i 1 (Multiply a 0x09 XOR Multiply b 0x0e XOR Multiply c 0x0b XOR Multiply d 0x0d) s;
         s = put i 2 (Multiply a 0x0d XOR Multiply b 0x09 XOR Multiply c 0x0e XOR Multiply d 0x0b) s
     in put i 3 (Multiply a 0x0b XOR Multiply b 0x0d XOR Multiply c 0x09 XOR Multiply d 0x0e) s)"

definition InvMixColumns :: "bytes \<Rightarrow> bytes" where
  "InvMixColumns s = fold inv_mix_column [0..<4] s"

subsection \<open>The ciphers\<close>

definition cipher_round :: "bytes \<Rightarrow> nat \<Rightarrow> bytes \<Rightarrow> bytes" where
  "cipher_round RoundKey round s = AddRoundKey RoundKey round (MixColumns (ShiftRows (SubBytes s)))"

definition Cipher :: "bytes \<Rightarrow> bytes \<Rightarrow> bytes" where
  "Cipher RoundKey s =
    (let s = AddRoundKey RoundKey 0 s;
         s = fold (cipher_round RoundKey) [1..<Nr] s
     in AddRoundKey RoundKey Nr (ShiftRows (SubBytes s)))"

definition inv_cipher_round :: "bytes \<Rightarrow> nat \<Rightarrow> bytes \<Rightarrow> bytes" where
  "inv_cipher_round RoundKey round s = InvMixColumns (AddRoundKey RoundKey round (InvSubBytes (InvShiftRows s)))"

definition InvCipher :: "bytes \<Rightarrow> bytes \<Rightarrow> bytes" where
  "InvCipher RoundKey s =
    (let s = AddRoundKey RoundKey Nr s;
         s = fold (inv_cipher_round RoundKey) (rev [1..<Nr]) s
     in AddRoundKey RoundKey 0 (InvSubBytes (InvShiftRows s)))"

text \<open>\<open>BlockCopy\<close> reads 16 bytes of the input; the result is what the 16 bytes at the output hold
  afterwards.  The second component is the static \<^verbatim>\<open>RoundKey\<close>, kept for later calls.\<close>

definition BlockCopy :: "bytes \<Rightarrow> bytes" where
  "BlockCopy input = take KEYLEN input"

definition AES128_ECB_encrypt :: "bytes \<Rightarrow> bytes \<Rightarrow> bytes \<Rightarrow> bytes \<times> bytes" where
  "AES128_ECB_encrypt input key RoundKey =
    (let rk = KeyExpansion key RoundKey in (Cipher rk (BlockCopy input), rk))"

definition AES128_ECB_decrypt :: "bytes \<Rightarrow> bytes \<Rightarrow> bytes \<Rightarrow> bytes \<times> bytes" where
  "AES128_ECB_decrypt input key RoundKey =
    (let rk = KeyExpansion key RoundKey in (InvCipher rk (BlockCopy input), rk))"

subsection \<open>The transformations on 16 bytes\<close>

lemma length_16E:
  assumes "length s = 16"
  obtains s0 s1 s2 s3 s4 s5 s6 s7 s8 s9 s10 s11 s12 s13 s14 s15
  where "s = [s0, s1, s2, s3, s4, s5, s6, s7, s8, s9, s10, s11, s12, s13, s14, s15]"
  using assms by (auto simp: eval_nat_numeral length_Suc_conv)

lemma update_numeral [simp]: "(x # xs)[numeral k := v] = x # xs[pred_numeral k := v]"
  by (simp add: numeral_eq_Suc)

named_theorems aes

lemma upt4 [aes]: "[0..<4] = [0, 1, 2, 3]"
  by (simp add: upt_rec)

lemmas [aes] = st_def put_def

lemma SubBytes_map: "length s = 16 \<Longrightarrow> SubBytes s = map getSBoxValue s"
  by (erule length_16E) (simp add: SubBytes_def aes)

lemma InvSubBytes_map: "length s = 16 \<Longrightarrow> InvSubBytes s = map getSBoxInvert s"
  by (erule length_16E) (simp add: InvSubBytes_def aes)

lemma ShiftRows_eq:
  "ShiftRows [s0, s1, s2, s3, s4, s5, s6, s7, s8, s9, s10, s11, s12, s13, s14, s15] =
    [s0, s5, s10, s15, s4, s9, s14, s3, s8, s13, s2, s7, s12, s1, s6, s11]"
  by (simp add: ShiftRows_def aes)

lemma InvShiftRows_eq:
  "InvShiftRows [s0, s1, s2, s3, s4, s5, s6, s7, s8, s9, s10, s11, s12, s13, s14, s15] =
    [s0, s13, s10, s7, s4, s1, s14, s11, s8, s5, s2, s15, s12, s9, s6, s3]"
  by (simp add: InvShiftRows_def aes)


lemma upt16: "[0..<16] = [0, 1, 2, 3, 4, 5, 6, 7, 8, 9, 10, 11, 12, 13, 14, 15]"
  by (simp add: upt_rec)

lemma AddRoundKey_map2:
  "length s = 16 \<Longrightarrow> AddRoundKey rk r s = map2 (\<lambda>x i. x XOR rk ! (16 * r + i)) s [0..<16]"
  by (erule length_16E) (simp add: AddRoundKey_def aes upt16 algebra_simps)

lemma xtime_if: "xtime x = push_bit 1 x XOR (if bit x 7 then 0x1b else 0)"
proof -
  have "drop_bit 7 x AND 1 = (if bit x 7 then 1 else 0)"
    by (rule bit_word_eqI) (auto simp: bit_simps intro!: gr0I dest: bit_imp_le_length)
  then show ?thesis by (simp add: xtime_def)
qed

lemma xtime_xor: "xtime (a XOR b) = xtime a XOR xtime b"
  unfolding xtime_if by (simp add: bit_xor_iff ac_simps)

lemma Multiply_consts:
  "Multiply x 9 = x XOR xtime (xtime (xtime x))"
  "Multiply x 11 = x XOR xtime x XOR xtime (xtime (xtime x))"
  "Multiply x 13 = x XOR xtime (xtime x) XOR xtime (xtime (xtime x))"
  "Multiply x 14 = xtime x XOR xtime (xtime x) XOR xtime (xtime (xtime x))"
  by (simp_all add: Multiply_def)

lemmas xor_ac = xor.assoc xor.commute xor.left_commute

lemma xor_cancel [simp]: "(x :: u8) XOR (x XOR y) = y"
  by (simp add: xor.assoc [symmetric])

text \<open>One byte of a mixed column, and of an unmixed one.\<close>

definition mix_byte :: "u8 \<Rightarrow> u8 \<Rightarrow> u8 \<Rightarrow> u8 \<Rightarrow> u8" where
  "mix_byte a b c d = xtime a XOR (xtime b XOR b) XOR c XOR d"

definition inv_mix_byte :: "u8 \<Rightarrow> u8 \<Rightarrow> u8 \<Rightarrow> u8 \<Rightarrow> u8" where
  "inv_mix_byte a b c d = Multiply a 14 XOR Multiply b 11 XOR Multiply c 13 XOR Multiply d 9"

lemma mix_column_eq:
  "mix_column 0 [s0, s1, s2, s3, s4, s5, s6, s7, s8, s9, s10, s11, s12, s13, s14, s15] =
    [mix_byte s0 s1 s2 s3, mix_byte s1 s2 s3 s0, mix_byte s2 s3 s0 s1, mix_byte s3 s0 s1 s2, s4, s5, s6, s7, s8, s9, s10, s11, s12, s13, s14, s15]"
  "mix_column 1 [s0, s1, s2, s3, s4, s5, s6, s7, s8, s9, s10, s11, s12, s13, s14, s15] =
    [s0, s1, s2, s3, mix_byte s4 s5 s6 s7, mix_byte s5 s6 s7 s4, mix_byte s6 s7 s4 s5, mix_byte s7 s4 s5 s6, s8, s9, s10, s11, s12, s13, s14, s15]"
  "mix_column 2 [s0, s1, s2, s3, s4, s5, s6, s7, s8, s9, s10, s11, s12, s13, s14, s15] =
    [s0, s1, s2, s3, s4, s5, s6, s7, mix_byte s8 s9 s10 s11, mix_byte s9 s10 s11 s8, mix_byte s10 s11 s8 s9, mix_byte s11 s8 s9 s10, s12, s13, s14, s15]"
  "mix_column 3 [s0, s1, s2, s3, s4, s5, s6, s7, s8, s9, s10, s11, s12, s13, s14, s15] =
    [s0, s1, s2, s3, s4, s5, s6, s7, s8, s9, s10, s11, mix_byte s12 s13 s14 s15, mix_byte s13 s14 s15 s12, mix_byte s14 s15 s12 s13, mix_byte s15 s12 s13 s14]"
  by (simp_all add: mix_column_def mix_byte_def aes Let_def xtime_xor xor_ac)

lemma inv_mix_column_eq:
  "inv_mix_column 0 [s0, s1, s2, s3, s4, s5, s6, s7, s8, s9, s10, s11, s12, s13, s14, s15] =
    [inv_mix_byte s0 s1 s2 s3, inv_mix_byte s1 s2 s3 s0, inv_mix_byte s2 s3 s0 s1, inv_mix_byte s3 s0 s1 s2, s4, s5, s6, s7, s8, s9, s10, s11, s12, s13, s14, s15]"
  "inv_mix_column 1 [s0, s1, s2, s3, s4, s5, s6, s7, s8, s9, s10, s11, s12, s13, s14, s15] =
    [s0, s1, s2, s3, inv_mix_byte s4 s5 s6 s7, inv_mix_byte s5 s6 s7 s4, inv_mix_byte s6 s7 s4 s5, inv_mix_byte s7 s4 s5 s6, s8, s9, s10, s11, s12, s13, s14, s15]"
  "inv_mix_column 2 [s0, s1, s2, s3, s4, s5, s6, s7, s8, s9, s10, s11, s12, s13, s14, s15] =
    [s0, s1, s2, s3, s4, s5, s6, s7, inv_mix_byte s8 s9 s10 s11, inv_mix_byte s9 s10 s11 s8, inv_mix_byte s10 s11 s8 s9, inv_mix_byte s11 s8 s9 s10, s12, s13, s14, s15]"
  "inv_mix_column 3 [s0, s1, s2, s3, s4, s5, s6, s7, s8, s9, s10, s11, s12, s13, s14, s15] =
    [s0, s1, s2, s3, s4, s5, s6, s7, s8, s9, s10, s11, inv_mix_byte s12 s13 s14 s15, inv_mix_byte s13 s14 s15 s12, inv_mix_byte s14 s15 s12 s13, inv_mix_byte s15 s12 s13 s14]"
  by (simp_all add: inv_mix_column_def inv_mix_byte_def aes Let_def xor_ac)

lemma MixColumns_eq:
  "MixColumns [s0, s1, s2, s3, s4, s5, s6, s7, s8, s9, s10, s11, s12, s13, s14, s15] =
    [mix_byte s0 s1 s2 s3, mix_byte s1 s2 s3 s0, mix_byte s2 s3 s0 s1, mix_byte s3 s0 s1 s2,
     mix_byte s4 s5 s6 s7, mix_byte s5 s6 s7 s4, mix_byte s6 s7 s4 s5, mix_byte s7 s4 s5 s6,
     mix_byte s8 s9 s10 s11, mix_byte s9 s10 s11 s8, mix_byte s10 s11 s8 s9, mix_byte s11 s8 s9 s10,
     mix_byte s12 s13 s14 s15, mix_byte s13 s14 s15 s12, mix_byte s14 s15 s12 s13, mix_byte s15 s12 s13 s14]"
  by (simp add: MixColumns_def upt4 mix_column_eq [unfolded One_nat_def])

lemma InvMixColumns_eq:
  "InvMixColumns [s0, s1, s2, s3, s4, s5, s6, s7, s8, s9, s10, s11, s12, s13, s14, s15] =
    [inv_mix_byte s0 s1 s2 s3, inv_mix_byte s1 s2 s3 s0, inv_mix_byte s2 s3 s0 s1, inv_mix_byte s3 s0 s1 s2,
     inv_mix_byte s4 s5 s6 s7, inv_mix_byte s5 s6 s7 s4, inv_mix_byte s6 s7 s4 s5, inv_mix_byte s7 s4 s5 s6,
     inv_mix_byte s8 s9 s10 s11, inv_mix_byte s9 s10 s11 s8, inv_mix_byte s10 s11 s8 s9, inv_mix_byte s11 s8 s9 s10,
     inv_mix_byte s12 s13 s14 s15, inv_mix_byte s13 s14 s15 s12, inv_mix_byte s14 s15 s12 s13, inv_mix_byte s15 s12 s13 s14]"
  by (simp add: InvMixColumns_def upt4 inv_mix_column_eq [unfolded One_nat_def])

lemma inv_mix_byte_mix_byte [simp]:
  "inv_mix_byte (mix_byte a b c d) (mix_byte b c d a) (mix_byte c d a b) (mix_byte d a b c) = a"
  by (simp add: inv_mix_byte_def mix_byte_def Multiply_consts xtime_xor xor_ac)

lemma InvMixColumns_MixColumns: "length s = 16 \<Longrightarrow> InvMixColumns (MixColumns s) = s"
  by (erule length_16E) (simp add: MixColumns_eq InvMixColumns_eq)

lemma InvShiftRows_ShiftRows: "length s = 16 \<Longrightarrow> InvShiftRows (ShiftRows s) = s"
  by (erule length_16E) (simp add: ShiftRows_eq InvShiftRows_eq)

lemma length_round [simp]:
  "length s = 16 \<Longrightarrow> length (SubBytes s) = 16" "length s = 16 \<Longrightarrow> length (InvSubBytes s) = 16"
  "length s = 16 \<Longrightarrow> length (ShiftRows s) = 16" "length s = 16 \<Longrightarrow> length (InvShiftRows s) = 16"
  "length s = 16 \<Longrightarrow> length (MixColumns s) = 16" "length s = 16 \<Longrightarrow> length (InvMixColumns s) = 16"
  "length s = 16 \<Longrightarrow> length (AddRoundKey rk r s) = 16"
  by (simp_all add: SubBytes_map InvSubBytes_map AddRoundKey_map2)
    (erule length_16E, simp add: ShiftRows_eq InvShiftRows_eq MixColumns_eq InvMixColumns_eq)+

lemma AddRoundKey_twice: "length s = 16 \<Longrightarrow> AddRoundKey rk r (AddRoundKey rk r s) = s"
  by (simp add: AddRoundKey_map2 list_eq_iff_nth_eq xor.assoc)

text \<open>The tables as equations, one per byte.\<close>

lemma upt_256: "[0..<256] = [0, 1, 2, 3, 4, 5, 6, 7, 8, 9, 10, 11, 12, 13, 14, 15, 16, 17, 18, 19, 20, 21, 22, 23, 24, 25,
    26, 27, 28, 29, 30, 31, 32, 33, 34, 35, 36, 37, 38, 39, 40, 41, 42, 43, 44, 45, 46, 47, 48, 49,
    50, 51, 52, 53, 54, 55, 56, 57, 58, 59, 60, 61, 62, 63, 64, 65, 66, 67, 68, 69, 70, 71, 72, 73,
    74, 75, 76, 77, 78, 79, 80, 81, 82, 83, 84, 85, 86, 87, 88, 89, 90, 91, 92, 93, 94, 95, 96, 97,
    98, 99, 100, 101, 102, 103, 104, 105, 106, 107, 108, 109, 110, 111, 112, 113, 114, 115, 116,
    117, 118, 119, 120, 121, 122, 123, 124, 125, 126, 127, 128, 129, 130, 131, 132, 133, 134, 135,
    136, 137, 138, 139, 140, 141, 142, 143, 144, 145, 146, 147, 148, 149, 150, 151, 152, 153, 154,
    155, 156, 157, 158, 159, 160, 161, 162, 163, 164, 165, 166, 167, 168, 169, 170, 171, 172, 173,
    174, 175, 176, 177, 178, 179, 180, 181, 182, 183, 184, 185, 186, 187, 188, 189, 190, 191, 192,
    193, 194, 195, 196, 197, 198, 199, 200, 201, 202, 203, 204, 205, 206, 207, 208, 209, 210, 211,
    212, 213, 214, 215, 216, 217, 218, 219, 220, 221, 222, 223, 224, 225, 226, 227, 228, 229, 230,
    231, 232, 233, 234, 235, 236, 237, 238, 239, 240, 241, 242, 243, 244, 245, 246, 247, 248, 249,
    250, 251, 252, 253, 254, 255]"
  by (simp add: upt_conv_Cons)

lemma table_equations:
  "length t = 256 \<Longrightarrow> map (\<lambda>i. t ! unat (of_nat i :: u8)) [0..<256] = t"
  by (rule nth_equalityI) (simp_all add: unat_of_nat_small)

lemma getSBoxValue_all: "map (\<lambda>i. getSBoxValue (of_nat i)) [0..<256] = sbox"
  unfolding getSBoxValue_def by (rule table_equations) (simp add: sbox_def)

lemma getSBoxInvert_all: "map (\<lambda>i. getSBoxInvert (of_nat i)) [0..<256] = rsbox"
  unfolding getSBoxInvert_def by (rule table_equations) (simp add: rsbox_def)

lemmas getSBoxValue_table = getSBoxValue_all [unfolded sbox_def upt_256, simplified]
lemmas getSBoxInvert_table = getSBoxInvert_all [unfolded rsbox_def upt_256, simplified]

lemma rsbox_sbox: "map getSBoxInvert sbox = map of_nat [0..<256]"
  by (simp add: sbox_def getSBoxInvert_table upt_256)

lemma getSBoxInvert_getSBoxValue [simp]: "getSBoxInvert (getSBoxValue x) = x"
proof -
  have n: "unat x < 256" using unsigned_less [of x, where ?'a = nat] by simp
  have "map getSBoxInvert sbox ! unat x = x"
    unfolding rsbox_sbox using n by simp
  moreover have "length sbox = 256" by (simp add: sbox_def)
  ultimately show ?thesis using n by (simp add: getSBoxValue_def)
qed

lemma InvSubBytes_SubBytes: "length s = 16 \<Longrightarrow> InvSubBytes (SubBytes s) = s"
  by (simp add: SubBytes_map InvSubBytes_map map_idI)

lemma inv_round:
  assumes "length s = 16"
  shows "InvSubBytes (InvShiftRows (ShiftRows (SubBytes s))) = s"
  using assms by (simp add: InvShiftRows_ShiftRows InvSubBytes_SubBytes)

text \<open>The inverse cipher undoes the rounds one by one, with the state before the last half round
  between them.\<close>

lemma inv_cipher_round_cipher_round:
  assumes "length s = 16"
  shows "inv_cipher_round rk r (ShiftRows (SubBytes (cipher_round rk r s))) = ShiftRows (SubBytes s)"
  using assms
  by (simp add: inv_cipher_round_def cipher_round_def inv_round AddRoundKey_twice InvMixColumns_MixColumns)

lemma length_cipher_rounds: "length s = 16 \<Longrightarrow> length (fold (cipher_round rk) rs s) = 16"
  by (induction rs arbitrary: s) (simp_all add: cipher_round_def)

lemma inv_cipher_rounds:
  "length s = 16 \<Longrightarrow>
    fold (inv_cipher_round rk) (rev rs) (ShiftRows (SubBytes (fold (cipher_round rk) rs s))) = ShiftRows (SubBytes s)"
proof (induction rs arbitrary: s)
  case (Cons r rs)
  have "length (cipher_round rk r s) = 16" using Cons.prems by (simp add: cipher_round_def)
  from Cons.IH [OF this] show ?case
    by (simp add: inv_cipher_round_cipher_round Cons.prems)
qed simp

lemma InvCipher_Cipher:
  assumes s: "length s = 16"
  shows "InvCipher rk (Cipher rk s) = s"
proof -
  define s1 where "s1 = AddRoundKey rk 0 s"
  have s1: "length s1 = 16" using s by (simp add: s1_def)
  show ?thesis
    unfolding Cipher_def InvCipher_def Let_def s1_def [symmetric]
    using s1 inv_cipher_rounds [OF s1, of rk "[1..<10]"]
    by (simp only: AddRoundKey_twice length_round length_cipher_rounds InvShiftRows_ShiftRows InvSubBytes_SubBytes)
      (simp add: s1_def AddRoundKey_twice s)
qed

lemma length_Cipher [simp]: "length s = 16 \<Longrightarrow> length (Cipher rk s) = 16"
  by (simp add: Cipher_def Let_def length_cipher_rounds del: upt_Suc)

subsection \<open>Key expansion is the recurrence of the standard\<close>

definition key_word :: "nat \<Rightarrow> bytes \<Rightarrow> bytes" where
  "key_word i rk = map (\<lambda>j. rk ! (4 * i + j)) [0, 1, 2, 3]"

definition xor_words :: "bytes \<Rightarrow> bytes \<Rightarrow> bytes" where
  "xor_words = map2 (XOR)"

definition fips_next :: "nat \<Rightarrow> bytes \<Rightarrow> bytes \<Rightarrow> bytes" where
  "fips_next i w4 w1 = xor_words w4
    (if i mod 4 = 0 then xor_words (map getSBoxValue (rotate1 w1)) [Rcon ! (i div 4), 0, 0, 0] else w1)"

lemma temp_word_eq:
  assumes "1 \<le> i"
  shows "temp_word i rk = (if i mod 4 = 0 then xor_words (map getSBoxValue (rotate1 (key_word (i - 1) rk))) [Rcon ! (i div 4), 0, 0, 0]
     else key_word (i - 1) rk)"
  using assms by (simp add: temp_word_def key_word_def xor_words_def upt4 Let_def mult.commute)

lemma expand_step_eq:
  "expand_step i rk = (let t = temp_word i rk in
    rk[4 * i := rk ! (4 * (i - 4)) XOR t ! 0, 4 * i + 1 := rk ! (4 * (i - 4) + 1) XOR t ! 1,
       4 * i + 2 := rk ! (4 * (i - 4) + 2) XOR t ! 2, 4 * i + 3 := rk ! (4 * (i - 4) + 3) XOR t ! 3])" if "4 \<le> i"
  using that by (simp add: expand_step_def upt4 Let_def mult.commute)

lemma length_expand_step [simp]: "length (expand_step i rk) = length rk"
  by (simp add: expand_step_def upt4 Let_def)

lemma key_word_expand_step_other:
  assumes "4 \<le> i" "j \<noteq> i"
  shows "key_word j (expand_step i rk) = key_word j rk"
proof -
  have "4 * i + a \<noteq> 4 * j + b" if "a < 4" "b < 4" for a b using assms that by linarith
  from this [of 0] this [of 1] this [of 2] this [of 3] show ?thesis
    using assms by (simp add: expand_step_eq key_word_def Let_def)
qed

lemma key_word_expand_step:
  assumes "4 \<le> i" "4 * i + 3 < length rk"
  shows "key_word i (expand_step i rk) = fips_next i (key_word (i - 4) rk) (key_word (i - 1) rk)"
proof -
  have len: "length (temp_word i rk) = 4"
    using assms by (simp add: temp_word_eq key_word_def xor_words_def)
  then obtain t0 t1 t2 t3 where t: "temp_word i rk = [t0, t1, t2, t3]"
    by (auto simp: eval_nat_numeral length_Suc_conv)
  have "key_word i (expand_step i rk) = xor_words (key_word (i - 4) rk) (temp_word i rk)"
    using assms by (simp add: expand_step_eq key_word_def Let_def t xor_words_def)
  then show ?thesis using assms by (simp add: temp_word_eq fips_next_def)
qed

lemma length_expand_steps: "length (fold expand_step is rk) = length rk"
  by (induction "is" arbitrary: rk) simp_all

lemma expand_steps:
  assumes "length rk = 176"
  shows "n \<le> 44 \<Longrightarrow> (\<forall>i < 4. key_word i (fold expand_step [4..<n] rk) = key_word i rk) \<and>
    (\<forall>i. 4 \<le> i \<and> i < n \<longrightarrow> key_word i (fold expand_step [4..<n] rk) =
       fips_next i (key_word (i - 4) (fold expand_step [4..<n] rk)) (key_word (i - 1) (fold expand_step [4..<n] rk)))"
proof (induction n)
  case (Suc n)
  show ?case
  proof (cases "4 \<le> n")
    case True
    let ?r = "fold expand_step [4..<n] rk"
    have len: "length ?r = 176" using assms by (simp add: length_expand_steps)
    have step: "fold expand_step [4..<Suc n] rk = expand_step n ?r" using True by simp
    have old: "key_word j (expand_step n ?r) = key_word j ?r" if "j < n" for j
      using that True by (simp add: key_word_expand_step_other)
    have new: "key_word n (expand_step n ?r) = fips_next n (key_word (n - 4) ?r) (key_word (n - 1) ?r)"
      using True Suc.prems len by (intro key_word_expand_step) simp_all
    have IH1: "\<forall>i < 4. key_word i ?r = key_word i rk"
      and IH2: "\<forall>i. 4 \<le> i \<and> i < n \<longrightarrow> key_word i ?r = fips_next i (key_word (i - 4) ?r) (key_word (i - 1) ?r)"
      using Suc by auto
    show ?thesis unfolding step
    proof (intro conjI allI impI, goal_cases)
      case (1 i)
      then show ?case using old [of i] IH1 True by simp
    next
      case (2 i)
      show ?case
      proof (cases "i = n")
        case True
        then show ?thesis using new old [of "n - 4"] old [of "n - 1"] \<open>4 \<le> n\<close> by simp
      next
        case False
        with 2 have "i < n" "i - 4 < n" "i - 1 < n" by auto
        then show ?thesis using 2 IH2 by (simp only: old)
      qed
    qed
  qed (use Suc in auto)
qed simp


lemma KeyExpansion_first:
  assumes "16 \<le> length key" "length RoundKey = 176"
  shows "fold (\<lambda>i rk. fold (\<lambda>j rk. rk[i * 4 + j := key ! (i * 4 + j)]) [0..<4] rk) [0..<4] RoundKey =
    take 16 key @ drop 16 RoundKey"
proof -
  obtain k0 k1 k2 k3 k4 k5 k6 k7 k8 k9 k10 k11 k12 k13 k14 k15 where k: "take 16 key =
      [k0, k1, k2, k3, k4, k5, k6, k7, k8, k9, k10, k11, k12, k13, k14, k15]"
    using assms(1) by (auto intro: length_16E [of "take 16 key"])
  obtain r0 r1 r2 r3 r4 r5 r6 r7 r8 r9 r10 r11 r12 r13 r14 r15 where r: "take 16 RoundKey =
      [r0, r1, r2, r3, r4, r5, r6, r7, r8, r9, r10, r11, r12, r13, r14, r15]"
    using assms(2) by (auto intro: length_16E [of "take 16 RoundKey"])
  have key: "key = take 16 key @ drop 16 key" and rk: "RoundKey = take 16 RoundKey @ drop 16 RoundKey" by simp_all
  show ?thesis
    by (subst rk, subst key, subst (2) key, unfold k r) (simp add: upt4)
qed

lemma key_word_append: "i < 4 \<Longrightarrow> length k = 16 \<Longrightarrow> key_word i (k @ r) = key_word i k"
  by (simp add: key_word_def nth_append)

lemma key_word_take: "i < 4 \<Longrightarrow> key_word i (take 16 k) = key_word i k"
  by (simp add: key_word_def)

subsection \<open>The CBC routines\<close>

text \<open>The static variables: the round keys and what \<^verbatim>\<open>Iv\<close> points to.\<close>

record aes_sys =
  RoundKey :: bytes
  Iv :: bytes

definition XorWithIv :: "bytes \<Rightarrow> bytes \<Rightarrow> bytes" where
  "XorWithIv iv buf = fold (\<lambda>i b. b[i := b ! i XOR iv ! i]) [0..<KEYLEN] buf"

text \<open>A loop run on \<open>n\<close> bytes still to do (\<^verbatim>\<open>length - i\<close>) gives what it wrote to the output, the last
  \<^verbatim>\<open>Iv\<close>, and the input: what the loop left in the blocks it passed and what follows them.\<close>

fun cbc_encrypt_loop :: "nat \<Rightarrow> bytes \<Rightarrow> bytes \<Rightarrow> bytes \<Rightarrow> bytes \<times> bytes \<times> bytes \<times> bytes" where
  "cbc_encrypt_loop n rk iv input =
    (if n = 0 then ([], iv, [], input)
     else (let input = XorWithIv iv input;
               output = Cipher rk (BlockCopy input);
               (out, iv', passed, rest) = cbc_encrypt_loop (n - KEYLEN) rk output (drop KEYLEN input)
           in (output @ out, iv', take KEYLEN input @ passed, rest)))"

declare cbc_encrypt_loop.simps [simp del]

definition last_block :: "nat \<Rightarrow> bytes \<Rightarrow> bytes" where
  "last_block remainders input = take remainders (BlockCopy input) @ replicate (KEYLEN - remainders) 0"

definition set_key_iv :: "bytes option \<Rightarrow> bytes option \<Rightarrow> aes_sys \<Rightarrow> aes_sys" where
  "set_key_iv key iv s =
    (let s = (case key of None \<Rightarrow> s | Some k \<Rightarrow> s\<lparr>RoundKey := KeyExpansion k (RoundKey s)\<rparr>)
     in case iv of None \<Rightarrow> s | Some v \<Rightarrow> s\<lparr>Iv := v\<rparr>)"

text \<open>The bytes written at the output, the input afterwards, and the static variables.\<close>

definition AES128_CBC_encrypt_buffer ::
    "bytes \<Rightarrow> nat \<Rightarrow> bytes option \<Rightarrow> bytes option \<Rightarrow> aes_sys \<Rightarrow> bytes \<times> bytes \<times> aes_sys" where
  "AES128_CBC_encrypt_buffer input len key iv s =
    (let remainders = len mod KEYLEN;
         s = set_key_iv key iv s;
         (out, iv', passed, rest) = cbc_encrypt_loop len (RoundKey s) (Iv s) input;
         out = (if remainders \<noteq> 0 then out @ Cipher (RoundKey s) (last_block remainders rest) else out)
     in (if len = 0 then BlockCopy input else out, passed @ rest, s\<lparr>Iv := iv'\<rparr>))"

fun cbc_decrypt_loop :: "nat \<Rightarrow> bytes \<Rightarrow> bytes \<Rightarrow> bytes \<Rightarrow> bytes \<times> bytes \<times> bytes" where
  "cbc_decrypt_loop n rk iv input =
    (if n = 0 then ([], iv, input)
     else (let output = XorWithIv iv (InvCipher rk (BlockCopy input));
               (out, iv', rest) = cbc_decrypt_loop (n - KEYLEN) rk (BlockCopy input) (drop KEYLEN input)
           in (output @ out, iv', rest)))"

declare cbc_decrypt_loop.simps [simp del]

definition AES128_CBC_decrypt_buffer ::
    "bytes \<Rightarrow> nat \<Rightarrow> bytes option \<Rightarrow> bytes option \<Rightarrow> aes_sys \<Rightarrow> bytes \<times> aes_sys" where
  "AES128_CBC_decrypt_buffer input len key iv s =
    (let remainders = len mod KEYLEN;
         s = set_key_iv key iv s;
         (out, iv', rest) = cbc_decrypt_loop len (RoundKey s) (Iv s) input;
         out = (if remainders \<noteq> 0 then out @ InvCipher (RoundKey s) (last_block remainders rest) else out)
     in (if len = 0 then BlockCopy input else out, s\<lparr>Iv := iv'\<rparr>))"

subsection \<open>The Lua entries\<close>

text \<open>\<^verbatim>\<open>rmnLen\<close> bytes are left at \<open>inputData\<close>.  The item is 17 bytes, zero but for what is copied.\<close>

definition input_item :: "nat \<Rightarrow> bytes \<Rightarrow> bytes" where
  "input_item n inputData = take n inputData @ replicate (17 - n) 0"

function ecb_loop :: "(bytes \<Rightarrow> bytes \<Rightarrow> bytes \<Rightarrow> bytes \<times> bytes) \<Rightarrow> nat \<Rightarrow> bytes \<Rightarrow> bytes \<Rightarrow> bytes \<Rightarrow> bytes \<times> bytes" where
  "ecb_loop crypt rmnLen inputData key rk =
    (if rmnLen > 16 then
       (let (outputItem, rk) = crypt (input_item 16 inputData) key rk;
            (out, rk) = ecb_loop crypt (rmnLen - 16) (drop 16 inputData) key rk
        in (outputItem @ out, rk))
     else if rmnLen \<noteq> 0 then crypt (input_item rmnLen inputData) key rk
     else ([], rk))"
  by pat_completeness auto
termination by (relation "measure (\<lambda>(_, n, _, _, _). n)") auto

declare ecb_loop.simps [simp del]

definition l_crypto_aes128_ecb_encrypt :: "bytes \<Rightarrow> int \<Rightarrow> bytes \<Rightarrow> aes_sys \<Rightarrow> bytes \<times> aes_sys" where
  "l_crypto_aes128_ecb_encrypt inputData inputLen key s =
    (let (out, rk) = ecb_loop AES128_ECB_encrypt (unat (word_of_int inputLen :: u32)) inputData key (RoundKey s)
     in (out, s\<lparr>RoundKey := rk\<rparr>))"

definition l_crypto_aes128_ecb_decrypt :: "bytes \<Rightarrow> int \<Rightarrow> bytes \<Rightarrow> aes_sys \<Rightarrow> bytes \<times> aes_sys" where
  "l_crypto_aes128_ecb_decrypt inputData inputLen key s =
    (let (out, rk) = ecb_loop AES128_ECB_decrypt (unat (word_of_int inputLen :: u32)) inputData key (RoundKey s)
     in (out, s\<lparr>RoundKey := rk\<rparr>))"

subsection \<open>The key schedule by words\<close>

function fips_word :: "bytes \<Rightarrow> nat \<Rightarrow> bytes" where
  "fips_word key i = (if i < 4 then key_word i key else fips_next i (fips_word key (i - 4)) (fips_word key (i - 1)))"
  by pat_completeness auto
termination by (relation "measure snd") auto

declare fips_word.simps [simp del]

lemma length_KeyExpansion:
  assumes "16 \<le> length key" "length rk = 176"
  shows "length (KeyExpansion key rk) = 176"
  using assms by (simp add: KeyExpansion_def KeyExpansion_first length_expand_steps del: upt_Suc)

lemma key_word_KeyExpansion:
  assumes "16 \<le> length key" "length rk = 176" "i < 44"
  shows "key_word i (KeyExpansion key rk) = fips_word key i"
proof -
  let ?r = "take 16 key @ drop 16 rk"
  have len: "length ?r = 176" "length (take 16 key) = 16" using assms by simp_all
  have eq: "KeyExpansion key rk = fold expand_step [4..<44] ?r"
    using assms by (simp add: KeyExpansion_def KeyExpansion_first del: upt_Suc)
  note steps = expand_steps [OF len(1), of 44, folded eq]
  show ?thesis using assms(3)
  proof (induction i rule: less_induct)
    case (less i)
    show ?case
    proof (cases "i < 4")
      case True
      then show ?thesis
        using steps len(2) by (simp add: key_word_append key_word_take fips_word.simps [of key i])
    next
      case False
      then show ?thesis
        using steps less less.IH [of "i - 4"] less.IH [of "i - 1"] by (simp add: fips_word.simps [of key i])
    qed
  qed
qed

lemma concat_key_words:
  "length rk = 4 * n \<Longrightarrow> concat (map (\<lambda>i. key_word i rk) [0..<n]) = rk"
proof (induction n arbitrary: rk)
  case (Suc n)
  have "concat (map (\<lambda>i. key_word i (take (4 * n) rk)) [0..<n]) = take (4 * n) rk"
    using Suc by simp
  moreover have "map (\<lambda>i. key_word i (take (4 * n) rk)) [0..<n] = map (\<lambda>i. key_word i rk) [0..<n]"
    by (rule map_cong [OF refl]) (simp add: key_word_def)
  ultimately have "concat (map (\<lambda>i. key_word i rk) [0..<n]) = take (4 * n) rk" by (simp only:)
  moreover have "key_word n rk = drop (4 * n) rk"
  proof -
    have "length (drop (4 * n) rk) = Suc (Suc (Suc (Suc 0)))" using Suc.prems by simp
    then obtain a b c d where "drop (4 * n) rk = [a, b, c, d]" by (auto simp only: length_Suc_conv length_0_conv)
    then have n: "drop (4 * n) rk = [a, b, c, d]" "\<And>j. rk ! (4 * n + j) = [a, b, c, d] ! j"
      using Suc.prems by (simp_all flip: nth_drop)
    then show ?thesis by (simp only: key_word_def list.map n) simp
  qed
  ultimately show ?case by simp
qed simp

lemma KeyExpansion_concat:
  assumes "16 \<le> length key" "length rk = 176"
  shows "KeyExpansion key rk = concat (map (fips_word key) [0..<44])"
proof -
  have "concat (map (\<lambda>i. key_word i (KeyExpansion key rk)) [0..<44]) = KeyExpansion key rk"
    by (rule concat_key_words) (simp add: length_KeyExpansion assms)
  moreover have "map (\<lambda>i. key_word i (KeyExpansion key rk)) [0..<44] = map (fips_word key) [0..<44]"
    by (rule map_cong [OF refl]) (simp add: key_word_KeyExpansion assms)
  ultimately show ?thesis by (simp only:)
qed

subsection \<open>Block modes\<close>

lemma take_input_item [simp]: "BlockCopy (input_item n d) = take n d @ replicate (16 - n) 0"
  if "n \<le> 16" "n \<le> length d"
  using that by (simp add: BlockCopy_def input_item_def)

text \<open>A string in blocks, each passed through \<open>f\<close>.\<close>

function in_blocks :: "(bytes \<Rightarrow> bytes) \<Rightarrow> bytes \<Rightarrow> bytes" where
  "in_blocks f d = (if d = [] then [] else f (take 16 d @ replicate (16 - length d) 0) @ in_blocks f (drop 16 d))"
  by pat_completeness auto
termination by (relation "measure (\<lambda>(_, d). length d)") auto

declare in_blocks.simps [simp del]

definition zero_padded :: "bytes \<Rightarrow> bytes" where
  "zero_padded d = d @ replicate ((16 - length d mod 16) mod 16) 0"

lemma ecb_loop_blocks:
  assumes crypt: "\<And>x rk. length rk = 176 \<Longrightarrow> crypt x key rk = (f (BlockCopy x), rk0)"
    and rk0: "length rk0 = 176"
  shows "length rk = 176 \<Longrightarrow> fst (ecb_loop crypt (length d) d key rk) = in_blocks f d"
proof (induction d arbitrary: rk rule: length_induct)
  case (1 d)
  show ?case
  proof (cases "length d > 16")
    case True
    moreover have "length (drop 16 d) < length d" using True by simp
    then have "fst (ecb_loop crypt (length (drop 16 d)) (drop 16 d) key rk0) = in_blocks f (drop 16 d)"
      using 1(1) rk0 by blast
    moreover have "d \<noteq> []" using True by auto
    ultimately show ?thesis
      using crypt [OF 1(2)] by (simp add: ecb_loop.simps [of crypt "length d"] in_blocks.simps [of f d] case_prod_beta)
  next
    case False
    then show ?thesis
      using crypt [OF 1(2)] by (simp add: ecb_loop.simps [of crypt "length d"] in_blocks.simps [of f d] in_blocks.simps [of f "[]"])
  qed
qed

lemma zero_padded_step: "16 \<le> length d \<Longrightarrow> zero_padded d = take 16 d @ zero_padded (drop 16 d)"
  by (simp add: zero_padded_def le_mod_geq)

lemma in_blocks_inverse:
  assumes inv: "\<And>x. length x = 16 \<Longrightarrow> g (f x) = x" and len: "\<And>x. length x = 16 \<Longrightarrow> length (f x) = 16"
  shows "in_blocks g (in_blocks f d) = zero_padded d"
proof (induction d rule: length_induct)
  case (1 d)
  show ?case
  proof (cases "d = []")
    case True
    then show ?thesis by (simp add: in_blocks.simps [of f "[]"] in_blocks.simps [of g "[]"] zero_padded_def)
  next
    case False
    let ?b = "take 16 d @ replicate (16 - length d) 0"
    have b: "length ?b = 16" by simp
    have fb: "length (f ?b) = 16" using len b by blast
    have "in_blocks f d = f ?b @ in_blocks f (drop 16 d)" using False by (simp add: in_blocks.simps [of f d])
    moreover have "in_blocks g (f ?b @ in_blocks f (drop 16 d)) = ?b @ in_blocks g (in_blocks f (drop 16 d))"
      using fb inv [OF b] by (subst in_blocks.simps) auto
    moreover have "in_blocks g (in_blocks f (drop 16 d)) = zero_padded (drop 16 d)"
      using 1 False by simp
    moreover have "zero_padded d = ?b @ zero_padded (drop 16 d)"
    proof (cases "16 \<le> length d")
      case False
      with \<open>d \<noteq> []\<close> show ?thesis by (cases d) (simp_all add: zero_padded_def)
    qed (simp add: zero_padded_step)
    ultimately show ?thesis by (simp only:)
  qed
qed

lemma length_in_blocks:
  "(\<And>x. length x = 16 \<Longrightarrow> length (f x) = 16) \<Longrightarrow> length (in_blocks f d) = length (zero_padded d)"
proof (induction d rule: length_induct)
  case (1 d)
  have b: "length (take 16 d @ replicate (16 - length d) 0) = 16" by simp
  show ?case
  proof (cases "d = []")
    case True
    then show ?thesis by (simp add: in_blocks.simps [of f "[]"] zero_padded_def)
  next
    case False
    then have rest: "length (in_blocks f (drop 16 d)) = length (zero_padded (drop 16 d))" using 1 by simp
    show ?thesis
    proof (cases "16 \<le> length d")
      case True
      then show ?thesis using False rest 1(2) [OF b] by (simp add: in_blocks.simps [of f d] zero_padded_step)
    next
      case short: False
      have "in_blocks f d = f (take 16 d @ replicate (16 - length d) 0) @ in_blocks f (drop 16 d)"
        using False by (simp add: in_blocks.simps [of f d])
      moreover have "length (zero_padded d) = 16" "length (zero_padded (drop 16 d)) = 0"
        using False short by (simp_all add: zero_padded_def)
      ultimately show ?thesis using rest 1(2) [OF b] by simp
    qed
  qed
qed

lemma XorWithIv_map2: "length b = 16 \<Longrightarrow> XorWithIv iv (b @ r) = map2 (\<lambda>x i. x XOR iv ! i) b [0..<16] @ r"
  by (erule length_16E) (simp add: XorWithIv_def upt16)


subsection \<open>CBC against the standard\<close>

text \<open>CBC of the standard, on whole blocks.\<close>

fun cbc_spec :: "(bytes \<Rightarrow> bytes) \<Rightarrow> bytes \<Rightarrow> bytes list \<Rightarrow> bytes list" where
  "cbc_spec f iv [] = []"
| "cbc_spec f iv (b # bs) = (let c = f (map2 (XOR) b iv) in c # cbc_spec f c bs)"

lemma XorWithIv_16:
  "length b = 16 \<Longrightarrow> length iv = 16 \<Longrightarrow> XorWithIv iv (b @ r) = map2 (XOR) b iv @ r"
proof -
  assume "length b = 16" "length iv = 16"
  then have "map2 (\<lambda>x i. x XOR iv ! i) b [0..<16] = map2 (XOR) b iv"
    by (simp add: list_eq_iff_nth_eq)
  then show ?thesis using \<open>length b = 16\<close> by (simp only: XorWithIv_map2)
qed

lemma map2_xor_twice: "length b = length v \<Longrightarrow> map2 (XOR) (map2 (XOR) b v) v = (b :: bytes)"
  by (induction b v rule: list_induct2) (simp_all add: xor.assoc)

lemma length_cbc_spec:
  "(\<And>x. length x = 16 \<Longrightarrow> length (f x) = 16) \<Longrightarrow> length iv = 16 \<Longrightarrow> \<forall>b \<in> set bs. length b = 16 \<Longrightarrow>
    length (cbc_spec f iv bs) = length bs \<and> (\<forall>c \<in> set (cbc_spec f iv bs). length c = 16)"
proof (induction bs arbitrary: iv)
  case (Cons b bs)
  have b: "length (f (map2 (XOR) b iv)) = 16" using Cons.prems by simp
  have bs: "\<forall>b \<in> set bs. length b = 16" using Cons.prems(3) by simp
  show ?case using Cons.IH [OF Cons.prems(1) b bs] b by (simp add: Let_def)
qed simp

lemma cbc_encrypt_loop_spec:
  assumes "\<forall>b \<in> set bs. length b = 16" "length iv = 16"
  shows "\<exists>iv' passed. cbc_encrypt_loop (16 * length bs) rk iv (concat bs @ rest) =
    (concat (cbc_spec (Cipher rk) iv bs), iv', passed, rest)"
  using assms
proof (induction bs arbitrary: iv)
  case Nil
  then show ?case by (simp add: cbc_encrypt_loop.simps)
next
  case (Cons b bs)
  let ?c = "Cipher rk (map2 (XOR) b iv)"
  have len: "length (map2 (XOR) b iv) = 16" using Cons.prems by simp
  have "length ?c = 16" using len by simp
  then obtain iv' passed where "cbc_encrypt_loop (16 * length bs) rk ?c (concat bs @ rest) =
      (concat (cbc_spec (Cipher rk) ?c bs), iv', passed, rest)"
    using Cons.IH [of ?c] Cons.prems by auto
  moreover have "BlockCopy (map2 (XOR) b iv @ concat bs @ rest) = map2 (XOR) b iv"
    using len by (simp add: BlockCopy_def)
  ultimately show ?case
    using Cons.prems len
    by (subst cbc_encrypt_loop.simps) (simp add: XorWithIv_16 Let_def)
qed

lemma cbc_decrypt_loop_spec:
  assumes "\<forall>b \<in> set bs. length b = 16" "length iv = 16"
  shows "\<exists>iv'. cbc_decrypt_loop (16 * length bs) rk iv (concat (cbc_spec (Cipher rk) iv bs) @ rest) =
    (concat bs, iv', rest)"
  using assms
proof (induction bs arbitrary: iv)
  case Nil
  then show ?case by (simp add: cbc_decrypt_loop.simps)
next
  case (Cons b bs)
  let ?x = "map2 (XOR) b iv"
  let ?c = "Cipher rk ?x" and ?tail = "concat (cbc_spec (Cipher rk) (Cipher rk (map2 (XOR) b iv)) bs) @ rest"
  have len: "length ?x = 16" using Cons.prems by simp
  then have clen: "length ?c = 16" by simp
  then obtain iv' where "cbc_decrypt_loop (16 * length bs) rk ?c ?tail = (concat bs, iv', rest)"
    using Cons.IH [of ?c] Cons.prems by auto
  moreover have "BlockCopy (?c @ ?tail) = ?c" using clen by (simp add: BlockCopy_def)
  moreover have "XorWithIv iv (InvCipher rk ?c) = b"
    using XorWithIv_16 [of ?x iv "[]"] Cons.prems len by (simp add: InvCipher_Cipher map2_xor_twice)
  ultimately show ?case
    using clen
    by (subst cbc_decrypt_loop.simps) (simp add: Let_def)
qed

lemma length_cbc_encrypt_loop:
  "length iv = 16 \<Longrightarrow> 16 * ((n + 15) div 16) \<le> length input \<Longrightarrow>
    length (fst (cbc_encrypt_loop n rk iv input)) = 16 * ((n + 15) div 16) \<and>
    length (snd (snd (snd (cbc_encrypt_loop n rk iv input)))) = length input - 16 * ((n + 15) div 16)"
proof (induction n arbitrary: iv input rule: less_induct)
  case (less n)
  show ?case
  proof (cases "n = 0")
    case True
    then show ?thesis by (simp add: cbc_encrypt_loop.simps)
  next
    case False
    have l: "length (XorWithIv iv input) = length input" 
      by (simp add: XorWithIv_def upt16)
    have d: "(n + 15) div 16 = Suc ((n - 16 + 15) div 16)" using False by (cases "n \<ge> 16") auto
    have "length (BlockCopy (XorWithIv iv input)) = 16" using less.prems d by (simp add: BlockCopy_def l)
    then have c: "length (Cipher rk (BlockCopy (XorWithIv iv input))) = 16" by simp
    have "16 * ((n - 16 + 15) div 16) \<le> length (drop 16 (XorWithIv iv input))"
      using less.prems(2) unfolding d by (simp add: l)
    from less.IH [OF _ c this] False show ?thesis
      using c l unfolding d by (subst (1 2) cbc_encrypt_loop.simps) (simp add: Let_def case_prod_beta)
  qed
qed


subsection \<open>A test vector\<close>

text \<open>The key schedule word by word, the newest word first.\<close>

fun sched :: "nat \<Rightarrow> nat \<Rightarrow> bytes list \<Rightarrow> bytes list" where
  "sched 0 i ws = ws"
| "sched (Suc n) i ws = sched n (Suc i) (fips_next i (ws ! 3) (hd ws) # ws)"

lemma sched_fips: "4 \<le> i \<Longrightarrow> sched n i (rev (map (fips_word key) [0..<i])) = rev (map (fips_word key) [0..<i + n])"
proof (induction n arbitrary: i)
  case (Suc n)
  then obtain j where j: "i = j + 4" by (metis add.commute le_Suc_ex)
  have ws: "rev (map (fips_word key) [0..<i]) ! 3 = fips_word key (i - 4)"
    "hd (rev (map (fips_word key) [0..<i])) = fips_word key (i - 1)"
    using Suc.prems by (simp_all add: rev_nth hd_rev last_map)
  have "fips_word key i = fips_next i (fips_word key (i - 4)) (fips_word key (i - 1))"
    using Suc.prems by (simp add: fips_word.simps [of key i])
  then show ?case using Suc.IH [of "Suc i"] Suc.prems ws by simp
qed simp

lemma KeyExpansion_sched:
  assumes "16 \<le> length key" "length rk = 176"
  shows "KeyExpansion key rk = concat (rev (sched 40 4 [key_word 3 key, key_word 2 key, key_word 1 key, key_word 0 key]))"
proof -
  have "[key_word 3 key, key_word 2 key, key_word 1 key, key_word 0 key] = rev (map (fips_word key) [0..<4])"
    by (simp add: upt4 fips_word.simps)
  then show ?thesis using assms by (simp add: KeyExpansion_concat sched_fips del: upt_Suc)
qed

lemma sched_numeral [simp]:
  "sched (numeral k) i ws = sched (pred_numeral k) (Suc i) (fips_next i (ws ! 3) (hd ws) # ws)"
  by (simp add: numeral_eq_Suc)

text \<open>The vector of the header of \<^verbatim>\<open>aes.c\<close>.\<close>

definition nist_key :: bytes where
  "nist_key = [0x2b, 0x7e, 0x15, 0x16, 0x28, 0xae, 0xd2, 0xa6, 0xab, 0xf7, 0x15, 0x88, 0x09, 0xcf, 0x4f, 0x3c]"

definition nist_schedule :: bytes where
  "nist_schedule =
    [0x2b, 0x7e, 0x15, 0x16, 0x28, 0xae, 0xd2, 0xa6, 0xab, 0xf7, 0x15, 0x88, 0x09, 0xcf, 0x4f, 0x3c,
    0xa0, 0xfa, 0xfe, 0x17, 0x88, 0x54, 0x2c, 0xb1, 0x23, 0xa3, 0x39, 0x39, 0x2a, 0x6c, 0x76, 0x05,
    0xf2, 0xc2, 0x95, 0xf2, 0x7a, 0x96, 0xb9, 0x43, 0x59, 0x35, 0x80, 0x7a, 0x73, 0x59, 0xf6, 0x7f,
    0x3d, 0x80, 0x47, 0x7d, 0x47, 0x16, 0xfe, 0x3e, 0x1e, 0x23, 0x7e, 0x44, 0x6d, 0x7a, 0x88, 0x3b,
    0xef, 0x44, 0xa5, 0x41, 0xa8, 0x52, 0x5b, 0x7f, 0xb6, 0x71, 0x25, 0x3b, 0xdb, 0x0b, 0xad, 0x00,
    0xd4, 0xd1, 0xc6, 0xf8, 0x7c, 0x83, 0x9d, 0x87, 0xca, 0xf2, 0xb8, 0xbc, 0x11, 0xf9, 0x15, 0xbc,
    0x6d, 0x88, 0xa3, 0x7a, 0x11, 0x0b, 0x3e, 0xfd, 0xdb, 0xf9, 0x86, 0x41, 0xca, 0x00, 0x93, 0xfd,
    0x4e, 0x54, 0xf7, 0x0e, 0x5f, 0x5f, 0xc9, 0xf3, 0x84, 0xa6, 0x4f, 0xb2, 0x4e, 0xa6, 0xdc, 0x4f,
    0xea, 0xd2, 0x73, 0x21, 0xb5, 0x8d, 0xba, 0xd2, 0x31, 0x2b, 0xf5, 0x60, 0x7f, 0x8d, 0x29, 0x2f,
    0xac, 0x77, 0x66, 0xf3, 0x19, 0xfa, 0xdc, 0x21, 0x28, 0xd1, 0x29, 0x41, 0x57, 0x5c, 0x00, 0x6e,
    0xd0, 0x14, 0xf9, 0xa8, 0xc9, 0xee, 0x25, 0x89, 0xe1, 0x3f, 0x0c, 0xc8, 0xb6, 0x63, 0x0c, 0xa6]"

lemma nist_schedule: "KeyExpansion nist_key (replicate 176 0) = nist_schedule"
proof -
  have "KeyExpansion nist_key (replicate 176 0) =
      concat (rev (sched 40 4 [key_word 3 nist_key, key_word 2 nist_key, key_word 1 nist_key, key_word 0 nist_key]))"
    by (rule KeyExpansion_sched) (simp_all add: nist_key_def)
  also have "\<dots> = nist_schedule"
    by (simp add: fips_next_def key_word_def nist_key_def nist_schedule_def xor_words_def getSBoxValue_table Rcon_def)
  finally show ?thesis .
qed

lemma nist_schedule_nth:
  "nist_schedule ! numeral k =
    [0x2b, 0x7e, 0x15, 0x16, 0x28, 0xae, 0xd2, 0xa6, 0xab, 0xf7, 0x15, 0x88, 0x09, 0xcf, 0x4f, 0x3c,
    0xa0, 0xfa, 0xfe, 0x17, 0x88, 0x54, 0x2c, 0xb1, 0x23, 0xa3, 0x39, 0x39, 0x2a, 0x6c, 0x76, 0x05,
    0xf2, 0xc2, 0x95, 0xf2, 0x7a, 0x96, 0xb9, 0x43, 0x59, 0x35, 0x80, 0x7a, 0x73, 0x59, 0xf6, 0x7f,
    0x3d, 0x80, 0x47, 0x7d, 0x47, 0x16, 0xfe, 0x3e, 0x1e, 0x23, 0x7e, 0x44, 0x6d, 0x7a, 0x88, 0x3b,
    0xef, 0x44, 0xa5, 0x41, 0xa8, 0x52, 0x5b, 0x7f, 0xb6, 0x71, 0x25, 0x3b, 0xdb, 0x0b, 0xad, 0x00,
    0xd4, 0xd1, 0xc6, 0xf8, 0x7c, 0x83, 0x9d, 0x87, 0xca, 0xf2, 0xb8, 0xbc, 0x11, 0xf9, 0x15, 0xbc,
    0x6d, 0x88, 0xa3, 0x7a, 0x11, 0x0b, 0x3e, 0xfd, 0xdb, 0xf9, 0x86, 0x41, 0xca, 0x00, 0x93, 0xfd,
    0x4e, 0x54, 0xf7, 0x0e, 0x5f, 0x5f, 0xc9, 0xf3, 0x84, 0xa6, 0x4f, 0xb2, 0x4e, 0xa6, 0xdc, 0x4f,
    0xea, 0xd2, 0x73, 0x21, 0xb5, 0x8d, 0xba, 0xd2, 0x31, 0x2b, 0xf5, 0x60, 0x7f, 0x8d, 0x29, 0x2f,
    0xac, 0x77, 0x66, 0xf3, 0x19, 0xfa, 0xdc, 0x21, 0x28, 0xd1, 0x29, 0x41, 0x57, 0x5c, 0x00, 0x6e,
    0xd0, 0x14, 0xf9, 0xa8, 0xc9, 0xee, 0x25, 0x89, 0xe1, 0x3f, 0x0c, 0xc8, 0xb6, 0x63, 0x0c, 0xa6] ! numeral k"
  "nist_schedule ! 0 = 0x2b" "nist_schedule ! Suc 0 = 0x7e"
  by (simp_all add: nist_schedule_def)

definition xtime_table :: bytes where
  "xtime_table =
    [0x00, 0x02, 0x04, 0x06, 0x08, 0x0a, 0x0c, 0x0e, 0x10, 0x12, 0x14, 0x16, 0x18, 0x1a, 0x1c, 0x1e,
    0x20, 0x22, 0x24, 0x26, 0x28, 0x2a, 0x2c, 0x2e, 0x30, 0x32, 0x34, 0x36, 0x38, 0x3a, 0x3c, 0x3e,
    0x40, 0x42, 0x44, 0x46, 0x48, 0x4a, 0x4c, 0x4e, 0x50, 0x52, 0x54, 0x56, 0x58, 0x5a, 0x5c, 0x5e,
    0x60, 0x62, 0x64, 0x66, 0x68, 0x6a, 0x6c, 0x6e, 0x70, 0x72, 0x74, 0x76, 0x78, 0x7a, 0x7c, 0x7e,
    0x80, 0x82, 0x84, 0x86, 0x88, 0x8a, 0x8c, 0x8e, 0x90, 0x92, 0x94, 0x96, 0x98, 0x9a, 0x9c, 0x9e,
    0xa0, 0xa2, 0xa4, 0xa6, 0xa8, 0xaa, 0xac, 0xae, 0xb0, 0xb2, 0xb4, 0xb6, 0xb8, 0xba, 0xbc, 0xbe,
    0xc0, 0xc2, 0xc4, 0xc6, 0xc8, 0xca, 0xcc, 0xce, 0xd0, 0xd2, 0xd4, 0xd6, 0xd8, 0xda, 0xdc, 0xde,
    0xe0, 0xe2, 0xe4, 0xe6, 0xe8, 0xea, 0xec, 0xee, 0xf0, 0xf2, 0xf4, 0xf6, 0xf8, 0xfa, 0xfc, 0xfe,
    0x1b, 0x19, 0x1f, 0x1d, 0x13, 0x11, 0x17, 0x15, 0x0b, 0x09, 0x0f, 0x0d, 0x03, 0x01, 0x07, 0x05,
    0x3b, 0x39, 0x3f, 0x3d, 0x33, 0x31, 0x37, 0x35, 0x2b, 0x29, 0x2f, 0x2d, 0x23, 0x21, 0x27, 0x25,
    0x5b, 0x59, 0x5f, 0x5d, 0x53, 0x51, 0x57, 0x55, 0x4b, 0x49, 0x4f, 0x4d, 0x43, 0x41, 0x47, 0x45,
    0x7b, 0x79, 0x7f, 0x7d, 0x73, 0x71, 0x77, 0x75, 0x6b, 0x69, 0x6f, 0x6d, 0x63, 0x61, 0x67, 0x65,
    0x9b, 0x99, 0x9f, 0x9d, 0x93, 0x91, 0x97, 0x95, 0x8b, 0x89, 0x8f, 0x8d, 0x83, 0x81, 0x87, 0x85,
    0xbb, 0xb9, 0xbf, 0xbd, 0xb3, 0xb1, 0xb7, 0xb5, 0xab, 0xa9, 0xaf, 0xad, 0xa3, 0xa1, 0xa7, 0xa5,
    0xdb, 0xd9, 0xdf, 0xdd, 0xd3, 0xd1, 0xd7, 0xd5, 0xcb, 0xc9, 0xcf, 0xcd, 0xc3, 0xc1, 0xc7, 0xc5,
    0xfb, 0xf9, 0xff, 0xfd, 0xf3, 0xf1, 0xf7, 0xf5, 0xeb, 0xe9, 0xef, 0xed, 0xe3, 0xe1, 0xe7, 0xe5]"

lemma xtime_all: "map (\<lambda>i. xtime (of_nat i)) [0..<256] = xtime_table"
  by (simp add: upt_256 xtime_def xtime_table_def)

lemmas xtime_eqs = xtime_all [unfolded xtime_table_def upt_256, simplified]

lemmas round_eval = cipher_round_def SubBytes_map ShiftRows_eq MixColumns_eq mix_byte_def xtime_eqs
  AddRoundKey_map2 upt16 getSBoxValue_table

lemma Cipher_rounds:
  "Cipher rk s = AddRoundKey rk 10 (ShiftRows (SubBytes (cipher_round rk 9 (cipher_round rk 8 (cipher_round rk 7 (cipher_round rk 6 (cipher_round rk 5 (cipher_round rk 4 (cipher_round rk 3 (cipher_round rk 2 (cipher_round rk 1
    (AddRoundKey rk 0 s))))))))))))"
  by (simp add: Cipher_def upt_rec eval_nat_numeral)

subsection \<open>Properties\<close>

text \<open>C18: Key expansion computes the key schedule of the standard, whatever the static array held: word
  \<open>i\<close> is the key's for \<open>i < 4\<close>, and else word \<open>i - 4\<close> XORed with word \<open>i - 1\<close>, which at every fourth
  word is rotated, substituted and XORed with the round constant first.\<close>

theorem KeyExpansion_fips:
  assumes "16 \<le> length key" "length rk = 176"
  shows "KeyExpansion key rk = concat (map (fips_word key) [0..<44])"
  using assms by (rule KeyExpansion_concat)

theorem KeyExpansion_fips_witness:
  "KeyExpansion (replicate 16 7) (replicate 176 1) = concat (map (fips_word (replicate 16 7)) [0..<44])"
  by (rule KeyExpansion_fips) simp_all

text \<open>A round is the round of the standard: byte \<open>r\<close> of column \<open>c\<close> becomes
  2 x0 + 3 x1 + x2 + x3 in GF(2^8), plus the key byte, where \<open>x k\<close> is the substituted byte of row
  \<open>r + k\<close> in the column \<open>r + k\<close> places to the right.\<close>

theorem cipher_round_fips:
  assumes "length s = 16" "c < 4" "r < 4"
  shows "cipher_round rk n s ! (4 * c + r) =
    (let x = \<lambda>k. getSBoxValue (s ! (4 * ((c + (r + k) mod 4) mod 4) + (r + k) mod 4))
     in xtime (x 0) XOR (xtime (x 1) XOR x 1) XOR x 2 XOR x 3 XOR rk ! (16 * n + (4 * c + r)))"
proof -
  obtain s0 s1 s2 s3 s4 s5 s6 s7 s8 s9 s10 s11 s12 s13 s14 s15
    where s: "s = [s0, s1, s2, s3, s4, s5, s6, s7, s8, s9, s10, s11, s12, s13, s14, s15]"
    using assms(1) by (rule length_16E)
  have i: "4 * c + r < 16" using assms by simp
  have "cipher_round rk n s ! (4 * c + r) =
      MixColumns (ShiftRows (SubBytes s)) ! (4 * c + r) XOR rk ! (16 * n + (4 * c + r))"
    unfolding cipher_round_def using assms i by (subst AddRoundKey_map2) simp_all
  moreover have "MixColumns (ShiftRows (SubBytes s)) ! (4 * c + r) =
    (let x = \<lambda>k. getSBoxValue (s ! (4 * ((c + (r + k) mod 4) mod 4) + (r + k) mod 4))
     in mix_byte (x 0) (x 1) (x 2) (x 3))"
  proof -
    have "c \<in> {0, 1, 2, 3}" "r \<in> {0, 1, 2, 3}" using assms by auto
    then show ?thesis
      unfolding s by (elim insertE emptyE) (simp_all add: SubBytes_map ShiftRows_eq MixColumns_eq Let_def)
  qed
  ultimately show ?thesis by (simp add: Let_def mix_byte_def xor.assoc)
qed

theorem cipher_round_fips_witness:
  "cipher_round (replicate 176 1) 1 (replicate 16 5) ! (4 * 2 + 3) =
    (let x = \<lambda>k. getSBoxValue (replicate 16 5 ! (4 * ((2 + (3 + k) mod 4) mod 4) + (3 + k) mod 4))
     in xtime (x 0) XOR (xtime (x 1) XOR x 1) XOR x 2 XOR x 3 XOR replicate 176 1 ! (16 * 1 + (4 * 2 + 3)))"
  by (rule cipher_round_fips) simp_all

text \<open>The routine gives the ciphertext of the first test vector that the header of \<^verbatim>\<open>aes.c\<close> cites
  (NIST SP 800-38A).\<close>

theorem aes_known_answer:
  "fst (AES128_ECB_encrypt
     [0x6b, 0xc1, 0xbe, 0xe2, 0x2e, 0x40, 0x9f, 0x96, 0xe9, 0x3d, 0x7e, 0x11, 0x73, 0x93, 0x17, 0x2a]
     nist_key (replicate 176 0)) =
     [0x3a, 0xd7, 0x7b, 0xb4, 0x0d, 0x7a, 0x36, 0x60, 0xa8, 0x9e, 0xca, 0xf3, 0x24, 0x66, 0xef, 0x97]"
proof -
  have "Cipher nist_schedule [0x6b, 0xc1, 0xbe, 0xe2, 0x2e, 0x40, 0x9f, 0x96, 0xe9, 0x3d, 0x7e, 0x11, 0x73, 0x93, 0x17, 0x2a] =
      [0x3a, 0xd7, 0x7b, 0xb4, 0x0d, 0x7a, 0x36, 0x60, 0xa8, 0x9e, 0xca, 0xf3, 0x24, 0x66, 0xef, 0x97]"
    by (simp add: Cipher_rounds round_eval nist_schedule_nth)
  then show ?thesis by (simp add: AES128_ECB_encrypt_def nist_schedule BlockCopy_def)
qed

text \<open>What \<^verbatim>\<open>crypto.aes128_ecb_decrypt\<close> makes of the output of \<^verbatim>\<open>crypto.aes128_ecb_encrypt\<close> is the
  string, padded with zeros to a multiple of 16; the ciphertext is as long as that.\<close>

theorem ecb_roundtrip:
  fixes s s' :: aes_sys
  assumes "16 \<le> length key" "length (RoundKey s) = 176" "length (RoundKey s') = 176"
    and "length d < 2 ^ 31" "enc = fst (l_crypto_aes128_ecb_encrypt d (int (length d)) key s)"
  shows "fst (l_crypto_aes128_ecb_decrypt enc (int (length enc)) key s') =
      d @ replicate ((16 - length d mod 16) mod 16) 0 \<and>
    length enc = length d + (16 - length d mod 16) mod 16"
proof -
  define rk where "rk = concat (map (fips_word key) [0..<44])"
  have rk: "KeyExpansion key r = rk" if "length r = 176" for r
    using assms(1) that unfolding rk_def by (rule KeyExpansion_concat)
  have len: "length rk = 176"
    using length_KeyExpansion [OF assms(1,2)] unfolding rk [OF assms(2)] .
  have word: "unat (word_of_int (int n) :: u32) = n" if "n < 2 ^ 32" for n
    using that by (simp add: unat_of_nat_small)
  have e: "enc = in_blocks (Cipher rk) d"
  proof -
    have "fst (ecb_loop AES128_ECB_encrypt (length d) d key (RoundKey s)) = in_blocks (Cipher rk) d"
      by (rule ecb_loop_blocks [OF _ len assms(2)]) (simp add: AES128_ECB_encrypt_def Let_def rk)
    then show ?thesis using assms(4,5) word [of "length d"]
      by (simp add: l_crypto_aes128_ecb_encrypt_def case_prod_beta)
  qed
  have elen: "length enc = length d + (16 - length d mod 16) mod 16"
    unfolding e by (subst length_in_blocks) (simp_all add: zero_padded_def)
  then have "length enc < 2 ^ 32" using assms(4) mod_less_divisor [of 16 "16 - length d mod 16"] by simp
  then have "fst (l_crypto_aes128_ecb_decrypt enc (int (length enc)) key s') =
      fst (ecb_loop AES128_ECB_decrypt (length enc) enc key (RoundKey s'))"
    using word [of "length enc"] by (simp add: l_crypto_aes128_ecb_decrypt_def case_prod_beta)
  also have "\<dots> = in_blocks (InvCipher rk) enc"
    by (rule ecb_loop_blocks [OF _ len assms(3)]) (simp add: AES128_ECB_decrypt_def Let_def rk)
  also have "\<dots> = zero_padded d"
    unfolding e by (rule in_blocks_inverse) (simp_all add: InvCipher_Cipher)
  finally show ?thesis using elen by (simp add: zero_padded_def)
qed

theorem ecb_roundtrip_witness:
  "let s = \<lparr>RoundKey = replicate 176 0, Iv = []\<rparr>;
       enc = fst (l_crypto_aes128_ecb_encrypt [1, 2, 3] 3 (replicate 16 7) s)
   in fst (l_crypto_aes128_ecb_decrypt enc (int (length enc)) (replicate 16 7) s) = [1, 2, 3] @ replicate 13 0"
  using ecb_roundtrip [OF _ _ _ _ refl, THEN conjunct1, of "replicate 16 7"
      "\<lparr>RoundKey = replicate 176 0, Iv = []\<rparr>" "\<lparr>RoundKey = replicate 176 0, Iv = []\<rparr>" "[1, 2, 3]"]
  unfolding Let_def by simp

text \<open>C19: On whole blocks the CBC routines are the mode of the standard and inverse to each other:
  the encryption of blocks \<open>bs\<close> is \<open>cbc_spec\<close>, it leaves the input beyond the blocks alone, and
  decrypting it with the same key and initial vector gives the blocks back.\<close>

theorem cbc_roundtrip:
  fixes s s' :: aes_sys
  assumes "16 \<le> length key" "length (RoundKey s) = 176" "length (RoundKey s') = 176"
    and "\<forall>b \<in> set bs. length b = 16" "bs \<noteq> []" "length v = 16"
  shows "let (enc, input', t) = AES128_CBC_encrypt_buffer (concat bs @ rest) (16 * length bs) (Some key) (Some v) s
    in enc = concat (cbc_spec (Cipher (KeyExpansion key (RoundKey s))) v bs) \<and>
       fst (AES128_CBC_decrypt_buffer enc (16 * length bs) (Some key) (Some v) s') = concat bs"
proof -
  let ?rk = "KeyExpansion key (RoundKey s)"
  have same: "KeyExpansion key (RoundKey s') = ?rk"
    using KeyExpansion_concat [OF assms(1,2)] KeyExpansion_concat [OF assms(1,3)] by (simp only:)
  obtain iv' passed where enc: "cbc_encrypt_loop (16 * length bs) ?rk v (concat bs @ rest) =
      (concat (cbc_spec (Cipher ?rk) v bs), iv', passed, rest)"
    using cbc_encrypt_loop_spec [OF assms(4,6)] by blast
  obtain iv'' where dec: "cbc_decrypt_loop (16 * length bs) ?rk v (concat (cbc_spec (Cipher ?rk) v bs)) = (concat bs, iv'', [])"
    using cbc_decrypt_loop_spec [OF assms(4,6), of ?rk "[]"] by auto
  show ?thesis
    using assms(5) enc dec
    by (simp add: AES128_CBC_encrypt_buffer_def AES128_CBC_decrypt_buffer_def set_key_iv_def Let_def same)
qed

theorem cbc_roundtrip_witness:
  "let s = \<lparr>RoundKey = replicate 176 0, Iv = []\<rparr>;
       enc = fst (AES128_CBC_encrypt_buffer (replicate 32 1) 32 (Some (replicate 16 7)) (Some (replicate 16 0)) s)
   in fst (AES128_CBC_decrypt_buffer enc 32 (Some (replicate 16 7)) (Some (replicate 16 0)) s) = replicate 32 1"
proof -
  have "length (RoundKey \<lparr>RoundKey = replicate 176 0, Iv = []\<rparr>) = 176" by simp
  note rt = cbc_roundtrip [OF _ this this, of "replicate 16 7" "[replicate 16 1, replicate 16 1]" "replicate 16 0" "[]",
      unfolded Let_def case_prod_beta, THEN conjunct2]
  have "concat [replicate 16 1, replicate 16 1] @ [] = replicate 32 (1 :: u8)" by (simp flip: replicate_add)
  with rt show ?thesis by (simp flip: replicate_add)
qed

lemma overrun_arith:
  "(n :: nat) = 16 * (q + 1) + 16 \<Longrightarrow> len = 16 * q + r \<Longrightarrow> n = 16 * (q + 2) \<and> (r < 15 \<longrightarrow> len + 17 < n)"
  by simp

text \<open>On a length that is no multiple of 16 the CBC encryption writes one block more than the
  padded input has: the loop already passes the partial block, and the remainder is then encrypted
  from the 16 bytes after it.  With a remainder below 15 that is past the \<open>length + 17\<close> bytes the Lua
  entry allocates for it.\<close>

theorem cbc_partial_block_overrun:
  fixes s :: aes_sys
  assumes "0 < len mod 16" "16 * (len div 16 + 2) \<le> length input" "length v = 16"
  shows "length (fst (AES128_CBC_encrypt_buffer input len key (Some v) s)) = 16 * (len div 16 + 2) \<and>
    (len mod 16 < 15 \<longrightarrow> len + 17 < length (fst (AES128_CBC_encrypt_buffer input len key (Some v) s)))"
proof -
  define t where "t = set_key_iv key (Some v) s"
  have iv: "length (Iv t) = 16"
    using assms(3) by (simp add: t_def set_key_iv_def Let_def split: option.split)
  have "len + 15 = 16 * (len div 16 + 1) + (len mod 16 - 1)" using assms(1) by simp
  moreover have "len mod 16 - 1 < 16" using mod_less_divisor [of 16 len] by simp
  ultimately have blocks: "(len + 15) div 16 = len div 16 + 1" by (metis div_mult_self4 div_less add_0_right zero_neq_numeral)
  have fit: "16 * ((len + 15) div 16) \<le> length input" using assms(2) unfolding blocks by simp
  obtain out iv' passed rest where loop: "cbc_encrypt_loop len (RoundKey t) (Iv t) input = (out, iv', passed, rest)"
    by (metis prod_cases4)
  have out: "length out = 16 * (len div 16 + 1)" and rest: "length rest = length input - 16 * (len div 16 + 1)"
    using length_cbc_encrypt_loop [OF iv fit, of "RoundKey t"] unfolding loop blocks by simp_all
  have "length (last_block (len mod 16) rest) = 16"
    using rest assms(2) by (simp add: last_block_def BlockCopy_def)
  then have "length (fst (AES128_CBC_encrypt_buffer input len key (Some v) s)) = length out + 16"
    using assms(1) by (auto simp: AES128_CBC_encrypt_buffer_def Let_def loop t_def [symmetric])
  moreover have "len = 16 * (len div 16) + len mod 16" by simp
  ultimately show ?thesis unfolding out by (rule overrun_arith)
qed

theorem cbc_partial_block_overrun_witness:
  "17 + 17 < length (fst (AES128_CBC_encrypt_buffer (replicate 48 1) 17 (Some (replicate 16 7)) (Some (replicate 16 0))
      \<lparr>RoundKey = replicate 176 0, Iv = []\<rparr>))"
  using cbc_partial_block_overrun [of 17 "replicate 48 1" "replicate 16 0" "Some (replicate 16 7)"
      "\<lparr>RoundKey = replicate 176 0, Iv = []\<rparr>"] by simp

end
