(* ===== verification/Calendar.thy ===== *)
theory Calendar
  imports Prelude "HOL-Library.Signed_Division"
begin

unbundle bit_operations_syntax

text \<open>
  The calendar of the C library: \<^verbatim>\<open>newlib/libc/src/time.c\<close> with \<^verbatim>\<open>ctime.h\<close>.

  \<^verbatim>\<open>int\<close> and \<^verbatim>\<open>long\<close> are 32 bits wide: the values are \<^typ>\<open>int\<close>, and every operation of
  \<^verbatim>\<open>_make_time_t\<close> whose overflow the code tests for is wrapped by \<open>s32\<close>.  C's division truncates
  (\<open>sdiv\<close>, \<open>smod\<close>); where the code has excluded negative operands it is \<open>div\<close>.
  A \<^verbatim>\<open>NULL\<close> result is \<open>None\<close>.
\<close>

subsection \<open>Data\<close>

definition s32 :: "int \<Rightarrow> int" where
  "s32 x = (x + 2 ^ 31) mod 2 ^ 32 - 2 ^ 31"

record tm =
  tm_sec :: int
  tm_min :: int
  tm_hour :: int
  tm_mday :: int
  tm_mon :: int
  tm_year :: int
  tm_wday :: int
  tm_yday :: int
  tm_isdst :: int

definition lpdays :: "int list" where
  "lpdays = [- 1, 30, 59, 90, 120, 151, 181, 212, 243, 273, 304, 334, 365]"

definition days :: "int list" where
  "days = [- 1, 30, 58, 89, 119, 150, 180, 211, 242, 272, 303, 333, 364]"

abbreviation (input) timezone :: int where "timezone \<equiv> - 8 * 3600"
abbreviation (input) daylight :: int where "daylight \<equiv> 0"
abbreviation (input) dstbias :: int where "dstbias \<equiv> - 3600"

abbreviation (input) DAY_SEC :: int where "DAY_SEC \<equiv> 24 * 60 * 60"
abbreviation (input) YEAR_SEC :: int where "YEAR_SEC \<equiv> 365 * (24 * 60 * 60)"
abbreviation (input) FOUR_YEAR_SEC :: int where "FOUR_YEAR_SEC \<equiv> 1461 * (24 * 60 * 60)"
abbreviation (input) BASE_YEAR :: int where "BASE_YEAR \<equiv> 70"
abbreviation (input) BASE_DOW :: int where "BASE_DOW \<equiv> 4"
abbreviation (input) LEAP_YEAR_ADJUST :: int where "LEAP_YEAR_ADJUST \<equiv> 17"
abbreviation (input) MAX_YEAR :: int where "MAX_YEAR \<equiv> 138"
abbreviation (input) LONG_MAX :: int where "LONG_MAX \<equiv> 2 ^ 31 - 1"

definition ChkAdd :: "int \<Rightarrow> int \<Rightarrow> int \<Rightarrow> bool" where
  "ChkAdd dest src1 src2 \<longleftrightarrow> (0 \<le> src1 \<and> 0 \<le> src2 \<and> dest < 0) \<or> (src1 < 0 \<and> src2 < 0 \<and> 0 \<le> dest)"

definition ChkMul :: "int \<Rightarrow> int \<Rightarrow> int \<Rightarrow> bool" where
  "ChkMul dest src1 src2 \<longleftrightarrow> (if src1 \<noteq> 0 then dest sdiv src1 \<noteq> src2 else False)"

definition lualibc_difftime :: "int \<Rightarrow> int \<Rightarrow> int" where
  "lualibc_difftime time2 time1 = s32 (time2 - time1)"

subsection \<open>Seconds to fields\<close>

text \<open>The year and what is left of it: \<open>(tmptim, caltim, islpyr)\<close>.\<close>

definition find_year :: "int \<Rightarrow> int \<times> int \<times> bool" where
  "find_year caltim =
    (let tmptim = caltim div FOUR_YEAR_SEC;
         caltim = caltim - tmptim * FOUR_YEAR_SEC;
         tmptim = tmptim * 4 + 70
     in if caltim \<ge> YEAR_SEC then
          (let tmptim = tmptim + 1; caltim = caltim - YEAR_SEC
           in if caltim \<ge> YEAR_SEC then
                (let tmptim = tmptim + 1; caltim = caltim - YEAR_SEC
                 in if caltim \<ge> YEAR_SEC + DAY_SEC
                    then (tmptim + 1, caltim - (YEAR_SEC + DAY_SEC), False)
                    else (tmptim, caltim, True))
              else (tmptim, caltim, False))
        else (tmptim, caltim, False))"

text \<open>The month loop.  It stops at the end of the table as well; \<open>month_loop_stops\<close> shows that it
  never gets there.\<close>

function month_loop :: "int list \<Rightarrow> int \<Rightarrow> nat \<Rightarrow> nat" where
  "month_loop mdays yday n = (if n < length mdays \<and> mdays ! n < yday then month_loop mdays yday (n + 1) else n)"
  by pat_completeness auto
termination by (relation "measure (\<lambda>(mdays, yday, n). length mdays - n)") auto

declare month_loop.simps [simp del]

definition lualibc_gmtime :: "int \<Rightarrow> tm option" where
  "lualibc_gmtime timp =
    (if timp < 0 then None
     else (let (year, caltim, islpyr) = find_year timp;
               yday = caltim div DAY_SEC;
               caltim = caltim - yday * DAY_SEC;
               mdays = (if islpyr then lpdays else days);
               tmptim = month_loop mdays yday 1 - 1;
               mday = yday - mdays ! tmptim;
               wday = (timp div DAY_SEC + BASE_DOW) mod 7;
               hour = caltim div 3600;
               caltim = caltim - hour * 3600;
               min = caltim div 60;
               sec = caltim - min * 60
           in Some \<lparr>tm_sec = sec, tm_min = min, tm_hour = hour, tm_mday = mday, tm_mon = int tmptim,
                tm_year = year, tm_wday = wday, tm_yday = yday, tm_isdst = 0\<rparr>))"

definition isindst :: "tm \<Rightarrow> int" where
  "isindst timeptr = 0"

text \<open>The first three and the last three days, where the fields are adjusted one by one.\<close>

definition adjust_fields :: "tm \<Rightarrow> tm" where
  "adjust_fields ptm =
    (let ltime = (if isindst ptm \<noteq> 0 then tm_sec ptm - (timezone + dstbias) else tm_sec ptm - timezone);
         sec = ltime smod 60;
         (sec, ltime) = (if sec < 0 then (sec + 60, ltime - 60) else (sec, ltime));
         ltime = tm_min ptm + ltime sdiv 60;
         min = ltime smod 60;
         (min, ltime) = (if min < 0 then (min + 60, ltime - 60) else (min, ltime));
         ltime = tm_hour ptm + ltime sdiv 60;
         hour = ltime smod 24;
         (hour, ltime) = (if hour < 0 then (hour + 24, ltime - 24) else (hour, ltime));
         ltime = ltime sdiv 24;
         ptm = ptm\<lparr>tm_sec := sec, tm_min := min, tm_hour := hour\<rparr>
     in if ltime > 0 then
          ptm\<lparr>tm_wday := (tm_wday ptm + ltime) smod 7, tm_mday := tm_mday ptm + ltime, tm_yday := tm_yday ptm + ltime\<rparr>
        else if ltime < 0 then
          (let ptm = ptm\<lparr>tm_wday := (tm_wday ptm + 7 + ltime) smod 7, tm_mday := tm_mday ptm + ltime\<rparr>
           in if tm_mday ptm \<le> 0
              then ptm\<lparr>tm_mday := tm_mday ptm + 31, tm_yday := 364, tm_mon := 11, tm_year := tm_year ptm - 1\<rparr>
              else ptm\<lparr>tm_yday := tm_yday ptm + ltime\<rparr>)
        else ptm)"

definition lualibc_localtime :: "int \<Rightarrow> tm option" where
  "lualibc_localtime ptime =
    (if ptime < 0 then None
     else if ptime > 3 * DAY_SEC \<and> ptime < LONG_MAX - 3 * DAY_SEC then
       (let ltime = ptime - timezone;
            ptm = lualibc_gmtime ltime
        in if daylight \<noteq> 0 \<and> (case ptm of None \<Rightarrow> False | Some t \<Rightarrow> isindst t \<noteq> 0)
           then map_option (tm_isdst_update (\<lambda>_. 1)) (lualibc_gmtime (ltime - dstbias))
           else ptm)
     else map_option adjust_fields (lualibc_gmtime ptime))"

subsection \<open>Fields to seconds\<close>

text \<open>\<open>_make_time_t\<close> up to the second count: \<open>Inl\<close> is the jump to \<open>err_mktime\<close>, with the fields as far
  as they were changed.\<close>

definition mul_check :: "int \<Rightarrow> int \<Rightarrow> int option" where
  "mul_check a k = (let d = s32 (a * k) in if ChkMul d a k then None else Some d)"

definition add_check :: "int \<Rightarrow> int \<Rightarrow> int option" where
  "add_check a b = (let d = s32 (a + b) in if ChkAdd d a b then None else Some d)"

text \<open>The month brought into its range, with the year it belongs to; no year is the second range
  check failing.\<close>

definition norm_month :: "tm \<Rightarrow> int option \<times> tm" where
  "norm_month timeptr =
    (let tmptm1 = tm_year timeptr
     in if tm_mon timeptr < 0 \<or> tm_mon timeptr > 11 then
          (let tmptm1 = tmptm1 + tm_mon timeptr sdiv 12;
               timeptr = timeptr\<lparr>tm_mon := tm_mon timeptr smod 12\<rparr>;
               (timeptr, tmptm1) = (if tm_mon timeptr < 0
                 then (timeptr\<lparr>tm_mon := tm_mon timeptr + 12\<rparr>, tmptm1 - 1) else (timeptr, tmptm1))
           in (if tmptm1 < BASE_YEAR - 1 \<or> tmptm1 > MAX_YEAR + 1 then None else Some tmptm1, timeptr))
        else (Some tmptm1, timeptr))"

definition elapsed_secs :: "int \<Rightarrow> tm \<Rightarrow> int option" where
  "elapsed_secs tmptm1 timeptr =
    (let tmptm2 = days ! nat (tm_mon timeptr);
         tmptm2 = (if tmptm1 AND 3 = 0 \<and> tm_mon timeptr > 1 then tmptm2 + 1 else tmptm2);
         tmptm3 = (tmptm1 - BASE_YEAR) * 365 + drop_bit 2 (tmptm1 - 1) - LEAP_YEAR_ADJUST;
         tmptm3 = tmptm3 + tmptm2
     in case add_check tmptm3 (tm_mday timeptr) of None \<Rightarrow> None | Some d \<Rightarrow>
        case mul_check d 24 of None \<Rightarrow> None | Some h \<Rightarrow>
        case add_check h (tm_hour timeptr) of None \<Rightarrow> None | Some h \<Rightarrow>
        case mul_check h 60 of None \<Rightarrow> None | Some m \<Rightarrow>
        case add_check m (tm_min timeptr) of None \<Rightarrow> None | Some m \<Rightarrow>
        case mul_check m 60 of None \<Rightarrow> None | Some s \<Rightarrow>
        add_check s (tm_sec timeptr))"

text \<open>The result is the return value with what \<open>*_timeptr\<close> holds afterwards; \<open>None\<close> is the copy from a
  null pointer.\<close>

definition make_time_t :: "tm \<Rightarrow> bool \<Rightarrow> (int \<times> tm) option" where
  "make_time_t timeptr ultflag =
    (if tm_year timeptr < BASE_YEAR - 1 \<or> tm_year timeptr > MAX_YEAR + 1 then Some (- 1, timeptr)
     else case norm_month timeptr of
       (None, timeptr) \<Rightarrow> Some (- 1, timeptr)
     | (Some year, timeptr) \<Rightarrow>
        (case elapsed_secs year timeptr of
           None \<Rightarrow> Some (- 1, timeptr)
         | Some secs \<Rightarrow>
            if ultflag then
              (let tmptm1 = s32 (secs + timezone)
               in case lualibc_localtime tmptm1 of
                    None \<Rightarrow> Some (- 1, timeptr)
                  | Some tbtemp \<Rightarrow>
                      if tm_isdst timeptr > 0 \<or> tm_isdst timeptr < 0 \<and> tm_isdst tbtemp > 0
                      then (let tmptm1 = s32 (tmptm1 + dstbias)
                            in map_option (\<lambda>tbtemp. (tmptm1, tbtemp)) (lualibc_localtime tmptm1))
                      else Some (tmptm1, tbtemp))
            else (case lualibc_gmtime secs of
                    None \<Rightarrow> Some (- 1, timeptr)
                  | Some tbtemp \<Rightarrow> Some (secs, tbtemp))))"

definition mkgmtime :: "tm \<Rightarrow> (int \<times> tm) option" where
  "mkgmtime timeptr = make_time_t timeptr False"

definition lualibc_mktime :: "tm \<Rightarrow> (int \<times> tm) option" where
  "lualibc_mktime timeptr = make_time_t timeptr True"

text \<open>\<open>_gmtotime_t\<close>: no overflow check, so every intermediate value is exact or the C expression is
  undefined; the value is wrapped once.\<close>

definition gmtotime_t :: "int \<Rightarrow> int \<Rightarrow> int \<Rightarrow> int \<Rightarrow> int \<Rightarrow> int \<Rightarrow> int" where
  "gmtotime_t yr mo dy hr mn sc =
    (let yr = yr - 1900
     in if yr < BASE_YEAR \<or> yr > MAX_YEAR then - 1
        else (let tmpdays = dy + days ! nat (mo - 1);
                  tmpdays = (if yr AND 3 = 0 \<and> mo > 2 then tmpdays + 1 else tmpdays);
                  tmptim = yr - BASE_YEAR;
                  tmptim = s32 ((((tmptim * 365 + drop_bit 2 (yr - 1) - LEAP_YEAR_ADJUST + tmpdays) * 24 + hr) * 60 + mn) * 60 + sc);
                  tmptim = s32 (tmptim + timezone);
                  tmptim = (if daylight \<noteq> 0 then tmptim - 3600 else tmptim)
              in if tmptim \<ge> 0 then tmptim else - 1))"


subsection \<open>The Gregorian calendar\<close>

definition gregorian_leap :: "int \<Rightarrow> bool" where
  "gregorian_leap y \<longleftrightarrow> 4 dvd y \<and> (\<not> 100 dvd y \<or> 400 dvd y)"

definition year_len :: "int \<Rightarrow> int" where
  "year_len y = (if gregorian_leap (1900 + y) then 366 else 365)"

definition month_lens :: "int \<Rightarrow> int list" where
  "month_lens y = [31, if gregorian_leap (1900 + y) then 29 else 28, 31, 30, 31, 30, 31, 31, 30, 31, 30, 31]"

text \<open>Days from 1970 to the first day of year \<open>1900 + y\<close>, and from there to the first of month \<open>m\<close>.\<close>

definition days_before_year :: "int \<Rightarrow> int" where
  "days_before_year y = (\<Sum>i \<in> {70..<y}. year_len i) - (\<Sum>i \<in> {y..<70}. year_len i)"

definition days_before_month :: "int \<Rightarrow> int \<Rightarrow> int" where
  "days_before_month y m = sum_list (take (nat m) (month_lens y))"

text \<open>The second count of the fields, where months beyond the year carry into it.\<close>

definition civil_secs :: "tm \<Rightarrow> int" where
  "civil_secs t =
    (let y = tm_year t + tm_mon t div 12; m = tm_mon t mod 12
     in (((days_before_year y + days_before_month y m + (tm_mday t - 1)) * 24 + tm_hour t) * 60 + tm_min t) * 60 + tm_sec t)"

definition civil_valid :: "tm \<Rightarrow> bool" where
  "civil_valid t \<longleftrightarrow> 0 \<le> tm_sec t \<and> tm_sec t < 60 \<and> 0 \<le> tm_min t \<and> tm_min t < 60 \<and>
    0 \<le> tm_hour t \<and> tm_hour t < 24 \<and> 0 \<le> tm_mon t \<and> tm_mon t < 12 \<and>
    1 \<le> tm_mday t \<and> tm_mday t \<le> month_lens (tm_year t) ! nat (tm_mon t)"

lemma leap_4: "69 \<le> y \<Longrightarrow> y < 200 \<Longrightarrow> gregorian_leap (1900 + y) \<longleftrightarrow> y mod 4 = 0"
  unfolding gregorian_leap_def by presburger

lemma days_before_year_eq: "69 \<le> y \<Longrightarrow> y \<le> 200 \<Longrightarrow> days_before_year y = (y - 70) * 365 + (y - 1) div 4 - 17"
proof -
  have ge: "int n \<le> 130 \<Longrightarrow> (\<Sum>i \<in> {70..<70 + int n}. year_len i) = int n * 365 + (69 + int n) div 4 - 17" for n
  proof (induction n)
    case (Suc n)
    have "{70..<70 + int (Suc n)} = insert (70 + int n) {70..<70 + int n}" by auto
    then have "(\<Sum>i \<in> {70..<70 + int (Suc n)}. year_len i) = year_len (70 + int n) + (\<Sum>i \<in> {70..<70 + int n}. year_len i)"
      by simp
    moreover have "year_len (70 + int n) = 365 + (70 + int n) div 4 - (69 + int n) div 4"
      using leap_4 [of "70 + int n"] Suc.prems unfolding year_len_def by (cases "(70 + int n) mod 4 = 0") (simp; presburger)+
    ultimately show ?case using Suc by (simp add: algebra_simps)
  qed simp
  assume y: "69 \<le> y" "y \<le> 200"
  show ?thesis
  proof (cases "y = 69")
    case True
    have "{69..<70::int} = {69}" by auto
    then show ?thesis using leap_4 [of 69] True by (simp add: days_before_year_def year_len_def)
  next
    case False
    with y have "days_before_year y = (\<Sum>i \<in> {70..<70 + int (nat (y - 70))}. year_len i)"
      by (simp add: days_before_year_def)
    also have "\<dots> = (y - 70) * 365 + (y - 1) div 4 - 17"
      using y False by (subst ge) (simp_all add: algebra_simps)
    finally show ?thesis .
  qed
qed

lemma less_12: "0 \<le> m \<Longrightarrow> m < 12 \<Longrightarrow> m \<in> {0, 1, 2, 3, 4, 5, 6, 7, 8, 9, 10, 11 :: int}"
  by simp presburger

lemma days_before_month_table:
  assumes "0 \<le> m" "m < 12"
  shows "days_before_month y m =
    (if gregorian_leap (1900 + y) then lpdays ! nat m else days ! nat m) + 1"
    "days_before_month y m = days ! nat m + (if gregorian_leap (1900 + y) \<and> m > 1 then 1 else 0) + 1"
    "(if gregorian_leap (1900 + y) then lpdays ! nat (m + 1) else days ! nat (m + 1)) =
      (if gregorian_leap (1900 + y) then lpdays ! nat m else days ! nat m) + month_lens y ! nat m"
  using less_12 [OF assms]
  by (elim insertE emptyE; simp add: days_before_month_def lpdays_def days_def month_lens_def)+

subsection \<open>Seconds to fields and back\<close>

lemma find_year_correct:
  assumes "0 \<le> t" "find_year t = (y, c, lp)"
  shows "70 \<le> y \<and> 0 \<le> c \<and> c < (if lp then 366 else 365) * 86400 \<and> (lp \<longleftrightarrow> y mod 4 = 0) \<and>
    t = 86400 * ((y - 70) * 365 + (y - 1) div 4 - 17) + c \<and> 4 * (t div 126230400) + 70 \<le> y \<and>
    y \<le> 4 * (t div 126230400) + 73"
proof -
  define q r where "q = t div 126230400" and "r = t mod 126230400"
  have r: "0 \<le> r" "r < 126230400" and q: "0 \<le> q" and t: "t = 126230400 * q + r"
    using assms(1) by (simp_all add: q_def r_def)
  have "(y, c, lp) = (if r \<ge> 31536000 then (if r - 31536000 \<ge> 31536000 then
      (if r - 63072000 \<ge> 31622400 then (q * 4 + 73, r - 94694400, False) else (q * 4 + 72, r - 63072000, True))
      else (q * 4 + 71, r - 31536000, False)) else (q * 4 + 70, r, False))"
    unfolding assms(2) [symmetric] find_year_def q_def r_def
    by (simp add: Let_def minus_div_mult_eq_mod)
  moreover have "(4 * q + 69) div 4 = q + 17" "(4 * q + 70) div 4 = q + 17" "(4 * q + 71) div 4 = q + 17"
    "(4 * q + 72) div 4 = q + 18" by simp_all
  moreover have "(q * 4 + 73) mod 4 = 1" "(q * 4 + 72) mod 4 = 0" "(q * 4 + 71) mod 4 = 3" "(q * 4 + 70) mod 4 = 2"
    by presburger+
  ultimately show ?thesis
    using r q unfolding t q_def [symmetric] by (simp add: algebra_simps split: if_splits)
qed

lemma month_loop_props:
  "n \<le> length md \<Longrightarrow> n \<le> month_loop md d n \<and> month_loop md d n \<le> length md \<and>
    (\<forall>i. n \<le> i \<and> i < month_loop md d n \<longrightarrow> md ! i < d) \<and>
    (month_loop md d n < length md \<longrightarrow> d \<le> md ! month_loop md d n)"
proof (induction md d n rule: month_loop.induct)
  case (1 md d n)
  show ?case
  proof (cases "n < length md \<and> md ! n < d")
    case True
    then have eq: "month_loop md d n = month_loop md d (n + 1)" by (simp add: month_loop.simps [of md d n])
    have IH: "n + 1 \<le> month_loop md d (n + 1)" "month_loop md d (n + 1) \<le> length md"
      "\<forall>i. n + 1 \<le> i \<and> i < month_loop md d (n + 1) \<longrightarrow> md ! i < d"
      "month_loop md d (n + 1) < length md \<longrightarrow> d \<le> md ! month_loop md d (n + 1)"
      using 1 True by auto
    have "md ! i < d" if "n \<le> i" "i < month_loop md d (n + 1)" for i
      using that IH(3) True by (cases "i = n") auto
    then show ?thesis unfolding eq using IH by auto
  next
    case False
    then have "month_loop md d n = n" by (subst month_loop.simps) (simp only: if_False)
    then show ?thesis using False 1(2) by auto
  qed
qed

lemma month_loop_stops:
  assumes "md = (if lp then lpdays else days)" "0 \<le> d" "d < (if lp then 366 else 365)"
  shows "1 \<le> month_loop md d 1 \<and> month_loop md d 1 \<le> 12 \<and> md ! (month_loop md d 1 - 1) < d \<and>
    d \<le> md ! month_loop md d 1"
proof -
  have len: "length md = 13" and last: "d \<le> md ! 12" and first: "md ! 0 = - 1"
    using assms by (auto simp: lpdays_def days_def)
  note p = month_loop_props [of 1 md d]
  have "month_loop md d 1 \<le> 12"
  proof (rule ccontr)
    assume "\<not> month_loop md d 1 \<le> 12"
    then have "12 < month_loop md d 1" by simp
    then have "md ! 12 < d" using p len by auto
    with last show False by simp
  qed
  moreover have "md ! (month_loop md d 1 - 1) < d"
  proof (cases "month_loop md d 1 = 1")
    case True
    then show ?thesis using first assms(2) by simp
  next
    case False
    then show ?thesis using p len by auto
  qed
  ultimately show ?thesis using p len by auto
qed


lemma month_loop_decides:
  assumes "md = (if lp then lpdays else days)" "0 \<le> d" "d < (if lp then 366 else 365)"
    and "lp \<longleftrightarrow> gregorian_leap (1900 + y)"
  shows "let m = int (month_loop md d 1 - 1) in
    0 \<le> m \<and> m < 12 \<and> d = days_before_month y m + (d - md ! nat m) - 1 \<and>
    1 \<le> d - md ! nat m \<and> d - md ! nat m \<le> month_lens y ! nat m"
proof -
  define n where "n = month_loop md d 1"
  have n: "1 \<le> n" "n \<le> 12" "md ! (n - 1) < d" "d \<le> md ! n"
    using month_loop_stops [OF assms(1-3)] by (simp_all add: n_def)
  then obtain k where k: "n = Suc k" by (cases n) auto
  have m: "0 \<le> int k" "int k < 12" using n k by simp_all
  have "days_before_month y (int k) = md ! k + 1" "md ! Suc k = md ! k + month_lens y ! k"
    using days_before_month_table(1,3) [OF m, of y] assms(1,4) by (simp_all add: nat_add_distrib split: if_splits)
  then show ?thesis using n m unfolding n_def [symmetric] Let_def k by simp
qed

lemma hms_arith: "(s :: int) = q * 3600 + r \<Longrightarrow> r = p * 60 + u \<Longrightarrow> s = (q * 60 + p) * 60 + u"
  by simp

text \<open>The fields of a second count, the two parts separated.\<close>

lemma gmtime_fields:
  assumes "0 \<le> t" "t < 2 ^ 31 + 86400 * 3"
  shows "\<exists>tm. lualibc_gmtime t = Some tm \<and> civil_valid tm \<and> civil_secs tm = t \<and> tm_isdst tm = 0 \<and>
    70 \<le> tm_year tm \<and> tm_year tm \<le> 138 \<and> tm_wday tm = (t div 86400 + 4) mod 7 \<and>
    tm_yday tm = days_before_month (tm_year tm) (tm_mon tm) + tm_mday tm - 1"
proof -
  obtain y c lp where fy: "find_year t = (y, c, lp)" by (cases "find_year t")
  note p = find_year_correct [OF assms(1) fy]
  have "t div 126230400 \<le> 17" using assms(2) by simp
  then have y: "70 \<le> y" "y \<le> 141" using p by auto
  have lp: "lp \<longleftrightarrow> gregorian_leap (1900 + y)" using leap_4 [of y] y p by simp
  define d where "d = c div 86400"
  define s where "s = c mod 86400"
  have s: "0 \<le> s" "s < 86400" and c: "c = d * 86400 + s" by (simp_all add: s_def d_def)
  have d: "0 \<le> d" "d < (if lp then 366 else 365)"
    using p by (auto simp: d_def div_less_iff_less_mult split: if_splits)
  define md where "md = (if lp then lpdays else days)"
  define m where "m = int (month_loop md d 1 - 1)"
  have m: "0 \<le> m" "m < 12" "d = days_before_month y m + (d - md ! nat m) - 1"
    "1 \<le> d - md ! nat m" "d - md ! nat m \<le> month_lens y ! nat m"
    using month_loop_decides [OF md_def d lp] unfolding Let_def m_def [symmetric] by simp_all
  define tm where "tm = \<lparr>tm_sec = s - s div 3600 * 3600 - (s - s div 3600 * 3600) div 60 * 60,
    tm_min = (s - s div 3600 * 3600) div 60, tm_hour = s div 3600, tm_mday = d - md ! nat m, tm_mon = m,
    tm_year = y, tm_wday = (t div 86400 + 4) mod 7, tm_yday = d, tm_isdst = 0\<rparr>"
  have "c - d * 86400 = s" using c by simp
  then have gm: "lualibc_gmtime t = Some tm"
    using assms(1) by (simp add: lualibc_gmtime_def fy Let_def d_def [symmetric] md_def [symmetric] tm_def m_def)
  define r where "r = s mod 3600"
  have r: "0 \<le> r" "r < 3600" "s - s div 3600 * 3600 = r" "s = s div 3600 * 3600 + r"
    by (simp_all add: r_def minus_div_mult_eq_mod)
  have r60: "r - r div 60 * 60 = r mod 60" "r = r div 60 * 60 + r mod 60" by (simp_all add: minus_div_mult_eq_mod)
  have tmf: "tm_sec tm = r mod 60" "tm_min tm = r div 60" "tm_hour tm = s div 3600"
    by (simp_all add: tm_def r(3) r60(1))
  have hms: "0 \<le> tm_sec tm" "tm_sec tm < 60" "0 \<le> tm_min tm" "tm_min tm < 60" "0 \<le> tm_hour tm" "tm_hour tm < 24"
    unfolding tmf using s r(1,2) by (simp_all add: div_less_iff_less_mult)
  have hms_eq: "s = (tm_hour tm * 60 + tm_min tm) * 60 + tm_sec tm"
    unfolding tmf by (rule hms_arith [OF r(4) r60(2)])
  have date: "tm_mon tm = m" "tm_mday tm = d - md ! nat m" "tm_year tm = y" by (simp_all add: tm_def)
  have v: "civil_valid tm" unfolding civil_valid_def date using hms m by simp
  have dy: "days_before_year y = (y - 70) * 365 + (y - 1) div 4 - 17"
    using y by (intro days_before_year_eq) simp_all
  have "t = 86400 * days_before_year y + (d * 86400 + s)" using p c unfolding dy by simp
  also have "\<dots> = 86400 * (days_before_year y + days_before_month y m + (tm_mday tm - 1)) + s"
    unfolding date using m(3) by (simp add: algebra_simps)
  also have "\<dots> = civil_secs tm"
  proof -
    have "tm_mon tm div 12 = 0" "tm_mon tm mod 12 = m" "tm_year tm = y" using m by (simp_all add: tm_def)
    then show ?thesis using hms_eq by (simp only: civil_secs_def Let_def) (simp add: algebra_simps)
  qed
  finally have cs: "civil_secs tm = t" by simp
  have "y \<le> 138"
  proof (rule ccontr)
    assume "\<not> y \<le> 138"
    then have "(y - 70) * 365 + (y - 1) div 4 - 17 \<ge> 69 * 365 + 17" by simp
    then show False using p assms(2) by simp
  qed
  then show ?thesis using gm v cs y m(3) by (intro exI [of _ tm]) (simp add: tm_def)
qed


subsection \<open>Overflow checks\<close>

definition in_s32 :: "int \<Rightarrow> bool" where
  "in_s32 x \<longleftrightarrow> - (2 ^ 31) \<le> x \<and> x < 2 ^ 31"

lemma s32_id: "in_s32 x \<Longrightarrow> s32 x = x"
  by (simp add: s32_def in_s32_def)

lemma s32_diff: "\<exists>k. s32 x = x - k * 2 ^ 32"
proof -
  have "(x + 2 ^ 31) mod 2 ^ 32 = x + 2 ^ 31 - (x + 2 ^ 31) div 2 ^ 32 * 2 ^ 32"
    by (simp only: minus_div_mult_eq_mod)
  then show ?thesis unfolding s32_def by (intro exI [of _ "(x + 2 ^ 31) div 2 ^ 32"]) simp
qed

lemma in_s32_s32: "in_s32 (s32 x)"
proof -
  have "0 \<le> (x + 2 ^ 31) mod 2 ^ 32" "(x + 2 ^ 31) mod 2 ^ 32 < 2 ^ 32" by simp_all
  then show ?thesis unfolding s32_def in_s32_def by simp
qed

lemma add_check_eq:
  assumes "in_s32 a" "in_s32 b"
  shows "add_check a b = (if in_s32 (a + b) then Some (a + b) else None)"
proof (cases "in_s32 (a + b)")
  case True
  then show ?thesis by (auto simp: add_check_def s32_id ChkAdd_def Let_def)
next
  case False
  then have "a + b < - (2 ^ 31) \<or> 2 ^ 31 \<le> a + b" by (auto simp: in_s32_def)
  then show ?thesis
  proof
    assume lo: "a + b < - (2 ^ 31)"
    then have "s32 (a + b) = a + b + 2 ^ 32"
    proof -
      have "(a + b + 2 ^ 31 + 2 ^ 32) mod 2 ^ 32 = a + b + 2 ^ 31 + 2 ^ 32"
        using lo assms unfolding in_s32_def by (intro mod_pos_pos_trivial) simp_all
      then show ?thesis unfolding s32_def mod_add_self2 by simp
    qed
    then show ?thesis using lo assms False by (auto simp: add_check_def ChkAdd_def in_s32_def Let_def)
  next
    assume hi: "2 ^ 31 \<le> a + b"
    then have "s32 (a + b) = a + b - 2 ^ 32"
    proof -
      have "(a + b + 2 ^ 31 - 2 ^ 32) mod 2 ^ 32 = a + b + 2 ^ 31 - 2 ^ 32"
        using hi assms unfolding in_s32_def by (intro mod_pos_pos_trivial) simp_all
      then show ?thesis unfolding s32_def minus_mod_self2 by simp
    qed
    then show ?thesis using hi assms False by (auto simp: add_check_def ChkAdd_def in_s32_def Let_def)
  qed
qed

lemma mul_check_eq:
  assumes "in_s32 a" "0 < k"
  shows "mul_check a k = (if in_s32 (a * k) then Some (a * k) else None)"
proof (cases "in_s32 (a * k)")
  case True
  have "(a * k) sdiv a = k" if "a \<noteq> 0"
    using that assms(2) by (simp add: signed_divide_int_def sgn_mult abs_mult)
  then show ?thesis using True by (auto simp: mul_check_def s32_id ChkMul_def Let_def)
next
  case False
  then have a: "a \<noteq> 0" by (auto simp: in_s32_def)
  have "s32 (a * k) sdiv a \<noteq> k"
  proof
    assume eq: "s32 (a * k) sdiv a = k"
    obtain j where j: "s32 (a * k) = a * k - j * 2 ^ 32" using s32_diff by blast
    have "s32 (a * k) = k * a + s32 (a * k) smod a"
      using sdiv_mult_smod_eq [of "s32 (a * k)" a] unfolding eq by simp
    then have rem: "s32 (a * k) smod a = - (j * 2 ^ 32)" unfolding j by (simp add: algebra_simps)
    have "\<bar>s32 (a * k) smod a\<bar> < \<bar>a\<bar>"
      using a by (simp add: signed_modulo_int_def abs_mult abs_sgn_eq)
    then have "\<bar>j\<bar> * 2 ^ 32 < \<bar>a\<bar>" unfolding rem by (simp add: abs_mult)
    moreover have "\<bar>a\<bar> \<le> 2 ^ 31" using assms(1) unfolding in_s32_def by linarith
    ultimately have "\<bar>j\<bar> * 2 ^ 32 < 2 ^ 31 + 1" by linarith
    then have "j = 0" by simp
    with j in_s32_s32 [of "a * k"] False show False by simp
  qed
  then show ?thesis using False a by (simp add: mul_check_def ChkMul_def Let_def)
qed


subsection \<open>Fields to seconds is exact\<close>

lemma norm_month_eq:
  assumes "69 \<le> tm_year t" "tm_year t \<le> 139"
  shows "norm_month t =
    (let y = tm_year t + tm_mon t div 12
     in (if 69 \<le> y \<and> y \<le> 139 then Some y else None, t\<lparr>tm_mon := tm_mon t mod 12\<rparr>))"
proof (cases "tm_mon t < 0 \<or> tm_mon t > 11")
  case True
  have tr: "(if tm_mon t smod 12 < 0 then (tm_mon t smod 12 + 12, tm_mon t sdiv 12 - 1)
      else (tm_mon t smod 12, tm_mon t sdiv 12)) = (tm_mon t mod 12, tm_mon t div 12)"
    by (cases "tm_mon t \<ge> 0")
      (auto simp: signed_divide_int_def signed_modulo_int_def zdiv_zminus1_eq_if zmod_zminus1_eq_if sgn_if)
  show ?thesis
  proof (cases "tm_mon t smod 12 < 0")
    case neg: True
    with tr have "tm_mon t smod 12 + 12 = tm_mon t mod 12" "tm_mon t sdiv 12 = tm_mon t div 12 + 1" by simp_all
    then show ?thesis using True neg by (simp add: norm_month_def Let_def)
  next
    case pos: False
    with tr have "tm_mon t smod 12 = tm_mon t mod 12" "tm_mon t sdiv 12 = tm_mon t div 12" by simp_all
    then show ?thesis using True pos by (simp add: norm_month_def Let_def)
  qed
next
  case False
  then have "tm_mon t div 12 = 0" "tm_mon t mod 12 = tm_mon t" by simp_all
  moreover have "t\<lparr>tm_mon := tm_mon t\<rparr> = t" by simp
  ultimately show ?thesis using False assms by (simp add: norm_month_def Let_def)
qed

text \<open>The running counts: days, hours, minutes, seconds.\<close>

definition in_range_counts :: "int \<Rightarrow> tm \<Rightarrow> bool" where
  "in_range_counts d t \<longleftrightarrow> in_s32 d \<and> in_s32 (d * 24) \<and> in_s32 (d * 24 + tm_hour t) \<and>
    in_s32 ((d * 24 + tm_hour t) * 60) \<and> in_s32 ((d * 24 + tm_hour t) * 60 + tm_min t) \<and>
    in_s32 (((d * 24 + tm_hour t) * 60 + tm_min t) * 60) \<and>
    in_s32 (((d * 24 + tm_hour t) * 60 + tm_min t) * 60 + tm_sec t)"

definition fields_s32 :: "tm \<Rightarrow> bool" where
  "fields_s32 t \<longleftrightarrow> in_s32 (tm_sec t) \<and> in_s32 (tm_min t) \<and> in_s32 (tm_hour t) \<and> in_s32 (tm_mday t)"

lemma elapsed_secs_eq:
  assumes y: "69 \<le> y" "y \<le> 139" and m: "0 \<le> tm_mon t" "tm_mon t < 12" and f: "fields_s32 t"
  defines "d \<equiv> days_before_year y + days_before_month y (tm_mon t) + (tm_mday t - 1)"
  shows "elapsed_secs y t =
    (if in_range_counts d t then Some (((d * 24 + tm_hour t) * 60 + tm_min t) * 60 + tm_sec t) else None)"
proof -
  define base where "base = days_before_year y + days_before_month y (tm_mon t) - 1"
  have dm: "days_before_month y (tm_mon t) = days ! nat (tm_mon t) + (if y mod 4 = 0 \<and> tm_mon t > 1 then 1 else 0) + 1"
    using days_before_month_table(2) [OF m, of y] leap_4 [of y] y by simp
  have range: "days ! nat (tm_mon t) \<in> {- 1..364}"
    using less_12 [OF m] by (elim insertE emptyE; simp add: days_def)
  have dy: "days_before_year y = (y - 70) * 365 + (y - 1) div 4 - 17"
    using y by (intro days_before_year_eq) simp_all
  have "y AND 3 = y mod 4" using take_bit_eq_mask [of 2 y] by (simp add: take_bit_eq_mod mask_eq_exp_minus_1)
  moreover have "drop_bit 2 (y - 1) = (y - 1) div 4" by (simp add: drop_bit_eq_div)
  ultimately have start: "(y - 70) * 365 + drop_bit 2 (y - 1) - 17 +
      (if y AND 3 = 0 \<and> tm_mon t > 1 then days ! nat (tm_mon t) + 1 else days ! nat (tm_mon t)) = base"
    unfolding base_def dy dm by simp
  have "in_s32 base"
    using range y unfolding base_def dy dm in_s32_def by (auto split: if_splits)
  moreover have "d = base + tm_mday t" by (simp add: d_def base_def)
  ultimately show ?thesis
    using f unfolding elapsed_secs_def Let_def start fields_s32_def in_range_counts_def
    by (simp add: add_check_eq mul_check_eq)
qed

lemma valid_normal:
  assumes "civil_valid t"
  shows "tm_mon t div 12 = 0" "tm_mon t mod 12 = tm_mon t" "fields_s32 t" "1 \<le> tm_mday t" "tm_mday t \<le> 31"
    "t\<lparr>tm_mon := tm_mon t\<rparr> = t"
proof -
  have m: "0 \<le> tm_mon t" "tm_mon t < 12" using assms by (simp_all add: civil_valid_def)
  then show "tm_mon t div 12 = 0" "tm_mon t mod 12 = tm_mon t" by simp_all
  have "month_lens (tm_year t) ! nat (tm_mon t) \<le> 31"
    using less_12 [OF m] by (elim insertE emptyE; simp add: month_lens_def)
  then show d: "1 \<le> tm_mday t" "tm_mday t \<le> 31" using assms by (auto simp: civil_valid_def)
  then show "fields_s32 t" using assms unfolding fields_s32_def in_s32_def civil_valid_def by simp
qed simp

lemma days_before_nonneg:
  assumes "70 \<le> y" "y \<le> 139" "0 \<le> m" "m < 12"
  shows "0 \<le> days_before_year y" "0 \<le> days_before_month y m"
proof -
  show "0 \<le> days_before_year y" using assms by (simp add: days_before_year_eq)
  show "0 \<le> days_before_month y m"
    unfolding days_before_month_table(2) [OF assms(3,4)] using less_12 [OF assms(3,4)]
    by (elim insertE emptyE; simp add: days_def)
qed

lemma in_range_counts_nonneg:
  assumes "0 \<le> d" "0 \<le> tm_hour t" "0 \<le> tm_min t" "0 \<le> tm_sec t"
    and "((d * 24 + tm_hour t) * 60 + tm_min t) * 60 + tm_sec t < 2 ^ 31"
  shows "in_range_counts d t"
  using assms unfolding in_range_counts_def in_s32_def by simp

lemma elapsed_secs_valid:
  assumes "70 \<le> tm_year t" "tm_year t \<le> 139" "civil_valid t" "civil_secs t < 2 ^ 31"
  shows "elapsed_secs (tm_year t) t = Some (civil_secs t)"
proof -
  have v: "0 \<le> tm_sec t" "0 \<le> tm_min t" "0 \<le> tm_hour t" "0 \<le> tm_mon t" "tm_mon t < 12"
    using assms(3) by (simp_all add: civil_valid_def)
  define d where "d = days_before_year (tm_year t) + days_before_month (tm_year t) (tm_mon t) + (tm_mday t - 1)"
  have cs: "civil_secs t = ((d * 24 + tm_hour t) * 60 + tm_min t) * 60 + tm_sec t"
    using valid_normal [OF assms(3)] by (simp add: civil_secs_def d_def Let_def)
  have "0 \<le> d" using days_before_nonneg [OF assms(1,2) v(4,5)] valid_normal(4) [OF assms(3)] by (simp add: d_def)
  then have "in_range_counts d t" using assms(4) v unfolding cs by (intro in_range_counts_nonneg) simp_all
  then show ?thesis
    using elapsed_secs_eq [of "tm_year t" t] assms v valid_normal(3) unfolding cs d_def by simp
qed

lemma make_time_valid:
  assumes "70 \<le> tm_year t" "tm_year t \<le> 139" "civil_valid t" "civil_secs t < 2 ^ 31"
  shows "make_time_t t flag =
    (if flag then
       (let tmptm1 = civil_secs t - 28800
        in case lualibc_localtime tmptm1 of
             None \<Rightarrow> Some (- 1, t)
           | Some tbtemp \<Rightarrow>
               if tm_isdst t > 0 \<or> tm_isdst t < 0 \<and> tm_isdst tbtemp > 0
               then map_option (\<lambda>tbtemp. (tmptm1 - 3600, tbtemp)) (lualibc_localtime (tmptm1 - 3600))
               else Some (tmptm1, tbtemp))
     else (case lualibc_gmtime (civil_secs t) of
             None \<Rightarrow> Some (- 1, t)
           | Some tbtemp \<Rightarrow> Some (civil_secs t, tbtemp)))"
proof -
  note vn = valid_normal [OF assms(3)]
  have nm: "norm_month t = (Some (tm_year t), t)"
    using assms vn by (simp add: norm_month_eq)
  have "0 \<le> civil_secs t"
    using days_before_nonneg [of "tm_year t" "tm_mon t"] assms vn unfolding civil_valid_def
    by (simp add: civil_secs_def Let_def)
  then have "s32 (civil_secs t - 28800) = civil_secs t - 28800"
    "s32 (civil_secs t - 28800 - 3600) = civil_secs t - 28800 - 3600"
    using assms(4) by (intro s32_id; simp add: in_s32_def)+
  then show ?thesis
    using assms by (simp add: make_time_t_def nm elapsed_secs_valid Let_def split: option.split)
qed

subsection \<open>Local time\<close>

text \<open>January 1970 and January 2038, where the time zone is added field by field.\<close>

lemma gmtime_january:
  assumes q: "q \<in> {0, 17 :: int}" and D: "0 \<le> D" "D < 31" and f: "0 \<le> h" "h < 24" "0 \<le> m" "m < 60" "0 \<le> s" "s < 60"
  shows "lualibc_gmtime (126230400 * q + (((D * 24 + h) * 60 + m) * 60 + s)) =
    Some \<lparr>tm_sec = s, tm_min = m, tm_hour = h, tm_mday = D + 1, tm_mon = 0, tm_year = 4 * q + 70,
      tm_wday = (1461 * q + D + 4) mod 7, tm_yday = D, tm_isdst = 0\<rparr>"
proof -
  define u where "u = ((D * 24 + h) * 60 + m) * 60 + s"
  have u: "0 \<le> u" "u < 31 * 86400" using D f by (simp_all add: u_def)
  have div4: "(126230400 * q + u) div 126230400 = q" using u by simp
  have fy: "find_year (126230400 * q + u) = (4 * q + 70, u, False)"
    using u unfolding find_year_def Let_def by (simp add: div4 algebra_simps)
  have D': "u div 86400 = D"
  proof -
    have "u = D * 86400 + ((h * 60 + m) * 60 + s)" by (simp add: u_def)
    moreover have "0 \<le> (h * 60 + m) * 60 + s" "(h * 60 + m) * 60 + s < 86400" using f by simp_all
    ultimately show ?thesis by simp
  qed
  define v where "v = (h * 60 + m) * 60 + s"
  define w where "w = m * 60 + s"
  have rest: "u - D * 86400 = v" "v - h * 3600 = w" "w - m * 60 = s" by (simp_all add: u_def v_def w_def)
  have h: "v div 3600 = h"
  proof -
    have "v = h * 3600 + (m * 60 + s)" by (simp add: v_def)
    moreover have "0 \<le> m * 60 + s" "m * 60 + s < 3600" using f by simp_all
    ultimately show ?thesis by simp
  qed
  have m: "w div 60 = m" using f by (simp add: w_def)
  have ml: "month_loop days D (Suc 0) = Suc 0"
    using D by (subst month_loop.simps) (simp add: days_def)
  have d0: "days ! 0 = - 1" by (simp add: days_def)
  have dow: "(126230400 * q + u) div 86400 = 1461 * q + D"
  proof -
    have "126230400 * q + u = 86400 * (1461 * q) + u" by simp
    then show ?thesis by (simp only: div_mult_self4) (simp add: D')
  qed
  have "\<not> 126230400 * q + u < 0" using q u by auto
  then show ?thesis
    unfolding u_def [symmetric]
    by (simp add: lualibc_gmtime_def fy Let_def D' rest h m ml dow d0)
qed


lemma dhms_arith:
  "(u :: int) = D * 86400 + v \<Longrightarrow> v = h * 3600 + w \<Longrightarrow> w = m * 60 + s \<Longrightarrow> u = ((D * 24 + h) * 60 + m) * 60 + s"
  by simp

lemma january_carry:
  fixes u :: int
  assumes "0 \<le> u" "u < 30 * 86400"
  obtains D h m s where "u = ((D * 24 + h) * 60 + m) * 60 + s" "0 \<le> D" "D < 30" "0 \<le> h" "h < 24"
    "0 \<le> m" "m < 60" "0 \<le> s" "s < 60"
proof -
  define v where "v = u mod 86400"
  define w where "w = v mod 3600"
  have v: "0 \<le> v" "v < 86400" and w: "0 \<le> w" "w < 3600" by (simp_all add: v_def w_def)
  have "u = ((u div 86400 * 24 + v div 3600) * 60 + w div 60) * 60 + w mod 60"
    by (rule dhms_arith [of u "u div 86400" v "v div 3600" w]) (simp_all add: v_def w_def)
  then show ?thesis
    using assms v w
    by (intro that [of "u div 86400" "v div 3600" "w div 60" "w mod 60"]) (simp_all add: div_less_iff_less_mult)
qed

lemma zone_carry:
  assumes "0 \<le> x" "x < (60 :: int)"
  shows "(x + 28800) mod 60 = x" "(x + 28800) div 60 = 480" "(x + 480) mod 60 = x" "(x + 480) div 60 = 8"
proof -
  show "(x + 28800) mod 60 = x" by (rule int_mod_pos_eq [of _ _ 480]) (use assms in simp_all)
  show "(x + 28800) div 60 = 480" by (rule int_div_pos_eq [of _ _ _ x]) (use assms in simp_all)
  show "(x + 480) mod 60 = x" by (rule int_mod_pos_eq [of _ _ 8]) (use assms in simp_all)
  show "(x + 480) div 60 = 8" by (rule int_div_pos_eq [of _ _ _ x]) (use assms in simp_all)
qed

lemma hour_carry:
  assumes "0 \<le> x" "x < (24 :: int)"
  shows "x < 16 \<Longrightarrow> (x + 8) mod 24 = x + 8" "x < 16 \<Longrightarrow> (x + 8) div 24 = 0"
    "\<not> x < 16 \<Longrightarrow> (x + 8) mod 24 = x - 16" "\<not> x < 16 \<Longrightarrow> (x + 8) div 24 = 1"
proof -
  show "x < 16 \<Longrightarrow> (x + 8) mod 24 = x + 8" by (rule int_mod_pos_eq [of _ _ 0]) (use assms in simp_all)
  show "x < 16 \<Longrightarrow> (x + 8) div 24 = 0" by (rule int_div_pos_eq [of _ _ _ "x + 8"]) (use assms in simp_all)
  show "\<not> x < 16 \<Longrightarrow> (x + 8) mod 24 = x - 16" by (rule int_mod_pos_eq [of _ _ 1]) (use assms in simp_all)
  show "\<not> x < 16 \<Longrightarrow> (x + 8) div 24 = 1" by (rule int_div_pos_eq [of _ _ _ "x - 16"]) (use assms in simp_all)
qed

lemma adjust_fields_eq:
  assumes s: "(s + 28800) smod 60 = s" "(s + 28800) sdiv 60 = 480"
    and m: "(m + 480) smod 60 = m" "(m + 480) sdiv 60 = 8"
    and h: "(h + 8) smod 24 = h'" "(h + 8) sdiv 24 = c"
    and nn: "(s < 0) = False" "(m < 0) = False" "(h' < 0) = False" "(c < 0) = False"
  shows "adjust_fields \<lparr>tm_sec = s, tm_min = m, tm_hour = h, tm_mday = d, tm_mon = mo, tm_year = y,
      tm_wday = w, tm_yday = yd, tm_isdst = dst\<rparr> =
    (if c > 0 then \<lparr>tm_sec = s, tm_min = m, tm_hour = h', tm_mday = d + c, tm_mon = mo, tm_year = y,
      tm_wday = (w + c) smod 7, tm_yday = yd + c, tm_isdst = dst\<rparr>
     else \<lparr>tm_sec = s, tm_min = m, tm_hour = h', tm_mday = d, tm_mon = mo, tm_year = y,
      tm_wday = w, tm_yday = yd, tm_isdst = dst\<rparr>)"
proof -
  have z: "s - (- 8 * 3600) = s + 28800" by simp
  have f: "((0::int) \<noteq> 0) = False" by simp
  show ?thesis
    by (simp only: adjust_fields_def isindst_def Let_def f if_False tm.simps z s m h nn prod.case)
qed

lemma adjust_january:
  assumes q: "q \<in> {0, 17 :: int}" and u: "0 \<le> u" "u < 30 * 86400"
  shows "map_option adjust_fields (lualibc_gmtime (126230400 * q + u)) = lualibc_gmtime (126230400 * q + (u + 28800))"
proof -
  obtain D h m s where d: "u = ((D * 24 + h) * 60 + m) * 60 + s" "0 \<le> D" "D < 30" "0 \<le> h" "h < 24"
    "0 \<le> m" "m < 60" "0 \<le> s" "s < 60" using u by (rule january_carry)
  have sm: "a smod 60 = a mod 60" "a sdiv 60 = a div 60" "a smod 24 = a mod 24" "a sdiv 24 = a div 24"
    if "0 \<le> a" for a :: int
    using that by (simp_all add: signed_divide_int_def signed_modulo_int_def sgn_if)
  have nn: "0 \<le> s + 28800" "0 \<le> m + 480" "0 \<le> h + 8" using d by simp_all
  have s1: "(s + 28800) smod 60 = s" "(s + 28800) sdiv 60 = 480"
    and m1: "(m + 480) smod 60 = m" "(m + 480) sdiv 60 = 8"
    by (simp_all only: sm [OF nn(1)] sm [OF nn(2)] zone_carry [OF d(8,9)] zone_carry [OF d(6,7)])
  have neg: "(s < 0) = False" "(m < 0) = False" using d by simp_all
  have g: "lualibc_gmtime (126230400 * q + u) =
      Some \<lparr>tm_sec = s, tm_min = m, tm_hour = h, tm_mday = D + 1, tm_mon = 0, tm_year = 4 * q + 70,
        tm_wday = (1461 * q + D + 4) mod 7, tm_yday = D, tm_isdst = 0\<rparr>"
    unfolding d(1) by (rule gmtime_january [OF q]) (use d in simp_all)
  show ?thesis
  proof (cases "h < 16")
    case True
    have "u + 28800 = ((D * 24 + (h + 8)) * 60 + m) * 60 + s" by (simp add: d(1))
    moreover have "(h + 8) smod 24 = h + 8" "(h + 8) sdiv 24 = 0"
      by (simp_all only: sm [OF nn(3)] hour_carry [OF d(4,5)] True)
    moreover have "lualibc_gmtime (126230400 * q + (((D * 24 + (h + 8)) * 60 + m) * 60 + s)) =
      Some \<lparr>tm_sec = s, tm_min = m, tm_hour = h + 8, tm_mday = D + 1, tm_mon = 0, tm_year = 4 * q + 70,
        tm_wday = (1461 * q + D + 4) mod 7, tm_yday = D, tm_isdst = 0\<rparr>"
      by (rule gmtime_january [OF q]) (use d True in simp_all)
    moreover have "(h + 8 < 0) = False" "((0::int) < 0) = False" using d by simp_all
    ultimately show ?thesis by (simp only: g option.map adjust_fields_eq [OF s1 m1 _ _ neg] if_False)
  next
    case False
    have "u + 28800 = (((D + 1) * 24 + (h - 16)) * 60 + m) * 60 + s" by (simp add: d(1))
    moreover have "(h + 8) smod 24 = h - 16" "(h + 8) sdiv 24 = 1"
      using False by (simp_all only: sm [OF nn(3)] hour_carry [OF d(4,5)] not_False_eq_True)
    moreover have "lualibc_gmtime (126230400 * q + ((((D + 1) * 24 + (h - 16)) * 60 + m) * 60 + s)) =
      Some \<lparr>tm_sec = s, tm_min = m, tm_hour = h - 16, tm_mday = D + 1 + 1, tm_mon = 0, tm_year = 4 * q + 70,
        tm_wday = (1461 * q + (D + 1) + 4) mod 7, tm_yday = D + 1, tm_isdst = 0\<rparr>"
      by (rule gmtime_january [OF q]) (use d False in simp_all)
    moreover have "((1461 * q + D + 4) mod 7 + 1) smod 7 = (1461 * q + (D + 1) + 4) mod 7"
    proof -
      have "0 \<le> (1461 * q + D + 4) mod 7 + 1" by simp
      then have "((1461 * q + D + 4) mod 7 + 1) smod 7 = ((1461 * q + D + 4) mod 7 + 1) mod 7"
        by (simp add: signed_modulo_int_def sgn_if)
      also have "\<dots> = (1461 * q + D + 4 + 1) mod 7" by (rule mod_add_left_eq)
      finally show ?thesis by (simp add: algebra_simps)
    qed
    moreover have "(h - 16 < 0) = False" "((1::int) < 0) = False" "((0::int) < 1) = True" using False by simp_all
    ultimately show ?thesis by (simp only: g option.map adjust_fields_eq [OF s1 m1 _ _ neg] if_True)
  qed
qed

lemma localtime_shift:
  assumes "0 \<le> t" "t < 2 ^ 31"
  shows "lualibc_localtime t = lualibc_gmtime (t + 28800)"
proof -
  consider "259200 < t" "t < 2 ^ 31 - 1 - 259200" | "t \<le> 259200" | "2 ^ 31 - 1 - 259200 \<le> t" by linarith
  then show ?thesis
  proof cases
    case 1
    then show ?thesis using assms by (simp add: lualibc_localtime_def Let_def)
  next
    case 2
    then show ?thesis using assms adjust_january [of 0 t] by (simp add: lualibc_localtime_def)
  next
    case 3
    then show ?thesis using assms adjust_january [of 17 "t - 2145916800"] by (simp add: lualibc_localtime_def add.commute)
  qed
qed

subsection \<open>Properties\<close>

text \<open>C20: \<^verbatim>\<open>gmtime\<close> gives, for every time it accepts, the Gregorian date and time of day: all fields are in
  their ranges, the day exists in its month, the fields count back to the argument, the day of the
  year and the weekday are right (1970-01-01 was a Thursday); negative times give no result.\<close>

theorem gmtime_gregorian:
  assumes "t < 2 ^ 31"
  shows "if t < 0 then lualibc_gmtime t = None
    else \<exists>tm. lualibc_gmtime t = Some tm \<and> civil_valid tm \<and> civil_secs tm = t \<and>
      tm_wday tm = (t div 86400 + 4) mod 7 \<and>
      tm_yday tm = days_before_month (tm_year tm) (tm_mon tm) + tm_mday tm - 1"
proof (cases "t < 0")
  case True
  then show ?thesis by (simp add: lualibc_gmtime_def)
next
  case False
  with assms gmtime_fields [of t] show ?thesis by auto
qed

theorem gmtime_gregorian_witness:
  "\<exists>tm. lualibc_gmtime 951782400 = Some tm \<and> civil_valid tm \<and> civil_secs tm = 951782400"
  using gmtime_gregorian [of 951782400] by auto

text \<open>C21: \<^verbatim>\<open>_mkgmtime\<close> never returns a wrapped count, whatever its fields hold: the result is -1 or the
  exact second count of the fields (months carried into years), with the fields normalised; and it
  is the exact count whenever no field is negative, the year is not before 1970 and the count fits.\<close>

theorem mkgmtime_exact:
  assumes f: "fields_s32 t"
  shows "\<exists>r t'. mkgmtime t = Some (r, t') \<and>
    (r = - 1 \<or> r = civil_secs t \<and> 0 \<le> r \<and> r < 2 ^ 31 \<and> lualibc_gmtime r = Some t') \<and>
    (69 \<le> tm_year t \<and> tm_year t \<le> 139 \<and> 70 \<le> tm_year t + tm_mon t div 12 \<and> tm_year t + tm_mon t div 12 \<le> 139 \<and>
      1 \<le> tm_mday t \<and> 0 \<le> tm_hour t \<and> 0 \<le> tm_min t \<and> 0 \<le> tm_sec t \<and> civil_secs t < 2 ^ 31
      \<longrightarrow> r = civil_secs t)"
proof (cases "69 \<le> tm_year t \<and> tm_year t \<le> 139")
  case False
  then have "mkgmtime t = Some (- 1, t)" by (auto simp: mkgmtime_def make_time_t_def)
  then show ?thesis using False by auto
next
  case year: True
  define y where "y = tm_year t + tm_mon t div 12"
  define t1 where "t1 = t\<lparr>tm_mon := tm_mon t mod 12\<rparr>"
  have nm: "norm_month t = (if 69 \<le> y \<and> y \<le> 139 then Some y else None, t1)"
    using norm_month_eq [of t] year by (simp add: y_def t1_def Let_def)
  have year': "\<not> (tm_year t < 70 - 1 \<or> tm_year t > 138 + 1)" using year by simp
  show ?thesis
  proof (cases "69 \<le> y \<and> y \<le> 139")
    case False
    then have "mkgmtime t = Some (- 1, t1)" using year' nm by (auto simp: mkgmtime_def make_time_t_def)
    then show ?thesis using False unfolding y_def by auto
  next
    case True
    define d where "d = days_before_year y + days_before_month y (tm_mon t1) + (tm_mday t1 - 1)"
    define e where "e = ((d * 24 + tm_hour t1) * 60 + tm_min t1) * 60 + tm_sec t1"
    have m1: "0 \<le> tm_mon t1" "tm_mon t1 < 12" and f1: "fields_s32 t1"
      using f by (simp_all add: t1_def fields_s32_def)
    have el: "elapsed_secs y t1 = (if in_range_counts d t1 then Some e else None)"
      unfolding e_def d_def using True by (intro elapsed_secs_eq m1 f1) simp_all
    have cs: "civil_secs t = e" by (simp add: civil_secs_def e_def d_def y_def t1_def Let_def)
    have mk: "mkgmtime t = (case elapsed_secs y t1 of None \<Rightarrow> Some (- 1, t1)
      | Some secs \<Rightarrow> (case lualibc_gmtime secs of None \<Rightarrow> Some (- 1, t1) | Some tb \<Rightarrow> Some (secs, tb)))"
      using year' nm True unfolding mkgmtime_def make_time_t_def by (simp split: option.split)
    show ?thesis
    proof (cases "in_range_counts d t1 \<and> 0 \<le> e")
      case ok: True
      then have e: "0 \<le> e" "e < 2 ^ 31" unfolding e_def in_range_counts_def in_s32_def by simp_all
      then obtain tb where "lualibc_gmtime e = Some tb" using gmtime_fields [of e] by auto
      then show ?thesis using ok e unfolding mk el cs by simp
    next
      case no: False
      have "\<not> (70 \<le> y \<and> 1 \<le> tm_mday t \<and> 0 \<le> tm_hour t \<and> 0 \<le> tm_min t \<and> 0 \<le> tm_sec t \<and> e < 2 ^ 31)"
      proof
        assume a: "70 \<le> y \<and> 1 \<le> tm_mday t \<and> 0 \<le> tm_hour t \<and> 0 \<le> tm_min t \<and> 0 \<le> tm_sec t \<and> e < 2 ^ 31"
        then have "0 \<le> d" using days_before_nonneg [of y "tm_mon t1"] True m1 by (simp add: d_def t1_def)
        then have "in_range_counts d t1"
          using a unfolding e_def by (intro in_range_counts_nonneg) (simp_all add: t1_def)
        moreover have "0 \<le> e" using a \<open>0 \<le> d\<close> unfolding e_def by (simp add: t1_def)
        ultimately have "in_range_counts d t1 \<and> 0 \<le> e" ..
        with no show False ..
      qed
      moreover have "mkgmtime t = Some (- 1, t1)"
      proof (cases "in_range_counts d t1")
        case True
        with no have "lualibc_gmtime e = None" by (simp add: lualibc_gmtime_def)
        then show ?thesis unfolding mk el using True by simp
      qed (simp add: mk el)
      ultimately show ?thesis unfolding cs y_def by auto
    qed
  qed
qed

definition demo_tm :: tm where
  "demo_tm = \<lparr>tm_sec = 0, tm_min = 0, tm_hour = 8, tm_mday = 1, tm_mon = 0, tm_year = 70,
    tm_wday = 0, tm_yday = 0, tm_isdst = 1\<rparr>"

lemma demo_tm: "fields_s32 demo_tm" "civil_valid demo_tm" "civil_secs demo_tm = 28800"
  by (simp_all add: demo_tm_def fields_s32_def in_s32_def civil_valid_def month_lens_def civil_secs_def
    days_before_month_def days_before_year_def)

theorem mkgmtime_exact_witness: "\<exists>t'. mkgmtime demo_tm = Some (28800, t')"
  using mkgmtime_exact [OF demo_tm(1)] demo_tm(3) by (auto simp: demo_tm_def)

text \<open>Local time is UTC shifted by eight hours at every representable time, also in the first and
  last three days, where the code adds the zone to the fields one by one.\<close>

theorem localtime_is_shifted_gmtime:
  assumes "0 \<le> t" "t < 2 ^ 31"
  shows "lualibc_localtime t = lualibc_gmtime (t + 8 * 3600)"
  using localtime_shift [OF assms] by simp

theorem localtime_is_shifted_gmtime_witness: "lualibc_localtime 2147480000 = lualibc_gmtime (2147480000 + 8 * 3600)"
  by (rule localtime_is_shifted_gmtime) simp_all

text \<open>The conversions are inverse: \<^verbatim>\<open>_mkgmtime\<close> undoes \<^verbatim>\<open>gmtime\<close> at every time, and both \<^verbatim>\<open>mktime\<close> and
  \<^verbatim>\<open>_gmtotime_t\<close> undo \<^verbatim>\<open>localtime\<close> up to eight hours before the last representable second.\<close>

theorem calendar_roundtrip:
  assumes "0 \<le> t" "t < 2 ^ 31" "lualibc_gmtime t = Some g" "lualibc_localtime t = Some l"
  shows "mkgmtime g = Some (t, g) \<and>
    (t < 2 ^ 31 - 8 * 3600 \<longrightarrow> lualibc_mktime l = Some (t, l) \<and>
      gmtotime_t (tm_year l + 1900) (tm_mon l + 1) (tm_mday l) (tm_hour l) (tm_min l) (tm_sec l) = t)"
proof
  have "t < 2 ^ 31 + 86400 * 3" using assms(2) by simp
  then have g: "civil_valid g" "civil_secs g = t" "70 \<le> tm_year g" "tm_year g \<le> 138"
    using gmtime_fields [OF assms(1)] assms(3) by auto
  then show "mkgmtime g = Some (t, g)"
    using make_time_valid [of g False] assms by (simp add: mkgmtime_def)
  show "t < 2 ^ 31 - 8 * 3600 \<longrightarrow> lualibc_mktime l = Some (t, l) \<and>
      gmtotime_t (tm_year l + 1900) (tm_mon l + 1) (tm_mday l) (tm_hour l) (tm_min l) (tm_sec l) = t"
  proof
    assume le: "t < 2 ^ 31 - 8 * 3600"
    have "lualibc_gmtime (t + 28800) = Some l" using localtime_shift [OF assms(1,2)] assms(4) by simp
    moreover have "t + 28800 < 2 ^ 31 + 86400 * 3" using le by simp
    ultimately have l: "civil_valid l" "civil_secs l = t + 28800" "70 \<le> tm_year l" "tm_year l \<le> 138" "tm_isdst l = 0"
      using gmtime_fields [of "t + 28800"] assms(1) by auto
    have m: "0 \<le> tm_mon l" "tm_mon l < 12" using l(1) by (simp_all add: civil_valid_def)
    have "lualibc_mktime l = Some (t, l)"
      using make_time_valid [of l True] l assms le by (simp add: lualibc_mktime_def Let_def)
    moreover have "gmtotime_t (tm_year l + 1900) (tm_mon l + 1) (tm_mday l) (tm_hour l) (tm_min l) (tm_sec l) =
        (let x = s32 (s32 (civil_secs l) + - 8 * 3600) in if 0 \<le> x then x else - 1)"
    proof -
      have "tm_year l AND 3 = tm_year l mod 4"
        using take_bit_eq_mask [of 2 "tm_year l"] by (simp add: take_bit_eq_mod mask_eq_exp_minus_1)
      moreover have "drop_bit 2 (tm_year l - 1) = (tm_year l - 1) div 4" by (simp add: drop_bit_eq_div)
      ultimately have "(tm_year l - 70) * 365 + drop_bit 2 (tm_year l - 1) - 17 +
          (if tm_year l AND 3 = 0 \<and> tm_mon l + 1 > 2 then tm_mday l + days ! nat (tm_mon l + 1 - 1) + 1
           else tm_mday l + days ! nat (tm_mon l + 1 - 1)) =
          days_before_year (tm_year l) + days_before_month (tm_year l) (tm_mon l) + (tm_mday l - 1)"
        using l leap_4 [of "tm_year l"] by (simp add: days_before_year_eq days_before_month_table(2) [OF m])
      then have sum: "((((tm_year l - 70) * 365 + drop_bit 2 (tm_year l - 1) - 17 +
          (if tm_year l AND 3 = 0 \<and> tm_mon l + 1 > 2 then tm_mday l + days ! nat (tm_mon l + 1 - 1) + 1
           else tm_mday l + days ! nat (tm_mon l + 1 - 1))) * 24 + tm_hour l) * 60 + tm_min l) * 60 + tm_sec l = civil_secs l"
        using valid_normal [OF l(1)] by (simp add: civil_secs_def Let_def)
      have nb: "(tm_year l < 70 \<or> tm_year l > 138) = False" "((0::int) \<noteq> 0) = False" using l(3,4) by simp_all
      show ?thesis by (simp only: gmtotime_t_def Let_def add_diff_cancel_right' nb if_False sum [unfolded add_diff_cancel_right'])
    qed
    moreover have "s32 (civil_secs l) = t + 28800" "s32 t = t"
      using l(2) le assms(1,2) by (simp_all add: s32_id in_s32_def)
    ultimately show "lualibc_mktime l = Some (t, l) \<and>
        gmtotime_t (tm_year l + 1900) (tm_mon l + 1) (tm_mday l) (tm_hour l) (tm_min l) (tm_sec l) = t"
      using assms(1) by (simp add: Let_def)
  qed
qed

theorem calendar_roundtrip_witness:
  "\<exists>g l. lualibc_gmtime 1000000000 = Some g \<and> lualibc_localtime 1000000000 = Some l \<and>
    mkgmtime g = Some (1000000000, g) \<and> lualibc_mktime l = Some (1000000000, l)"
proof -
  obtain g l where gl: "lualibc_gmtime 1000000000 = Some g" "lualibc_localtime 1000000000 = Some l"
    using gmtime_fields [of 1000000000] gmtime_fields [of 1000028800] localtime_shift [of 1000000000] by auto
  from calendar_roundtrip [OF _ _ this] gl show ?thesis by auto
qed

text \<open>With \<^verbatim>\<open>tm_isdst\<close> positive, \<^verbatim>\<open>mktime\<close> on the first local hour of the epoch copies from a null
  pointer: the second conversion, after the daylight bias, gives no result, which the comment there
  excludes.\<close>

theorem mktime_dst_null:
  assumes "civil_valid t" "tm_year t = 70" "tm_isdst t > 0" "8 * 3600 \<le> civil_secs t" "civil_secs t < 9 * 3600"
  shows "lualibc_mktime t = None"
proof -
  have "0 \<le> civil_secs t - 28800" "civil_secs t - 28800 < 2 ^ 31" using assms by simp_all
  then obtain tb where "lualibc_localtime (civil_secs t - 28800) = Some tb"
    using localtime_shift gmtime_fields [of "civil_secs t"] by fastforce
  moreover have "lualibc_localtime (civil_secs t - 28800 - 3600) = None"
    using assms(5) by (simp add: lualibc_localtime_def)
  ultimately show ?thesis
    using make_time_valid [of t True] assms by (simp add: lualibc_mktime_def Let_def)
qed

theorem mktime_dst_null_witness: "lualibc_mktime demo_tm = None"
  by (rule mktime_dst_null) (simp_all only: demo_tm, simp_all add: demo_tm_def)

end
