(* ===== verification/Pio.thy ===== *)
theory Pio
  imports Rtos Interrupts "HOL-Library.Char_ord"
begin

unbundle bit_operations_syntax

text \<open>
  GPIO: the pin codes of \<^verbatim>\<open>platform/include/platform.h\<close>, the pin operations of
  \<^verbatim>\<open>platform/coolsand/src/platform.c\<close> and \<^verbatim>\<open>platform/src/common.c\<close>, and the Lua module
  \<^verbatim>\<open>modules/src/pio.c\<close>.

  The driver is a parameter: \<open>accepts\<close> says whether it carries out a call, \<open>reads\<close> what it reads of a
  pin.  Calls are recorded.  A Lua error is \<open>None\<close> (or \<open>False\<close> where nothing is returned).
\<close>

subsection \<open>Pin codes\<close>

definition IO_ENCODE :: "int \<Rightarrow> int \<Rightarrow> bool \<Rightarrow> int" where
  "IO_ENCODE port pin full = push_bit 5 port OR pin OR (if full then push_bit 14 1 else 0)"

definition IO_GET_PORT :: "int \<Rightarrow> int" where
  "IO_GET_PORT code = drop_bit 5 code AND (push_bit 4 1 - 1)"

definition IO_GET_PIN :: "int \<Rightarrow> int" where
  "IO_GET_PIN code = code AND (push_bit 5 1 - 1)"

definition IO_IS_PORT :: "int \<Rightarrow> bool" where
  "IO_IS_PORT code \<longleftrightarrow> code AND push_bit 14 1 \<noteq> 0"

abbreviation (input) IO_PORTS :: nat where "IO_PORTS \<equiv> 16"
abbreviation (input) IO_ALL_PINS :: u32 where "IO_ALL_PINS \<equiv> 0xFFFFFFFF"
abbreviation (input) IO_UNKNOWN_PIN :: int where "IO_UNKNOWN_PIN \<equiv> 0xFFFFFFFE"
abbreviation (input) NUM_PIO :: u32 where "NUM_PIO \<equiv> 3"
abbreviation (input) PIO_PIN_EX :: nat where "PIO_PIN_EX \<equiv> 9"

definition PIO_PIN_ARRAY :: "nat list" where
  "PIO_PIN_ARRAY = [32, 10, PIO_PIN_EX]"

datatype pio_op =
    PIN_SET | PIN_CLEAR | PIN_GET | PIN_DIR_INPUT | PIN_DIR_OUTPUT | PIN_DIR_OUTPUT1 | PIN_DIR_INT
  | PIN_PULLUP | PIN_PULLDOWN | PIN_NOPULL | PIN_CLOSE
  | PORT_SET_VALUE | PORT_GET_VALUE | PORT_DIR_INPUT | PORT_DIR_OUTPUT

definition platform_pio_has_port :: "u32 \<Rightarrow> bool" where
  "platform_pio_has_port port \<longleftrightarrow> port < NUM_PIO"

definition platform_pio_has_pin :: "u32 \<Rightarrow> u32 \<Rightarrow> bool" where
  "platform_pio_has_pin port pin \<longleftrightarrow> port < NUM_PIO \<and> unat pin < PIO_PIN_ARRAY ! unat port"

subsection \<open>OpenAT numbers\<close>

abbreviation (input) OPENAT_GPIO_0 :: nat where "OPENAT_GPIO_0 \<equiv> 0"
abbreviation (input) OPENAT_GPIO_31 :: nat where "OPENAT_GPIO_31 \<equiv> 31"
abbreviation (input) OPENAT_GPIO_EX_7 :: nat where "OPENAT_GPIO_EX_7 \<equiv> 32"
abbreviation (input) OPENAT_GPIO_EX_8 :: nat where "OPENAT_GPIO_EX_8 \<equiv> 33"
abbreviation (input) OPENAT_GPO_0 :: nat where "OPENAT_GPO_0 \<equiv> 34"
abbreviation (input) OPENAT_GPO_9 :: nat where "OPENAT_GPO_9 \<equiv> 43"
abbreviation (input) OPENAT_GPIO_UNKNOWN :: nat where "OPENAT_GPIO_UNKNOWN \<equiv> 255"

definition openatGPIOEx :: "nat list" where
  "openatGPIOEx = [OPENAT_GPIO_UNKNOWN, OPENAT_GPIO_UNKNOWN, OPENAT_GPIO_UNKNOWN, OPENAT_GPIO_UNKNOWN,
     OPENAT_GPIO_UNKNOWN, OPENAT_GPIO_UNKNOWN, OPENAT_GPIO_UNKNOWN, OPENAT_GPIO_EX_7, OPENAT_GPIO_EX_8]"

definition get_real_gpio :: "nat \<Rightarrow> nat \<Rightarrow> nat" where
  "get_real_gpio port pin =
    (if port = 0 then OPENAT_GPIO_0 + pin
     else if port = 1 then OPENAT_GPO_0 + pin
     else if port = 2 then openatGPIOEx ! pin
     else OPENAT_GPIO_UNKNOWN)"

definition platform_get_pio_pin :: "nat \<Rightarrow> int" where
  "platform_get_pio_pin openat_gpio =
    (if OPENAT_GPIO_0 \<le> openat_gpio \<and> openat_gpio \<le> OPENAT_GPIO_31
     then IO_ENCODE 0 (int (openat_gpio - OPENAT_GPIO_0)) False
     else if OPENAT_GPIO_31 < openat_gpio \<and> openat_gpio < OPENAT_GPO_0
     then (let pin = find_slot (\<lambda>g. g = openat_gpio) openatGPIOEx
           in if pin < PIO_PIN_EX then IO_ENCODE 2 (int pin) False else IO_UNKNOWN_PIN)
     else if OPENAT_GPO_0 \<le> openat_gpio \<and> openat_gpio \<le> OPENAT_GPO_9
     then IO_ENCODE 1 (int (openat_gpio - OPENAT_GPO_0)) False
     else IO_UNKNOWN_PIN)"

definition platform_pio_get_gpio_port :: "int \<Rightarrow> nat" where
  "platform_pio_get_gpio_port port_pin =
    (if port_pin mod 2 ^ 32 = IO_UNKNOWN_PIN then OPENAT_GPIO_UNKNOWN
     else get_real_gpio (nat (IO_GET_PORT port_pin)) (nat (IO_GET_PIN port_pin)))"

definition GpioIntCallback :: "nat \<Rightarrow> bool \<Rightarrow> rtos_sys \<Rightarrow> rtos_sys" where
  "GpioIntCallback gpioNum state s =
    (let pio_port_pin = platform_get_pio_pin gpioNum
     in if IO_UNKNOWN_PIN \<noteq> pio_port_pin
        then snd (platform_rtos_send (RTOS_MSG_INT (if state then ELUA_INT_FIRST_ID else ELUA_INT_FIRST_ID + 1)
               (word_of_int pio_port_pin)) s)
        else s)"

subsection \<open>Pin operations\<close>

datatype gpio_call =
    Config_int nat
  | Config_input nat
  | Config_output nat bool
  | Set_gpio nat bool
  | Read_gpio nat
  | Close_gpio nat

record gpio_drv =
  accepts :: "gpio_call \<Rightarrow> bool"
  reads :: "nat \<Rightarrow> u8 option"

definition gpio_do :: "gpio_drv \<Rightarrow> gpio_call \<Rightarrow> u32 \<times> gpio_call list \<times> bool" where
  "gpio_do drv c = ((if accepts drv c then 1 else 0), [c], False)"

text \<open>The switch on the operation: the value, the calls, and whether the function returns there.\<close>

definition pin_switch :: "gpio_drv \<Rightarrow> pio_op \<Rightarrow> nat \<Rightarrow> u32 \<times> gpio_call list \<times> bool" where
  "pin_switch drv op realGpio =
    (case op of
       PIN_DIR_INT \<Rightarrow> gpio_do drv (Config_int realGpio)
     | PIN_DIR_INPUT \<Rightarrow> gpio_do drv (Config_input realGpio)
     | PIN_DIR_OUTPUT \<Rightarrow> gpio_do drv (Config_output realGpio False)
     | PIN_DIR_OUTPUT1 \<Rightarrow> gpio_do drv (Config_output realGpio True)
     | PIN_SET \<Rightarrow> gpio_do drv (Set_gpio realGpio True)
     | PIN_CLEAR \<Rightarrow> gpio_do drv (Set_gpio realGpio False)
     | PIN_GET \<Rightarrow> ((case reads drv realGpio of Some v \<Rightarrow> ucast v | None \<Rightarrow> 0xff), [Read_gpio realGpio], True)
     | PIN_CLOSE \<Rightarrow> gpio_do drv (Close_gpio realGpio)
     | _ \<Rightarrow> (0, [], False))"

text \<open>The pin loop with \<open>n\<close> pins to go from \<open>pin_index\<close>.\<close>

fun pin_loop :: "gpio_drv \<Rightarrow> nat \<Rightarrow> u32 \<Rightarrow> pio_op \<Rightarrow> nat \<Rightarrow> nat \<Rightarrow> u32 \<Rightarrow> u32 \<times> gpio_call list" where
  "pin_loop drv port pinmask op 0 pin_index retval = (retval, [])"
| "pin_loop drv port pinmask op (Suc n) pin_index retval =
    (if pinmask AND push_bit pin_index 1 \<noteq> 0 then
       (let realGpio = get_real_gpio port pin_index
        in if realGpio = OPENAT_GPIO_UNKNOWN then (0, [])
           else (let (retval, calls, ret) = pin_switch drv op realGpio
                 in if ret then (retval, calls)
                    else if pinmask AND NOT (push_bit pin_index 1) = 0 then (retval, calls)
                    else (let (retval, rest) = pin_loop drv port pinmask op n (Suc pin_index) retval
                          in (retval, calls @ rest))))
     else pin_loop drv port pinmask op n (Suc pin_index) retval)"

definition platform_pio_op :: "gpio_drv \<Rightarrow> nat \<Rightarrow> u32 \<Rightarrow> pio_op \<Rightarrow> u32 \<times> gpio_call list" where
  "platform_pio_op drv port pinmask op =
    (if port = 1 \<and> op = PIN_DIR_INPUT then (0, [])
     else if port = 1 \<and> op = PIN_GET then (0xff, [])
     else if op = PIN_DIR_INT \<and> (port = 1 \<or> port = 0 \<and> pinmask AND NOT 0xff \<noteq> 0) then (0, [])
     else pin_loop drv port pinmask op (PIO_PIN_ARRAY ! port) 0 1)"

subsection \<open>The Lua module\<close>

record pio_sys =
  pio_masks :: "u32 list"
  gpio_calls :: "gpio_call list"

definition pioh_clear_masks :: "u32 list \<Rightarrow> u32 list" where
  "pioh_clear_masks masks = fold (\<lambda>i m. m[i := 0]) [0..<IO_PORTS] masks"

definition bad_pin :: "int \<Rightarrow> bool" where
  "bad_pin v \<longleftrightarrow> IO_IS_PORT v \<or> \<not> platform_pio_has_port (word_of_int (IO_GET_PORT v)) \<or>
     \<not> platform_pio_has_pin (word_of_int (IO_GET_PORT v)) (word_of_int (IO_GET_PIN v))"

text \<open>The mask loop: whether it ran through, and the masks.\<close>

fun collect_pins :: "int list \<Rightarrow> u32 list \<Rightarrow> bool \<times> u32 list" where
  "collect_pins [] masks = (True, masks)"
| "collect_pins (v # vs) masks =
    (if bad_pin v then (False, masks)
     else (let port = nat (IO_GET_PORT v); pin = nat (IO_GET_PIN v)
           in collect_pins vs (masks[port := masks ! port OR push_bit pin 1])))"

text \<open>The second loop, over the ports that are asked for.\<close>

fun apply_ports :: "gpio_drv \<Rightarrow> pio_op \<Rightarrow> (nat \<times> u32) list \<Rightarrow> bool \<times> gpio_call list" where
  "apply_ports drv op [] = (True, [])"
| "apply_ports drv op ((i, pinmask) # rest) =
    (let (r, calls) = platform_pio_op drv i pinmask op
     in if r = 0 then (False, calls)
        else (let (ok, more) = apply_ports drv op rest in (ok, calls @ more)))"

definition pioh_set_pins :: "gpio_drv \<Rightarrow> int list \<Rightarrow> pio_op \<Rightarrow> pio_sys \<Rightarrow> bool \<times> pio_sys" where
  "pioh_set_pins drv vs op s =
    (case collect_pins vs (pioh_clear_masks (pio_masks s)) of
       (False, masks) \<Rightarrow> (False, s\<lparr>pio_masks := masks\<rparr>)
     | (True, masks) \<Rightarrow>
         (let (ok, calls) = apply_ports drv op (filter (\<lambda>(i, m). m \<noteq> 0) (map (\<lambda>i. (i, masks ! i)) [0..<IO_PORTS]))
          in (ok, s\<lparr>pio_masks := masks, gpio_calls := gpio_calls s @ calls\<rparr>)))"

fun collect_ports :: "int list \<Rightarrow> u32 \<Rightarrow> u32 option" where
  "collect_ports [] port_mask = Some port_mask"
| "collect_ports (v # vs) port_mask =
    (if \<not> IO_IS_PORT v \<or> \<not> platform_pio_has_port (word_of_int (IO_GET_PORT v)) then None
     else collect_ports vs (port_mask OR push_bit (nat (IO_GET_PORT v)) 1))"

definition pioh_set_ports :: "gpio_drv \<Rightarrow> int list \<Rightarrow> pio_op \<Rightarrow> u32 \<Rightarrow> pio_sys \<Rightarrow> bool \<times> pio_sys" where
  "pioh_set_ports drv vs op pinmask s =
    (case collect_ports vs 0 of
       None \<Rightarrow> (False, s)
     | Some port_mask \<Rightarrow>
         (let (ok, calls) = apply_ports drv op
                (map (\<lambda>i. (i, pinmask)) (filter (\<lambda>i. port_mask AND push_bit i 1 \<noteq> 0) [0..<IO_PORTS]))
          in (ok, s\<lparr>gpio_calls := gpio_calls s @ calls\<rparr>)))"

datatype optype = PIO_PORT_OP | PIO_PIN_OP

definition pio_gen_setdir :: "gpio_drv \<Rightarrow> optype \<Rightarrow> int \<Rightarrow> int list \<Rightarrow> pio_sys \<Rightarrow> bool \<times> pio_sys" where
  "pio_gen_setdir drv optype op vs s =
    (let chosen = (if op = 1 then Some (if optype = PIO_PIN_OP then PIN_DIR_INPUT else PORT_DIR_INPUT)
                   else if op = 0 then Some (if optype = PIO_PIN_OP then PIN_DIR_OUTPUT else PORT_DIR_OUTPUT)
                   else if op = 2 then Some (if optype = PIO_PIN_OP then PIN_DIR_OUTPUT1 else PORT_DIR_OUTPUT)
                   else if \<not> (optype = PIO_PIN_OP \<and> op = 6) then None
                   else Some PIN_DIR_INT)
     in case chosen of None \<Rightarrow> (False, s)
        | Some op \<Rightarrow> if optype = PIO_PIN_OP then pioh_set_pins drv vs op s
                     else pioh_set_ports drv vs op IO_ALL_PINS s)"

definition pio_gen_setpull :: "gpio_drv \<Rightarrow> optype \<Rightarrow> int \<Rightarrow> int list \<Rightarrow> pio_sys \<Rightarrow> bool \<times> pio_sys" where
  "pio_gen_setpull drv optype op vs s =
    (let chosen = (if op = 7 then Some PIN_PULLUP else if op = 8 then Some PIN_PULLDOWN
                   else if op = 9 then Some PIN_NOPULL else None)
     in case chosen of None \<Rightarrow> (False, s)
        | Some op \<Rightarrow> if optype = PIO_PIN_OP then pioh_set_pins drv vs op s
                     else pioh_set_ports drv vs op IO_ALL_PINS s)"

definition pio_gen_setval :: "gpio_drv \<Rightarrow> optype \<Rightarrow> u32 \<Rightarrow> int list \<Rightarrow> pio_sys \<Rightarrow> bool \<times> pio_sys" where
  "pio_gen_setval drv optype val vs s =
    (if optype = PIO_PIN_OP \<and> val \<noteq> 1 \<and> val \<noteq> 0 then (False, s)
     else if optype = PIO_PIN_OP then pioh_set_pins drv vs (if val = 1 then PIN_SET else PIN_CLEAR) s
     else pioh_set_ports drv vs PORT_SET_VALUE val s)"

definition pio_pin_close :: "gpio_drv \<Rightarrow> int list \<Rightarrow> pio_sys \<Rightarrow> bool \<times> pio_sys" where
  "pio_pin_close drv vs s = pioh_set_pins drv vs PIN_CLOSE s"

definition pio_pin_setdir :: "gpio_drv \<Rightarrow> int \<Rightarrow> int list \<Rightarrow> pio_sys \<Rightarrow> bool \<times> pio_sys" where
  "pio_pin_setdir drv op vs s = pio_gen_setdir drv PIO_PIN_OP op vs s"

definition pio_pin_setpull :: "gpio_drv \<Rightarrow> int \<Rightarrow> int list \<Rightarrow> pio_sys \<Rightarrow> bool \<times> pio_sys" where
  "pio_pin_setpull drv op vs s = pio_gen_setpull drv PIO_PIN_OP op vs s"

definition pio_pin_setval :: "gpio_drv \<Rightarrow> int \<Rightarrow> int list \<Rightarrow> pio_sys \<Rightarrow> bool \<times> pio_sys" where
  "pio_pin_setval drv val vs s = pio_gen_setval drv PIO_PIN_OP (word_of_int val) vs s"

definition pio_pin_sethigh :: "gpio_drv \<Rightarrow> int list \<Rightarrow> pio_sys \<Rightarrow> bool \<times> pio_sys" where
  "pio_pin_sethigh drv vs s = pio_gen_setval drv PIO_PIN_OP 1 vs s"

definition pio_pin_setlow :: "gpio_drv \<Rightarrow> int list \<Rightarrow> pio_sys \<Rightarrow> bool \<times> pio_sys" where
  "pio_pin_setlow drv vs s = pio_gen_setval drv PIO_PIN_OP 0 vs s"

fun pio_pin_getval :: "gpio_drv \<Rightarrow> int list \<Rightarrow> u32 list option \<times> gpio_call list" where
  "pio_pin_getval drv [] = (Some [], [])"
| "pio_pin_getval drv (v # vs) =
    (if bad_pin v then (None, [])
     else (let (value, calls) = platform_pio_op drv (nat (IO_GET_PORT v)) (push_bit (nat (IO_GET_PIN v)) 1) PIN_GET
           in if value = 0xff then (None, calls)
              else (let (rest, more) = pio_pin_getval drv vs in (map_option (\<lambda>r. value # r) rest, calls @ more))))"

definition pio_port_setdir :: "gpio_drv \<Rightarrow> int \<Rightarrow> int list \<Rightarrow> pio_sys \<Rightarrow> bool \<times> pio_sys" where
  "pio_port_setdir drv op vs s = pio_gen_setdir drv PIO_PORT_OP op vs s"

definition pio_port_setpull :: "gpio_drv \<Rightarrow> int \<Rightarrow> int list \<Rightarrow> pio_sys \<Rightarrow> bool \<times> pio_sys" where
  "pio_port_setpull drv op vs s = pio_gen_setpull drv PIO_PORT_OP op vs s"

definition pio_port_setval :: "gpio_drv \<Rightarrow> int \<Rightarrow> int list \<Rightarrow> pio_sys \<Rightarrow> bool \<times> pio_sys" where
  "pio_port_setval drv val vs s = pio_gen_setval drv PIO_PORT_OP (word_of_int val) vs s"

definition pio_port_sethigh :: "gpio_drv \<Rightarrow> int list \<Rightarrow> pio_sys \<Rightarrow> bool \<times> pio_sys" where
  "pio_port_sethigh drv vs s = pio_gen_setval drv PIO_PORT_OP IO_ALL_PINS vs s"

definition pio_port_setlow :: "gpio_drv \<Rightarrow> int list \<Rightarrow> pio_sys \<Rightarrow> bool \<times> pio_sys" where
  "pio_port_setlow drv vs s = pio_gen_setval drv PIO_PORT_OP 0 vs s"

fun pio_port_getval :: "gpio_drv \<Rightarrow> int list \<Rightarrow> u32 list option \<times> gpio_call list" where
  "pio_port_getval drv [] = (Some [], [])"
| "pio_port_getval drv (v # vs) =
    (if \<not> IO_IS_PORT v \<or> \<not> platform_pio_has_port (word_of_int (IO_GET_PORT v)) then (None, [])
     else (let (value, calls) = platform_pio_op drv (nat (IO_GET_PORT v)) IO_ALL_PINS PORT_GET_VALUE;
               (rest, more) = pio_port_getval drv vs
           in (map_option (\<lambda>r. value # r) rest, calls @ more)))"

definition pio_decode :: "int \<Rightarrow> int \<times> int" where
  "pio_decode code = (IO_GET_PORT code, IO_GET_PIN code)"

subsection \<open>Names of pins\<close>

text \<open>The \<^verbatim>\<open>%d\<close> of \<^verbatim>\<open>sscanf\<close>: white space, a sign, digits; what it leaves is the second component.
  The numbers of a name are taken to be within an \<^verbatim>\<open>int\<close>.\<close>

definition is_digit :: "char \<Rightarrow> bool" where
  "is_digit c \<longleftrightarrow> 48 \<le> (of_char c :: nat) \<and> (of_char c :: nat) \<le> 57"

definition is_space :: "char \<Rightarrow> bool" where
  "is_space c \<longleftrightarrow> (of_char c :: nat) = 32 \<or> 9 \<le> (of_char c :: nat) \<and> (of_char c :: nat) \<le> 13"

definition digits_value :: "string \<Rightarrow> int" where
  "digits_value ds = foldl (\<lambda>n c. 10 * n + (of_char c - 48)) 0 ds"

definition scan_d :: "string \<Rightarrow> (int \<times> string) option" where
  "scan_d s =
    (let s = dropWhile is_space s;
         (neg, s) = (case s of c # cs \<Rightarrow> if c = CHR ''-'' then (True, cs) else if c = CHR ''+'' then (False, cs) else (False, s)
                     | [] \<Rightarrow> (False, s));
         ds = takeWhile is_digit s
     in if ds = [] then None else Some ((if neg then - digits_value ds else digits_value ds), drop (length ds) s))"

text \<open>\<^verbatim>\<open>PIO_PREFIX\<close> is the character 0, so a name with a capital letter has no value.\<close>

definition pio_mt_index :: "string \<Rightarrow> int option" where
  "pio_mt_index key =
    (case key of
       CHR ''P'' # rest \<Rightarrow>
         if rest \<noteq> [] \<and> CHR ''A'' \<le> hd rest \<and> hd rest \<le> CHR ''Z'' then None
         else if CHR ''_'' \<notin> set key then
           (case scan_d rest of
              Some (port, []) \<Rightarrow>
                if platform_pio_has_port (word_of_int port) then Some (IO_ENCODE port 0 True) else None
            | _ \<Rightarrow> None)
         else
           (case scan_d rest of
              Some (port, CHR ''_'' # rest2) \<Rightarrow>
                (case scan_d rest2 of
                   Some (pin, []) \<Rightarrow>
                     if platform_pio_has_port (word_of_int port) \<and> platform_pio_has_pin (word_of_int port) (word_of_int pin)
                     then Some (IO_ENCODE port pin False) else None
                 | _ \<Rightarrow> None)
            | _ \<Rightarrow> None)
     | _ \<Rightarrow> None)"

subsection \<open>Codes and numbers\<close>

lemma IO_alt:
  "IO_GET_PORT v = take_bit 4 (drop_bit 5 v)" "IO_GET_PIN v = take_bit 5 v" "IO_IS_PORT v \<longleftrightarrow> bit v 14"
proof -
  have m: "push_bit 4 1 - 1 = (mask 4 :: int)" "push_bit 5 1 - 1 = (mask 5 :: int)"
    by (simp_all add: mask_eq_exp_minus_1)
  show "IO_GET_PORT v = take_bit 4 (drop_bit 5 v)" unfolding IO_GET_PORT_def m by (simp only: take_bit_eq_mask)
  show "IO_GET_PIN v = take_bit 5 v" unfolding IO_GET_PIN_def m by (simp only: take_bit_eq_mask)
  show "IO_IS_PORT v \<longleftrightarrow> bit v 14"
    unfolding IO_IS_PORT_def bit_iff_and_push_bit_not_eq_0 ..
qed

lemma IO_range: "0 \<le> IO_GET_PORT v" "IO_GET_PORT v < 16" "0 \<le> IO_GET_PIN v" "IO_GET_PIN v < 32"
proof -
  have "take_bit 4 (drop_bit 5 v) < 2 ^ 4" "take_bit 5 v < 2 ^ 5" by (rule take_bit_int_less_exp)+
  then show "0 \<le> IO_GET_PORT v" "IO_GET_PORT v < 16" "0 \<le> IO_GET_PIN v" "IO_GET_PIN v < 32"
    unfolding IO_alt by simp_all
qed

lemma full_bit: "bit (if f then push_bit 14 1 else 0 :: int) n \<longleftrightarrow> f \<and> n = 14"
  by (simp only: bit_push_bit_iff bit_1_iff if_distrib bit_0_eq bot_apply split: if_split) auto

lemma IO_ENCODE_decode:
  assumes "0 \<le> p" "p < 16" "0 \<le> q" "q < 32"
  shows "IO_GET_PORT (IO_ENCODE p q f) = p" "IO_GET_PIN (IO_ENCODE p q f) = q" "IO_IS_PORT (IO_ENCODE p q f) \<longleftrightarrow> f"
proof -
  have "take_bit 4 p = p" "take_bit 5 q = q" using assms by (simp_all add: take_bit_int_eq_self)
  then have b: "bit p n \<Longrightarrow> n < 4" "bit q n \<Longrightarrow> n < 5" for n by (metis bit_take_bit_iff)+
  show "IO_GET_PORT (IO_ENCODE p q f) = p" unfolding IO_alt IO_ENCODE_def
    by (rule bit_eqI) (simp only: bit_or_iff full_bit bit_take_bit_iff bit_drop_bit_eq bit_push_bit_iff o_def, auto dest: b)
  show "IO_GET_PIN (IO_ENCODE p q f) = q" unfolding IO_alt IO_ENCODE_def
    by (rule bit_eqI) (simp only: bit_or_iff full_bit bit_take_bit_iff bit_drop_bit_eq bit_push_bit_iff o_def, auto dest: b)
  show "IO_IS_PORT (IO_ENCODE p q f) \<longleftrightarrow> f" unfolding IO_alt IO_ENCODE_def
    by (simp only: bit_or_iff full_bit bit_push_bit_iff) (auto dest: b)
qed

lemma unat_small_int: "0 \<le> k \<Longrightarrow> k < 2 ^ 32 \<Longrightarrow> unat (word_of_int k :: u32) = nat k"
  by (simp add: unat_eq_nat_uint take_bit_int_eq_self unsigned_of_int)

lemma has_port: "0 \<le> p \<Longrightarrow> p < 2 ^ 32 \<Longrightarrow> platform_pio_has_port (word_of_int p) \<longleftrightarrow> p < 3"
  using unat_small_int [of p] by (simp add: platform_pio_has_port_def word_less_nat_alt nat_less_iff)

lemma has_pin:
  "0 \<le> p \<Longrightarrow> p < 2 ^ 32 \<Longrightarrow> 0 \<le> q \<Longrightarrow> q < 2 ^ 32 \<Longrightarrow>
    platform_pio_has_pin (word_of_int p) (word_of_int q) \<longleftrightarrow> p < 3 \<and> nat q < PIO_PIN_ARRAY ! nat p"
  using has_port [of p] unat_small_int [of p] unat_small_int [of q]
  by (simp add: platform_pio_has_pin_def platform_pio_has_port_def)

lemma bad_pin_iff:
  "bad_pin v \<longleftrightarrow> IO_IS_PORT v \<or> \<not> (IO_GET_PORT v < 3 \<and> nat (IO_GET_PIN v) < PIO_PIN_ARRAY ! nat (IO_GET_PORT v))"
  using IO_range [of v] by (auto simp: bad_pin_def has_port has_pin)

lemma ex_slots: "find_slot (\<lambda>g. g = 32) openatGPIOEx = 7" "find_slot (\<lambda>g. g = 33) openatGPIOEx = 8"
  by (simp_all add: find_slot_def openatGPIOEx_def)

lemma ex_real: "openatGPIOEx ! 7 = 32" "openatGPIOEx ! 8 = 33"
  by (simp_all add: openatGPIOEx_def)

lemma pio_pin_gpio: "platform_pio_get_gpio_port (platform_get_pio_pin g) = (if g \<le> 43 then g else 255)"
proof -
  have not_unknown: "IO_ENCODE p q False mod 2 ^ 32 \<noteq> 0xFFFFFFFE" if "0 \<le> p" "p < 16" "0 \<le> q" "q < 32" for p q
  proof
    assume e: "IO_ENCODE p q False mod 2 ^ 32 = 0xFFFFFFFE"
    have "bit (0xFFFFFFFE :: int) 14" by (simp add: bit_numeral_rec)
    then have "bit (take_bit 32 (IO_ENCODE p q False)) 14" using e by (simp only: take_bit_eq_mod)
    with IO_ENCODE_decode(3) [OF that, of False] show False by (simp add: IO_alt bit_take_bit_iff)
  qed
  consider "g \<le> 31" | "g = 32" | "g = 33" | "34 \<le> g" "g \<le> 43" | "43 < g" by linarith
  then show ?thesis
  proof cases
    case 1
    then show ?thesis using not_unknown [of 0 "int g"]
      by (simp add: platform_get_pio_pin_def platform_pio_get_gpio_port_def IO_ENCODE_decode get_real_gpio_def)
  next
    case 2
    then show ?thesis using not_unknown [of 2 7]
      by (simp add: platform_get_pio_pin_def platform_pio_get_gpio_port_def ex_slots IO_ENCODE_decode get_real_gpio_def
        ex_real Let_def)
  next
    case 3
    then show ?thesis using not_unknown [of 2 8]
      by (simp add: platform_get_pio_pin_def platform_pio_get_gpio_port_def ex_slots IO_ENCODE_decode get_real_gpio_def
        ex_real Let_def)
  next
    case 4
    then show ?thesis using not_unknown [of 1 "int (g - 34)"]
      by (simp add: platform_get_pio_pin_def platform_pio_get_gpio_port_def IO_ENCODE_decode get_real_gpio_def)
  next
    case 5
    then show ?thesis by (simp add: platform_get_pio_pin_def platform_pio_get_gpio_port_def)
  qed
qed

subsection \<open>The pin loop\<close>

definition pin_of :: "int \<Rightarrow> nat \<times> nat" where
  "pin_of v = (nat (IO_GET_PORT v), nat (IO_GET_PIN v))"

lemma and_push_bit_1: "(m :: u32) AND 2 ^ i = 0 \<longleftrightarrow> \<not> bit m i"
  using bit_iff_and_push_bit_not_eq_0 [of m i] by simp

lemma and_not_push_bit_1:
  assumes "(m :: u32) AND NOT (2 ^ i) = 0" "bit m j"
  shows "j = i"
proof (rule ccontr)
  assume "j \<noteq> i"
  moreover have "(2 ^ i :: u32) = push_bit i 1" by simp
  ultimately have "bit (m AND NOT (2 ^ i)) j"
    using assms(2) bit_imp_le_length [OF assms(2)]
    by (simp only: bit_and_iff bit_not_iff bit_push_bit_iff bit_1_iff) auto
  with assms(1) show False by simp
qed

text \<open>The operations that write to every pin they are given.\<close>

definition write_call :: "pio_op \<Rightarrow> nat \<Rightarrow> gpio_call option" where
  "write_call op g =
    (case op of PIN_DIR_INPUT \<Rightarrow> Some (Config_input g) | PIN_DIR_OUTPUT \<Rightarrow> Some (Config_output g False)
     | PIN_DIR_OUTPUT1 \<Rightarrow> Some (Config_output g True) | PIN_SET \<Rightarrow> Some (Set_gpio g True)
     | PIN_CLEAR \<Rightarrow> Some (Set_gpio g False) | PIN_CLOSE \<Rightarrow> Some (Close_gpio g) | PIN_DIR_INT \<Rightarrow> Some (Config_int g)
     | _ \<Rightarrow> None)"

lemma pin_switch_write:
  "write_call op g = Some c \<Longrightarrow> pin_switch drv op g = ((if accepts drv c then 1 else 0), [c], False)"
  by (cases op) (auto simp: write_call_def pin_switch_def gpio_do_def)

lemma write_call_total: "write_call op g \<noteq> None \<Longrightarrow> write_call op g' \<noteq> None"
  by (cases op) (simp_all add: write_call_def)

definition pin_calls :: "pio_op \<Rightarrow> nat \<Rightarrow> nat list \<Rightarrow> gpio_call list" where
  "pin_calls op port pins = map (\<lambda>q. the (write_call op (get_real_gpio port q))) pins"

lemma pin_loop_write:
  assumes acc: "\<forall>c. accepts drv c" and w: "write_call op 0 \<noteq> None"
    and real: "\<forall>q. i \<le> q \<and> q < i + n \<and> bit m q \<longrightarrow> get_real_gpio port q \<noteq> 255"
  shows "pin_loop drv port m op n i 1 = (1, pin_calls op port (filter (bit m) [i..<i + n]))"
  using real
proof (induction n arbitrary: i)
  case (Suc n)
  have step: "[i..<i + Suc n] = i # [Suc i..<Suc i + n]" by (simp add: upt_conv_Cons)
  have IH: "pin_loop drv port m op n (Suc i) 1 = (1, pin_calls op port (filter (bit m) [Suc i..<Suc i + n]))"
    using Suc by simp
  show ?case
  proof (cases "bit m i")
    case True
    then have g: "get_real_gpio port i \<noteq> 255" using Suc.prems by simp
    obtain c where c: "write_call op (get_real_gpio port i) = Some c" using w write_call_total by blast
    note sw = pin_switch_write [OF c, of drv]
    have bit: "m AND push_bit i 1 \<noteq> 0" using and_push_bit_1 [of m i] True by simp
    show ?thesis
    proof (cases "m AND NOT (push_bit i 1) = 0")
      case only: True
      have "\<not> bit m j" if "j \<in> set [Suc i..<Suc i + n]" for j
      proof
        assume "bit m j"
        then have "j = i" using and_not_push_bit_1 [of m i j] only by simp
        with that show False unfolding set_upt atLeastLessThan_iff by linarith
      qed
      then have "filter (bit m) [Suc i..<Suc i + n] = []" by (simp only: filter_empty_conv) blast
      then have "filter (bit m) [i..<i + Suc n] = [i]" by (simp only: step filter.simps True if_True)
      then show ?thesis
        using acc c unfolding pin_loop.simps Let_def sw by (simp only: bit g only prod.case pin_calls_def) simp
    next
      case False
      have "filter (bit m) [i..<i + Suc n] = i # filter (bit m) [Suc i..<Suc i + n]" unfolding step using True by simp
      then show ?thesis
        using acc c unfolding pin_loop.simps Let_def sw by (simp only: bit g False prod.case pin_calls_def IH if_False) (simp add: IH pin_calls_def)
    qed
  next
    case False
    have "filter (bit m) [i..<i + Suc n] = filter (bit m) [Suc i..<Suc i + n]" unfolding step using False by simp
    moreover have "m AND push_bit i 1 = 0" using and_push_bit_1 [of m i] False by simp
    ultimately show ?thesis using IH by (simp only: pin_loop.simps) simp
  qed
qed (simp add: pin_calls_def)

subsection \<open>Several pins\<close>

lemma clear_masks: "length m = 16 \<Longrightarrow> pioh_clear_masks m = replicate 16 0"
proof -
  assume len: "length m = 16"
  have "k \<le> 16 \<Longrightarrow> fold (\<lambda>i m. m[i := 0]) [0..<k] m = replicate k 0 @ drop k m" for k
  proof (induction k)
    case (Suc k)
    then have "drop k m = m ! k # drop (Suc k) m" using len by (simp add: Cons_nth_drop_Suc)
    then show ?case using Suc by (simp add: list_update_append replicate_append_same)
  qed simp
  from this [of 16] show ?thesis using len by (simp add: pioh_clear_masks_def)
qed

lemma collect_pins_good:
  assumes "\<forall>v \<in> set vs. \<not> bad_pin v" "length m = 16"
  shows "\<exists>m'. collect_pins vs m = (True, m') \<and> length m' = 16 \<and>
    (\<forall>p q. p < 16 \<and> q < 32 \<longrightarrow> (bit (m' ! p) q \<longleftrightarrow> bit (m ! p) q \<or> (p, q) \<in> pin_of ` set vs))"
  using assms
proof (induction vs arbitrary: m)
  case (Cons v vs)
  define m1 where "m1 = m[fst (pin_of v) := m ! fst (pin_of v) OR push_bit (snd (pin_of v)) 1]"
  have p: "fst (pin_of v) < 16" "snd (pin_of v) < 32" using IO_range [of v] by (simp_all add: pin_of_def)
  obtain m' where m': "collect_pins vs m1 = (True, m')" "length m' = 16"
    "\<forall>p q. p < 16 \<and> q < 32 \<longrightarrow> (bit (m' ! p) q \<longleftrightarrow> bit (m1 ! p) q \<or> (p, q) \<in> pin_of ` set vs)"
    using Cons.IH [of m1] Cons.prems by (auto simp: m1_def)
  have "bit (m1 ! p) q \<longleftrightarrow> bit (m ! p) q \<or> (p, q) = pin_of v" if "p < 16" "q < 32" for p q
  proof (cases "p = fst (pin_of v)")
    case True
    then have "m1 ! p = m ! p OR push_bit (snd (pin_of v)) 1" using Cons.prems(2) that by (simp add: m1_def)
    moreover have "bit (m ! p OR push_bit (snd (pin_of v)) 1) q \<longleftrightarrow> bit (m ! p) q \<or> q = snd (pin_of v)"
      using that by (simp only: bit_or_iff bit_push_bit_iff bit_1_iff) auto
    ultimately show ?thesis using True by (auto simp: prod_eq_iff)
  next
    case False
    then have "(p, q) \<noteq> pin_of v" by (metis fst_conv)
    then show ?thesis using False by (simp add: m1_def)
  qed
  then have "\<forall>p q. p < 16 \<and> q < 32 \<longrightarrow> (bit (m' ! p) q \<longleftrightarrow> bit (m ! p) q \<or> (p, q) \<in> pin_of ` set (v # vs))"
    using m'(3) by auto
  moreover have "collect_pins (v # vs) m = collect_pins vs m1"
    using Cons.prems(1) by (simp add: m1_def pin_of_def Let_def)
  ultimately show ?case using m'(1,2) by auto
qed simp

lemma collect_pins_bad: "\<exists>v \<in> set vs. bad_pin v \<Longrightarrow> fst (collect_pins vs m) = False"
  by (induction vs arbitrary: m) (auto simp: Let_def)

lemma apply_ports_all:
  "\<forall>x \<in> set xs. platform_pio_op drv (fst x) (snd x) op = (1, f x) \<Longrightarrow>
    apply_ports drv op xs = (True, concat (map f xs))"
  by (induction xs) auto

lemma concat_map_filter: "(\<And>x. x \<in> set xs \<Longrightarrow> \<not> P x \<Longrightarrow> f x = []) \<Longrightarrow> concat (map f (filter P xs)) = concat (map f xs)"
  by (induction xs) auto

text \<open>The pins of a list of codes, in the order of ports and pins.\<close>

definition listed_pins :: "int list \<Rightarrow> nat \<Rightarrow> nat list" where
  "listed_pins vs p = filter (\<lambda>q. (p, q) \<in> pin_of ` set vs) [0..<PIO_PIN_ARRAY ! p]"

lemma set_pins_good:
  assumes acc: "\<forall>c. accepts drv c" and op: "op \<in> {PIN_SET, PIN_CLEAR, PIN_DIR_OUTPUT, PIN_DIR_OUTPUT1, PIN_CLOSE}"
    and good: "\<forall>v \<in> set vs. \<not> bad_pin v \<and> get_real_gpio (fst (pin_of v)) (snd (pin_of v)) \<noteq> 255"
    and len: "length (pio_masks s) = 16"
  shows "\<exists>masks. pioh_set_pins drv vs op s =
    (True, s\<lparr>pio_masks := masks, gpio_calls := gpio_calls s @ concat (map (\<lambda>p. pin_calls op p (listed_pins vs p)) [0..<3])\<rparr>)"
proof -
  have "length (pioh_clear_masks (pio_masks s)) = 16" by (simp add: clear_masks len)
  then obtain m where m: "collect_pins vs (pioh_clear_masks (pio_masks s)) = (True, m)" "length m = 16"
    "\<And>p q. p < 16 \<Longrightarrow> q < 32 \<Longrightarrow> bit (m ! p) q \<longleftrightarrow> (p, q) \<in> pin_of ` set vs"
    using collect_pins_good [of vs "pioh_clear_masks (pio_masks s)"] good by (auto simp: clear_masks len)
  have arr: "PIO_PIN_ARRAY ! p \<le> 32" if "p < 3" for p
    using that by (auto simp: PIO_PIN_ARRAY_def less_Suc_eq numeral_3_eq_3)
  have port: "fst (pin_of v) < 3" if "v \<in> set vs" for v
    using good that bad_pin_iff [of v] by (auto simp: pin_of_def)
  have zero: "m ! p = 0" if "p < 16" "3 \<le> p" for p
  proof (rule bit_word_eqI)
    fix q assume "q < LENGTH(32)"
    then have "bit (m ! p) q \<longleftrightarrow> (p, q) \<in> pin_of ` set vs" using m(3) that by simp
    moreover have "(p, q) \<notin> pin_of ` set vs"
    proof
      assume "(p, q) \<in> pin_of ` set vs"
      then obtain v where "v \<in> set vs" "(p, q) = pin_of v" by blast
      then show False using port [of v] that by (metis fst_conv not_le)
    qed
    ultimately show "bit (m ! p) q \<longleftrightarrow> bit (0 :: u32) q" by simp
  qed
  have w: "write_call op 0 \<noteq> None" using op by (auto simp: write_call_def)
  define f where "f x = pin_calls op (fst x) (filter (bit (snd x)) [0..<PIO_PIN_ARRAY ! fst x])" for x :: "nat \<times> u32"
  have run: "platform_pio_op drv p (m ! p) op = (1, f (p, m ! p))" if "p < 3" for p
  proof -
    have "get_real_gpio p q \<noteq> 255" if "q < PIO_PIN_ARRAY ! p" "bit (m ! p) q" for q
    proof -
      have "q < 32" using that(1) arr [OF \<open>p < 3\<close>] by linarith
      then have "(p, q) \<in> pin_of ` set vs" using m(3) [of p q] that \<open>p < 3\<close> by simp
      then obtain v where "v \<in> set vs" "pin_of v = (p, q)" by auto
      then show ?thesis using good by (metis fst_conv snd_conv)
    qed
    then have "pin_loop drv p (m ! p) op (PIO_PIN_ARRAY ! p) 0 1 =
        (1, pin_calls op p (filter (bit (m ! p)) [0..<0 + PIO_PIN_ARRAY ! p]))"
      by (intro pin_loop_write acc w) simp
    then show ?thesis using op by (auto simp: platform_pio_op_def f_def)
  qed
  let ?all = "map (\<lambda>i. (i, m ! i)) [0..<16]"
  let ?sel = "filter (\<lambda>(i, m). m \<noteq> 0) ?all"
  have "\<forall>x \<in> set ?sel. platform_pio_op drv (fst x) (snd x) op = (1, f x)"
  proof
    fix x assume "x \<in> set ?sel"
    then obtain p where p: "p < 16" "x = (p, m ! p)" "m ! p \<noteq> 0" by auto
    then have "p < 3" using zero [of p] by (cases "p < 3") auto
    then show "platform_pio_op drv (fst x) (snd x) op = (1, f x)" using run p by simp
  qed
  then have ap: "apply_ports drv op ?sel = (True, concat (map f ?sel))" by (rule apply_ports_all)
  have "concat (map f ?sel) = concat (map f ?all)"
    by (rule concat_map_filter) (auto simp: f_def pin_calls_def)
  also have "concat (map f ?all) =
      concat (map f (map (\<lambda>i. (i, m ! i)) [0..<3] @ map (\<lambda>i. (i, m ! i)) [3..<16]))"
  proof -
    have "[0..<16] = [0..<3] @ [3..<(16::nat)]" by code_simp
    then show ?thesis by (simp only: map_append)
  qed
  also have "concat (map f (map (\<lambda>i. (i, m ! i)) [0..<3] @ map (\<lambda>i. (i, m ! i)) [3..<16])) =
      concat (map f (map (\<lambda>i. (i, m ! i)) [0..<3]))"
  proof -
    have "f (i, m ! i) = []" if "i \<in> set [3..<16]" for i
    proof -
      have "i < 16" "3 \<le> i" using that by (simp_all only: set_upt atLeastLessThan_iff)
      from zero [OF this] show ?thesis by (simp add: f_def pin_calls_def)
    qed
    then have "concat (map f (map (\<lambda>i. (i, m ! i)) [3..<16])) = []" by (simp only: concat_eq_Nil_conv set_map) auto
    then show ?thesis by (simp only: map_append concat_append append_Nil2)
  qed
  also have "map f (map (\<lambda>i. (i, m ! i)) [0..<3]) = map (\<lambda>p. pin_calls op p (listed_pins vs p)) [0..<3]"
  proof (simp only: map_map, rule map_cong [OF refl])
    fix p assume "p \<in> set [0..<3]"
    then have p: "p < 3" by simp
    have "filter (bit (m ! p)) [0..<PIO_PIN_ARRAY ! p] = listed_pins vs p"
      unfolding listed_pins_def
    proof (rule filter_cong [OF refl])
      fix q assume "q \<in> set [0..<PIO_PIN_ARRAY ! p]"
      then have "q < 32" using arr [OF p] by simp
      then show "bit (m ! p) q \<longleftrightarrow> (p, q) \<in> pin_of ` set vs" using m(3) p by simp
    qed
    then show "(f \<circ> (\<lambda>i. (i, m ! i))) p = pin_calls op p (listed_pins vs p)" by (simp add: f_def)
  qed
  finally have all: "concat (map f ?sel) = concat (map (\<lambda>p. pin_calls op p (listed_pins vs p)) [0..<3])" .
  show ?thesis
    unfolding pioh_set_pins_def m(1) prod.case bool.case Let_def ap all by blast
qed

subsection \<open>Names\<close>

text \<open>Decimal digits of a number.\<close>

fun decimal :: "nat \<Rightarrow> string" where
  "decimal n = (if n < 10 then [char_of (48 + n)] else decimal (n div 10) @ [char_of (48 + n mod 10)])"

declare decimal.simps [simp del]

lemma digit_char: "d < 10 \<longrightarrow> (of_char (char_of (48 + d :: nat)) :: int) = 48 + int d \<and> is_digit (char_of (48 + d)) \<and>
    \<not> is_space (char_of (48 + d)) \<and> char_of (48 + d) \<noteq> CHR ''-'' \<and> char_of (48 + d) \<noteq> CHR ''+'' \<and> char_of (48 + d) \<noteq> CHR ''_''"
proof -
  have "list_all (\<lambda>d. (of_char (char_of (48 + d :: nat)) :: int) = 48 + int d \<and> is_digit (char_of (48 + d)) \<and>
    \<not> is_space (char_of (48 + d)) \<and> char_of (48 + d) \<noteq> CHR ''-'' \<and> char_of (48 + d) \<noteq> CHR ''+'' \<and>
    char_of (48 + d) \<noteq> CHR ''_'') [0..<10]"
    by code_simp
  then show ?thesis by (simp only: list_all_iff set_upt) simp
qed

lemma decimal_digits:
  "decimal n \<noteq> [] \<and> (\<forall>c \<in> set (decimal n). is_digit c \<and> \<not> is_space c \<and> c \<noteq> CHR ''-'' \<and> c \<noteq> CHR ''+'' \<and> c \<noteq> CHR ''_'') \<and>
    digits_value (decimal n) = int n"
proof (induction n rule: decimal.induct)
  case (1 n)
  show ?case
  proof (cases "n < 10")
    case True
    then show ?thesis using digit_char [of n, THEN mp] by (simp add: decimal.simps [of n] digits_value_def)
  next
    case False
    have d: "n mod 10 < 10" by simp
    have "int n = 10 * int (n div 10) + int (n mod 10)" by (metis mult_div_mod_eq of_nat_add of_nat_mult of_nat_numeral)
    then show ?thesis
      using 1 [OF False] False digit_char [THEN mp, OF d] by (auto simp: decimal.simps [of n] digits_value_def)
  qed
qed

lemma scan_decimal:
  assumes "rest = [] \<or> \<not> is_digit (hd rest)"
  shows "scan_d (decimal n @ rest) = Some (int n, rest)"
proof -
  obtain c cs where c: "decimal n = c # cs" using decimal_digits [of n] by (cases "decimal n") auto
  have dg: "\<forall>x \<in> set (c # cs). is_digit x" and first: "\<not> is_space c" "c \<noteq> CHR ''-''" "c \<noteq> CHR ''+''"
    and val: "digits_value (c # cs) = int n"
    using decimal_digits [of n] unfolding c by auto
  have "takeWhile is_digit (cs @ rest) = cs"
    using dg assms by (cases rest) (auto simp: takeWhile_append2)
  then show ?thesis unfolding c using first dg val by (simp add: scan_d_def Let_def)
qed

subsection \<open>Properties\<close>

text \<open>Pin codes, OpenAT numbers and names of pins describe the same pins: decoding undoes encoding;
  the two translations between codes and GPIO numbers are inverse on the pins that exist, and every
  other number is unknown; and the name \<^verbatim>\<open>P<port>_<pin>\<close>, in decimal, has the code of that pin exactly
  when the pin exists.\<close>

theorem pio_codes:
  assumes "p < 16" "q < 32"
  shows "pio_decode (IO_ENCODE (int p) (int q) f) = (int p, int q) \<and> (IO_IS_PORT (IO_ENCODE (int p) (int q) f) \<longleftrightarrow> f) \<and>
    platform_pio_get_gpio_port (platform_get_pio_pin g) = (if g \<le> 43 then g else 255) \<and>
    (p < 3 \<and> q < PIO_PIN_ARRAY ! p \<and> get_real_gpio p q \<noteq> 255 \<longrightarrow>
      platform_get_pio_pin (get_real_gpio p q) = IO_ENCODE (int p) (int q) False) \<and>
    pio_mt_index (''P'' @ decimal p @ ''_'' @ decimal q) =
      (if p < 3 \<and> q < PIO_PIN_ARRAY ! p then Some (IO_ENCODE (int p) (int q) False) else None)"
proof (intro conjI)
  note dec = IO_ENCODE_decode [of "int p" "int q" f]
  show "pio_decode (IO_ENCODE (int p) (int q) f) = (int p, int q)" "IO_IS_PORT (IO_ENCODE (int p) (int q) f) \<longleftrightarrow> f"
    using assms dec by (simp_all add: pio_decode_def)
  show "platform_pio_get_gpio_port (platform_get_pio_pin g) = (if g \<le> 43 then g else 255)" by (rule pio_pin_gpio)
  show "p < 3 \<and> q < PIO_PIN_ARRAY ! p \<and> get_real_gpio p q \<noteq> 255 \<longrightarrow>
      platform_get_pio_pin (get_real_gpio p q) = IO_ENCODE (int p) (int q) False"
  proof (intro impI, elim conjE)
    assume a: "p < 3" "q < PIO_PIN_ARRAY ! p" "get_real_gpio p q \<noteq> 255"
    consider "p = 0" | "p = 1" | "p = 2" using a(1) by linarith
    then show "platform_get_pio_pin (get_real_gpio p q) = IO_ENCODE (int p) (int q) False"
    proof cases
      case 1
      then show ?thesis using a by (simp add: get_real_gpio_def platform_get_pio_pin_def PIO_PIN_ARRAY_def)
    next
      case 2
      then show ?thesis using a by (simp add: get_real_gpio_def platform_get_pio_pin_def PIO_PIN_ARRAY_def)
    next
      case 3
      then have q: "q \<in> {0, 1, 2, 3, 4, 5, 6, 7, 8}" using a(2) by (auto simp: PIO_PIN_ARRAY_def)
      have "q = 7 \<or> q = 8" using q a(3) 3 by (auto simp: get_real_gpio_def openatGPIOEx_def)
      then show ?thesis using 3 by (auto simp: get_real_gpio_def platform_get_pio_pin_def ex_real ex_slots)
    qed
  qed
  have scan: "scan_d (decimal p @ ''_'' @ decimal q) = Some (int p, ''_'' @ decimal q)"
    "scan_d (decimal q) = Some (int q, [])"
    using scan_decimal [of "''_'' @ decimal q" p] scan_decimal [of "[]" q] by (simp_all add: is_digit_def)
  obtain c cs where c: "decimal p = c # cs" using decimal_digits [of p] by (cases "decimal p") auto
  then have digit: "is_digit c" using decimal_digits [of p] by simp
  then have cap: "\<not> (CHR ''A'' \<le> c \<and> c \<le> CHR ''Z'')"
    by (auto simp: is_digit_def less_eq_char_def)
  show "pio_mt_index (''P'' @ decimal p @ ''_'' @ decimal q) =
      (if p < 3 \<and> q < PIO_PIN_ARRAY ! p then Some (IO_ENCODE (int p) (int q) False) else None)"
  proof -
    have "int p < 2 ^ 32" "int q < 2 ^ 32" using assms by simp_all
    then have "platform_pio_has_port (word_of_int (int p)) \<longleftrightarrow> p < 3"
      "platform_pio_has_pin (word_of_int (int p)) (word_of_int (int q)) \<longleftrightarrow> p < 3 \<and> q < PIO_PIN_ARRAY ! p"
      using has_port [of "int p"] has_pin [of "int p" "int q"] by (simp_all only: of_nat_0_le_iff nat_int) simp_all
    with scan cap show ?thesis unfolding c by (simp add: pio_mt_index_def del: of_int_of_nat_eq)
  qed
qed

theorem pio_codes_witness: "pio_mt_index (''P'' @ decimal 0 @ ''_'' @ decimal 31) = Some (IO_ENCODE 0 31 False)"
  using pio_codes [of 0 31] by (simp add: PIO_PIN_ARRAY_def)

text \<open>A pin operation is carried out once for every pin listed, whatever the order and however often
  it is listed, in the order of ports and pins, when the driver accepts it and the pins exist; and
  when one of the codes is no pin, it is an error before anything is done.\<close>

theorem pio_pins_each_once:
  assumes "length (pio_masks s) = 16" "op \<in> {PIN_SET, PIN_CLEAR, PIN_DIR_OUTPUT, PIN_DIR_OUTPUT1, PIN_CLOSE}"
    and "\<forall>c. accepts drv c"
  shows "((\<forall>v \<in> set vs. \<not> bad_pin v \<and> get_real_gpio (fst (pin_of v)) (snd (pin_of v)) \<noteq> 255) \<longrightarrow>
      fst (pioh_set_pins drv vs op s) \<and>
      gpio_calls (snd (pioh_set_pins drv vs op s)) =
        gpio_calls s @ concat (map (\<lambda>p. map (\<lambda>q. the (write_call op (get_real_gpio p q))) (listed_pins vs p)) [0..<3])) \<and>
    ((\<exists>v \<in> set vs. bad_pin v) \<longrightarrow>
      \<not> fst (pioh_set_pins drv vs op s) \<and> gpio_calls (snd (pioh_set_pins drv vs op s)) = gpio_calls s)"
proof (intro conjI impI)
  assume "\<forall>v \<in> set vs. \<not> bad_pin v \<and> get_real_gpio (fst (pin_of v)) (snd (pin_of v)) \<noteq> 255"
  from set_pins_good [OF assms(3,2) this assms(1)]
  show "fst (pioh_set_pins drv vs op s)" "gpio_calls (snd (pioh_set_pins drv vs op s)) =
        gpio_calls s @ concat (map (\<lambda>p. map (\<lambda>q. the (write_call op (get_real_gpio p q))) (listed_pins vs p)) [0..<3])"
    by (auto simp: pin_calls_def)
next
  assume "\<exists>v \<in> set vs. bad_pin v"
  then obtain m where "collect_pins vs (pioh_clear_masks (pio_masks s)) = (False, m)"
    using collect_pins_bad by (metis prod.collapse)
  then show "\<not> fst (pioh_set_pins drv vs op s)" "gpio_calls (snd (pioh_set_pins drv vs op s)) = gpio_calls s"
    by (simp_all add: pioh_set_pins_def)
qed

theorem pio_pins_each_once_witness:
  "\<not> fst (pioh_set_pins \<lparr>accepts = \<lambda>c. True, reads = \<lambda>g. None\<rparr> [7, 3000] PIN_SET \<lparr>pio_masks = replicate 16 0, gpio_calls = []\<rparr>)"
proof -
  have "bad_pin 3000"
    using IO_range [of 3000] by (simp add: bad_pin_iff IO_GET_PORT_def)
  then have "\<exists>v \<in> set [7, 3000]. bad_pin v" by simp
  then show ?thesis
    using pio_pins_each_once [of "\<lparr>pio_masks = replicate 16 0, gpio_calls = []\<rparr>" PIN_SET
        "\<lparr>accepts = \<lambda>c. True, reads = \<lambda>g. None\<rparr>" "[7, 3000]"] by simp
qed

text \<open>The operations on whole ports and the pull settings do nothing on this platform, and say so only
  in part: on valid port codes \<^verbatim>\<open>port.setlow\<close> reports success and \<^verbatim>\<open>port.getval\<close> gives 0 for each port,
  both without any call of the driver; every other pull and port setting of at least one pin or port
  is an error.\<close>

theorem pio_port_operations:
  assumes good: "\<forall>v \<in> set vs. IO_IS_PORT v \<and> IO_GET_PORT v < 3"
  shows "pio_port_setlow drv vs s = (True, s) \<and> pio_port_getval drv vs = (Some (replicate (length vs) 0), []) \<and>
    (vs \<noteq> [] \<longrightarrow> \<not> fst (pio_port_sethigh drv vs s) \<and> \<not> fst (pio_port_setdir drv dir vs s) \<and>
      \<not> fst (pio_port_setpull drv pull vs s))"
proof -
  have unsupported: "pin_switch drv op g = (0, [], False)"
    if "op \<in> {PORT_SET_VALUE, PORT_GET_VALUE, PORT_DIR_INPUT, PORT_DIR_OUTPUT, PIN_PULLUP, PIN_PULLDOWN, PIN_NOPULL}" for op g
    using that by (auto simp: pin_switch_def)
  have loop0: "pin_loop drv p m op n i 0 = (0, [])"
    if "op \<in> {PORT_SET_VALUE, PORT_GET_VALUE, PORT_DIR_INPUT, PORT_DIR_OUTPUT, PIN_PULLUP, PIN_PULLDOWN, PIN_NOPULL}"
    for p m op n i
    using unsupported [OF that] by (induction n arbitrary: i) (simp_all add: Let_def)
  have all: "platform_pio_op drv p 0xFFFFFFFF op = (0, [])"
    if "op \<in> {PORT_SET_VALUE, PORT_GET_VALUE, PORT_DIR_INPUT, PORT_DIR_OUTPUT, PIN_PULLUP, PIN_PULLDOWN, PIN_NOPULL}" "p < 3"
    for op p
  proof -
    have "0 < PIO_PIN_ARRAY ! p" using that(2) by (auto simp: PIO_PIN_ARRAY_def less_Suc_eq numeral_3_eq_3)
    then obtain n where n: "PIO_PIN_ARRAY ! p = Suc n" by (cases "PIO_PIN_ARRAY ! p") auto
    have "pin_loop drv p 0xFFFFFFFF op (Suc n) 0 1 = (0, [])"
      using unsupported [OF that(1)] loop0 [OF that(1)] by (simp add: Let_def)
    then show ?thesis using that(1) n by (auto simp: platform_pio_op_def)
  qed
  have loop_none: "pin_loop drv p 0 op n i r = (r, [])" for p op n i r
    by (induction n arbitrary: i) simp_all
  have none: "platform_pio_op drv p 0 PORT_SET_VALUE = (1, [])" for p
    by (simp add: platform_pio_op_def loop_none)
  have small: "platform_pio_has_port (word_of_int (IO_GET_PORT v))" if "v \<in> set vs" for v
    using good that IO_range [of v] by (simp add: has_port)
  have coll: "\<exists>pm. collect_ports ws pm0 = Some pm \<and>
      (\<forall>i < 16. bit pm i \<longleftrightarrow> bit pm0 i \<or> (\<exists>v \<in> set ws. nat (IO_GET_PORT v) = i))" if "set ws \<subseteq> set vs" for ws pm0
    using that
  proof (induction ws arbitrary: pm0)
    case (Cons v ws)
    let ?pm1 = "pm0 OR push_bit (nat (IO_GET_PORT v)) 1"
    have ws: "set ws \<subseteq> set vs" and v: "v \<in> set vs" using Cons.prems by simp_all
    obtain pm where pm: "collect_ports ws ?pm1 = Some pm"
      "\<forall>i < 16. bit pm i \<longleftrightarrow> bit ?pm1 i \<or> (\<exists>v \<in> set ws. nat (IO_GET_PORT v) = i)"
      using Cons.IH [of ?pm1, OF ws] by (elim exE conjE)
    have step: "bit ?pm1 i \<longleftrightarrow> bit pm0 i \<or> nat (IO_GET_PORT v) = i" if "i < 16" for i
      using that by (simp only: bit_or_iff bit_push_bit_iff bit_1_iff) auto
    have "collect_ports (v # ws) pm0 = Some pm"
      unfolding collect_ports.simps using v good small [OF v] pm(1) by (simp only: simp_thms if_False bex_simps Ball_def)
    moreover have "\<forall>i < 16. bit pm i \<longleftrightarrow> bit pm0 i \<or> (\<exists>v \<in> set (v # ws). nat (IO_GET_PORT v) = i)"
    proof (intro allI impI)
      fix i :: nat assume "i < 16"
      then show "bit pm i \<longleftrightarrow> bit pm0 i \<or> (\<exists>v \<in> set (v # ws). nat (IO_GET_PORT v) = i)"
        using pm(2) step [of i] by auto
    qed
    ultimately show ?case by blast
  qed simp
  obtain pm where pm: "collect_ports vs 0 = Some pm" "\<forall>i < 16. bit pm i \<longleftrightarrow> (\<exists>v \<in> set vs. nat (IO_GET_PORT v) = i)"
    using coll [of vs 0] by auto
  define sel where "sel = filter (\<lambda>i. pm AND push_bit i 1 \<noteq> 0) [0..<16]"
  have sel: "set sel = (\<lambda>v. nat (IO_GET_PORT v)) ` set vs"
    using pm(2) IO_range and_push_bit_1 [of pm] by (auto simp: sel_def nat_less_iff)
  have "apply_ports drv PORT_SET_VALUE (map (\<lambda>i. (i, 0)) sel) = (True, [])"
    using apply_ports_all [of "map (\<lambda>i. (i, 0)) sel" drv PORT_SET_VALUE "\<lambda>x. []"] none by simp
  then have low: "pio_port_setlow drv vs s = (True, s)"
    by (simp add: pio_port_setlow_def pio_gen_setval_def pioh_set_ports_def pm(1) sel_def)
  have get: "pio_port_getval drv ws = (Some (replicate (length ws) 0), [])" if "set ws \<subseteq> set vs" for ws
    using that good small all [of PORT_GET_VALUE] IO_range by (induction ws) (auto simp: nat_less_iff)
  have fail: "\<not> fst (pioh_set_ports drv vs op 0xFFFFFFFF s)"
    if "op \<in> {PORT_SET_VALUE, PORT_GET_VALUE, PORT_DIR_INPUT, PORT_DIR_OUTPUT, PIN_PULLUP, PIN_PULLDOWN, PIN_NOPULL}" "vs \<noteq> []" for op
  proof -
    have "sel \<noteq> []" using sel that(2) by auto
    then obtain i rest where i: "sel = i # rest" by (cases sel) auto
    then have "i \<in> (\<lambda>v. nat (IO_GET_PORT v)) ` set vs" using sel by auto
    then have "i < 3" using good IO_range by (auto simp: nat_less_iff)
    then have "fst (apply_ports drv op (map (\<lambda>i. (i, 0xFFFFFFFF)) sel)) = False" using all [OF that(1)] i by simp
    then show ?thesis
      unfolding pioh_set_ports_def pm(1) option.case sel_def [symmetric] Let_def case_prod_beta fst_conv by simp
  qed
  show ?thesis
    using low get [of vs] fail
    by (simp add: pio_port_sethigh_def pio_port_setdir_def pio_port_setpull_def pio_gen_setval_def pio_gen_setdir_def
      pio_gen_setpull_def Let_def)
qed

theorem pio_port_operations_witness:
  "pio_port_setlow \<lparr>accepts = \<lambda>c. True, reads = \<lambda>g. None\<rparr> [IO_ENCODE 0 0 True] \<lparr>pio_masks = [], gpio_calls = []\<rparr> =
    (True, \<lparr>pio_masks = [], gpio_calls = []\<rparr>)"
  using pio_port_operations [of "[IO_ENCODE 0 0 True]"] by (simp add: IO_ENCODE_decode)

end
