(* ===== verification/Display.thy ===== *)
theory Display
  imports Prelude
begin

unbundle bit_operations_syntax

text \<open>
  The display: the drawing operations of \<^verbatim>\<open>platform/src/common_disp.c\<close>.

  The frame buffer is one block of \<^verbatim>\<open>width * height * bpp / 8\<close> bytes, written by bytes on a
  black-and-white panel and by halfwords (little endian) on a colour panel.  A write outside the block is
  recorded in \<open>stray\<close>: in C it is undefined, here it is what the bounds properties exclude.

  The contents of files are parameters.  Memory read through a pointer into a file is a function of the
  distance from its start, so reading past the end gives whatever lies there.
\<close>

subsection \<open>State\<close>

abbreviation (input) COLOR_WHITE :: int where "COLOR_WHITE \<equiv> 0xffff"
abbreviation (input) COLOR_BLACK :: int where "COLOR_BLACK \<equiv> 0"
abbreviation (input) MAX_FONTS :: nat where "MAX_FONTS \<equiv> 10"

record bitmap =
  bm_width :: nat
  bm_height :: nat
  bm_bpp :: nat
  bm_data :: "nat \<Rightarrow> u8"

record font_info =
  f_width :: nat
  f_height :: nat
  f_size :: nat
  f_start :: nat
  f_end :: nat
  f_data :: "(nat \<Rightarrow> u8) option"

record disp =
  lcd_width :: nat
  lcd_height :: nat
  lcd_bpp :: nat
  disp_color :: int
  disp_bkcolor :: int
  lcd_hwfillcolor :: int
  dispFonts :: "font_info list"
  curr_font_id :: nat
  framebuffer :: bytes
  stray :: bool

definition put16 :: "int \<Rightarrow> u16 \<Rightarrow> disp \<Rightarrow> disp" where
  "put16 i v d =
    (if 0 \<le> i \<and> 2 * nat i + 1 < length (framebuffer d)
     then d\<lparr>framebuffer := (framebuffer d)[2 * nat i := ucast v, 2 * nat i + 1 := ucast (drop_bit 8 v)]\<rparr>
     else d\<lparr>stray := True\<rparr>)"

definition upd8 :: "int \<Rightarrow> (u8 \<Rightarrow> u8) \<Rightarrow> disp \<Rightarrow> disp" where
  "upd8 i f d =
    (if 0 \<le> i \<and> nat i < length (framebuffer d) then d\<lparr>framebuffer := (framebuffer d)[nat i := f (framebuffer d ! nat i)]\<rparr> else d\<lparr>stray := True\<rparr>)"

text \<open>Setting and clearing the bit of pixel \<open>(x, y)\<close> on a black-and-white panel: a byte holds eight rows.\<close>

definition fill_pixel :: "nat \<Rightarrow> nat \<Rightarrow> disp \<Rightarrow> disp" where
  "fill_pixel x y d = upd8 (int (y div 8 * lcd_width d + x)) (\<lambda>b. b OR push_bit (y mod 8) 1) d"

definition unfill_pixel :: "nat \<Rightarrow> nat \<Rightarrow> disp \<Rightarrow> disp" where
  "unfill_pixel x y d = upd8 (int (y div 8 * lcd_width d + x)) (\<lambda>b. b AND NOT (push_bit (y mod 8) 1)) d"

subsection \<open>Initialisation and the whole screen\<close>

definition blank_font :: font_info where
  "blank_font = \<lparr>f_width = 0, f_height = 0, f_size = 0, f_start = 0, f_end = 0, f_data = None\<rparr>"

definition sansFont16 :: "(nat \<Rightarrow> u8) \<Rightarrow> font_info" where
  "sansFont16 dat = \<lparr>f_width = 8, f_height = 16, f_size = 16, f_start = 0x20, f_end = 0x7E, f_data = Some dat\<rparr>"

definition fontInit :: "(nat \<Rightarrow> u8) \<Rightarrow> font_info list" where
  "fontInit dat = (replicate MAX_FONTS blank_font)[0 := sansFont16 dat]"

text \<open>\<open>mem\<close> is what the allocated block holds.\<close>

definition platform_disp_init :: "(nat \<Rightarrow> u8) \<Rightarrow> (nat \<Rightarrow> u8) \<Rightarrow> nat \<Rightarrow> nat \<Rightarrow> nat \<Rightarrow> int \<Rightarrow> disp" where
  "platform_disp_init mem dat width height bpp hwfillcolor =
    (let n = width * height * bpp div 8
     in \<lparr>lcd_width = width, lcd_height = height, lcd_bpp = bpp,
         disp_color = (if bpp = 1 then COLOR_WHITE else COLOR_BLACK),
         disp_bkcolor = (if bpp = 1 then COLOR_BLACK else COLOR_WHITE),
         lcd_hwfillcolor = (if bpp = 1 \<and> hwfillcolor \<noteq> - 1 then hwfillcolor else COLOR_BLACK),
         dispFonts = fontInit dat, curr_font_id = 0,
         framebuffer = map mem [0..<n],
         stray = False\<rparr>)"

definition platform_disp_clear :: "disp \<Rightarrow> disp" where
  "platform_disp_clear d =
    (if lcd_bpp d = 1 then
       d\<lparr>framebuffer := replicate (length (framebuffer d)) (if disp_bkcolor d \<noteq> lcd_hwfillcolor d then 0 else 0xFF)\<rparr>
     else
       (let height = lcd_height d
        in fold (\<lambda>col d. fold (\<lambda>row d. put16 (int (row * lcd_width d + col)) (word_of_int (disp_bkcolor d)) d)
                           [0..<height] d) [0..<lcd_width d] d))"

subsection \<open>One-bit bitmaps\<close>

definition bm_bit :: "bitmap \<Rightarrow> nat \<Rightarrow> nat \<Rightarrow> bool" where
  "bm_bit bm bx by =
    (let bwbytes = (bm_width bm + 7) div 8
     in bm_data bm (bwbytes * by + bx div 8) AND drop_bit (bx mod 8) 0x80 \<noteq> 0)"

definition disp_bitmap_bpp1 :: "bitmap \<Rightarrow> nat \<Rightarrow> nat \<Rightarrow> disp \<Rightarrow> disp" where
  "disp_bitmap_bpp1 bm startX startY d =
    (if bm_bpp bm \<noteq> 1 then d
     else (let endX = min (lcd_width d) (startX + bm_width bm); endY = min (lcd_height d) (startY + bm_height bm)
           in fold (\<lambda>x d. fold (\<lambda>y d.
                  if bm_bit bm (x - startX) (y - startY)
                  then (if disp_color d = lcd_hwfillcolor d then fill_pixel x y d else unfill_pixel x y d)
                  else d) [startY..<endY] d) [startX..<endX] d))"

definition disp_1bitbmp_bpp16 :: "bitmap \<Rightarrow> nat \<Rightarrow> nat \<Rightarrow> disp \<Rightarrow> disp" where
  "disp_1bitbmp_bpp16 bm startX startY d =
    (let endX = min (lcd_width d) (startX + bm_width bm); endY = min (lcd_height d) (startY + bm_height bm)
     in fold (\<lambda>x d. fold (\<lambda>y d.
            if bm_bit bm (x - startX) (y - startY)
            then put16 (int (y * lcd_width d + x)) (word_of_int (disp_color d)) d
            else d) [startY..<endY] d) [startX..<endX] d)"

subsection \<open>Characters and text\<close>

text \<open>The Chinese glyphs, when the build has them, the punctuation, and what lies behind the 32 bytes of
  \<open>blankChar\<close>.\<close>

record glyph_mem =
  hz_font :: "(nat \<Rightarrow> u8) option"
  hz_ext :: "nat \<Rightarrow> u8"
  past_blank :: "nat \<Rightarrow> u8"

definition blankChar :: "glyph_mem \<Rightarrow> nat \<Rightarrow> u8" where
  "blankChar hz i = (if i < 16 * 16 div 8 then 0 else past_blank hz i)"

definition at_offset :: "(nat \<Rightarrow> u8) \<Rightarrow> nat \<Rightarrow> nat \<Rightarrow> u8" where
  "at_offset dat n i = dat (n + i)"

definition getFontBitmap :: "glyph_mem \<Rightarrow> nat \<Rightarrow> disp \<Rightarrow> bitmap" where
  "getFontBitmap hz charcode d =
    (let pInfo = dispFonts d ! curr_font_id d
     in \<lparr>bm_width = f_width pInfo, bm_height = f_height pInfo, bm_bpp = 1,
         bm_data = (case f_data pInfo of
             Some dat \<Rightarrow> if f_start pInfo \<le> charcode \<and> charcode \<le> f_end pInfo
                         then at_offset dat ((charcode - f_start pInfo) * f_size pInfo) else blankChar hz
           | None \<Rightarrow> blankChar hz)\<rparr>)"

definition sansHzFont16ExtOffset :: "nat list" where
  "sansHzFont16ExtOffset =
    [0xA1A2, 0xA1A3, 0xA1AA, 0xA1AD, 0xA1AE, 0xA1AF, 0xA1B0, 0xA1B1, 0xA1B2, 0xA1B3, 0xA1B4, 0xA1B5, 0xA1B6, 0xA1B7,
     0xA1B8, 0xA1B9, 0xA1BA, 0xA1BB, 0xA1BE, 0xA1BF, 0xA3A1, 0xA3A8, 0xA3A9, 0xA3AC, 0xA3AD, 0xA3AE, 0xA3BA, 0xA3BB,
     0xA3BF, 0xE0C5]"

text \<open>The search stops at the first code that is not below the one sought.\<close>

fun ext_index :: "nat \<Rightarrow> nat list \<Rightarrow> nat \<Rightarrow> nat option" where
  "ext_index charcode [] index = None"
| "ext_index charcode (c # cs) index =
    (if charcode < c then None
     else if charcode = c then Some index
     else ext_index charcode cs (index + 1))"

abbreviation (input) HZ_SIZE :: nat where "HZ_SIZE \<equiv> 32"

definition getHzBitmap :: "glyph_mem \<Rightarrow> nat \<Rightarrow> bitmap" where
  "getHzBitmap hz charcode =
    \<lparr>bm_width = 16, bm_height = 16, bm_bpp = 1,
     bm_data = (case hz_font hz of
         Some dat \<Rightarrow>
           (let byte1 = charcode div 256; byte2 = charcode mod 256
            in if 0xB0 \<le> byte1 \<and> byte1 \<le> 0xF7 \<and> 0xA1 \<le> byte2 \<and> byte2 \<le> 0xFE
               then at_offset dat (((byte1 - 0xB0) * (0xFE - 0xA1 + 1) + byte2 - 0xA1) * HZ_SIZE)
               else (case ext_index charcode sansHzFont16ExtOffset 0 of
                   Some index \<Rightarrow> at_offset (hz_ext hz) (index * HZ_SIZE)
                 | None \<Rightarrow> blankChar hz))
       | None \<Rightarrow> blankChar hz)\<rparr>"

definition getCharBitmap :: "glyph_mem \<Rightarrow> nat \<Rightarrow> disp \<Rightarrow> bitmap" where
  "getCharBitmap hz charcode d = (if 0xA0A0 \<le> charcode then getHzBitmap hz charcode else getFontBitmap hz charcode d)"

text \<open>The character at the start of the text and the number of bytes it takes; at the end of the text the
  byte after is the terminator.\<close>

definition next_char :: "bytes \<Rightarrow> nat \<times> nat" where
  "next_char t =
    (let a = hd t; b = (if tl t = [] then 0 else hd (tl t))
     in if a AND 0x80 \<noteq> 0
        then if b AND 0x80 \<noteq> 0 then (unat a * 256 + unat b, 2) else (63, 1)
        else (unat a, 1))"

text \<open>The end of the loop body: \<open>(w, h)\<close> is the size of the bitmap, on a new line the last one.\<close>

definition advance :: "nat \<times> nat \<Rightarrow> disp \<Rightarrow> nat \<times> nat \<Rightarrow> nat \<times> nat" where
  "advance wh d xy =
    (let (w, h) = wh; (x, y) = xy;
         (x, y) = (if lcd_width d \<le> x + w then (0, (y + h) mod 2 ^ 16) else (x + w, y))
     in (x, if lcd_height d \<le> y then 0 else y))"

definition draw_char :: "bitmap \<Rightarrow> nat \<times> nat \<Rightarrow> disp \<Rightarrow> (nat \<times> nat) \<times> disp" where
  "draw_char bm xy d =
    (let (x, y) = xy
     in if lcd_bpp d = 1
        then if bm_width bm = 14 \<and> bm_height bm = 14
             then ((16, 16), disp_bitmap_bpp1 bm ((x + 1) mod 2 ^ 16) ((y + 1) mod 2 ^ 16) d)
             else ((bm_width bm, bm_height bm), disp_bitmap_bpp1 bm x y d)
        else ((bm_width bm, bm_height bm), disp_1bitbmp_bpp16 bm x y d))"

function put_loop :: "glyph_mem \<Rightarrow> bytes \<Rightarrow> nat \<times> nat \<Rightarrow> nat \<times> nat \<Rightarrow> disp \<Rightarrow> disp" where
  "put_loop hz t wh xy d =
    (if t = [] then d
     else if hd t = 13 \<or> hd t = 10 then put_loop hz (tl t) wh (advance wh d xy) d
     else (let (charcode, n) = next_char t;
               (wh, d) = draw_char (getCharBitmap hz charcode d) xy d
           in put_loop hz (drop n t) wh (advance wh d xy) d))"
  by pat_completeness auto
termination
  by (relation "measure (\<lambda>(hz, t, wh, xy, d). length t)")
    (auto simp: next_char_def Let_def length_greater_0_conv [symmetric] simp del: length_greater_0_conv split: if_splits)

declare put_loop.simps [simp del]

text \<open>\<open>junk\<close> is the size in the bitmap on the stack before the first character.\<close>

definition platform_disp_puttext :: "glyph_mem \<Rightarrow> nat \<times> nat \<Rightarrow> bytes \<Rightarrow> nat \<Rightarrow> nat \<Rightarrow> disp \<Rightarrow> disp" where
  "platform_disp_puttext hz junk string x y d =
    put_loop hz string junk (if lcd_width d \<le> x then 0 else x, if lcd_height d \<le> y then 0 else y) d"

subsection \<open>BMP files\<close>

text \<open>A file is memory at addresses relative to its start, modulo \<open>2 ^ 32\<close>.\<close>

definition file16 :: "(u32 \<Rightarrow> u8) \<Rightarrow> u32 \<Rightarrow> u16" where
  "file16 f a = ucast (f a) OR push_bit 8 (ucast (f (a + 1)))"

definition file32 :: "(u32 \<Rightarrow> u8) \<Rightarrow> u32 \<Rightarrow> u32" where
  "file32 f a = ucast (f a) OR push_bit 8 (ucast (f (a + 1))) OR push_bit 16 (ucast (f (a + 2)))
     OR push_bit 24 (ucast (f (a + 3)))"

abbreviation (input) FILE_HEADER_SIZE :: u32 where "FILE_HEADER_SIZE \<equiv> 14"
abbreviation (input) INFO_HEADER_SIZE :: u32 where "INFO_HEADER_SIZE \<equiv> 40"

record bmp_header =
  bitmap_offset :: u32
  bmp_width :: u32
  bmp_height :: u32
  number_of_planes :: u16
  bits_per_pixel :: u16

definition bmp_header_of :: "(u32 \<Rightarrow> u8) \<Rightarrow> bmp_header" where
  "bmp_header_of f =
    \<lparr>bitmap_offset = file32 f 10,
     bmp_width = file32 f (FILE_HEADER_SIZE + 4), bmp_height = file32 f (FILE_HEADER_SIZE + 8),
     number_of_planes = file16 f (FILE_HEADER_SIZE + 12), bits_per_pixel = file16 f (FILE_HEADER_SIZE + 14)\<rparr>"

definition RGB24ToRGB16 :: "u16 \<Rightarrow> u16 \<Rightarrow> u16 \<Rightarrow> u16" where
  "RGB24ToRGB16 r g b = push_bit 8 (r AND 0xf8) OR push_bit 3 (g AND 0xfc) OR drop_bit 3 (b AND 0xf8)"

text \<open>The loop over the rows, at most \<open>n\<close> of them: the row of the bitmap goes down from \<open>bri\<close> while it is not
  below \<open>limit\<close>; both comparisons are unsigned.\<close>

fun bmp_rows :: "(nat \<Rightarrow> u32 \<Rightarrow> disp \<Rightarrow> disp) \<Rightarrow> u32 \<Rightarrow> nat \<Rightarrow> nat \<Rightarrow> u32 \<Rightarrow> disp \<Rightarrow> disp" where
  "bmp_rows draw limit 0 rowIndex bri d = d"
| "bmp_rows draw limit (Suc n) rowIndex bri d =
    (if limit \<le> bri then bmp_rows draw limit n (Suc rowIndex) (bri - 1) (draw rowIndex bri d) else d)"

text \<open>The size of the drawn part on the screen, and the last row.\<close>

definition bmp_extent :: "bmp_header \<Rightarrow> nat \<Rightarrow> nat \<Rightarrow> nat \<Rightarrow> nat \<Rightarrow> nat \<Rightarrow> nat \<Rightarrow> disp \<Rightarrow> nat \<times> nat \<times> u32" where
  "bmp_extent h x y left tp right bottom d =
    (if left = 0 \<and> tp = 0 \<and> right = 0 \<and> bottom = 0
     then (unat (min (bmp_width h + of_nat x) (of_nat (lcd_width d))),
           unat (min (bmp_height h + of_nat y) (of_nat (lcd_height d))), bmp_height h - 1)
     else (min (right - left + 1 + x) (lcd_width d), min (bottom - tp + 1 + y) (lcd_height d), of_nat bottom))"

definition row_bytes :: "bmp_header \<Rightarrow> u32" where
  "row_bytes h = ucast (ucast (drop_bit 3 ((bmp_width h * ucast (bits_per_pixel h) + 31) AND NOT 31)) :: u16)"

text \<open>One row of a one-bit bitmap on a black-and-white panel.\<close>

definition mono_row :: "(u32 \<Rightarrow> u8) \<Rightarrow> bmp_header \<Rightarrow> u8 \<Rightarrow> nat \<Rightarrow> nat \<Rightarrow> nat \<Rightarrow> nat \<Rightarrow> u32 \<Rightarrow> disp \<Rightarrow> disp" where
  "mono_row f h finalfill x width left rowIndex bri d =
    fold (\<lambda>col d.
      let c = left + (col - x);
          data = f (bitmap_offset h + row_bytes h * bri + of_nat (c div 8))
      in if (data AND drop_bit (c mod 8) 0x80) XOR drop_bit (c mod 8) finalfill = 0
         then fill_pixel col rowIndex d else unfill_pixel col rowIndex d) [x..<width] d"

definition final_fill :: "(u32 \<Rightarrow> u8) \<Rightarrow> bmp_header \<Rightarrow> disp \<Rightarrow> u8" where
  "final_fill f h d =
    (let lcdfill = (lcd_hwfillcolor d = COLOR_WHITE);
         plate = FILE_HEADER_SIZE + INFO_HEADER_SIZE + 4;
         bmpfill = (number_of_planes h \<noteq> 1 \<or> f plate = 0xff \<and> f (plate + 1) = 0xff \<and> f (plate + 2) = 0xff)
     in if lcdfill = bmpfill then 0x80 else 0)"

text \<open>One row of a colour bitmap on a colour panel.\<close>

definition bmp_pixel :: "(u32 \<Rightarrow> u8) \<Rightarrow> bmp_header \<Rightarrow> u32 \<Rightarrow> u16" where
  "bmp_pixel f h a =
    (if bits_per_pixel h = 24 then RGB24ToRGB16 (ucast (f (a + 2))) (ucast (f (a + 1))) (ucast (f a)) else file16 f a)"

definition colour_row :: "(u32 \<Rightarrow> u8) \<Rightarrow> bmp_header \<Rightarrow> int \<Rightarrow> nat \<Rightarrow> nat \<Rightarrow> nat \<Rightarrow> nat \<Rightarrow> u32 \<Rightarrow> disp \<Rightarrow> disp" where
  "colour_row f h transcolor x width left rowIndex bri d =
    fold (\<lambda>col d.
      let c = left + (col - x);
          data_index = bri * row_bytes h + of_nat (c * unat (bits_per_pixel h) div 8);
          rgb16 = bmp_pixel f h (bitmap_offset h + data_index)
      in if transcolor = - 1 \<or> uint rgb16 \<noteq> transcolor
         then put16 (int (rowIndex * lcd_width d + col)) rgb16 d else d) [x..<width] d"

definition put_bmp_file_buff ::
  "(u32 \<Rightarrow> u8) \<Rightarrow> nat \<Rightarrow> nat \<Rightarrow> int \<Rightarrow> nat \<Rightarrow> nat \<Rightarrow> nat \<Rightarrow> nat \<Rightarrow> disp \<Rightarrow> int \<times> disp" where
  "put_bmp_file_buff f x y transcolor left tp right bottom d =
    (let h = bmp_header_of f in
     if right < left \<or> bottom < tp then (PLATFORM_ERR, d)
     else (let (width, height, last) = bmp_extent h x y left tp right bottom d;
               bri = bmp_height h - of_nat tp - 1;
               limit = bmp_height h - last - 1
           in if lcd_bpp d = 1 \<and> bits_per_pixel h = 1
              then (PLATFORM_OK, bmp_rows (mono_row f h (final_fill f h d) x width left) limit (height - y) y bri d)
              else if lcd_bpp d \<noteq> 16 then (PLATFORM_ERR, d)
              else if bits_per_pixel h \<noteq> 24 \<and> bits_per_pixel h \<noteq> 16 then (PLATFORM_ERR, d)
              else (PLATFORM_OK, bmp_rows (colour_row f h transcolor x width left) limit (height - y) y bri d)))"

subsection \<open>PNG files\<close>

text \<open>What \<^verbatim>\<open>libpng\<close> says of a file: its size and channels, whether there is memory for a row, and the rows;
  a row is \<open>None\<close> when the library gives up there.  The library refuses a width of 0.\<close>

record png_file =
  png_width :: u32
  png_height :: u32
  png_channel :: nat
  png_row_buf :: bool
  png_row :: "nat \<Rightarrow> (nat \<Rightarrow> u8) option"

definition png_line :: "(nat \<Rightarrow> u8) \<Rightarrow> nat \<Rightarrow> nat \<Rightarrow> nat \<Rightarrow> int \<Rightarrow> nat \<Rightarrow> nat \<Rightarrow> nat \<Rightarrow> nat \<Rightarrow> disp \<Rightarrow> disp" where
  "png_line row_buf channel x y transcolor left tp right row_idx d =
    fold (\<lambda>tmp_idx d.
      let rgb16 = RGB24ToRGB16 (ucast (row_buf (tmp_idx * channel))) (ucast (row_buf (tmp_idx * channel + 1)))
                    (ucast (row_buf (tmp_idx * channel + 2)))
      in if transcolor = - 1 \<or> uint rgb16 \<noteq> transcolor
         then put16 (uint ((of_nat (y + row_idx) - of_nat tp) * of_nat (lcd_width d)
                + (of_nat (x + tmp_idx) - of_nat left) :: u32)) rgb16 d
         else d) [left..<right + 1] d"

text \<open>The loop over the rows from \<open>row_idx\<close>, \<open>n\<close> of them left in the picture.\<close>

fun png_rows :: "png_file \<Rightarrow> nat \<Rightarrow> nat \<Rightarrow> int \<Rightarrow> nat \<Rightarrow> nat \<Rightarrow> nat \<Rightarrow> nat \<Rightarrow> nat \<Rightarrow> nat \<Rightarrow> disp \<Rightarrow> int \<times> disp" where
  "png_rows png x y transcolor left tp right bottom 0 row_idx d = (PLATFORM_OK, d)"
| "png_rows png x y transcolor left tp right bottom (Suc n) row_idx d =
    (if bottom < row_idx then (PLATFORM_OK, d)
     else (case png_row png row_idx of
         None \<Rightarrow> (PLATFORM_ERR, d)
       | Some row_buf \<Rightarrow>
           png_rows png x y transcolor left tp right bottom n (Suc row_idx)
             (if row_idx < tp then d
              else png_line row_buf (png_channel png) x y transcolor left tp right row_idx d)))"

definition put_png_file_buff ::
  "png_file option \<Rightarrow> nat \<Rightarrow> nat \<Rightarrow> int \<Rightarrow> nat \<Rightarrow> nat \<Rightarrow> nat \<Rightarrow> nat \<Rightarrow> disp \<Rightarrow> int \<times> disp" where
  "put_png_file_buff file x y transcolor left tp right bottom d =
    (if right < left \<or> bottom < tp then (PLATFORM_ERR, d)
     else (case file of
         None \<Rightarrow> (PLATFORM_ERR, d)
       | Some png \<Rightarrow>
           if png_channel png \<noteq> 3 \<and> png_channel png \<noteq> 4 then (PLATFORM_ERR, d)
           else if \<not> png_row_buf png then (PLATFORM_ERR, d)
           else (let whole = (left = 0 \<and> tp = 0 \<and> right = 0 \<and> bottom = 0);
                     right = (if whole then unat (png_width png - 1) else right);
                     bottom = (if whole then unat (png_height png - 1) else bottom)
                 in png_rows png x y transcolor left tp right bottom (unat (png_height png)) 0 d)))"

definition strstr :: "string \<Rightarrow> string \<Rightarrow> bool" where
  "strstr s t = list_ex (\<lambda>i. take (length t) (drop i s) = t) [0..<Suc (length s)]"

text \<open>\<open>bmp_files\<close> is \<open>None\<close> when the file cannot be opened or there is no memory for it.\<close>

definition platform_disp_putimage ::
  "(string \<Rightarrow> (u32 \<Rightarrow> u8) option) \<Rightarrow> (string \<Rightarrow> png_file option) \<Rightarrow> string \<Rightarrow> nat \<Rightarrow> nat \<Rightarrow> int \<Rightarrow> nat \<Rightarrow> nat \<Rightarrow> nat \<Rightarrow> nat \<Rightarrow> disp \<Rightarrow> int \<times> disp" where
  "platform_disp_putimage bmp_files png_files filename x y transcolor left tp right bottom d =
    (if strstr filename ''.bmp'' \<or> strstr filename ''.BMP''
     then (case bmp_files filename of None \<Rightarrow> (PLATFORM_ERR, d)
           | Some buff \<Rightarrow> put_bmp_file_buff buff x y transcolor left tp right bottom d)
     else if strstr filename ''.png'' \<or> strstr filename ''.PNG''
     then put_png_file_buff (png_files filename) x y transcolor left tp right bottom d
     else (PLATFORM_ERR, d))"

subsection \<open>Rectangles\<close>

definition frame_rect :: "int \<Rightarrow> int \<Rightarrow> int \<Rightarrow> int \<Rightarrow> disp \<Rightarrow> disp" where
  "frame_rect x1 y1 x2 y2 d =
    (let w = int (lcd_width d); c = word_of_int (disp_color d);
         d = fold (\<lambda>i d. put16 (y1 * w + (y2 - y1) * w + i) c (put16 (y1 * w + i) c d)) [x1..x2] d
     in fold (\<lambda>j d. put16 (j * w + x2) c (put16 (j * w + x1) c d)) [y1..y2] d)"

definition fill_rect :: "int \<Rightarrow> int \<Rightarrow> int \<Rightarrow> int \<Rightarrow> int \<Rightarrow> disp \<Rightarrow> disp" where
  "fill_rect color x1 y1 x2 y2 d =
    fold (\<lambda>j d. fold (\<lambda>i d. put16 (j * int (lcd_width d) + i) (word_of_int color) d) [x1..x2] d) [y1..y2] d"

text \<open>On a black-and-white panel the indices are \<^verbatim>\<open>u16\<close>, compared with the \<^verbatim>\<open>int\<close> bounds.\<close>

definition mono_rect :: "int \<Rightarrow> int \<Rightarrow> int \<Rightarrow> int \<Rightarrow> int \<Rightarrow> disp \<Rightarrow> disp" where
  "mono_rect color x1 y1 x2 y2 d =
    fold (\<lambda>x d. fold (\<lambda>y d.
        if color = lcd_hwfillcolor d then fill_pixel x y d else unfill_pixel x y d)
      [nat (y1 mod 2 ^ 16)..<nat y2] d) [nat (x1 mod 2 ^ 16)..<nat x2] d"

definition platform_disp_drawrect :: "int \<Rightarrow> int \<Rightarrow> int \<Rightarrow> int \<Rightarrow> int \<Rightarrow> disp \<Rightarrow> int \<times> disp" where
  "platform_disp_drawrect x1 y1 x2 y2 color d =
    (let x1 = min x1 (int (lcd_width d) - 1); x2 = min x2 (int (lcd_width d) - 1);
         y1 = min y1 (int (lcd_height d) - 1); y2 = min y2 (int (lcd_height d) - 1)
     in if x2 \<le> x1 \<or> y2 \<le> y1 then (PLATFORM_ERR, d)
        else if lcd_bpp d = 16
        then (PLATFORM_OK, if color = - 1 then frame_rect x1 y1 x2 y2 d else fill_rect color x1 y1 x2 y2 d)
        else if lcd_bpp d = 1
        then (PLATFORM_OK, if color = COLOR_BLACK \<or> color = COLOR_WHITE then mono_rect color x1 y1 x2 y2 d else d)
        else (PLATFORM_ERR, d))"

subsection \<open>Colours and fonts\<close>

definition platform_disp_setcolor :: "int \<Rightarrow> disp \<Rightarrow> int \<times> disp" where
  "platform_disp_setcolor color d = (disp_color d, d\<lparr>disp_color := color\<rparr>)"

definition platform_disp_setbkcolor :: "int \<Rightarrow> disp \<Rightarrow> int \<times> disp" where
  "platform_disp_setbkcolor color d = (disp_bkcolor d, d\<lparr>disp_bkcolor := color\<rparr>)"

text \<open>A font file: width, height, type, first and last character in a packed header of seven bytes.  No
  file is the empty list.  The size of a glyph is kept in a byte.\<close>

definition platform_disp_loadfont :: "bytes \<Rightarrow> disp \<Rightarrow> int \<times> disp" where
  "platform_disp_loadfont buf d =
    (if length buf \<le> 7 then (- 1, d)
     else (let width = unat (buf ! 0); height = unat (buf ! 1);
               start = unat (buf ! 3) + 256 * unat (buf ! 4); end' = unat (buf ! 5) + 256 * unat (buf ! 6);
               charsize = (width + 7) div 8 * height
           in if buf ! 2 \<noteq> 0 then (- 1, d)
              else if end' < start then (- 1, d)
              else if charsize * (end' - start + 1) \<noteq> length buf - 7 then (- 1, d)
              else (let i = length (takeWhile (\<lambda>f. f_data f \<noteq> None) (dispFonts d))
                    in if MAX_FONTS \<le> i then (- 1, d)
                       else (int i, d\<lparr>dispFonts := (dispFonts d)[i := \<lparr>f_width = width, f_height = height,
                              f_size = charsize mod 256, f_start = start, f_end = end',
                              f_data = Some (\<lambda>k. (drop 7 buf) ! k)\<rparr>]\<rparr>))))"

definition platform_disp_setfont :: "int \<Rightarrow> disp \<Rightarrow> int \<times> disp" where
  "platform_disp_setfont i d =
    (if i < 0 \<or> int MAX_FONTS \<le> i \<or> f_data (dispFonts d ! nat i) = None then (- 1, d)
     else (int (curr_font_id d), d\<lparr>curr_font_id := nat i\<rparr>))"

subsection \<open>Panels and pixels\<close>

text \<open>\<open>same_panel d d'\<close>: nothing but the contents of the frame buffer differ.\<close>

definition same_panel :: "disp \<Rightarrow> disp \<Rightarrow> bool" where
  "same_panel d d' \<longleftrightarrow> d' = d\<lparr>framebuffer := framebuffer d'\<rparr> \<and> length (framebuffer d') = length (framebuffer d)"

lemma same_panel_refl [simp]: "same_panel d d"
  by (simp add: same_panel_def)

lemma same_panel_trans: "same_panel a b \<Longrightarrow> same_panel b c \<Longrightarrow> same_panel a c"
  by (cases a; cases b; cases c) (simp add: same_panel_def)

lemma same_panel_fields:
  assumes "same_panel d d'"
  shows "lcd_width d' = lcd_width d" "lcd_height d' = lcd_height d" "lcd_bpp d' = lcd_bpp d"
    "disp_color d' = disp_color d" "disp_bkcolor d' = disp_bkcolor d" "lcd_hwfillcolor d' = lcd_hwfillcolor d"
    "dispFonts d' = dispFonts d" "curr_font_id d' = curr_font_id d" "stray d' = stray d"
    "length (framebuffer d') = length (framebuffer d)"
  using assms by (cases d; cases d'; simp add: same_panel_def)+

definition colour_panel :: "disp \<Rightarrow> bool" where
  "colour_panel d \<longleftrightarrow> length (framebuffer d) = 2 * (lcd_width d * lcd_height d) \<and> \<not> stray d"

definition mono_panel :: "disp \<Rightarrow> bool" where
  "mono_panel d \<longleftrightarrow> 8 dvd lcd_height d \<and> length (framebuffer d) = lcd_width d * (lcd_height d div 8) \<and> \<not> stray d"

definition pixel16 :: "disp \<Rightarrow> nat \<Rightarrow> nat \<Rightarrow> u16" where
  "pixel16 d x y =
    (let i = 2 * (y * lcd_width d + x) in ucast (framebuffer d ! i) OR push_bit 8 (ucast (framebuffer d ! (i + 1))))"

definition pixel1 :: "disp \<Rightarrow> nat \<Rightarrow> nat \<Rightarrow> bool" where
  "pixel1 d x y = bit (framebuffer d ! (y div 8 * lcd_width d + x)) (y mod 8)"

definition plot16 :: "u16 \<Rightarrow> nat \<Rightarrow> nat \<Rightarrow> disp \<Rightarrow> disp" where
  "plot16 c x y d = put16 (int (y * lcd_width d + x)) c d"

definition plot1 :: "bool \<Rightarrow> nat \<Rightarrow> nat \<Rightarrow> disp \<Rightarrow> disp" where
  "plot1 c x y d = (if c then fill_pixel x y d else unfill_pixel x y d)"

lemma cell_less: "x < w \<Longrightarrow> y < h \<Longrightarrow> y * w + x < w * (h :: nat)"
proof -
  assume "x < w" "y < h"
  then have "y * w + x < Suc y * w" by simp
  also have "\<dots> \<le> h * w" using \<open>y < h\<close> by (intro mult_le_mono1) simp
  finally show ?thesis by (simp add: mult.commute)
qed

lemma cell_inj: "x < w \<Longrightarrow> x' < w \<Longrightarrow> y * w + x = y' * w + x' \<longleftrightarrow> x = x' \<and> y = (y' :: nat)"
proof
  assume a: "x < w" "x' < w" "y * w + x = y' * w + x'"
  then have "w \<noteq> 0" by simp
  then have "(y * w + x) mod w = x" "(y' * w + x') mod w = x'" "(y * w + x) div w = y" "(y' * w + x') div w = y'"
    using a(1,2) by simp_all
  with a(3) show "x = x' \<and> y = y'" by metis
qed simp

lemma split_halfword: "ucast (ucast (v :: u16) :: u8) OR push_bit 8 (ucast (ucast (drop_bit 8 v) :: u8)) = v"
proof (rule bit_word_eqI)
  fix n assume n: "n < LENGTH(16)"
  show "bit (ucast (ucast v :: u8) OR push_bit 8 (ucast (ucast (drop_bit 8 v) :: u8)) :: u16) n \<longleftrightarrow> bit v n"
    using n by (cases "n < 8") (auto simp: bit_or_iff bit_ucast_iff bit_push_bit_iff bit_drop_bit_eq)
qed

lemma put16_inside:
  assumes "colour_panel d" "0 \<le> i" "i < int (lcd_width d * lcd_height d)"
  shows "put16 i v d =
    d\<lparr>framebuffer := (framebuffer d)[2 * nat i := ucast v, 2 * nat i + 1 := ucast (drop_bit 8 v)]\<rparr>"
proof -
  have "nat i < lcd_width d * lcd_height d" using assms by linarith
  then have "2 * nat i + 1 < length (framebuffer d)" using assms(1) by (simp add: colour_panel_def)
  then show ?thesis using assms(2) by (simp add: put16_def)
qed

lemma put16_panel:
  assumes "colour_panel d" "0 \<le> i" "i < int (lcd_width d * lcd_height d)"
  shows "colour_panel (put16 i v d) \<and> same_panel d (put16 i v d)"
  using assms(1) by (simp add: put16_inside [OF assms] colour_panel_def same_panel_def)

lemma upd8_inside:
  assumes "mono_panel d" "x < lcd_width d" "y < lcd_height d"
  defines "k \<equiv> y div 8 * lcd_width d + x"
  shows "upd8 (int k) f d = d\<lparr>framebuffer := (framebuffer d)[k := f (framebuffer d ! k)]\<rparr>" "k < length (framebuffer d)"
proof -
  have "y div 8 < lcd_height d div 8" using assms(1,3) unfolding mono_panel_def by (metis div_less_mono dvdE nonzero_mult_div_cancel_left
      less_mult_imp_div_less mult.commute zero_neq_numeral)
  then show k: "k < length (framebuffer d)"
    using assms(1) cell_less [OF assms(2)] by (simp add: mono_panel_def k_def)
  then show "upd8 (int k) f d = d\<lparr>framebuffer := (framebuffer d)[k := f (framebuffer d ! k)]\<rparr>" by (simp add: upd8_def)
qed

subsection \<open>Canvases\<close>

text \<open>What drawing relies on: plotting a pixel of the panel keeps the panel and changes that pixel only.\<close>

locale canvas =
  fixes good :: "disp \<Rightarrow> bool" and pixel :: "disp \<Rightarrow> nat \<Rightarrow> nat \<Rightarrow> 'c" and plot :: "'c \<Rightarrow> nat \<Rightarrow> nat \<Rightarrow> disp \<Rightarrow> disp"
  assumes plot_good: "good d \<Longrightarrow> x < lcd_width d \<Longrightarrow> y < lcd_height d \<Longrightarrow> good (plot c x y d) \<and> same_panel d (plot c x y d)"
    and plot_pixel: "good d \<Longrightarrow> x < lcd_width d \<Longrightarrow> y < lcd_height d \<Longrightarrow> X < lcd_width d \<Longrightarrow> Y < lcd_height d \<Longrightarrow>
      pixel (plot c x y d) X Y = (if x = X \<and> y = Y then c else pixel d X Y)"

text \<open>Painting a region: \<open>v x y\<close> is the new colour of a pixel, if it gets one.\<close>

definition paint_column :: "('c \<Rightarrow> nat \<Rightarrow> nat \<Rightarrow> disp \<Rightarrow> disp) \<Rightarrow> (nat \<Rightarrow> nat \<Rightarrow> 'c option) \<Rightarrow> nat \<Rightarrow> nat list \<Rightarrow> disp \<Rightarrow> disp" where
  "paint_column plot v x ys d = fold (\<lambda>y d. case v x y of Some c \<Rightarrow> plot c x y d | None \<Rightarrow> d) ys d"

definition paint :: "('c \<Rightarrow> nat \<Rightarrow> nat \<Rightarrow> disp \<Rightarrow> disp) \<Rightarrow> (nat \<Rightarrow> nat \<Rightarrow> 'c option) \<Rightarrow> nat list \<Rightarrow> nat list \<Rightarrow> disp \<Rightarrow> disp" where
  "paint plot v xs ys d = fold (\<lambda>x d. paint_column plot v x ys d) xs d"

context canvas
begin

lemma column:
  assumes "good d" "x < lcd_width d" "\<forall>y \<in> set ys. y < lcd_height d"
  shows "good (paint_column plot v x ys d) \<and> same_panel d (paint_column plot v x ys d) \<and>
    (\<forall>X Y. X < lcd_width d \<longrightarrow> Y < lcd_height d \<longrightarrow>
      pixel (paint_column plot v x ys d) X Y =
        (if X = x \<and> Y \<in> set ys then (case v X Y of Some c \<Rightarrow> c | None \<Rightarrow> pixel d X Y) else pixel d X Y))"
  using assms
proof (induction ys arbitrary: d)
  case (Cons y ys)
  define d1 where "d1 = (case v x y of Some c \<Rightarrow> plot c x y d | None \<Rightarrow> d)"
  have y: "y < lcd_height d" using Cons.prems by simp
  have d1: "good d1" "same_panel d d1"
    using plot_good [OF Cons.prems(1,2) y] Cons.prems(1) by (auto simp: d1_def split: option.split)
  note f = same_panel_fields [OF d1(2)]
  have px: "pixel d1 X Y = (if X = x \<and> Y = y then (case v X Y of Some c \<Rightarrow> c | None \<Rightarrow> pixel d X Y) else pixel d X Y)"
    if "X < lcd_width d" "Y < lcd_height d" for X Y
    using plot_pixel [OF Cons.prems(1,2) y that] by (auto simp: d1_def split: option.split)
  have "x < lcd_width d1" "\<forall>y \<in> set ys. y < lcd_height d1" using Cons.prems f by auto
  note IH = Cons.IH [OF d1(1) this]
  have step: "paint_column plot v x (y # ys) d = paint_column plot v x ys d1"
    by (simp add: paint_column_def d1_def)
  have "good (paint_column plot v x ys d1)" "same_panel d (paint_column plot v x ys d1)"
    using IH same_panel_trans [OF d1(2)] by blast+
  moreover have "pixel (paint_column plot v x ys d1) X Y =
      (if X = x \<and> Y \<in> set (y # ys) then (case v X Y of Some c \<Rightarrow> c | None \<Rightarrow> pixel d X Y) else pixel d X Y)"
    if "X < lcd_width d" "Y < lcd_height d" for X Y
  proof -
    have "pixel (paint_column plot v x ys d1) X Y =
        (if X = x \<and> Y \<in> set ys then (case v X Y of Some c \<Rightarrow> c | None \<Rightarrow> pixel d1 X Y) else pixel d1 X Y)"
      using IH that f by simp
    then show ?thesis unfolding px [OF that] by (auto split: option.split)
  qed
  ultimately show ?case unfolding step by blast
qed (simp add: paint_column_def)

lemma region:
  assumes "good d" "\<forall>x \<in> set xs. x < lcd_width d" "\<forall>y \<in> set ys. y < lcd_height d"
  shows "good (paint plot v xs ys d) \<and> same_panel d (paint plot v xs ys d) \<and>
    (\<forall>X Y. X < lcd_width d \<longrightarrow> Y < lcd_height d \<longrightarrow>
      pixel (paint plot v xs ys d) X Y =
        (if X \<in> set xs \<and> Y \<in> set ys then (case v X Y of Some c \<Rightarrow> c | None \<Rightarrow> pixel d X Y) else pixel d X Y))"
  using assms
proof (induction xs arbitrary: d)
  case (Cons x xs)
  define d1 where "d1 = paint_column plot v x ys d"
  have "x < lcd_width d" using Cons.prems by simp
  note col = column [OF Cons.prems(1) this Cons.prems(3), of v, folded d1_def]
  note f = same_panel_fields [of d d1]
  have "\<forall>x \<in> set xs. x < lcd_width d1" "\<forall>y \<in> set ys. y < lcd_height d1" using Cons.prems f col by auto
  then have IH: "good (paint plot v xs ys d1)" "same_panel d1 (paint plot v xs ys d1)"
    "\<And>X Y. X < lcd_width d1 \<Longrightarrow> Y < lcd_height d1 \<Longrightarrow> pixel (paint plot v xs ys d1) X Y =
        (if X \<in> set xs \<and> Y \<in> set ys then (case v X Y of Some c \<Rightarrow> c | None \<Rightarrow> pixel d1 X Y) else pixel d1 X Y)"
    using Cons.IH [of d1] col by blast+
  have step: "paint plot v (x # xs) ys d = paint plot v xs ys d1" by (simp add: paint_def d1_def)
  have "pixel (paint plot v xs ys d1) X Y =
      (if X \<in> set (x # xs) \<and> Y \<in> set ys then (case v X Y of Some c \<Rightarrow> c | None \<Rightarrow> pixel d X Y) else pixel d X Y)"
    if "X < lcd_width d" "Y < lcd_height d" for X Y
    using IH(3) [of X Y] col that f by (auto split: option.split)
  then show ?case unfolding step using IH(1,2) col same_panel_trans by blast
qed (simp add: paint_def)

end

interpretation colour: canvas colour_panel pixel16 plot16
proof (unfold_locales, goal_cases)
  case (1 d x y c)
  then show ?case
    using cell_less [of x "lcd_width d" y "lcd_height d"] unfolding plot16_def by (intro put16_panel) (simp_all only: of_nat_less_iff of_nat_0_le_iff)
next
  case (2 d x y X Y c)
  define k where "k = y * lcd_width d + x"
  have k: "k < lcd_width d * lcd_height d" using cell_less 2 unfolding k_def by blast
  have plot: "plot16 c x y d = d\<lparr>framebuffer := (framebuffer d)[2 * k := ucast c, 2 * k + 1 := ucast (drop_bit 8 c)]\<rparr>"
  proof -
    have "plot16 c x y d = put16 (int k) c d" by (simp only: plot16_def k_def)
    also have "\<dots> = d\<lparr>framebuffer := (framebuffer d)[2 * nat (int k) := ucast c, 2 * nat (int k) + 1 := ucast (drop_bit 8 c)]\<rparr>"
      using k by (intro put16_inside [OF 2(1)]) (simp_all only: of_nat_less_iff of_nat_0_le_iff)
    finally show ?thesis by (simp only: nat_int)
  qed
  have len: "2 * k + 1 < length (framebuffer d)" using 2(1) k by (simp add: colour_panel_def)
  define j where "j = Y * lcd_width d + X"
  have same: "x = X \<and> y = Y \<longleftrightarrow> k = j" unfolding k_def j_def by (rule cell_inj [symmetric]) (fact 2)+
  have "2 * k + 1 \<noteq> 2 * j" "2 * j + 1 \<noteq> 2 * k" by presburger+
  then show ?case
    unfolding plot pixel16_def same using len split_halfword [of c] by (cases "k = j") (simp_all add: Let_def j_def [symmetric])
qed

interpretation mono: canvas mono_panel pixel1 plot1
proof (unfold_locales, goal_cases)
  case (1 d x y c)
  then show ?case
    using upd8_inside [OF 1] by (simp add: plot1_def fill_pixel_def unfill_pixel_def mono_panel_def same_panel_def)
next
  case (2 d x y X Y c)
  define k where "k = y div 8 * lcd_width d + x"
  define j where "j = Y div 8 * lcd_width d + X"
  have len: "k < length (framebuffer d)" using upd8_inside(2) [OF 2(1-3)] by (simp add: k_def)
  have kj: "k = j \<longleftrightarrow> x = X \<and> y div 8 = Y div 8" unfolding k_def j_def by (rule cell_inj) (fact 2)+
  define b where "b = (if c then framebuffer d ! k OR push_bit (y mod 8) 1
    else framebuffer d ! k AND NOT (push_bit (y mod 8) 1))"
  have "bit b n \<longleftrightarrow> (if n = y mod 8 then c else bit (framebuffer d ! k) n)" if "n < 8" for n
    using that by (auto simp: b_def bit_simps)
  then have b: "bit b (Y mod 8) \<longleftrightarrow> (if Y mod 8 = y mod 8 then c else bit (framebuffer d ! k) (Y mod 8))" by simp
  have plot: "plot1 c x y d = d\<lparr>framebuffer := (framebuffer d)[k := b]\<rparr>"
    using upd8_inside(1) [OF 2(1-3)] unfolding plot1_def fill_pixel_def unfill_pixel_def k_def b_def by simp
  have same: "x = X \<and> y = Y \<longleftrightarrow> k = j \<and> y mod 8 = Y mod 8" unfolding kj by (metis div_mult_mod_eq)
  show ?case
  proof (cases "k = j")
    case True
    then show ?thesis using len b unfolding same plot pixel1_def by (simp add: j_def [symmetric])
  next
    case False
    then show ?thesis unfolding same plot pixel1_def by (simp add: j_def [symmetric])
  qed
qed

context canvas
begin

text \<open>A loop over a region that plots with the state it finds paints it.\<close>

lemma fold_paint:
  assumes good: "good d" and xs: "\<forall>x \<in> set xs. x < lcd_width d" and ys: "\<forall>y \<in> set ys. y < lcd_height d"
    and f: "\<And>x y d'. x \<in> set xs \<Longrightarrow> y \<in> set ys \<Longrightarrow> same_panel d d' \<Longrightarrow>
      f x y d' = (case v x y of Some c \<Rightarrow> plot c x y d' | None \<Rightarrow> d')"
  shows "fold (\<lambda>x d. fold (\<lambda>y d. f x y d) ys d) xs d = paint plot v xs ys d"
proof -
  let ?I = "\<lambda>d'. good d' \<and> same_panel d d'"
  have step: "f x y d' = (case v x y of Some c \<Rightarrow> plot c x y d' | None \<Rightarrow> d') \<and>
      ?I (case v x y of Some c \<Rightarrow> plot c x y d' | None \<Rightarrow> d')"
    if "x \<in> set xs" "y \<in> set ys" "?I d'" for x y d'
  proof
    have "x < lcd_width d'" "y < lcd_height d'" using that xs ys same_panel_fields [of d d'] by auto
    then show "?I (case v x y of Some c \<Rightarrow> plot c x y d' | None \<Rightarrow> d')"
      using plot_good [of d' x y] same_panel_trans [of d d'] that(3) by (auto split: option.split)
  qed (use f that in blast)
  have inner: "fold (\<lambda>y d. f x y d) zs d' = paint_column plot v x zs d' \<and> ?I (fold (\<lambda>y d. f x y d) zs d')"
    if "x \<in> set xs" "set zs \<subseteq> set ys" "?I d'" for x zs d'
    using that(2,3)
  proof (induction zs arbitrary: d')
    case (Cons y zs)
    define d1 where "d1 = (case v x y of Some c \<Rightarrow> plot c x y d' | None \<Rightarrow> d')"
    have s: "f x y d' = d1" "?I d1" using step [OF that(1), of y d'] Cons.prems by (simp_all add: d1_def)
    have "set zs \<subseteq> set ys" using Cons.prems by simp
    then show ?case
      unfolding fold_simps paint_column_def s(1) d1_def [symmetric]
      by (rule Cons.IH [OF _ s(2), unfolded paint_column_def])
  qed (simp add: paint_column_def)
  have "fold (\<lambda>x d. fold (\<lambda>y d. f x y d) ys d) zs d' = paint plot v zs ys d'" if "set zs \<subseteq> set xs" "?I d'" for zs d'
    using that
  proof (induction zs arbitrary: d')
    case (Cons x zs)
    then have x: "x \<in> set xs" by simp
    note in1 = inner [OF x order_refl Cons.prems(2)]
    have "set zs \<subseteq> set xs" using Cons.prems by simp
    from Cons.IH [OF this in1 [THEN conjunct2]] show ?case
      unfolding paint_def fold_simps using in1 [THEN conjunct1] by (simp only:)
  qed (simp add: paint_def)
  then show ?thesis using good by simp
qed

end

definition bm_paint :: "bitmap \<Rightarrow> nat \<Rightarrow> nat \<Rightarrow> 'c \<Rightarrow> nat \<Rightarrow> nat \<Rightarrow> 'c option" where
  "bm_paint bm startX startY ink x y = (if bm_bit bm (x - startX) (y - startY) then Some ink else None)"

lemma bpp16_paint:
  assumes "colour_panel d"
  shows "disp_1bitbmp_bpp16 bm startX startY d =
    paint plot16 (bm_paint bm startX startY (word_of_int (disp_color d)))
      [startX..<min (lcd_width d) (startX + bm_width bm)] [startY..<min (lcd_height d) (startY + bm_height bm)] d"
  unfolding disp_1bitbmp_bpp16_def Let_def
  by (rule colour.fold_paint [OF assms]) (auto simp: bm_paint_def plot16_def same_panel_fields)

lemma bpp1_paint:
  assumes "mono_panel d" "bm_bpp bm = 1"
  shows "disp_bitmap_bpp1 bm startX startY d =
    paint plot1 (bm_paint bm startX startY (disp_color d = lcd_hwfillcolor d))
      [startX..<min (lcd_width d) (startX + bm_width bm)] [startY..<min (lcd_height d) (startY + bm_height bm)] d"
  unfolding disp_bitmap_bpp1_def Let_def using assms(2)
  by (simp, intro mono.fold_paint [OF assms(1)]) (auto simp: bm_paint_def plot1_def same_panel_fields)

lemma clear_paint:
  assumes "colour_panel d" "lcd_bpp d \<noteq> 1"
  shows "platform_disp_clear d = paint plot16 (\<lambda>x y. Some (word_of_int (disp_bkcolor d))) [0..<lcd_width d] [0..<lcd_height d] d"
  unfolding platform_disp_clear_def if_not_P [OF assms(2)] Let_def
  by (rule colour.fold_paint [OF assms(1)]) (auto simp: plot16_def same_panel_fields)

subsection \<open>Nothing is written outside\<close>

definition good_disp :: "disp \<Rightarrow> bool" where
  "good_disp d \<longleftrightarrow> lcd_bpp d = 16 \<and> colour_panel d \<or> lcd_bpp d = 1 \<and> mono_panel d"

text \<open>\<open>kept d d'\<close>: drawing from \<open>d\<close> to \<open>d'\<close> stayed inside.\<close>

definition kept :: "disp \<Rightarrow> disp \<Rightarrow> bool" where
  "kept d d' \<longleftrightarrow> good_disp d' \<and> same_panel d d'"

lemma kept_refl: "good_disp d \<Longrightarrow> kept d d"
  by (simp add: kept_def)

lemma kept_trans: "kept a b \<Longrightarrow> kept b c \<Longrightarrow> kept a c"
  unfolding kept_def using same_panel_trans by blast

lemma kept_fields:
  assumes "kept d d'"
  shows "lcd_width d' = lcd_width d" "lcd_height d' = lcd_height d" "lcd_bpp d' = lcd_bpp d" "good_disp d'"
  using assms same_panel_fields [of d d'] by (simp_all add: kept_def)

lemma fold_kept:
  assumes "good_disp d" "\<And>x d'. x \<in> set xs \<Longrightarrow> kept d d' \<Longrightarrow> kept d' (f x d')"
  shows "kept d (fold f xs d)"
proof -
  have "kept d (fold f zs d')" if "set zs \<subseteq> set xs" "kept d d'" for zs d'
    using that
  proof (induction zs arbitrary: d')
    case (Cons x zs)
    then have "kept d (f x d')" using kept_trans [OF Cons.prems(2) assms(2)] by simp
    with Cons show ?case by simp
  qed simp
  then show ?thesis using kept_refl [OF assms(1)] by blast
qed

lemma put16_kept:
  assumes "good_disp d" "lcd_bpp d = 16" "0 \<le> i" "i < int (lcd_width d * lcd_height d)"
  shows "kept d (put16 i v d)"
  using put16_panel [of d i v] assms same_panel_fields(3) [of d "put16 i v d"] by (auto simp: good_disp_def kept_def)

lemma plot1_kept:
  assumes "good_disp d" "lcd_bpp d = 1" "x < lcd_width d" "y < lcd_height d"
  shows "kept d (plot1 c x y d)"
  using mono.plot_good [of d x y c] assms same_panel_fields(3) [of d "plot1 c x y d"] by (auto simp: good_disp_def kept_def)

lemma fill_kept:
  assumes "good_disp d" "lcd_bpp d = 1" "x < lcd_width d" "y < lcd_height d"
  shows "kept d (fill_pixel x y d)" "kept d (unfill_pixel x y d)"
  using plot1_kept [OF assms, of True] plot1_kept [OF assms, of False] by (simp_all add: plot1_def)

lemma cell_range:
  assumes "0 \<le> x" "x < int w" "0 \<le> y" "y < int h"
  shows "0 \<le> y * int w + x" "y * int w + x < int (w * h)"
proof -
  show "0 \<le> y * int w + x" using assms by simp
  have "int (nat y * w + nat x) < int (w * h)" using cell_less [of "nat x" w "nat y" h] assms by (simp only: of_nat_less_iff nat_less_iff)
  then show "y * int w + x < int (w * h)" using assms by simp
qed

lemma bitmap_kept:
  assumes "good_disp d" "bm_bpp bm = 1"
  shows "lcd_bpp d = 1 \<Longrightarrow> kept d (disp_bitmap_bpp1 bm x y d)"
    and "lcd_bpp d = 16 \<Longrightarrow> kept d (disp_1bitbmp_bpp16 bm x y d)"
proof -
  assume b: "lcd_bpp d = 1"
  then have m: "mono_panel d" using assms by (simp add: good_disp_def)
  show "kept d (disp_bitmap_bpp1 bm x y d)"
    using mono.region [OF m, of "[x..<min (lcd_width d) (x + bm_width bm)]" "[y..<min (lcd_height d) (y + bm_height bm)]"
        "bm_paint bm x y (disp_color d = lcd_hwfillcolor d)"] b
    unfolding bpp1_paint [OF m assms(2)] kept_def good_disp_def using same_panel_fields(3) by fastforce
next
  assume b: "lcd_bpp d = 16"
  then have m: "colour_panel d" using assms by (simp add: good_disp_def)
  show "kept d (disp_1bitbmp_bpp16 bm x y d)"
    using colour.region [OF m, of "[x..<min (lcd_width d) (x + bm_width bm)]" "[y..<min (lcd_height d) (y + bm_height bm)]"
        "bm_paint bm x y (word_of_int (disp_color d))"] b
    unfolding bpp16_paint [OF m] kept_def good_disp_def using same_panel_fields(3) by fastforce
qed

lemma clear_kept: "good_disp d \<Longrightarrow> kept d (platform_disp_clear d)"
proof (cases "lcd_bpp d = 1")
  case True
  then show "good_disp d \<Longrightarrow> ?thesis"
    by (auto simp: platform_disp_clear_def kept_def good_disp_def mono_panel_def same_panel_def)
next
  case False
  assume g: "good_disp d"
  then have b: "lcd_bpp d = 16" using False by (auto simp: good_disp_def)
  have "kept d' (put16 (int (row * lcd_width d' + col)) c d')" if "kept d d'" "row < lcd_height d" "col < lcd_width d" for d' row col c
  proof -
    note f = kept_fields [OF that(1)]
    have "row * lcd_width d' + col < lcd_width d' * lcd_height d'" using cell_less that f by metis
    then show ?thesis using f b by (intro put16_kept) (simp_all only: of_nat_less_iff of_nat_0_le_iff)
  qed
  note put = this
  show ?thesis unfolding platform_disp_clear_def if_not_P [OF False] Let_def
  proof (rule fold_kept [OF g])
    fix col d' assume c: "col \<in> set [0..<lcd_width d]" and k: "kept d d'"
    show "kept d' (fold (\<lambda>row d. put16 (int (row * lcd_width d + col)) (word_of_int (disp_bkcolor d)) d) [0..<lcd_height d] d')"
    proof (rule fold_kept [OF kept_fields(4) [OF k]])
      fix row d'' assume r: "row \<in> set [0..<lcd_height d]" and k2: "kept d' d''"
      show "kept d'' (put16 (int (row * lcd_width d'' + col)) (word_of_int (disp_bkcolor d'')) d'')"
        using r c by (intro put [OF kept_trans [OF k k2]]) simp_all
    qed
  qed
qed

lemma mono_row_kept:
  assumes "good_disp d" "lcd_bpp d = 1" "row < lcd_height d" "width \<le> lcd_width d"
  shows "kept d (mono_row f h ff x width left row bri d)"
  unfolding mono_row_def Let_def
proof (rule fold_kept [OF assms(1)])
  fix col d' assume c: "col \<in> set [x..<width]" and k: "kept d d'"
  have "col < lcd_width d'" "row < lcd_height d'" "lcd_bpp d' = 1" using c assms kept_fields [OF k] by auto
  note fill = fill_kept [OF kept_fields(4) [OF k] this(3,1,2)]
  then show "kept d' (if (f (bitmap_offset h + row_bytes h * bri + of_nat ((left + (col - x)) div 8)) AND
        drop_bit ((left + (col - x)) mod 8) 128) XOR drop_bit ((left + (col - x)) mod 8) ff = 0
      then fill_pixel col row d' else unfill_pixel col row d')" by (rule if_split [THEN iffD2, OF conjI, OF impI impI])
qed

lemma colour_row_kept:
  assumes "good_disp d" "lcd_bpp d = 16" "row < lcd_height d" "width \<le> lcd_width d"
  shows "kept d (colour_row f h tc x width left row bri d)"
  unfolding colour_row_def Let_def
proof (rule fold_kept [OF assms(1)])
  fix col d' assume c: "col \<in> set [x..<width]" and k: "kept d d'"
  have "col < lcd_width d'" "row < lcd_height d'" "lcd_bpp d' = 16" using c assms kept_fields [OF k] by auto
  then have "kept d' (put16 (int (row * lcd_width d' + col)) v d')" for v
    using cell_less [of col "lcd_width d'" row "lcd_height d'"] kept_fields(4) [OF k]
    by (intro put16_kept) (simp_all only: of_nat_less_iff of_nat_0_le_iff)
  moreover have "kept d' d'" using kept_refl kept_fields(4) [OF k] .
  ultimately show "kept d' (if b then put16 (int (row * lcd_width d' + col)) v d' else d')" for b v
    by (rule if_split [THEN iffD2, OF conjI, OF impI impI])
qed

lemma bmp_rows_kept:
  assumes "\<And>r bri d'. row \<le> r \<Longrightarrow> r < row + n \<Longrightarrow> kept d d' \<Longrightarrow> kept d' (draw r bri d')" "kept d d0"
  shows "kept d (bmp_rows draw limit n row bri d0)"
  using assms
proof (induction n arbitrary: row bri d0)
  case (Suc n)
  have "kept d (draw row bri d0)" using kept_trans [OF Suc.prems(2) Suc.prems(1)] Suc.prems(2) by simp
  then show ?case using Suc.IH [of "Suc row" "draw row bri d0" "bri - 1"] Suc.prems by simp
qed simp

lemma min_of_nat: "unat (min a (of_nat n) :: u32) \<le> n"
proof -
  have "unat (min a (of_nat n) :: u32) \<le> unat (of_nat n :: u32)" by (simp add: word_le_nat_alt [symmetric])
  also have "\<dots> \<le> n" by (simp add: unat_of_nat)
  finally show ?thesis .
qed

lemma bmp_extent_inside:
  "bmp_extent h x y left tp right bottom d = (width, height, lst) \<Longrightarrow> width \<le> lcd_width d \<and> height \<le> lcd_height d"
  by (auto simp: bmp_extent_def min_of_nat split: if_splits)

lemma put_bmp_kept:
  assumes "good_disp d"
  shows "kept d (snd (put_bmp_file_buff f x y tc left tp right bottom d))"
proof -
  obtain width height lst where e: "bmp_extent (bmp_header_of f) x y left tp right bottom d = (width, height, lst)"
    by (metis prod_cases3)
  note b = bmp_extent_inside [OF e]
  have "kept d (bmp_rows (mono_row f h ff x width left) limit (height - y) y bri d)" if "lcd_bpp d = 1" for h ff limit bri
    by (rule bmp_rows_kept [OF mono_row_kept kept_refl [OF assms]]) (use b that kept_fields in auto)
  moreover have "kept d (bmp_rows (colour_row f h tc x width left) limit (height - y) y bri d)" if "lcd_bpp d = 16" for h limit bri
    by (rule bmp_rows_kept [OF colour_row_kept kept_refl [OF assms]]) (use b that kept_fields in auto)
  ultimately show ?thesis
    using kept_refl [OF assms] by (simp add: put_bmp_file_buff_def Let_def e)
qed

lemma put_rect_kept:
  assumes "good_disp d" "lcd_bpp d = 16" "0 \<le> x1" "x2 < int (lcd_width d)" "0 \<le> y1" "y1 \<le> y2" "y2 < int (lcd_height d)" "x1 \<le> x2"
  shows "kept d (frame_rect x1 y1 x2 y2 d)" "kept d (fill_rect color x1 y1 x2 y2 d)"
proof -
  have put: "kept d' (put16 (j * int (lcd_width d) + i) v d')"
    if "kept d d'" "x1 \<le> i" "i \<le> x2" "y1 \<le> j" "j \<le> y2" for d' i j v
  proof -
    note f = kept_fields [OF that(1)]
    have r: "0 \<le> j * int (lcd_width d) + i" "j * int (lcd_width d) + i < int (lcd_width d * lcd_height d)"
      using cell_range [of i "lcd_width d" j "lcd_height d"] that assms by linarith+
    show ?thesis using f assms(2) r by (intro put16_kept) (simp_all only:)
  qed
  have put2: "kept d' (put16 (j2 * int (lcd_width d) + i2) v (put16 (j * int (lcd_width d) + i) v d'))"
    if "kept d d'" "x1 \<le> i" "i \<le> x2" "y1 \<le> j" "j \<le> y2" "x1 \<le> i2" "i2 \<le> x2" "y1 \<le> j2" "j2 \<le> y2" for d' i j i2 j2 v
    using put [of d' i j v] put [of _ i2 j2 v] that kept_trans by blast
  show "kept d (fill_rect color x1 y1 x2 y2 d)"
    unfolding fill_rect_def
  proof (rule fold_kept [OF assms(1)])
    fix j d' assume j: "j \<in> set [y1..y2]" and k: "kept d d'"
    show "kept d' (fold (\<lambda>i d. put16 (j * int (lcd_width d) + i) (word_of_int color) d) [x1..x2] d')"
    proof (rule fold_kept [OF kept_fields(4) [OF k]])
      fix i d'' assume i: "i \<in> set [x1..x2]" and k2: "kept d' d''"
      show "kept d'' (put16 (j * int (lcd_width d'') + i) (word_of_int color) d'')"
        using put [OF kept_trans [OF k k2], of i j] i j kept_fields(1) [OF kept_trans [OF k k2]] by simp
    qed
  qed
  define d1 where "d1 = fold (\<lambda>i d'. put16 (y1 * int (lcd_width d) + (y2 - y1) * int (lcd_width d) + i) (word_of_int (disp_color d))
      (put16 (y1 * int (lcd_width d) + i) (word_of_int (disp_color d)) d')) [x1..x2] d"
  have e: "y1 * int (lcd_width d) + (y2 - y1) * int (lcd_width d) + i = y2 * int (lcd_width d) + i" for i
    by (simp add: left_diff_distrib)
  have k1: "kept d d1"
    unfolding d1_def e by (rule fold_kept [OF assms(1)]) (use put2 assms in auto)
  have "kept d1 (fold (\<lambda>j d'. put16 (j * int (lcd_width d) + x2) (word_of_int (disp_color d))
      (put16 (j * int (lcd_width d) + x1) (word_of_int (disp_color d)) d')) [y1..y2] d1)"
    by (rule fold_kept [OF kept_fields(4) [OF k1]]) (use put2 kept_trans [OF k1] assms in auto)
  then show "kept d (frame_rect x1 y1 x2 y2 d)"
    using kept_trans [OF k1] by (simp add: frame_rect_def Let_def d1_def)
qed

lemma mono_rect_kept:
  assumes "good_disp d" "lcd_bpp d = 1" "x2 < int (lcd_width d)" "y2 < int (lcd_height d)"
  shows "kept d (mono_rect color x1 y1 x2 y2 d)"
  unfolding mono_rect_def
proof (rule fold_kept [OF assms(1)])
  fix x d' assume x: "x \<in> set [nat (x1 mod 2 ^ 16)..<nat x2]" and k: "kept d d'"
  show "kept d' (fold (\<lambda>y d. if color = lcd_hwfillcolor d then fill_pixel x y d else unfill_pixel x y d)
      [nat (y1 mod 2 ^ 16)..<nat y2] d')"
  proof (rule fold_kept [OF kept_fields(4) [OF k]])
    fix y d'' assume y: "y \<in> set [nat (y1 mod 2 ^ 16)..<nat y2]" and k2: "kept d' d''"
    note f = kept_fields [OF kept_trans [OF k k2]]
    have "x < lcd_width d''" "y < lcd_height d''" "lcd_bpp d'' = 1" using x y assms f by auto
    note fill = fill_kept [OF f(4) this(3,1,2)]
    then show "kept d'' (if color = lcd_hwfillcolor d'' then fill_pixel x y d'' else unfill_pixel x y d'')" by simp
  qed
qed

lemma drawrect_kept:
  assumes "good_disp d" "0 \<le> x1" "0 \<le> y1"
  shows "kept d (snd (platform_disp_drawrect x1 y1 x2 y2 color d))"
proof -
  define a where "a = min x1 (int (lcd_width d) - 1)"
  define b where "b = min y1 (int (lcd_height d) - 1)"
  define a2 where "a2 = min x2 (int (lcd_width d) - 1)"
  define b2 where "b2 = min y2 (int (lcd_height d) - 1)"
  have lim: "a2 < int (lcd_width d)" "b2 < int (lcd_height d)" by (simp_all add: a2_def b2_def)
  show ?thesis
  proof (cases "a2 \<le> a \<or> b2 \<le> b")
    case True
    then show ?thesis
      using kept_refl [OF assms(1)] unfolding platform_disp_drawrect_def Let_def a_def [symmetric] b_def [symmetric] a2_def [symmetric] b2_def [symmetric] by simp
  next
    case False
    then have o: "0 \<le> a" "0 \<le> b" "a \<le> a2" "b \<le> b2" using lim assms by (auto simp: a_def b_def)
    show ?thesis
      using put_rect_kept [OF assms(1) _ o(1) lim(1) o(2,4) lim(2) o(3)] mono_rect_kept [OF assms(1) _ lim] kept_refl [OF assms(1)] False
      unfolding platform_disp_drawrect_def Let_def a_def [symmetric] b_def [symmetric] a2_def [symmetric] b2_def [symmetric] by simp
  qed
qed

lemma char_bitmap_bpp: "bm_bpp (getCharBitmap hz charcode d) = 1"
  by (simp add: getCharBitmap_def getHzBitmap_def getFontBitmap_def Let_def)

lemma draw_char_kept: "good_disp d \<Longrightarrow> bm_bpp bm = 1 \<Longrightarrow> kept d (snd (draw_char bm xy d))"
  using bitmap_kept [of d bm] by (cases xy) (auto simp: draw_char_def good_disp_def)

lemma put_loop_kept: "good_disp d \<Longrightarrow> kept d (put_loop hz t wh xy d)"
proof (induction hz t wh xy d rule: put_loop.induct)
  case (1 hz t wh xy d)
  show ?case
  proof (cases "t = []")
    case True
    then show ?thesis using kept_refl [OF 1(3)] by (simp add: put_loop.simps)
  next
    case t: False
    show ?thesis
    proof (cases "hd t = 13 \<or> hd t = 10")
      case True
      then show ?thesis using 1(1) [OF t True 1(3)] t by (subst put_loop.simps) simp
    next
      case False
      obtain charcode n where n: "next_char t = (charcode, n)" by (metis surj_pair)
      obtain wh' d' where dc: "draw_char (getCharBitmap hz charcode d) xy d = (wh', d')" by (metis surj_pair)
      have "kept d (snd (draw_char (getCharBitmap hz charcode d) xy d))" by (rule draw_char_kept [OF 1(3) char_bitmap_bpp])
      then have k: "kept d d'" by (simp add: dc)
      have "kept d' (put_loop hz (drop n t) wh' (advance wh' d' xy) d')"
        by (rule 1(2) [OF t False n [symmetric] refl dc [symmetric] refl kept_fields(4) [OF k]])
      then have "kept d (put_loop hz (drop n t) wh' (advance wh' d' xy) d')" by (rule kept_trans [OF k])
      then show ?thesis using t False by (subst put_loop.simps) (simp add: n dc)
    qed
  qed
qed

subsection \<open>Properties\<close>

text \<open>Everything that can be drawn, one operation after the other: any text, any BMP file, rectangles whose
  left upper corner is not negative, with any colours and fonts.\<close>

inductive drawn :: "disp \<Rightarrow> disp \<Rightarrow> bool" for d0 where
  start: "drawn d0 d0"
| clear: "drawn d0 d \<Longrightarrow> drawn d0 (platform_disp_clear d)"
| puttext: "drawn d0 d \<Longrightarrow> drawn d0 (platform_disp_puttext hz junk string x y d)"
| bmp: "drawn d0 d \<Longrightarrow> strstr filename ''.bmp'' \<or> strstr filename ''.BMP'' \<Longrightarrow>
    drawn d0 (snd (platform_disp_putimage bmp_files png_files filename x y transcolor left tp right bottom d))"
| rect: "drawn d0 d \<Longrightarrow> 0 \<le> x1 \<Longrightarrow> 0 \<le> y1 \<Longrightarrow> drawn d0 (snd (platform_disp_drawrect x1 y1 x2 y2 color d))"
| colour: "drawn d0 d \<Longrightarrow> drawn d0 (snd (platform_disp_setcolor color d))"
| bkcolour: "drawn d0 d \<Longrightarrow> drawn d0 (snd (platform_disp_setbkcolor color d))"
| load: "drawn d0 d \<Longrightarrow> drawn d0 (snd (platform_disp_loadfont buf d))"
| font: "drawn d0 d \<Longrightarrow> drawn d0 (snd (platform_disp_setfont i d))"

definition dims :: "disp \<Rightarrow> nat \<times> nat \<times> nat \<times> nat" where
  "dims d = (lcd_width d, lcd_height d, lcd_bpp d, length (framebuffer d))"

lemma kept_dims: "kept d d' \<Longrightarrow> dims d = e \<Longrightarrow> good_disp d' \<and> dims d' = e"
  using kept_fields [of d d'] same_panel_fields(10) [of d d'] by (simp add: kept_def dims_def)

lemma settings_dims:
  "good_disp (d\<lparr>disp_color := c\<rparr>) = good_disp d" "good_disp (d\<lparr>disp_bkcolor := c\<rparr>) = good_disp d"
  "good_disp (d\<lparr>dispFonts := fs\<rparr>) = good_disp d" "good_disp (d\<lparr>curr_font_id := i\<rparr>) = good_disp d"
  "dims (d\<lparr>disp_color := c\<rparr>) = dims d" "dims (d\<lparr>disp_bkcolor := c\<rparr>) = dims d"
  "dims (d\<lparr>dispFonts := fs\<rparr>) = dims d" "dims (d\<lparr>curr_font_id := i\<rparr>) = dims d"
  by (simp_all add: good_disp_def colour_panel_def mono_panel_def dims_def)

lemma drawn_good:
  assumes "drawn d0 d" "good_disp d0"
  shows "good_disp d \<and> dims d = dims d0"
  using assms(1)
proof induction
  case start
  then show ?case using assms(2) by simp
next
  case (clear d)
  then show ?case using kept_dims [OF clear_kept] by blast
next
  case (puttext d hz junk string x y)
  then show ?case unfolding platform_disp_puttext_def using kept_dims [OF put_loop_kept] by blast
next
  case (bmp d filename bmp_files png_files x y transcolor left tp right bottom)
  then show ?case
    using kept_dims [OF put_bmp_kept] by (auto simp: platform_disp_putimage_def split: option.split)
next
  case (rect d x1 y1 x2 y2 color)
  then show ?case using kept_dims [OF drawrect_kept] by blast
qed (simp_all add: platform_disp_setcolor_def platform_disp_setbkcolor_def platform_disp_loadfont_def
    platform_disp_setfont_def settings_dims Let_def)

text \<open>C15: Nothing is written outside the frame buffer: starting from \<^verbatim>\<open>platform_disp_init\<close> on a colour panel,
  or on a black-and-white panel whose height is a multiple of eight, any sequence of clearing, text, BMP
  files (malformed ones too), rectangles from a non-negative corner, colours and fonts keeps every write
  inside the allocated block.\<close>

theorem disp_stays_inside:
  assumes "bpp = 16 \<or> bpp = 1 \<and> 8 dvd height" "drawn (platform_disp_init mem dat width height bpp hwfill) d"
  shows "\<not> stray d \<and> lcd_width d = width \<and> lcd_height d = height \<and> length (framebuffer d) = width * height * bpp div 8"
proof -
  let ?d0 = "platform_disp_init mem dat width height bpp hwfill"
  have "good_disp ?d0"
    using assms(1) by (auto simp: platform_disp_init_def good_disp_def colour_panel_def mono_panel_def Let_def)
  from drawn_good [OF assms(2) this] show ?thesis
    by (auto simp: good_disp_def colour_panel_def mono_panel_def dims_def platform_disp_init_def Let_def)
qed

theorem disp_stays_inside_witness:
  "\<not> stray (platform_disp_clear (platform_disp_init (\<lambda>i. 0) (\<lambda>i. 0) 4 8 1 0))"
  using disp_stays_inside [OF _ drawn.clear [OF drawn.start], of 1 8 "\<lambda>i. 0" "\<lambda>i. 0" 4 0] by simp

text \<open>C16: Drawing a one-bit bitmap, the glyph of a character, on both kinds of panel: a pixel takes the
  foreground colour (on a black-and-white panel, whether that is the fill colour) exactly when it lies under
  the bitmap and the bit of the bitmap is set; every other pixel of the panel stays, those sharing its byte too.\<close>

theorem disp_bitmap_pixels:
  assumes "X < lcd_width d" "Y < lcd_height d"
  shows "(colour_panel d \<longrightarrow> pixel16 (disp_1bitbmp_bpp16 bm x y d) X Y =
      (if x \<le> X \<and> X < x + bm_width bm \<and> y \<le> Y \<and> Y < y + bm_height bm \<and> bm_bit bm (X - x) (Y - y)
       then word_of_int (disp_color d) else pixel16 d X Y)) \<and>
    (mono_panel d \<and> bm_bpp bm = 1 \<longrightarrow> pixel1 (disp_bitmap_bpp1 bm x y d) X Y =
      (if x \<le> X \<and> X < x + bm_width bm \<and> y \<le> Y \<and> Y < y + bm_height bm \<and> bm_bit bm (X - x) (Y - y)
       then disp_color d = lcd_hwfillcolor d else pixel1 d X Y))"
proof (intro conjI impI)
  let ?xs = "[x..<min (lcd_width d) (x + bm_width bm)]" and ?ys = "[y..<min (lcd_height d) (y + bm_height bm)]"
  assume c: "colour_panel d"
  have "pixel16 (paint plot16 (bm_paint bm x y (word_of_int (disp_color d))) ?xs ?ys d) X Y =
      (if X \<in> set ?xs \<and> Y \<in> set ?ys
       then (case bm_paint bm x y (word_of_int (disp_color d)) X Y of Some c \<Rightarrow> c | None \<Rightarrow> pixel16 d X Y) else pixel16 d X Y)"
    using colour.region [OF c, of ?xs ?ys] assms by simp
  then show "pixel16 (disp_1bitbmp_bpp16 bm x y d) X Y =
      (if x \<le> X \<and> X < x + bm_width bm \<and> y \<le> Y \<and> Y < y + bm_height bm \<and> bm_bit bm (X - x) (Y - y)
       then word_of_int (disp_color d) else pixel16 d X Y)"
    unfolding bpp16_paint [OF c] using assms by (auto simp: bm_paint_def)
next
  let ?xs = "[x..<min (lcd_width d) (x + bm_width bm)]" and ?ys = "[y..<min (lcd_height d) (y + bm_height bm)]"
  assume c: "mono_panel d \<and> bm_bpp bm = 1"
  have "pixel1 (paint plot1 (bm_paint bm x y (disp_color d = lcd_hwfillcolor d)) ?xs ?ys d) X Y =
      (if X \<in> set ?xs \<and> Y \<in> set ?ys
       then (case bm_paint bm x y (disp_color d = lcd_hwfillcolor d) X Y of Some c \<Rightarrow> c | None \<Rightarrow> pixel1 d X Y) else pixel1 d X Y)"
    using mono.region [OF c [THEN conjunct1], of ?xs ?ys] assms by simp
  then show "pixel1 (disp_bitmap_bpp1 bm x y d) X Y =
      (if x \<le> X \<and> X < x + bm_width bm \<and> y \<le> Y \<and> Y < y + bm_height bm \<and> bm_bit bm (X - x) (Y - y)
       then disp_color d = lcd_hwfillcolor d else pixel1 d X Y)"
    unfolding bpp1_paint [OF c [THEN conjunct1] c [THEN conjunct2]] using assms by (auto simp: bm_paint_def)
qed

theorem disp_bitmap_pixels_witness:
  "pixel1 (disp_bitmap_bpp1 \<lparr>bm_width = 1, bm_height = 1, bm_bpp = 1, bm_data = \<lambda>i. 0x80\<rparr> 2 3
     (platform_disp_init (\<lambda>i. 0) (\<lambda>i. 0) 4 8 1 0xffff)) 2 3"
  using disp_bitmap_pixels [of 2 "platform_disp_init (\<lambda>i. 0) (\<lambda>i. 0) 4 8 1 0xffff" 3
      "\<lparr>bm_width = 1, bm_height = 1, bm_bpp = 1, bm_data = \<lambda>i. 0x80\<rparr>" 2 3]
  by (simp add: platform_disp_init_def mono_panel_def bm_bit_def)

lemma fold_stray:
  assumes "x \<in> set xs" "I d" "\<And>x d. I d \<Longrightarrow> I (f x d)" "\<And>d. I d \<Longrightarrow> stray (f x d)" "\<And>x d. stray d \<Longrightarrow> stray (f x d)"
  shows "stray (fold f xs d)"
proof -
  have keep: "stray e \<Longrightarrow> stray (fold f zs e)" for zs e using assms(5) by (induction zs arbitrary: e) simp_all
  have inv: "I e \<Longrightarrow> I (fold f zs e)" for zs e using assms(3) by (induction zs arbitrary: e) simp_all
  obtain as bs where "xs = as @ x # bs" using assms(1) by (meson split_list)
  then show ?thesis using keep inv [OF assms(2)] assms(4) by simp
qed

lemma fold_stray_mono: "(\<And>x d. stray d \<Longrightarrow> stray (f x d)) \<Longrightarrow> stray d \<Longrightarrow> stray (fold f xs d)"
  by (induction xs arbitrary: d) simp_all

lemma put_dims: "dims (put16 i v d) = dims d" "dims (upd8 i f d) = dims d"
  by (simp_all add: put16_def upd8_def dims_def)

lemma put_stray: "stray d \<Longrightarrow> stray (put16 i v d)" "stray d \<Longrightarrow> stray (upd8 i f d)"
  by (simp_all add: put16_def upd8_def)

lemma plot1_frame: "dims (plot1 c x y d) = dims d" "stray d \<Longrightarrow> stray (plot1 c x y d)"
  by (simp_all add: plot1_def fill_pixel_def unfill_pixel_def put_dims put_stray)

lemma fold_dims: "(\<And>x d. dims (f x d) = dims d) \<Longrightarrow> dims (fold f xs d) = dims d"
  by (induction xs arbitrary: d) simp_all

lemma rect_negative_strays:
  assumes "lcd_bpp d = 16" "1 < lcd_width d" "1 < lcd_height d" "x1 < 0" "y1 \<le> 0" "0 < x2" "0 < y2" "color \<noteq> - 1"
  shows "stray (snd (platform_disp_drawrect x1 y1 x2 y2 color d))"
proof -
  define a2 where "a2 = min x2 (int (lcd_width d) - 1)"
  define b2 where "b2 = min y2 (int (lcd_height d) - 1)"
  have m: "min x1 (int (lcd_width d) - 1) = x1" "min y1 (int (lcd_height d) - 1) = y1" using assms by auto
  have a: "0 < a2" "0 < b2" using assms by (auto simp: a2_def b2_def)
  have row: "stray (fold (\<lambda>i d. put16 (y1 * int (lcd_width d) + i) (word_of_int color) d) [x1..a2] d')" for d'
  proof (rule fold_stray [where x = x1 and I = "\<lambda>d. True"])
    fix d :: disp
    have "y1 * int (lcd_width d) \<le> 0" using assms(5) by (simp add: mult_nonpos_nonneg)
    then show "stray (put16 (y1 * int (lcd_width d) + x1) (word_of_int color) d)" using assms(4) by (simp add: put16_def)
  qed (use assms a in \<open>auto simp: put_stray\<close>)
  have "stray (fill_rect color x1 y1 a2 b2 d)"
    unfolding fill_rect_def
    by (rule fold_stray [where x = y1 and I = "\<lambda>d. True"]) (use row assms(5) a in \<open>auto intro: fold_stray_mono put_stray\<close>)
  then show ?thesis
    using assms a unfolding platform_disp_drawrect_def Let_def m a2_def [symmetric] b2_def [symmetric] by simp
qed

lemma upd8_outside: "length (framebuffer d) \<le> k \<Longrightarrow> upd8 (int k) f d = d\<lparr>stray := True\<rparr>"
  by (simp add: upd8_def)

lemma last_row_strays:
  assumes "\<not> 8 dvd lcd_height d" "0 < lcd_width d" "length (framebuffer d) = lcd_width d * lcd_height d div 8"
  shows "stray (plot1 c (lcd_width d - 1) (lcd_height d - 1) d)"
proof -
  define w where "w = lcd_width d"
  define a where "a = lcd_height d div 8"
  define r where "r = lcd_height d mod 8"
  have h: "lcd_height d = 8 * a + r" and r: "0 < r" "r < 8" using assms(1) by (auto simp: a_def r_def mod_greater_zero_iff_not_dvd)
  have "(lcd_height d - 1) div 8 = a" unfolding h using r by linarith
  moreover have "w * lcd_height d div 8 \<le> a * w + (w - 1)"
  proof -
    have "w * r < w * 8" using r assms(2) by (simp add: w_def)
    then have "w * r div 8 < w" by (simp add: less_mult_imp_div_less)
    moreover have "w * lcd_height d = w * r + 8 * (a * w)" unfolding h by (simp add: algebra_simps)
    then have "w * lcd_height d div 8 = w * r div 8 + a * w" by (simp only: div_mult_self2 zero_neq_numeral not_False_eq_True)
    ultimately show ?thesis by linarith
  qed
  ultimately have "length (framebuffer d) \<le> (lcd_height d - 1) div 8 * w + (w - 1)" using assms(3) by (simp add: w_def)
  then show ?thesis
    unfolding plot1_def fill_pixel_def unfill_pixel_def w_def [symmetric] by (simp only: upd8_outside) simp
qed

lemma bitmap_last_row_strays:
  assumes "lcd_width d = w" "lcd_height d = h" "\<not> 8 dvd h" "0 < w" "length (framebuffer d) = w * h div 8"
    and "bm_bpp bm = 1" "x < w" "w \<le> x + bm_width bm" "y < h" "h \<le> y + bm_height bm" "bm_bit bm (w - 1 - x) (h - 1 - y)"
  shows "stray (disp_bitmap_bpp1 bm x y d)"
proof -
  let ?I = "\<lambda>e. dims e = (w, h, lcd_bpp d, w * h div 8)"
  define f where "f x' y' e = (if bm_bit bm (x' - x) (y' - y) 
      then (if disp_color e = lcd_hwfillcolor e then fill_pixel x' y' e else unfill_pixel x' y' e) else e)"
    for x' y' and e :: disp
  have f: "dims (f x' y' e) = dims e" "stray e \<Longrightarrow> stray (f x' y' e)" for x' y' e
    using plot1_frame [where c = True] plot1_frame [where c = False] by (simp_all add: f_def plot1_def)
  have hit: "stray (f (w - 1) (h - 1) e)" if "?I e" for e
  proof -
    have e: "lcd_width e = w" "lcd_height e = h" "length (framebuffer e) = w * h div 8" using that by (auto simp: dims_def)
    then have "stray (plot1 c (w - 1) (h - 1) e)" for c using last_row_strays [of e c] assms(3,4) by simp
    from this [of True] this [of False] show ?thesis using assms(11) by (simp add: f_def plot1_def)
  qed
  have col: "stray (fold (f (w - 1)) [y..<h] e)" if "?I e" for e
    by (rule fold_stray [where x = "h - 1" and I = ?I]) (use that f hit assms(9) in auto)
  have "stray (fold (\<lambda>x'. fold (f x') [y..<h]) [x..<w] d)"
    by (rule fold_stray [where x = "w - 1" and I = ?I])
      (use f col assms in \<open>auto simp: fold_dims intro: fold_stray_mono simp: dims_def [of d]\<close>)
  moreover have "disp_bitmap_bpp1 bm x y d = fold (\<lambda>x'. fold (f x') [y..<h]) [x..<w] d"
    using assms(1,2,6,8,10) by (simp add: disp_bitmap_bpp1_def f_def [abs_def] Let_def min_def)
  ultimately show ?thesis by simp
qed

lemma png_line_frame:
  "dims (png_line rb ch x y tc left tp right r d) = dims d"
  "stray d \<Longrightarrow> stray (png_line rb ch x y tc left tp right r d)"
  unfolding png_line_def Let_def
  by (rule fold_dims, simp add: put_dims) (rule fold_stray_mono, simp_all add: put_stray)

lemma png_below_strays:
  assumes "lcd_width d = w" "lcd_height d = h" "length (framebuffer d) = 2 * (w * h)" "w < 2 ^ 16" "h < 2 ^ 16"
  shows "stray (png_line rb ch 0 0 (- 1) 0 0 right h d)"
  unfolding png_line_def Let_def
proof (rule fold_stray [where x = 0 and I = "\<lambda>e. dims e = dims d"])
  fix e assume "dims e = dims d"
  then have e: "lcd_width e = w" "length (framebuffer e) = 2 * (w * h)" using assms by (simp_all add: dims_def)
  have "h * w < 2 ^ 16 * 2 ^ 16" using assms(4,5) by (intro mult_strict_mono) auto
  then have "unat (of_nat (h * w) :: u32) = h * w" by (intro of_nat_inverse [OF refl]) simp
  then have "uint (of_nat (h * w) :: u32) = int (h * w)" by (metis of_nat_unat)
  moreover have "(of_nat (0 + h) - of_nat 0) * of_nat (lcd_width e) + (of_nat (0 + 0) - of_nat 0) = (of_nat (h * w) :: u32)"
    using e by simp
  ultimately have i: "uint ((of_nat (0 + h) - of_nat 0) * of_nat (lcd_width e) + (of_nat (0 + 0) - of_nat 0) :: u32) = int (h * w)"
    by (simp only:)
  have "\<not> 2 * (h * w) + 1 < length (framebuffer e)" using e by (simp add: mult.commute)
  then show "stray (if - 1 = (- 1 :: int) \<or> uint v \<noteq> - 1 then put16 (uint ((of_nat (0 + h) - of_nat 0) * of_nat (lcd_width e)
      + (of_nat (0 + 0) - of_nat 0) :: u32)) v e else e)" for v :: u16
    unfolding i put16_def nat_int by (simp only: simp_thms if_True if_False) simp
qed (auto simp: put_dims put_stray)

lemma png_rows_strays:
  assumes "\<And>i. png_row png i \<noteq> None" "row \<le> r" "r < row + n" "r \<le> bottom" "dims e = dims d"
    and "\<And>rb e. dims e = dims d \<Longrightarrow> stray (png_line rb (png_channel png) x y tc left 0 right r e)"
  shows "stray (snd (png_rows png x y tc left 0 right bottom n row e))"
  using assms(2-5)
proof (induction n arbitrary: row e)
  case (Suc n)
  obtain rb where rb: "png_row png row = Some rb" using assms(1) by blast
  have keep: "stray e' \<Longrightarrow> stray (snd (png_rows png x y tc left 0 right bottom m i e'))" for m i e'
    by (induction m arbitrary: i e') (auto simp: png_line_frame split: option.split)
  show ?case
  proof (cases "r = row")
    case True
    then show ?thesis using Suc.prems rb assms(6) [OF Suc.prems(4), of rb] by (simp add: keep)
  next
    case False
    then show ?thesis using Suc rb by (simp add: png_line_frame)
  qed
qed simp

text \<open>What is not checked.  On a colour panel a rectangle with a negative left edge that starts in row 0 or
  above writes before the frame buffer.  A black-and-white panel whose height is no multiple of eight has no
  bytes for its last rows: a bitmap with its lower right bit on the last pixel writes past the end.  A PNG
  file taller than the panel is not clipped and writes past the end.\<close>

theorem disp_unclipped:
  assumes "lcd_width d = w" "lcd_height d = h" "1 < w" "1 < h" "w < 2 ^ 16" "h < 2 ^ 16"
    and "length (framebuffer d) = w * h * lcd_bpp d div 8"
  shows "(lcd_bpp d = 16 \<and> x1 < 0 \<and> y1 \<le> 0 \<and> 0 < x2 \<and> 0 < y2 \<and> color \<noteq> - 1 \<longrightarrow>
      stray (snd (platform_disp_drawrect x1 y1 x2 y2 color d))) \<and>
    (lcd_bpp d = 1 \<and> \<not> 8 dvd h \<and> bm_bpp bm = 1 \<and> x < w \<and> w \<le> x + bm_width bm \<and> y < h \<and> h \<le> y + bm_height bm \<and>
      bm_bit bm (w - 1 - x) (h - 1 - y) \<longrightarrow> stray (disp_bitmap_bpp1 bm x y d)) \<and>
    (lcd_bpp d = 16 \<and> h < unat (png_height png) \<and> png_channel png \<in> {3, 4} \<and> png_row_buf png \<and> (\<forall>i. png_row png i \<noteq> None) \<longrightarrow>
      stray (snd (put_png_file_buff (Some png) 0 0 (- 1) 0 0 0 0 d)))"
proof (intro conjI impI)
  assume "lcd_bpp d = 16 \<and> x1 < 0 \<and> y1 \<le> 0 \<and> 0 < x2 \<and> 0 < y2 \<and> color \<noteq> - 1"
  then show "stray (snd (platform_disp_drawrect x1 y1 x2 y2 color d))"
    using assms by (intro rect_negative_strays) auto
next
  assume "lcd_bpp d = 1 \<and> \<not> 8 dvd h \<and> bm_bpp bm = 1 \<and> x < w \<and> w \<le> x + bm_width bm \<and> y < h \<and> h \<le> y + bm_height bm \<and>
    bm_bit bm (w - 1 - x) (h - 1 - y)"
  then show "stray (disp_bitmap_bpp1 bm x y d)"
    using assms by (intro bitmap_last_row_strays [where w = w and h = h]) auto
next
  assume a: "lcd_bpp d = 16 \<and> h < unat (png_height png) \<and> png_channel png \<in> {3, 4} \<and> png_row_buf png \<and> (\<forall>i. png_row png i \<noteq> None)"
  have len: "length (framebuffer d) = 2 * (w * h)" using assms(7) a by simp
  have "unat (png_height png - 1) = unat (png_height png) - 1" using a by (intro unat_minus_one) auto
  then have bottom: "h \<le> unat (png_height png - 1)" using a by linarith
  have "stray (snd (png_rows png 0 0 (- 1) 0 0 (unat (png_width png - 1)) (unat (png_height png - 1)) (unat (png_height png)) 0 d))"
  proof (rule png_rows_strays [where r = h and d = d])
    fix rb e assume "dims e = dims d"
    then have "lcd_width e = w" "lcd_height e = h" "length (framebuffer e) = 2 * (w * h)" using assms len by (simp_all add: dims_def)
    then show "stray (png_line rb (png_channel png) 0 0 (- 1) 0 0 (unat (png_width png - 1)) h e)"
      using assms by (intro png_below_strays)
  qed (use a bottom in auto)
  then show "stray (snd (put_png_file_buff (Some png) 0 0 (- 1) 0 0 0 0 d))" using a by (auto simp: put_png_file_buff_def)
qed

theorem disp_unclipped_witness:
  "stray (snd (platform_disp_drawrect (- 1) 0 3 3 0 (platform_disp_init (\<lambda>i. 0) (\<lambda>i. 0) 4 4 16 0)))"
  using disp_unclipped [of "platform_disp_init (\<lambda>i. 0) (\<lambda>i. 0) 4 4 16 0" 4 4 "- 1" 0 3 3 0]
  by (simp add: platform_disp_init_def)

end
