(* ===== verification/Lcd.thy ===== *)
theory Lcd
  imports Display Pio
begin

unbundle bit_operations_syntax

text \<open>
  The panel behind the frame buffer: \<^verbatim>\<open>platform/coolsand/src/platform_lcd.c\<close>.  The four kinds of bus are
  tables of functions in C; here they are the constructors of \<open>lcd_driver\<close> and each operation cases on
  them.  Every call that leaves the module is recorded in order.
\<close>

subsection \<open>State and calls\<close>

datatype lcd_bus = BUS_SPI4LINE | BUS_PARALLEL | BUS_I2C | BUS_SPI

datatype lcd_driver = Color | Mono | I2c | Spi

record lcd_itf =
  bus_id :: int
  slave_addr :: u16
  cmd_addr :: u8
  data_addr :: u8
  pin_rs :: int
  freq :: int

record lcd_rect =
  ltx :: u16
  lty :: u16
  rbx :: u16
  rby :: u16

datatype lcd_call =
    Sleep nat
  | Color_cmd u16 | Color_data u16 | Update_color lcd_rect bytes
  | Mono_cmd u16 | Mono_data u16 | Update_mono lcd_rect
  | I2c_send int u16 u8 bytes
  | Gpio_set int bool | Spi_write bytes
  | Gpio_output nat
  | Init_color lcd_bus nat nat nat nat | Init_mono nat nat u16 u16 nat nat
  | I2c_setup int int u16 | Spi_setup int
  | Assertion

record lcd_param =
  p_width :: nat
  p_height :: nat
  p_bpp :: nat
  p_x_offset :: u16
  p_y_offset :: u16
  p_bus :: lcd_bus
  p_itf :: lcd_itf
  p_pin_cs :: int
  p_pin_rst :: int
  p_init_cmd :: "u32 list"
  p_sleep_cmd :: "u32 list"
  p_wake_cmd :: "u32 list"

record lcd =
  l_bpp :: nat
  lcd_x_offset :: u16
  lcd_y_offset :: u16
  lcd_sleep_cmd :: "u32 list"
  lcd_wake_cmd :: "u32 list"
  lcd_drv :: lcd_driver
  lcd_bus_itf :: lcd_itf
  lcd_first_update :: bool
  lcd_calls :: "lcd_call list"

definition llog :: "lcd_call list \<Rightarrow> lcd \<Rightarrow> lcd" where
  "llog cs l = l\<lparr>lcd_calls := lcd_calls l @ cs\<rparr>"

definition delayMilliseconds :: "nat \<Rightarrow> lcd_call" where
  "delayMilliseconds ms = Sleep (ms * 16384 div 1000)"

subsection \<open>Bus operations\<close>

definition lcd_bus_i2c_write_cmd :: "lcd_itf \<Rightarrow> u16 \<Rightarrow> lcd_call list" where
  "lcd_bus_i2c_write_cmd itf cmd = [I2c_send (bus_id itf) (slave_addr itf) (cmd_addr itf) [ucast cmd]]"

definition lcd_bus_i2c_write_data :: "lcd_itf \<Rightarrow> u16 \<Rightarrow> lcd_call list" where
  "lcd_bus_i2c_write_data itf data = [I2c_send (bus_id itf) (slave_addr itf) (data_addr itf) [ucast data]]"

definition lcd_bus_i2c_write_data_buf :: "lcd_itf \<Rightarrow> bytes \<Rightarrow> lcd_call list" where
  "lcd_bus_i2c_write_data_buf itf buf = [I2c_send (bus_id itf) (slave_addr itf) (data_addr itf) buf]"

definition lcd_bus_spi_write_cmd :: "lcd_itf \<Rightarrow> u16 \<Rightarrow> lcd_call list" where
  "lcd_bus_spi_write_cmd itf cmd = [Gpio_set (pin_rs itf) False, Spi_write [ucast cmd]]"

definition lcd_bus_spi_write_data :: "lcd_itf \<Rightarrow> u16 \<Rightarrow> lcd_call list" where
  "lcd_bus_spi_write_data itf data = [Gpio_set (pin_rs itf) True, Spi_write [ucast data]]"

definition lcd_bus_spi_write_data_buf :: "lcd_itf \<Rightarrow> bytes \<Rightarrow> lcd_call list" where
  "lcd_bus_spi_write_data_buf itf buf = [Gpio_set (pin_rs itf) True, Spi_write buf]"

fun lcd_bus_write_cmd :: "lcd_driver \<Rightarrow> lcd_itf \<Rightarrow> u16 \<Rightarrow> lcd_call list" where
  "lcd_bus_write_cmd Color itf v = [Color_cmd v]"
| "lcd_bus_write_cmd Mono itf v = [Mono_cmd v]"
| "lcd_bus_write_cmd I2c itf v = lcd_bus_i2c_write_cmd itf v"
| "lcd_bus_write_cmd Spi itf v = lcd_bus_spi_write_cmd itf v"

fun lcd_bus_write_data :: "lcd_driver \<Rightarrow> lcd_itf \<Rightarrow> u16 \<Rightarrow> lcd_call list" where
  "lcd_bus_write_data Color itf v = [Color_data v]"
| "lcd_bus_write_data Mono itf v = [Mono_data v]"
| "lcd_bus_write_data I2c itf v = lcd_bus_i2c_write_data itf v"
| "lcd_bus_write_data Spi itf v = lcd_bus_spi_write_data itf v"

text \<open>Only the last two buses have a function for buffers.\<close>

fun lcd_bus_write_data_buf :: "lcd_driver \<Rightarrow> lcd_itf \<Rightarrow> bytes \<Rightarrow> lcd_call list" where
  "lcd_bus_write_data_buf I2c itf buf = lcd_bus_i2c_write_data_buf itf buf"
| "lcd_bus_write_data_buf Spi itf buf = lcd_bus_spi_write_data_buf itf buf"
| "lcd_bus_write_data_buf _ itf buf = []"

subsection \<open>Update\<close>

definition lcd_bus_color_update :: "lcd \<Rightarrow> lcd_rect \<Rightarrow> bytes \<Rightarrow> lcd_call list" where
  "lcd_bus_color_update l r buffer =
    (let lx = ltx r + lcd_x_offset l; ly = lty r + lcd_y_offset l; rx = rbx r + lcd_x_offset l; ry = rby r + lcd_y_offset l;
         cmd = lcd_bus_write_cmd (lcd_drv l) (lcd_bus_itf l); data = lcd_bus_write_data (lcd_drv l) (lcd_bus_itf l)
     in cmd 0x2A @ data (drop_bit 8 lx) @ data (lx AND 0xff) @ data (drop_bit 8 rx) @ data (rx AND 0xff)
        @ cmd 0x2B @ data (drop_bit 8 ly) @ data (ly AND 0xff) @ data (drop_bit 8 ry) @ data (ry AND 0xff)
        @ cmd 0x2C @ [Update_color r buffer])"

definition lcd_bus_mono_update :: "lcd_rect \<Rightarrow> lcd_call list" where
  "lcd_bus_mono_update r = [Update_mono r]"

text \<open>Page by page; the buffer of a page is what the frame buffer holds there.\<close>

definition lcd_common_mono_update :: "lcd \<Rightarrow> lcd_rect \<Rightarrow> bytes \<Rightarrow> lcd_call list" where
  "lcd_common_mono_update l r buffer =
    (let width = unat (rbx r) + 1; cmd = lcd_bus_write_cmd (lcd_drv l) (lcd_bus_itf l)
     in concat (map (\<lambda>page. cmd (0xB0 OR of_nat page) @ cmd 0x00 @ cmd 0x10
          @ lcd_bus_write_data_buf (lcd_drv l) (lcd_bus_itf l) (take width (drop (page * width) buffer)))
        [0..<(unat (rby r) + 1 + 7) div 8]))"

definition lcd_bus_update :: "lcd \<Rightarrow> lcd_rect \<Rightarrow> bytes \<Rightarrow> lcd_call list" where
  "lcd_bus_update l r buffer =
    (case lcd_drv l of Color \<Rightarrow> lcd_bus_color_update l r buffer | Mono \<Rightarrow> lcd_bus_mono_update r
     | _ \<Rightarrow> lcd_common_mono_update l r buffer)"

definition platform_lcd_update :: "lcd_rect \<Rightarrow> bytes \<Rightarrow> lcd \<Rightarrow> lcd" where
  "platform_lcd_update r buffer l =
    (let l1 = llog (lcd_bus_update l r buffer) l
     in if lcd_first_update l1
        then (if l_bpp l1 = 1
              then llog (lcd_bus_write_cmd (lcd_drv l1) (lcd_bus_itf l1) 0xAF) (l1\<lparr>lcd_first_update := False\<rparr>)
              else l1\<lparr>lcd_first_update := False\<rparr>)
        else l1)"

definition platform_disp_update :: "disp \<Rightarrow> lcd \<Rightarrow> lcd" where
  "platform_disp_update d l =
    platform_lcd_update \<lparr>ltx = 0, lty = 0, rbx = of_nat (lcd_width d - 1), rby = of_nat (lcd_height d - 1)\<rparr> (framebuffer d) l"

subsection \<open>Command tables\<close>

text \<open>One entry: the upper half says what the lower half is.  \<open>None\<close> is the failed assertion.\<close>

definition table_entry :: "lcd_driver \<Rightarrow> lcd_itf \<Rightarrow> u32 \<Rightarrow> lcd_call list option" where
  "table_entry drv itf e =
    (let flag = (ucast (drop_bit 16 e) :: u16); value = (ucast (e AND 0xffff) :: u16)
     in if flag = 1 then Some [delayMilliseconds (unat value)]
        else if flag = 0 \<or> flag = 2 then Some (lcd_bus_write_cmd drv itf (value AND 0xff))
        else if flag = 3 then Some (lcd_bus_write_data drv itf (value AND 0xff))
        else None)"

fun table_loop :: "lcd_driver \<Rightarrow> lcd_itf \<Rightarrow> u32 list \<Rightarrow> lcd_call list" where
  "table_loop drv itf [] = []"
| "table_loop drv itf (e # es) =
    (if e = 0xFFFFFFFF then []
     else (case table_entry drv itf e of None \<Rightarrow> [Assertion] | Some cs \<Rightarrow> cs @ table_loop drv itf es))"

definition write_command_table :: "u32 list \<Rightarrow> u16 \<Rightarrow> lcd \<Rightarrow> lcd" where
  "write_command_table table tsize l = llog (table_loop (lcd_drv l) (lcd_bus_itf l) (take (unat tsize) table)) l"

definition platform_lcd_powersave :: "int \<Rightarrow> lcd \<Rightarrow> lcd" where
  "platform_lcd_powersave sleep_wake l =
    (if sleep_wake \<noteq> 0 then write_command_table (lcd_sleep_cmd l) 0xFFFF l else write_command_table (lcd_wake_cmd l) 0xFFFF l)"

subsection \<open>Initialisation\<close>

definition lcd_bus_spi4line_init :: "lcd_param \<Rightarrow> lcd \<Rightarrow> lcd" where
  "lcd_bus_spi4line_init p l =
    (let cs = platform_pio_get_gpio_port (p_pin_cs p); rst = platform_pio_get_gpio_port (p_pin_rst p)
     in if l_bpp l = 16
        then llog [Init_color BUS_SPI4LINE (p_width p) (p_height p) cs rst] (l\<lparr>lcd_drv := Color\<rparr>)
        else llog [Init_mono (p_width p) (p_height p) (p_x_offset p) (p_y_offset p) cs rst] (l\<lparr>lcd_drv := Mono\<rparr>))"

definition lcd_bus_parallel_init :: "lcd_param \<Rightarrow> lcd \<Rightarrow> lcd" where
  "lcd_bus_parallel_init p l =
    (if l_bpp l \<noteq> 16 then llog [Assertion] l
     else llog [Init_color BUS_PARALLEL (p_width p) (p_height p) (platform_pio_get_gpio_port (p_pin_cs p))
                  (platform_pio_get_gpio_port (p_pin_rst p))] (l\<lparr>lcd_drv := Color\<rparr>))"

definition lcd_common_reset :: "nat \<Rightarrow> lcd_call list" where
  "lcd_common_reset pin_rst =
    [Gpio_output pin_rst, delayMilliseconds 5, Gpio_set (int pin_rst) False, delayMilliseconds 5,
     Gpio_set (int pin_rst) True, delayMilliseconds 50]"

definition lcd_bus_i2c_init :: "lcd_param \<Rightarrow> lcd \<Rightarrow> lcd" where
  "lcd_bus_i2c_init p l =
    (if l_bpp l \<noteq> 1 then llog [Assertion] l
     else llog ([I2c_setup (bus_id (p_itf p)) (freq (p_itf p)) (slave_addr (p_itf p))]
                  @ lcd_common_reset (platform_pio_get_gpio_port (p_pin_rst p)))
            (l\<lparr>lcd_bus_itf := p_itf p, lcd_drv := I2c\<rparr>))"

definition lcd_bus_spi_init :: "lcd_param \<Rightarrow> lcd \<Rightarrow> lcd" where
  "lcd_bus_spi_init p l =
    (if l_bpp l \<noteq> 1 then llog [Assertion] l
     else llog ([Spi_setup (freq (p_itf p))] @ lcd_common_reset (platform_pio_get_gpio_port (p_pin_rst p)))
            (l\<lparr>lcd_bus_itf := p_itf p, lcd_drv := Spi\<rparr>))"

fun lcd_init_table :: "lcd_bus \<Rightarrow> lcd_param \<Rightarrow> lcd \<Rightarrow> lcd" where
  "lcd_init_table BUS_SPI4LINE = lcd_bus_spi4line_init"
| "lcd_init_table BUS_PARALLEL = lcd_bus_parallel_init"
| "lcd_init_table BUS_I2C = lcd_bus_i2c_init"
| "lcd_init_table BUS_SPI = lcd_bus_spi_init"

definition platform_lcd_init :: "lcd_param \<Rightarrow> lcd \<Rightarrow> lcd" where
  "platform_lcd_init p l =
    (let l = l\<lparr>l_bpp := p_bpp p, lcd_x_offset := p_x_offset p, lcd_y_offset := p_y_offset p,
               lcd_sleep_cmd := p_sleep_cmd p @ [0xFFFFFFFF], lcd_wake_cmd := p_wake_cmd p @ [0xFFFFFFFF]\<rparr>;
         l = lcd_init_table (p_bus p) p l;
         tableSize = of_nat (length (p_init_cmd p))
     in if Assertion \<in> set (lcd_calls l) then l
        else if l_bpp l = 1 then write_command_table (p_init_cmd p) tableSize l
        else llog [delayMilliseconds 100]
               (write_command_table (p_init_cmd p) tableSize (llog [delayMilliseconds 50] l)))"

subsection \<open>The Lua module\<close>

text \<open>\<^verbatim>\<open>modules/src/disp.c\<close>: integers of Lua are cut to the types of the platform functions, a missing
  optional one is \<open>None\<close>.  A Lua error is \<open>None\<close>.  The numbers of the bus and of the pins and the command
  tables are those of \<open>p\<close>.\<close>

definition to_u16 :: "int \<Rightarrow> nat" where
  "to_u16 i = unat (word_of_int i :: u16)"

definition optint :: "int option \<Rightarrow> int \<Rightarrow> int" where
  "optint a def = (case a of Some i \<Rightarrow> i | None \<Rightarrow> def)"

definition disp_init ::
  "(nat \<Rightarrow> u8) \<Rightarrow> (nat \<Rightarrow> u8) \<Rightarrow> int \<Rightarrow> int \<Rightarrow> int \<Rightarrow> int option \<Rightarrow> lcd_param \<Rightarrow> lcd \<Rightarrow> (disp \<times> lcd) option" where
  "disp_init mem dat width height bpp hwfillcolor p l =
    (let w = to_u16 width; h = to_u16 height; b = unat (word_of_int bpp :: u8)
     in if w = 0 \<or> h = 0 then None
        else if \<not> (b = 16 \<or> b = 1) then None
        else Some (platform_disp_init mem dat w h b (optint hwfillcolor (- 1)),
                   platform_lcd_init (p\<lparr>p_width := w, p_height := h, p_bpp := b\<rparr>) l))"

definition disp_puttext :: "glyph_mem \<Rightarrow> nat \<times> nat \<Rightarrow> bytes \<Rightarrow> int \<Rightarrow> int \<Rightarrow> disp \<Rightarrow> disp" where
  "disp_puttext hz junk str x y d = platform_disp_puttext hz junk str (to_u16 x) (to_u16 y) d"

definition disp_putimage ::
  "(string \<Rightarrow> (u32 \<Rightarrow> u8) option) \<Rightarrow> (string \<Rightarrow> png_file option) \<Rightarrow> string \<Rightarrow> int option \<Rightarrow> int option \<Rightarrow> int option \<Rightarrow>
    int option \<Rightarrow> int option \<Rightarrow> int option \<Rightarrow> int option \<Rightarrow> disp \<Rightarrow> disp" where
  "disp_putimage bmp_files png_files filename x y transcolor left tp right bottom d =
    snd (platform_disp_putimage bmp_files png_files filename (to_u16 (optint x 0)) (to_u16 (optint y 0)) (optint transcolor (- 1))
      (to_u16 (optint left 0)) (to_u16 (optint tp 0)) (to_u16 (optint right 0)) (to_u16 (optint bottom 0)) d)"

definition disp_drawrect :: "int \<Rightarrow> int \<Rightarrow> int \<Rightarrow> int \<Rightarrow> int option \<Rightarrow> disp \<Rightarrow> disp" where
  "disp_drawrect left tp right bottom color d = snd (platform_disp_drawrect left tp right bottom (optint color (- 1)) d)"

subsection \<open>The panel\<close>

text \<open>What a page-addressed black-and-white controller behind I2C or SPI makes of the calls: the command set
  the source's comments name.  On I2C the register tells commands from picture data, on SPI the level of
  the RS pin.  Picture data goes to the column counter's byte of the selected page.\<close>

record panel =
  pn_rs :: bool
  pn_page :: nat
  pn_col :: nat
  pn_ram :: "nat \<Rightarrow> nat \<Rightarrow> u8"
  pn_on :: bool

definition panel_cmd :: "u8 \<Rightarrow> panel \<Rightarrow> panel" where
  "panel_cmd c p =
    (if c AND 0xF0 = 0xB0 then p\<lparr>pn_page := unat (c AND 0x0F)\<rparr>
     else if c AND 0xF0 = 0x00 then p\<lparr>pn_col := pn_col p div 16 * 16 + unat (c AND 0x0F)\<rparr>
     else if c AND 0xF0 = 0x10 then p\<lparr>pn_col := pn_col p mod 16 + 16 * unat (c AND 0x0F)\<rparr>
     else if c = 0xAF then p\<lparr>pn_on := True\<rparr> else if c = 0xAE then p\<lparr>pn_on := False\<rparr> else p)"

definition panel_data :: "u8 \<Rightarrow> panel \<Rightarrow> panel" where
  "panel_data b p = p\<lparr>pn_ram := (pn_ram p)(pn_page p := (pn_ram p (pn_page p))(pn_col p := b)), pn_col := pn_col p + 1\<rparr>"

fun panel_call :: "lcd_driver \<Rightarrow> lcd_itf \<Rightarrow> lcd_call \<Rightarrow> panel \<Rightarrow> panel" where
  "panel_call I2c itf (I2c_send b a r buf) p =
    (if b = bus_id itf \<and> a = slave_addr itf
     then (if r = cmd_addr itf then fold panel_cmd buf p else if r = data_addr itf then fold panel_data buf p else p)
     else p)"
| "panel_call Spi itf (Gpio_set pin v) p = (if pin = pin_rs itf then p\<lparr>pn_rs := v\<rparr> else p)"
| "panel_call Spi itf (Spi_write buf) p = (if pn_rs p then fold panel_data buf p else fold panel_cmd buf p)"
| "panel_call _ _ _ p = p"

definition panel_calls :: "lcd_driver \<Rightarrow> lcd_itf \<Rightarrow> lcd_call list \<Rightarrow> panel \<Rightarrow> panel" where
  "panel_calls drv itf = fold (panel_call drv itf)"

text \<open>The two buses with buffers; on I2C the registers must differ for the panel to tell them apart.\<close>

definition paged_bus :: "lcd_driver \<Rightarrow> lcd_itf \<Rightarrow> bool" where
  "paged_bus drv itf \<longleftrightarrow> drv = Spi \<or> drv = I2c \<and> cmd_addr itf \<noteq> data_addr itf"

lemma panel_calls_Nil: "panel_calls drv itf [] p = p"
  by (simp add: panel_calls_def)

lemma panel_calls_append: "panel_calls drv itf (xs @ ys) p = panel_calls drv itf ys (panel_calls drv itf xs p)"
  by (simp add: panel_calls_def)

lemma panel_write_cmd:
  assumes "paged_bus drv itf"
  obtains rs where "panel_calls drv itf (lcd_bus_write_cmd drv itf v) p = panel_cmd (ucast v) (p\<lparr>pn_rs := rs\<rparr>)"
  using assms that [of False] that [of "pn_rs p"]
  by (auto simp: paged_bus_def panel_calls_def lcd_bus_i2c_write_cmd_def lcd_bus_spi_write_cmd_def)

lemma panel_write_buf:
  assumes "paged_bus drv itf"
  obtains rs where "panel_calls drv itf (lcd_bus_write_data_buf drv itf buf) p = fold panel_data buf (p\<lparr>pn_rs := rs\<rparr>)"
  using assms that [of True] that [of "pn_rs p"]
  by (auto simp: paged_bus_def panel_calls_def lcd_bus_i2c_write_data_buf_def lcd_bus_spi_write_data_buf_def)

text \<open>A page of data fills consecutive columns of the selected page.\<close>

lemma panel_data_run:
  "fold panel_data buf p = p\<lparr>pn_ram := (\<lambda>q c. if q = pn_page p \<and> pn_col p \<le> c \<and> c < pn_col p + length buf
      then buf ! (c - pn_col p) else pn_ram p q c), pn_col := pn_col p + length buf\<rparr>"
proof (induction buf arbitrary: p)
  case (Cons b buf)
  have "(if q = pn_page p \<and> Suc (pn_col p) \<le> c \<and> c < Suc (pn_col p) + length buf then buf ! (c - Suc (pn_col p))
      else ((pn_ram p)(pn_page p := (pn_ram p (pn_page p))(pn_col p := b))) q c) =
    (if q = pn_page p \<and> pn_col p \<le> c \<and> c < pn_col p + length (b # buf) then (b # buf) ! (c - pn_col p) else pn_ram p q c)" for q c
    by (auto simp: nth_Cons' Suc_diff_Suc)
  then have "pn_ram (fold panel_data buf (panel_data b p)) q c =
    (if q = pn_page p \<and> pn_col p \<le> c \<and> c < pn_col p + length (b # buf) then (b # buf) ! (c - pn_col p) else pn_ram p q c)" for q c
    by (subst Cons.IH) (simp add: panel_data_def)
  moreover have "fold panel_data buf (panel_data b p) = p\<lparr>pn_ram := pn_ram (fold panel_data buf (panel_data b p)),
      pn_col := pn_col p + length (b # buf)\<rparr>"
    by (subst (1 2) Cons.IH) (simp add: panel_data_def)
  ultimately show ?case by (simp only: fold_Cons comp_apply) presburger
next
  case Nil
  have "(\<lambda>q c. if q = pn_page p \<and> pn_col p \<le> c \<and> c < pn_col p + length [] then [] ! (c - pn_col p) else pn_ram p q c) = pn_ram p"
    by (intro ext) auto
  then show ?case by (simp only: fold_Nil id_apply) simp
qed

lemma panel_data_page:
  "fold panel_data buf (p\<lparr>pn_rs := r, pn_page := page, pn_col := 0\<rparr>) =
    p\<lparr>pn_rs := r, pn_page := page, pn_col := length buf,
      pn_ram := (\<lambda>q c. if q = page \<and> c < length buf then buf ! c else pn_ram p q c)\<rparr>"
  by (simp add: panel_data_run cong: if_cong)

lemma page_command:
  assumes "page < 16"
  shows "panel_cmd (ucast (0xB0 OR of_nat page :: u16)) p = p\<lparr>pn_page := page\<rparr>"
proof -
  have "page \<in> {0,1,2,3,4,5,6,7,8,9,10,11,12,13,14,15}" using assms by (simp, presburger)
  then have "ucast (0xB0 OR of_nat page :: u16) AND (0xF0 :: u8) = 0xB0 \<and> unat (ucast (0xB0 OR of_nat page :: u16) AND (0x0F :: u8)) = page"
    by (elim insertE emptyE) simp_all
  then show ?thesis by (simp add: panel_cmd_def)
qed

lemma column_commands:
  "panel_cmd (ucast (0x00 :: u16)) p = p\<lparr>pn_col := pn_col p div 16 * 16\<rparr>"
  "panel_cmd (ucast (0x10 :: u16)) p = p\<lparr>pn_col := pn_col p mod 16\<rparr>"
  by (simp_all add: panel_cmd_def)

text \<open>What the panel shows after \<open>n\<close> pages of \<open>w\<close> bytes.\<close>

definition shown :: "nat \<Rightarrow> nat \<Rightarrow> bytes \<Rightarrow> (nat \<Rightarrow> nat \<Rightarrow> u8) \<Rightarrow> nat \<Rightarrow> nat \<Rightarrow> u8" where
  "shown n w fb ram = (\<lambda>q c. if q < n \<and> c < w then fb ! (q * w + c) else ram q c)"

definition page_calls :: "lcd_driver \<Rightarrow> lcd_itf \<Rightarrow> nat \<Rightarrow> bytes \<Rightarrow> nat \<Rightarrow> lcd_call list" where
  "page_calls drv itf w fb page =
    (let cmd = lcd_bus_write_cmd drv itf
     in cmd (0xB0 OR of_nat page) @ cmd 0x00 @ cmd 0x10 @ lcd_bus_write_data_buf drv itf (take w (drop (page * w) fb)))"

lemma panel_page:
  assumes B: "paged_bus drv itf" and "page < 16" "page * w + w \<le> length fb"
  obtains rs cl where "panel_calls drv itf (page_calls drv itf w fb page) p =
    p\<lparr>pn_rs := rs, pn_page := page, pn_col := cl,
      pn_ram := (\<lambda>q c. if q = page \<and> c < w then fb ! (page * w + c) else pn_ram p q c)\<rparr>"
proof -
  let ?c = "lcd_bus_write_cmd drv itf" and ?buf = "take w (drop (page * w) fb)"
  let ?p1 = "\<lambda>r. p\<lparr>pn_rs := r, pn_page := page\<rparr>"
  obtain r1 where "panel_calls drv itf (?c (0xB0 OR of_nat page)) p = panel_cmd (ucast (0xB0 OR of_nat page :: u16)) (p\<lparr>pn_rs := r1\<rparr>)"
    by (rule panel_write_cmd [OF B])
  then have 1: "panel_calls drv itf (?c (0xB0 OR of_nat page)) p = ?p1 r1"
    by (simp only: page_command [OF assms(2)])
  obtain r2 where "panel_calls drv itf (?c 0x00) (?p1 r1) = panel_cmd (ucast (0x00 :: u16)) ((?p1 r1)\<lparr>pn_rs := r2\<rparr>)"
    by (rule panel_write_cmd [OF B])
  then have 2: "panel_calls drv itf (?c 0x00) (?p1 r1) = (?p1 r2)\<lparr>pn_col := pn_col p div 16 * 16\<rparr>"
    by (simp only: column_commands) simp
  obtain r3 where "panel_calls drv itf (?c 0x10) ((?p1 r2)\<lparr>pn_col := pn_col p div 16 * 16\<rparr>) =
      panel_cmd (ucast (0x10 :: u16)) (((?p1 r2)\<lparr>pn_col := pn_col p div 16 * 16\<rparr>)\<lparr>pn_rs := r3\<rparr>)"
    by (rule panel_write_cmd [OF B])
  then have 3: "panel_calls drv itf (?c 0x10) ((?p1 r2)\<lparr>pn_col := pn_col p div 16 * 16\<rparr>) = (?p1 r3)\<lparr>pn_col := 0\<rparr>"
    by (simp only: column_commands) simp
  obtain r4 where "panel_calls drv itf (lcd_bus_write_data_buf drv itf ?buf) ((?p1 r3)\<lparr>pn_col := 0\<rparr>) =
      fold panel_data ?buf (((?p1 r3)\<lparr>pn_col := 0\<rparr>)\<lparr>pn_rs := r4\<rparr>)"
    by (rule panel_write_buf [OF B])
  then have 4: "panel_calls drv itf (lcd_bus_write_data_buf drv itf ?buf) ((?p1 r3)\<lparr>pn_col := 0\<rparr>) =
      fold panel_data ?buf ((?p1 r4)\<lparr>pn_col := 0\<rparr>)"
    by (rule trans) (intro arg_cong [where f = "fold panel_data ?buf"], simp)
  have "length (take w (drop (page * w) fb)) = w" using assms(3) by simp
  moreover have "take w (drop (page * w) fb) ! c = fb ! (page * w + c)" if "c < w" for c using that assms(3) by simp
  ultimately have ram: "(\<lambda>q c. if q = page \<and> c < length ?buf then ?buf ! c else pn_ram p q c) =
      (\<lambda>q c. if q = page \<and> c < w then fb ! (page * w + c) else pn_ram p q c)"
    using assms(3) by (intro ext) auto
  have "panel_calls drv itf (page_calls drv itf w fb page) p = fold panel_data ?buf ((?p1 r4)\<lparr>pn_col := 0\<rparr>)"
    by (simp only: page_calls_def Let_def panel_calls_append 1 2 3 4)
  also have "\<dots> = p\<lparr>pn_rs := r4, pn_page := page, pn_col := length ?buf,
      pn_ram := (\<lambda>q c. if q = page \<and> c < w then fb ! (page * w + c) else pn_ram p q c)\<rparr>"
    by (simp only: panel_data_page ram)
  finally have "panel_calls drv itf (page_calls drv itf w fb page) p = \<dots>" .
  then show ?thesis by (rule that)
qed

lemma panel_pages:
  assumes B: "paged_bus drv itf" and "n \<le> 16" "n * w \<le> length fb"
  shows "pn_ram (panel_calls drv itf (concat (map (page_calls drv itf w fb) [0..<n])) p) = shown n w fb (pn_ram p) \<and>
    pn_on (panel_calls drv itf (concat (map (page_calls drv itf w fb) [0..<n])) p) = pn_on p"
  using assms(2,3)
proof (induction n)
  case 0
  then show ?case by (simp add: panel_calls_def shown_def)
next
  case (Suc n)
  let ?q = "panel_calls drv itf (concat (map (page_calls drv itf w fb) [0..<n])) p"
  have "n * w + w \<le> length fb" using Suc.prems by (simp add: add.commute)
  with B Suc.prems(1) obtain rs cl where "panel_calls drv itf (page_calls drv itf w fb n) ?q =
    ?q\<lparr>pn_rs := rs, pn_page := n, pn_col := cl, pn_ram := (\<lambda>q c. if q = n \<and> c < w then fb ! (n * w + c) else pn_ram ?q q c)\<rparr>"
    by (elim panel_page) simp_all
  then show ?case using Suc by (auto simp: panel_calls_append shown_def less_Suc_eq fun_eq_iff)
qed

lemma table_loop_append_stop: "table_loop drv itf (es @ 0xFFFFFFFF # rest) = table_loop drv itf (es @ [0xFFFFFFFF])"
  by (induction es) (auto split: option.split)

lemma table_loop_take:
  assumes "length es < n"
  shows "table_loop drv itf (take n (es @ [0xFFFFFFFF])) = table_loop drv itf (takeWhile (\<lambda>e. e \<noteq> 0xFFFFFFFF) es)"
proof -
  have "take n (es @ [0xFFFFFFFF]) = es @ [0xFFFFFFFF]" using assms by simp
  moreover have "table_loop drv itf (es @ [0xFFFFFFFF]) = table_loop drv itf (takeWhile (\<lambda>e. e \<noteq> 0xFFFFFFFF) es)"
    by (induction es) (auto split: option.split)
  ultimately show ?thesis by simp
qed

text \<open>Going to sleep and waking up play the commands given at initialisation, up to the first end mark;
  the mark behind the copied table is never passed.\<close>

lemma powersave_plays_table:
  assumes "lcd_sleep_cmd l = scmd @ [0xFFFFFFFF]" "lcd_wake_cmd l = wcmd @ [0xFFFFFFFF]" "length scmd < 65535" "length wcmd < 65535"
  shows "lcd_calls (platform_lcd_powersave s l) = lcd_calls l @
    table_loop (lcd_drv l) (lcd_bus_itf l) (takeWhile (\<lambda>e. e \<noteq> 0xFFFFFFFF) (if s \<noteq> 0 then scmd else wcmd))"
  using table_loop_take [of scmd 65535] table_loop_take [of wcmd 65535] assms
  by (simp add: platform_lcd_powersave_def write_command_table_def llog_def)

text \<open>C17: What is drawn is what the panel shows: every update, the first or a later one, of a
  black-and-white display of at most 128 lines (a multiple of 8) behind I2C or SPI leaves in the
  panel's memory exactly the frame buffer, whatever the panel held and whatever its counters and
  pins were, and touches no other byte of it; the first one also switches the panel on.\<close>

theorem update_sends_frame:
  assumes "mono_panel d" "0 < lcd_width d" "lcd_width d < 2 ^ 16" "0 < lcd_height d" "lcd_height d \<le> 128"
    and bus: "paged_bus (lcd_drv l) (lcd_bus_itf l)"
  shows "\<exists>cs. lcd_calls (platform_disp_update d l) = lcd_calls l @ cs \<and>
    pn_ram (panel_calls (lcd_drv l) (lcd_bus_itf l) cs p) = shown (lcd_height d div 8) (lcd_width d) (framebuffer d) (pn_ram p) \<and>
    (pn_on (panel_calls (lcd_drv l) (lcd_bus_itf l) cs p) \<longleftrightarrow> pn_on p \<or> lcd_first_update l \<and> l_bpp l = 1)"
proof -
  let ?w = "lcd_width d" and ?h = "lcd_height d" and ?fb = "framebuffer d"
  have w: "unat (of_nat (?w - 1) :: u16) = ?w - 1" using assms(3) by (intro of_nat_inverse [OF refl]) simp
  have h: "unat (of_nat (?h - 1) :: u16) = ?h - 1" using assms(5) by (intro of_nat_inverse [OF refl]) simp
  have len: "?h div 8 * ?w \<le> length ?fb" using assms(1) by (simp add: mono_panel_def mult.commute)
  have n: "(?h - 1 + 1 + 7) div 8 = ?h div 8" using assms(1,4) by (auto simp: mono_panel_def)
  let ?r = "\<lparr>ltx = 0 :: u16, lty = 0, rbx = of_nat (?w - 1), rby = of_nat (?h - 1)\<rparr>"
  let ?ps = "concat (map (page_calls (lcd_drv l) (lcd_bus_itf l) ?w ?fb) [0..<?h div 8])"
  have upd: "lcd_bus_update l ?r ?fb = ?ps"
  proof -
    have "lcd_bus_update l ?r ?fb = lcd_common_mono_update l ?r ?fb" using bus by (auto simp: lcd_bus_update_def paged_bus_def)
    also have "\<dots> = ?ps"
      unfolding lcd_common_mono_update_def Let_def lcd_rect.simps w h n using assms(2) by (simp add: page_calls_def [abs_def] Let_def)
    finally show ?thesis .
  qed
  let ?on = "if lcd_first_update l \<and> l_bpp l = 1 then lcd_bus_write_cmd (lcd_drv l) (lcd_bus_itf l) 0xAF else []"
  have "lcd_calls (platform_disp_update d l) = lcd_calls l @ ?ps @ ?on"
    unfolding platform_disp_update_def platform_lcd_update_def upd by (simp add: llog_def Let_def)
  moreover obtain rs where "panel_calls (lcd_drv l) (lcd_bus_itf l) (lcd_bus_write_cmd (lcd_drv l) (lcd_bus_itf l) 0xAF)
      (panel_calls (lcd_drv l) (lcd_bus_itf l) ?ps p) = (panel_calls (lcd_drv l) (lcd_bus_itf l) ?ps p)\<lparr>pn_rs := rs, pn_on := True\<rparr>"
    by (rule panel_write_cmd [OF bus, of "0xAF" "panel_calls (lcd_drv l) (lcd_bus_itf l) ?ps p"]) (simp add: panel_cmd_def)
  moreover have "?h div 8 \<le> 16" using assms(5) by simp
  ultimately show ?thesis
    using panel_pages [OF bus _ len, of p] by (intro exI [of _ "?ps @ ?on"]) (auto simp: panel_calls_append panel_calls_Nil)
qed

definition demo_lcd :: lcd where
  "demo_lcd = \<lparr>l_bpp = 1, lcd_x_offset = 0, lcd_y_offset = 0, lcd_sleep_cmd = [], lcd_wake_cmd = [], lcd_drv = Spi,
     lcd_bus_itf = \<lparr>bus_id = 0, slave_addr = 0, cmd_addr = 0, data_addr = 0, pin_rs = 3, freq = 0\<rparr>,
     lcd_first_update = True, lcd_calls = []\<rparr>"

definition demo_panel :: panel where
  "demo_panel = \<lparr>pn_rs = False, pn_page = 5, pn_col = 7, pn_ram = (\<lambda>_ _. 0x55), pn_on = False\<rparr>"

theorem update_sends_frame_witness:
  "\<exists>cs. lcd_calls (platform_disp_update (platform_disp_init (\<lambda>i. of_nat i) (\<lambda>i. 0) 2 8 1 0) demo_lcd) = cs \<and>
    pn_ram (panel_calls Spi (lcd_bus_itf demo_lcd) cs demo_panel) 0 1 = 1 \<and> pn_on (panel_calls Spi (lcd_bus_itf demo_lcd) cs demo_panel)"
  using update_sends_frame [of "platform_disp_init (\<lambda>i. of_nat i) (\<lambda>i. 0) 2 8 1 0" demo_lcd demo_panel]
  by (simp add: platform_disp_init_def mono_panel_def upt_rec paged_bus_def shown_def demo_lcd_def demo_panel_def)

text \<open>With more than 128 lines the page number runs into the upper half of the command.\<close>

lemma pages_wrap: "ucast (0xB0 OR of_nat 16 :: u16) = (0xB0 :: u8)"
  by simp

end
