(* ===== verification/Iconv.thy ===== *)
theory Iconv
  imports Prelude
begin

unbundle bit_operations_syntax

text \<open>
  Character sets: \<^verbatim>\<open>lib/iconv/src\<close> and its Lua module \<^verbatim>\<open>modules/src/luaiconv.c\<close>.

  A conversion reads from the memory behind \<^verbatim>\<open>*_inbuf\<close>, a Lua string and its terminator, and appends to
  the output.  It returns its error, the output and what it stores through its pointers: the bytes left and
  how far \<^verbatim>\<open>*_inbuf\<close> moves.  The tables of GB2312 are parameters.
\<close>

subsection \<open>Results\<close>

datatype errno = E2BIG | EINVAL

record conv_result =
  cr_error :: "errno option"
  cr_out :: bytes
  cr_inleft :: nat
  cr_advance :: nat

definition peek :: "bytes \<Rightarrow> nat \<Rightarrow> u8" where
  "peek src i = (if i < length src then src ! i else 0)"

text \<open>\<^verbatim>\<open>size_t\<close> subtraction.\<close>

definition size_minus :: "nat \<Rightarrow> nat \<Rightarrow> nat" where
  "size_minus a b = nat ((int a - int b) mod 2 ^ 32)"

subsection \<open>UTF-8 to UCS-2\<close>

text \<open>The shift loop ends because a byte has eight bits.\<close>

definition bits_below :: "u8 \<Rightarrow> nat set" where
  "bits_below c = {i. i < 8 \<and> (\<exists>j \<le> i. bit c j)}"

lemma bits_below_shift:
  assumes "bit (c :: u8) 7"
  shows "card (bits_below (push_bit 1 c)) < card (bits_below c)"
proof -
  have "Suc ` (bits_below c - {7}) = bits_below (push_bit 1 c)"
  proof (intro set_eqI iffI)
    fix i assume "i \<in> Suc ` (bits_below c - {7})"
    then obtain k j where k: "i = Suc k" "k < 8" "k \<noteq> 7" "j \<le> k" "bit c j" by (auto simp: bits_below_def)
    then have "bit (push_bit 1 c) (Suc j)" by (simp only: bit_push_bit_iff) auto
    then show "i \<in> bits_below (push_bit 1 c)" using k by (auto simp: bits_below_def)
  next
    fix i assume "i \<in> bits_below (push_bit 1 c)"
    then obtain j where "i < 8" "j \<le> i" "bit (push_bit 1 c) j" by (auto simp: bits_below_def)
    then have "j \<noteq> 0" "bit c (j - 1)" "i < 8" "j \<le> i" unfolding bit_push_bit_iff by auto
    then have "i - 1 \<in> bits_below c - {7}" "i = Suc (i - 1)" by (auto simp: bits_below_def intro!: exI [of _ "j - 1"])
    then show "i \<in> Suc ` (bits_below c - {7})" by blast
  qed
  moreover have "finite (bits_below c)" "7 \<in> bits_below c" using assms by (auto simp: bits_below_def)
  ultimately show ?thesis by (metis card_Diff1_less card_image inj_Suc)
qed

function utf8_size_loop :: "u8 \<Rightarrow> nat \<Rightarrow> nat" where
  "utf8_size_loop c count = (if c AND push_bit 7 1 \<noteq> 0 then utf8_size_loop (push_bit 1 c) (count + 1) else count)"
  by pat_completeness auto
termination
proof (relation "measure (\<lambda>(c, count). card (bits_below c))")
  fix c :: u8 and count :: nat
  assume "c AND push_bit 7 1 \<noteq> 0"
  then have "bit c 7" using bit_iff_and_push_bit_not_eq_0 by blast
  then show "((push_bit 1 c, count + 1), (c, count)) \<in> measure (\<lambda>(c, count). card (bits_below c))"
    using bits_below_shift by simp
qed simp

declare utf8_size_loop.simps [simp del]

definition enc_get_utf8_size :: "u8 \<Rightarrow> nat" where
  "enc_get_utf8_size c = (let count = utf8_size_loop c 0 in if count = 0 then 1 else count)"

text \<open>The two bytes of the character at the start of \<open>p\<close>; \<open>None\<close> is -1.\<close>

definition enc_utf8_to_unicode_one :: "bytes \<Rightarrow> bool \<Rightarrow> bytes option" where
  "enc_utf8_to_unicode_one p endian =
    (let b1 = peek p 0; b2 = peek p 1; b3 = peek p 2; utfbytes = enc_get_utf8_size b1
     in if utfbytes = 1 then Some (if endian then [0x00, b1] else [b1, 0x00])
        else if utfbytes = 2 then
          (if b2 AND 0xE0 \<noteq> 0x80 then None
           else (let hi = drop_bit 2 b1 AND 0x07; lo = push_bit 6 b1 + (b2 AND 0x3F)
                 in Some (if endian then [hi, lo] else [lo, hi])))
        else if utfbytes = 3 then
          (if b2 AND 0xC0 \<noteq> 0x80 \<or> b3 AND 0xC0 \<noteq> 0x80 then None
           else (let hi = push_bit 4 b1 + (drop_bit 2 b2 AND 0x0F); lo = push_bit 6 b2 + (b3 AND 0x3F)
                 in Some (if endian then [hi, lo] else [lo, hi])))
        else None)"

lemma utf8_size_pos: "0 < enc_get_utf8_size c"
  by (simp add: enc_get_utf8_size_def Let_def)

text \<open>The loop over the input: the error, the output and the final \<^verbatim>\<open>iPos\<close>.\<close>

function utf8_loop :: "bytes \<Rightarrow> nat \<Rightarrow> nat \<Rightarrow> bool \<Rightarrow> nat \<Rightarrow> nat \<Rightarrow> errno option \<times> bytes \<times> nat" where
  "utf8_loop src iLen maxOLen endian iPos oPos =
    (if iLen \<le> iPos then (None, [], iPos)
     else if maxOLen < oPos + 2 then (Some E2BIG, [], iPos)
     else (case enc_utf8_to_unicode_one (drop iPos src) endian of
         None \<Rightarrow> (Some EINVAL, [], iPos)
       | Some out \<Rightarrow>
           (let (err, rest, i) = utf8_loop src iLen maxOLen endian (iPos + enc_get_utf8_size (peek src iPos)) (oPos + 2)
            in (err, out @ rest, i))))"
  by pat_completeness auto
termination
  by (relation "measure (\<lambda>(src, iLen, maxOLen, endian, iPos, oPos). iLen - iPos)") (auto simp: utf8_size_pos intro!: diff_less_mono2)

declare utf8_loop.simps [simp del]

definition enc_utf8_to_unicode :: "bool \<Rightarrow> bytes \<Rightarrow> nat \<Rightarrow> nat \<Rightarrow> conv_result" where
  "enc_utf8_to_unicode endian src iLen maxOLen =
    (let (err, out, iPos) = utf8_loop src iLen maxOLen endian 0 0
     in \<lparr>cr_error = err, cr_out = out, cr_inleft = size_minus iLen iPos, cr_advance = 0\<rparr>)"

definition iconv_utf8_to_ucs2 :: "bytes \<Rightarrow> nat \<Rightarrow> nat \<Rightarrow> conv_result" where
  "iconv_utf8_to_ucs2 = enc_utf8_to_unicode False"

definition iconv_utf8_to_ucs2be :: "bytes \<Rightarrow> nat \<Rightarrow> nat \<Rightarrow> conv_result" where
  "iconv_utf8_to_ucs2be = enc_utf8_to_unicode True"

subsection \<open>UCS-2 to UTF-8\<close>

definition unicode_val :: "bool \<Rightarrow> u8 \<Rightarrow> u8 \<Rightarrow> u32" where
  "unicode_val endian a b = (if endian then ucast a * 256 + ucast b else ucast b * 256 + ucast a)"

definition utf8_bytes :: "u32 \<Rightarrow> bytes" where
  "utf8_bytes v =
    (if v \<le> 0x7F then [ucast v]
     else if v \<le> 0x07FF then
       [ucast ((drop_bit 6 v OR 0xE0) AND 0xDF), (ucast (v AND 0xFF) OR 0xC0) AND 0xBF]
     else
       [ucast (((drop_bit 12 v AND 0xFF) OR 0xF0) AND 0xEF), ucast (((drop_bit 6 v AND 0xFF) OR 0xC0) AND 0xBF),
        ucast (((v AND 0xFF) OR 0xC0) AND 0xBF)])"

text \<open>\<open>src\<close> is the input from \<open>iPos\<close>, \<open>iLen\<close> what is left of its length.\<close>

fun ucs2_loop :: "bool \<Rightarrow> nat \<Rightarrow> bytes \<Rightarrow> nat \<Rightarrow> nat \<Rightarrow> errno option \<times> bytes \<times> nat" where
  "ucs2_loop endian (Suc (Suc iLen)) (a # b # src) maxOLen oPos =
    (let utf = utf8_bytes (unicode_val endian a b)
     in if maxOLen < oPos + length utf then (Some E2BIG, [], 0)
        else (let (err, rest, i) = ucs2_loop endian iLen src maxOLen (oPos + length utf) in (err, utf @ rest, i + 2)))"
| "ucs2_loop endian iLen src maxOLen oPos = (None, [], 0)"

definition enc_unicode_to_utf8 :: "bool \<Rightarrow> bytes \<Rightarrow> nat \<Rightarrow> nat \<Rightarrow> conv_result" where
  "enc_unicode_to_utf8 endian src iLen maxOLen =
    (let (err, out, iPos) = ucs2_loop endian iLen src maxOLen 0
     in \<lparr>cr_error = err, cr_out = out, cr_inleft = size_minus iLen iPos, cr_advance = 0\<rparr>)"

definition iconv_ucs2_to_utf8 :: "bytes \<Rightarrow> nat \<Rightarrow> nat \<Rightarrow> conv_result" where
  "iconv_ucs2_to_utf8 = enc_unicode_to_utf8 False"

definition iconv_ucs2be_to_utf8 :: "bytes \<Rightarrow> nat \<Rightarrow> nat \<Rightarrow> conv_result" where
  "iconv_ucs2be_to_utf8 = enc_unicode_to_utf8 True"

subsection \<open>GB2312\<close>

record gb_tables =
  gb2312_to_ucs2_table :: "u16 \<Rightarrow> u16"
  ucs2_index_table :: "nat \<Rightarrow> nat \<Rightarrow> u16"
  ucs2_mirror :: "nat \<Rightarrow> nat \<Rightarrow> u8"
  ucs2_to_gb2312_table :: "u16 \<Rightarrow> u16"
  tab_UCS2_to_GBK :: "(u16 \<times> u16) list"

definition swap16 :: "u16 \<Rightarrow> u16" where
  "swap16 v = push_bit 8 v OR drop_bit 8 v"

definition le_bytes :: "u16 \<Rightarrow> bytes" where
  "le_bytes v = [ucast v, ucast (drop_bit 8 v)]"

definition gb_offset :: "u16 \<Rightarrow> u16" where
  "gb_offset gb2312 = (drop_bit 8 gb2312 - 0xA0) * 94 + ((gb2312 AND 0x00ff) - 0xA1)"

text \<open>\<open>inlen\<close> bytes are left of the input \<open>gbbuf\<close>; the error, the output and the bytes read and left.\<close>

function gb_loop :: "gb_tables \<Rightarrow> bool \<Rightarrow> bytes \<Rightarrow> nat \<Rightarrow> nat \<Rightarrow> nat \<Rightarrow> errno option \<times> bytes \<times> nat \<times> nat" where
  "gb_loop t endian gbbuf inlen outlen ucs2len =
    (if inlen = 0 then (None, [], 0, 0)
     else if outlen < ucs2len + 2 then (Some E2BIG, [], 0, inlen)
     else (let a = peek gbbuf 0
           in if a < 0x80 then
                (let u = ucast a; (err, rest, n, left) = gb_loop t endian (drop 1 gbbuf) (inlen - 1) outlen (ucs2len + 2)
                 in (err, le_bytes (if endian then swap16 u else u) @ rest, n + 1, left))
              else if 2 \<le> inlen then
                (let u = gb2312_to_ucs2_table t (gb_offset (push_bit 8 (ucast a) + ucast (peek gbbuf 1)));
                     (err, rest, n, left) = gb_loop t endian (drop 2 gbbuf) (inlen - 2) outlen (ucs2len + 2)
                 in (err, le_bytes (if endian then swap16 u else u) @ rest, n + 2, left))
              else (Some EINVAL, [], 1, inlen)))"
  by pat_completeness auto
termination
  by (relation "measure (\<lambda>(t, endian, gbbuf, inlen, outlen, ucs2len). inlen)") auto

declare gb_loop.simps [simp del]

definition iconv_gb2312_to_ucs2_endian :: "gb_tables \<Rightarrow> bool \<Rightarrow> bytes \<Rightarrow> nat \<Rightarrow> nat \<Rightarrow> conv_result" where
  "iconv_gb2312_to_ucs2_endian t endian src inlen outlen =
    (let (err, out, n, left) = gb_loop t endian src inlen outlen 0
     in \<lparr>cr_error = err, cr_out = out, cr_inleft = left, cr_advance = n\<rparr>)"

definition number_of_bit_1 :: "u8 \<Rightarrow> nat" where
  "number_of_bit_1 b = ([0, 1, 1, 2, 1, 2, 2, 3, 1, 2, 2, 3, 2, 3, 3, 4, 1, 2, 2, 3, 2, 3, 3, 4, 2, 3, 3, 4, 3, 4, 4, 5,
     1, 2, 2, 3, 2, 3, 3, 4, 2, 3, 3, 4, 3, 4, 4, 5, 2, 3, 3, 4, 3, 4, 4, 5, 3, 4, 4, 5, 4, 5, 5, 6,
     1, 2, 2, 3, 2, 3, 3, 4, 2, 3, 3, 4, 3, 4, 4, 5, 2, 3, 3, 4, 3, 4, 4, 5, 3, 4, 4, 5, 4, 5, 5, 6,
     2, 3, 3, 4, 3, 4, 4, 5, 3, 4, 4, 5, 4, 5, 5, 6, 3, 4, 4, 5, 4, 5, 5, 6, 4, 5, 5, 6, 5, 6, 6, 7,
     1, 2, 2, 3, 2, 3, 3, 4, 2, 3, 3, 4, 3, 4, 4, 5, 2, 3, 3, 4, 3, 4, 4, 5, 3, 4, 4, 5, 4, 5, 5, 6,
     2, 3, 3, 4, 3, 4, 4, 5, 3, 4, 4, 5, 4, 5, 5, 6, 3, 4, 4, 5, 4, 5, 5, 6, 4, 5, 5, 6, 5, 6, 6, 7,
     2, 3, 3, 4, 3, 4, 4, 5, 3, 4, 4, 5, 4, 5, 5, 6, 3, 4, 4, 5, 4, 5, 5, 6, 4, 5, 5, 6, 5, 6, 6, 7,
     3, 4, 4, 5, 4, 5, 5, 6, 4, 5, 5, 6, 5, 6, 6, 7, 4, 5, 5, 6, 5, 6, 6, 7, 5, 6, 6, 7, 6, 7, 7, 8] :: nat list) ! unat b"

text \<open>The bits of the byte before bit \<open>tmp\<close>, one by one.\<close>

fun count_low :: "nat \<Rightarrow> u8 \<Rightarrow> nat" where
  "count_low 0 ch = 0"
| "count_low (Suc tmp) ch = (if bit ch 0 then 1 else 0) + count_low tmp (drop_bit 1 ch)"

definition get_ucs2_offset :: "gb_tables \<Rightarrow> u16 \<Rightarrow> u16" where
  "get_ucs2_offset t ucs2 =
    (let page = unat (drop_bit 8 ucs2) - 0x4E; low = unat (ucs2 AND 0xFF);
         tmp = low div 64; mirror = (\<lambda>i. ucs2_mirror t page (tmp * 8 + i));
         m = low mod 64;
         offset = unat (ucs2_index_table t page tmp) + sum_list (map (\<lambda>i. number_of_bit_1 (mirror i)) [0..<m div 8]);
         ch = mirror (m div 8)
     in if bit ch (m mod 8) then of_nat (offset + count_low (m mod 8) ch) else 0xFFFF)"

text \<open>A later entry of the table wins.\<close>

definition find_gbk :: "u16 \<Rightarrow> (u16 \<times> u16) list \<Rightarrow> u16" where
  "find_gbk ucs2 tab = fold (\<lambda>(u, g) gb. if ucs2 = u then g else gb) tab 0xA1A1"

definition ucs2_gb :: "gb_tables \<Rightarrow> u16 \<Rightarrow> u16" where
  "ucs2_gb t ucs2 =
    (if 0x4E00 \<le> ucs2 \<and> ucs2 < 0xA000
     then (let offset = get_ucs2_offset t ucs2 in if offset \<noteq> 0xFFFF then ucs2_to_gb2312_table t offset else 0xA1A1)
     else find_gbk ucs2 (tab_UCS2_to_GBK t))"

text \<open>\<open>inlen\<close> characters are left.\<close>

fun to_gb_loop :: "gb_tables \<Rightarrow> bool \<Rightarrow> nat \<Rightarrow> bytes \<Rightarrow> nat \<Rightarrow> nat \<Rightarrow> errno option \<times> bytes \<times> nat" where
  "to_gb_loop t endian 0 src outlen gb_length = (None, [], 0)"
| "to_gb_loop t endian (Suc inlen) src outlen gb_length =
    (if outlen < gb_length + 2 then (Some E2BIG, [], Suc inlen)
     else (let u = (push_bit 8 (ucast (peek src 1)) OR ucast (peek src 0)) :: u16;
               ucs2 = (if endian then swap16 u else u);
               out = (if ucs2 < 0x80 then [ucast ucs2]
                      else (let gb2312 = ucs2_gb t ucs2 in [ucast (drop_bit 8 gb2312), ucast gb2312]));
               (err, rest, left) = to_gb_loop t endian inlen (drop 2 src) outlen (gb_length + length out)
           in (err, out @ rest, left)))"

definition iconv_ucs2_to_gb2312_endian :: "gb_tables \<Rightarrow> bool \<Rightarrow> bytes \<Rightarrow> nat \<Rightarrow> nat \<Rightarrow> conv_result" where
  "iconv_ucs2_to_gb2312_endian t endian src inbytes outlen =
    (let (err, out, left) = to_gb_loop t endian (inbytes div 2) src outlen 0
     in \<lparr>cr_error = err, cr_out = out, cr_inleft = left, cr_advance = 0\<rparr>)"

subsection \<open>The conversions by name and the Lua module\<close>

definition iconv_map :: "gb_tables \<Rightarrow> (string \<times> string \<times> (bytes \<Rightarrow> nat \<Rightarrow> nat \<Rightarrow> conv_result)) list" where
  "iconv_map t =
    [(''ucs2'', ''gb2312'', iconv_ucs2_to_gb2312_endian t False),
     (''ucs2be'', ''gb2312'', iconv_ucs2_to_gb2312_endian t True),
     (''gb2312'', ''ucs2'', iconv_gb2312_to_ucs2_endian t False),
     (''gb2312'', ''ucs2be'', iconv_gb2312_to_ucs2_endian t True),
     (''utf8'', ''ucs2'', iconv_utf8_to_ucs2),
     (''utf8'', ''ucs2be'', iconv_utf8_to_ucs2be),
     (''ucs2'', ''utf8'', iconv_ucs2_to_utf8),
     (''ucs2be'', ''utf8'', iconv_ucs2be_to_utf8)]"

definition iconv_open :: "gb_tables \<Rightarrow> string \<Rightarrow> string \<Rightarrow> (bytes \<Rightarrow> nat \<Rightarrow> nat \<Rightarrow> conv_result) option" where
  "iconv_open t tocode fromcode =
    map_option (\<lambda>(f, to, fct). fct) (List.find (\<lambda>(f, to, fct). f = fromcode \<and> to = tocode) (iconv_map t))"

datatype iconv_error = ERROR_NO_MEMORY | ERROR_INVALID | ERROR_INCOMPLETE

text \<open>The conversion loop of \<^verbatim>\<open>Liconv\<close>: \<open>pos\<close> is where \<open>inbuf\<close> points in the string \<open>s\<close>, \<open>acc\<close> the pieces so far.
  The output buffer starts over when it was too small.\<close>

partial_function (option) liconv_loop ::
  "(bytes \<Rightarrow> nat \<Rightarrow> nat \<Rightarrow> conv_result) \<Rightarrow> bytes \<Rightarrow> nat \<Rightarrow> nat \<Rightarrow> nat \<Rightarrow> bytes \<Rightarrow> (bytes \<times> iconv_error option) option" where
  "liconv_loop cd s obsize pos ibleft acc =
    (let r = cd (drop pos s) ibleft obsize
     in case cr_error r of
          None \<Rightarrow> Some (acc @ cr_out r, None)
        | Some EINVAL \<Rightarrow> Some (acc @ cr_out r, Some ERROR_INCOMPLETE)
        | Some E2BIG \<Rightarrow> liconv_loop cd s obsize (pos + cr_advance r) (cr_inleft r) (acc @ cr_out r))"

text \<open>\<open>ok\<close>: the output buffer can be allocated.\<close>

definition Liconv :: "bool \<Rightarrow> (bytes \<Rightarrow> nat \<Rightarrow> nat \<Rightarrow> conv_result) \<Rightarrow> bytes \<Rightarrow> (bytes \<times> iconv_error option) option" where
  "Liconv ok cd s =
    (if \<not> ok then Some ([], Some ERROR_NO_MEMORY)
     else liconv_loop cd s (if 256 < length s then length s else 256) 0 (length s) [])"

subsection \<open>Standard UTF-8\<close>

definition utf8_enc :: "u16 \<Rightarrow> bytes" where
  "utf8_enc u =
    (if u < 0x80 then [ucast u]
     else if u < 0x800 then [0xC0 OR ucast (drop_bit 6 u), 0x80 OR (ucast u AND 0x3F)]
     else [0xE0 OR ucast (drop_bit 12 u), 0x80 OR (ucast (drop_bit 6 u) AND 0x3F), 0x80 OR (ucast u AND 0x3F)])"

definition ucs2_bytes :: "bool \<Rightarrow> u16 \<Rightarrow> bytes" where
  "ucs2_bytes endian u = (if endian then [ucast (drop_bit 8 u), ucast u] else [ucast u, ucast (drop_bit 8 u)])"

lemma ucs2_bytes_ex: "\<exists>a b. ucs2_bytes endian u = [a, b] \<and> unicode_val endian a b = ucast u"
proof -
  have v: "(ucast (ucast (drop_bit 8 u) :: u8) * 256 + ucast (ucast u :: u8) :: u32) = ucast u"
  proof -
    let ?hi = "ucast (ucast (drop_bit 8 u) :: u8) :: u32" and ?lo = "ucast (ucast u :: u8) :: u32"
    have "?hi * 256 = push_bit 8 ?hi" by (simp add: push_bit_eq_mult)
    moreover have "push_bit 8 ?hi AND ?lo = 0" by (rule bit_word_eqI) (auto simp: bit_simps)
    ultimately have "?hi * 256 + ?lo = push_bit 8 ?hi OR ?lo" using word_plus_and_or [of "push_bit 8 ?hi" ?lo] by simp
    also have "\<dots> = ucast u"
    proof (rule bit_word_eqI)
      fix n assume "n < LENGTH(32)"
      show "bit (push_bit 8 ?hi OR ?lo) n \<longleftrightarrow> bit (ucast u :: u32) n"
        by (cases "n < 8") (auto simp: bit_simps dest: bit_imp_le_length)
    qed
    finally show ?thesis .
  qed
  show ?thesis using v by (cases endian) (simp_all add: ucs2_bytes_def unicode_val_def)
qed

lemma small_bits: "(w :: 'a::len word) < 2 ^ n \<Longrightarrow> n < LENGTH('a) \<Longrightarrow> bit w i \<Longrightarrow> i < n"
proof -
  assume w: "w < 2 ^ n" and n: "n < LENGTH('a)" and b: "bit w i"
  have "unat (2 ^ n :: 'a word) = 2 ^ n" using unat_of_nat_small [of "2 ^ n", where ?'a = 'a] n by simp
  then have "unat w < 2 ^ n" using w by (simp add: word_less_nat_alt)
  then have "take_bit n (unat w) = unat w" by (rule take_bit_nat_eq_self)
  moreover have "bit (unat w) i" using b by (simp add: bit_unsigned_iff)
  ultimately show "i < n" by (metis bit_take_bit_iff)
qed

lemma utf8_bytes_enc: "utf8_bytes (ucast u) = utf8_enc u"
proof -
  have le: "(ucast u :: u32) \<le> 0x7F \<longleftrightarrow> u < 0x80" "(ucast u :: u32) \<le> 0x07FF \<longleftrightarrow> u < 0x800"
  proof -
    have "unat (ucast u :: u32) = unat u" by transfer (simp add: take_bit_take_bit min_def)
    then show "(ucast u :: u32) \<le> 0x7F \<longleftrightarrow> u < 0x80" "(ucast u :: u32) \<le> 0x07FF \<longleftrightarrow> u < 0x800"
      by (simp_all add: word_le_nat_alt word_less_nat_alt) linarith+
  qed
  consider "u < 0x80" | "\<not> u < 0x80" "u < 0x800" | "\<not> u < 0x800" by blast
  then show ?thesis
  proof cases
    case 1
    have "(ucast (ucast u :: u32) :: u8) = ucast u" by transfer (simp add: take_bit_take_bit)
    then show ?thesis using 1 by (simp add: utf8_bytes_def utf8_enc_def le)
  next
    case 2
    have b: "bit u i \<Longrightarrow> i < 11" for i using small_bits [of u 11 i] 2 by simp
    have "(ucast ((drop_bit 6 (ucast u :: u32) OR 0xE0) AND 0xDF) :: u8) = 0xC0 OR ucast (drop_bit 6 u)"
      by (rule bit_word_eqI) (auto simp: bit_simps less_Suc_eq numeral_eq_Suc dest: b)
    moreover have "((ucast ((ucast u :: u32) AND 0xFF) OR 0xC0) AND 0xBF :: u8) = 0x80 OR (ucast u AND 0x3F)"
      by (rule bit_word_eqI) (auto simp: bit_simps less_Suc_eq numeral_eq_Suc)
    ultimately show ?thesis using 2 by (simp add: utf8_bytes_def utf8_enc_def le)
  next
    case 3
    have "(ucast (((drop_bit 12 (ucast u :: u32) AND 0xFF) OR 0xF0) AND 0xEF) :: u8) = 0xE0 OR ucast (drop_bit 12 u)"
      by (rule bit_word_eqI) (auto simp: bit_simps less_Suc_eq numeral_eq_Suc dest: bit_imp_le_length)
    moreover have "(ucast (((drop_bit 6 (ucast u :: u32) AND 0xFF) OR 0xC0) AND 0xBF) :: u8) = 0x80 OR (ucast (drop_bit 6 u) AND 0x3F)"
      by (rule bit_word_eqI) (auto simp: bit_simps less_Suc_eq numeral_eq_Suc)
    moreover have "(ucast ((((ucast u :: u32) AND 0xFF) OR 0xC0) AND 0xBF) :: u8) = 0x80 OR (ucast u AND 0x3F)"
      by (rule bit_word_eqI) (auto simp: bit_simps less_Suc_eq numeral_eq_Suc)
    moreover have "\<not> u < 0x80" using 3 by (simp add: word_less_nat_alt)
    ultimately show ?thesis using 3 by (simp add: utf8_bytes_def utf8_enc_def le)
  qed
qed


lemma ucs2_loop_enc:
  "oPos + length (concat (map utf8_enc us)) \<le> maxOLen \<Longrightarrow>
   ucs2_loop endian (2 * length us) (concat (map (ucs2_bytes endian) us)) maxOLen oPos
     = (None, concat (map utf8_enc us), 2 * length us)"
proof (induction us arbitrary: oPos)
  case (Cons u us)
  obtain a b where ab: "ucs2_bytes endian u = [a, b]" "unicode_val endian a b = ucast u"
    using ucs2_bytes_ex by blast
  have "ucs2_loop endian (2 * length us) (concat (map (ucs2_bytes endian) us)) maxOLen (oPos + length (utf8_enc u))
      = (None, concat (map utf8_enc us), 2 * length us)"
    using Cons.prems by (intro Cons.IH) simp
  moreover have "\<not> maxOLen < oPos + length (utf8_enc u)" using Cons.prems by simp
  ultimately show ?case by (simp add: ab utf8_bytes_enc Let_def)
qed simp

lemma utf8_size_loop_bits:
  "utf8_size_loop c n = (if bit c 7 then utf8_size_loop (push_bit 1 c) (n + 1) else n)"
proof -
  have "c AND push_bit 7 1 \<noteq> 0 \<longleftrightarrow> bit c 7" using bit_iff_and_push_bit_not_eq_0 by blast
  then show ?thesis by (subst utf8_size_loop.simps) (simp only:)
qed

lemma utf8_size_step:
  assumes "k \<le> 7"
  shows "utf8_size_loop (push_bit k c) n = (if bit c (7 - k) then utf8_size_loop (push_bit (k + 1) c) (n + 1) else n)"
proof -
  have "bit (push_bit k c) 7 \<longleftrightarrow> bit c (7 - k)" using assms unfolding bit_push_bit_iff by auto
  moreover have "push_bit 1 (push_bit k c) = push_bit (k + 1) c" by (simp only: push_bit_push_bit add.commute)
  ultimately show ?thesis using utf8_size_loop_bits [of "push_bit k c" n] by (simp only:)
qed

lemma utf8_size_bits:
  "\<not> bit c 7 \<Longrightarrow> enc_get_utf8_size c = 1"
  "bit c 7 \<Longrightarrow> bit c 6 \<Longrightarrow> \<not> bit c 5 \<Longrightarrow> enc_get_utf8_size c = 2"
  "bit c 7 \<Longrightarrow> bit c 6 \<Longrightarrow> bit c 5 \<Longrightarrow> \<not> bit c 4 \<Longrightarrow> enc_get_utf8_size c = 3"
proof -
  have "utf8_size_loop c 0 = (if bit c 7 then utf8_size_loop (push_bit 1 c) 1 else 0)"
    "utf8_size_loop (push_bit 1 c) 1 = (if bit c 6 then utf8_size_loop (push_bit 2 c) 2 else 1)"
    "utf8_size_loop (push_bit 2 c) 2 = (if bit c 5 then utf8_size_loop (push_bit 3 c) 3 else 2)"
    "utf8_size_loop (push_bit 3 c) 3 = (if bit c 4 then utf8_size_loop (push_bit 4 c) 4 else 3)"
    using utf8_size_step [of 0 c 0] utf8_size_step [of 1 c 1] utf8_size_step [of 2 c 2] utf8_size_step [of 3 c 3]
    by (simp_all del: push_bit_of_1 push_bit_Suc add: numeral_eq_Suc)
  note steps = this
  show "\<not> bit c 7 \<Longrightarrow> enc_get_utf8_size c = 1"
    "bit c 7 \<Longrightarrow> bit c 6 \<Longrightarrow> \<not> bit c 5 \<Longrightarrow> enc_get_utf8_size c = 2"
    "bit c 7 \<Longrightarrow> bit c 6 \<Longrightarrow> bit c 5 \<Longrightarrow> \<not> bit c 4 \<Longrightarrow> enc_get_utf8_size c = 3"
    by (simp_all only: enc_get_utf8_size_def Let_def steps if_True if_False) simp_all
qed

text \<open>The characters that the test \<^verbatim>\<open>(b2 & 0xE0) != 0x80\<close> of two-byte sequences refuses.\<close>

definition bad_char :: "u16 \<Rightarrow> bool" where
  "bad_char u \<longleftrightarrow> 0x80 \<le> u \<and> u < 0x800 \<and> bit u 5"

lemma utf8_enc_first: "peek (utf8_enc u @ rest) 0 = hd (utf8_enc u)"
  by (simp add: utf8_enc_def peek_def)

lemma utf8_enc_size: "enc_get_utf8_size (hd (utf8_enc u)) = length (utf8_enc u)"
proof -
  consider "u < 0x80" | "\<not> u < 0x80" "u < 0x800" | "\<not> u < 0x80" "\<not> u < 0x800" by blast
  then show ?thesis
  proof cases
    case 1
    then have "\<not> bit u 7" using small_bits [of u 7 7] by auto
    then have "\<not> bit (ucast u :: u8) 7" by (simp add: bit_simps)
    then show ?thesis using 1 by (simp add: utf8_enc_def utf8_size_bits)
  next
    case 2
    then have "\<not> bit u 11" using small_bits [of u 11 11] by auto
    then have "\<not> bit (0xC0 OR ucast (drop_bit 6 u) :: u8) 5" "bit (0xC0 OR ucast (drop_bit 6 u) :: u8) 6"
      "bit (0xC0 OR ucast (drop_bit 6 u) :: u8) 7" by (auto simp: bit_simps)
    then show ?thesis using 2 by (simp add: utf8_enc_def utf8_size_bits)
  next
    case 3
    have "\<not> bit (0xE0 OR ucast (drop_bit 12 u) :: u8) 4" "bit (0xE0 OR ucast (drop_bit 12 u) :: u8) 5"
      "bit (0xE0 OR ucast (drop_bit 12 u) :: u8) 6" "bit (0xE0 OR ucast (drop_bit 12 u) :: u8) 7"
      by (auto simp: bit_simps dest: bit_imp_le_length)
    then show ?thesis using 3 by (simp add: utf8_enc_def utf8_size_bits)
  qed
qed


lemma utf8_enc_one:
  "enc_utf8_to_unicode_one (utf8_enc u @ rest) endian = (if bad_char u then None else Some (ucs2_bytes endian u))"
proof -
  note size = utf8_enc_size [of u]
  have bits: "i < 8 \<Longrightarrow> i = 0 \<or> i = 1 \<or> i = 2 \<or> i = 3 \<or> i = 4 \<or> i = 5 \<or> i = 6 \<or> i = 7" for i :: nat by auto
  consider "u < 0x80" | "\<not> u < 0x80" "u < 0x800" | "\<not> u < 0x80" "\<not> u < 0x800" by blast
  then show ?thesis
  proof cases
    case 1
    have "i < 7" if "bit u i" for i using small_bits [of u 7 i] 1 that by simp
    then have "(0 :: u8) = ucast (drop_bit 8 u)" by (intro bit_word_eqI) (force simp: bit_simps)
    moreover have "\<not> bad_char u" using 1 leD unfolding bad_char_def by blast
    ultimately show ?thesis using 1 size
      by (simp add: utf8_enc_def enc_utf8_to_unicode_one_def peek_def Let_def ucs2_bytes_def)
  next
    case 2
    let ?b1 = "0xC0 OR ucast (drop_bit 6 u) :: u8" and ?b2 = "0x80 OR (ucast u AND 0x3F) :: u8"
    have u: "i < 11" if "bit u i" for i using small_bits [of u 11 i] 2 that by simp
    have bad: "?b2 AND 0xE0 \<noteq> 0x80 \<longleftrightarrow> bit u 5"
    proof -
      have "bit (?b2 AND 0xE0) 5 \<longleftrightarrow> bit u 5" by (auto simp: bit_simps)
      moreover have "?b2 AND 0xE0 = 0x80" if "\<not> bit u 5"
        using that by (intro bit_word_eqI) (auto simp: bit_simps dest!: bits)
      moreover have "\<not> bit (0x80 :: u8) 5" by simp
      ultimately show ?thesis by metis
    qed
    have "drop_bit 2 ?b1 AND 0x07 = ucast (drop_bit 8 u)"
      by (rule bit_word_eqI) (auto simp: bit_simps dest!: bits dest: u)
    moreover have "push_bit 6 ?b1 + (?b2 AND 0x3F) = ucast u"
    proof -
      have "push_bit 6 ?b1 AND (?b2 AND 0x3F) = 0" by (rule bit_word_eqI) (auto simp: bit_simps dest!: bits)
      then have "push_bit 6 ?b1 + (?b2 AND 0x3F) = push_bit 6 ?b1 OR (?b2 AND 0x3F)"
        using word_plus_and_or [of "push_bit 6 ?b1" "?b2 AND 0x3F"] by simp
      also have "\<dots> = ucast u" by (rule bit_word_eqI) (auto simp: bit_simps dest!: bits)
      finally show ?thesis .
    qed
    ultimately show ?thesis using 2 size bad
      by (simp only: utf8_enc_def enc_utf8_to_unicode_one_def peek_def Let_def bad_char_def ucs2_bytes_def) simp
  next
    case 3
    let ?b1 = "0xE0 OR ucast (drop_bit 12 u) :: u8" and ?b2 = "0x80 OR (ucast (drop_bit 6 u) AND 0x3F) :: u8"
      and ?b3 = "0x80 OR (ucast u AND 0x3F) :: u8"
    have ok: "?b2 AND 0xC0 = 0x80" "?b3 AND 0xC0 = 0x80"
      by (rule bit_word_eqI, auto simp: bit_simps dest!: bits)+
    have "push_bit 4 ?b1 + (drop_bit 2 ?b2 AND 0x0F) = ucast (drop_bit 8 u)"
    proof -
      have "push_bit 4 ?b1 AND (drop_bit 2 ?b2 AND 0x0F) = 0" by (rule bit_word_eqI) (auto simp: bit_simps dest!: bits)
      then have "push_bit 4 ?b1 + (drop_bit 2 ?b2 AND 0x0F) = push_bit 4 ?b1 OR (drop_bit 2 ?b2 AND 0x0F)"
        using word_plus_and_or [of "push_bit 4 ?b1" "drop_bit 2 ?b2 AND 0x0F"] by simp
      also have "\<dots> = ucast (drop_bit 8 u)" by (rule bit_word_eqI) (auto simp: bit_simps dest!: bits)
      finally show ?thesis .
    qed
    moreover have "push_bit 6 ?b2 + (?b3 AND 0x3F) = ucast u"
    proof -
      have "push_bit 6 ?b2 AND (?b3 AND 0x3F) = 0" by (rule bit_word_eqI) (auto simp: bit_simps dest!: bits)
      then have "push_bit 6 ?b2 + (?b3 AND 0x3F) = push_bit 6 ?b2 OR (?b3 AND 0x3F)"
        using word_plus_and_or [of "push_bit 6 ?b2" "?b3 AND 0x3F"] by simp
      also have "\<dots> = ucast u" by (rule bit_word_eqI) (auto simp: bit_simps dest!: bits)
      finally show ?thesis .
    qed
    ultimately show ?thesis using 3 size ok
      by (simp only: utf8_enc_def enc_utf8_to_unicode_one_def peek_def Let_def bad_char_def ucs2_bytes_def) simp
  qed
qed


lemma utf8_enc_pos: "0 < length (utf8_enc u)" "length (utf8_enc u) \<le> 3" "length (ucs2_bytes endian u) = 2"
  by (simp_all add: utf8_enc_def ucs2_bytes_def)

lemma utf8_enc_total: "length (concat (map utf8_enc us)) \<le> 3 * length us"
proof (induction us)
  case (Cons u us)
  then show ?case using utf8_enc_pos(2) [of u] by simp
qed simp

lemma utf8_loop_enc:
  assumes "drop iPos src = concat (map utf8_enc us)" "iPos \<le> length src" "oPos + 2 * length us \<le> maxOLen"
  shows "\<exists>i. utf8_loop src (length src) maxOLen endian iPos oPos =
    (if list_ex bad_char us then (Some EINVAL, concat (map (ucs2_bytes endian) (takeWhile (Not \<circ> bad_char) us)), i)
     else (None, concat (map (ucs2_bytes endian) us), length src))"
  using assms
proof (induction us arbitrary: iPos oPos)
  case Nil
  then have "iPos = length src" by simp
  then show ?case by (simp add: utf8_loop.simps)
next
  case (Cons u us)
  have drp: "drop iPos src = utf8_enc u @ concat (map utf8_enc us)" using Cons.prems(1) by simp
  have less: "iPos < length src" using drp utf8_enc_pos(1) [of u] by (metis append_is_Nil_conv drop_all leI length_0_conv less_numeral_extra(3))
  have pk: "peek src iPos = hd (utf8_enc u)"
    using less drp utf8_enc_pos(1) [of u] unfolding peek_def by (metis hd_append2 hd_drop_conv_nth length_greater_0_conv)
  show ?case
  proof (cases "bad_char u")
    case True
    then show ?thesis using less Cons.prems(3)
      by (subst utf8_loop.simps) (simp add: drp utf8_enc_one)
  next
    case False
    have sz: "enc_get_utf8_size (peek src iPos) = length (utf8_enc u)" by (simp add: pk utf8_enc_size)
    have nxt: "drop (iPos + length (utf8_enc u)) src = concat (map utf8_enc us)"
      using drp by (metis add.commute append_eq_conv_conj drop_drop)
    have "length src - iPos = length (utf8_enc u) + length (concat (map utf8_enc us))" using drp by (metis length_append length_drop)
    then have "iPos + length (utf8_enc u) \<le> length src" using less by linarith
    from Cons.IH [OF nxt this] Cons.prems(3)
    obtain i where i: "utf8_loop src (length src) maxOLen endian (iPos + length (utf8_enc u)) (oPos + 2) =
      (if list_ex bad_char us then (Some EINVAL, concat (map (ucs2_bytes endian) (takeWhile (Not \<circ> bad_char) us)), i)
       else (None, concat (map (ucs2_bytes endian) us), length src))" by fastforce
    show ?thesis using less Cons.prems(3) False
      by (subst utf8_loop.simps) (simp add: drp utf8_enc_one sz i [simplified])
  qed
qed

lemma liconv_terminates:
  assumes "\<And>src n. cr_error (cd src n obsize) = Some E2BIG \<Longrightarrow> cr_inleft (cd src n obsize) < n"
  shows "\<exists>r. liconv_loop cd s obsize pos ibleft acc = Some r"
proof (induction ibleft arbitrary: pos acc rule: less_induct)
  case (less ibleft)
  let ?r = "cd (drop pos s) ibleft obsize"
  show ?case
  proof (cases "cr_error ?r")
    case (Some e)
    show ?thesis
    proof (cases e)
      case E2BIG
      from less.IH [of "cr_inleft ?r" "pos + cr_advance ?r" "acc @ cr_out ?r"] assms Some E2BIG
      show ?thesis by (subst liconv_loop.simps) (simp add: Let_def)
    next
      case EINVAL
      then show ?thesis using Some by (subst liconv_loop.simps) (simp add: Let_def)
    qed
  next
    case None
    then show ?thesis by (subst liconv_loop.simps) (simp add: Let_def)
  qed
qed

lemma utf8_loop_advances:
  assumes "utf8_loop src n maxOLen endian iPos oPos = (Some E2BIG, out, i)"
  shows "iPos \<le> i \<and> i < n \<and> (oPos + 2 \<le> maxOLen \<longrightarrow> iPos < i)"
  using assms
proof (induction src n maxOLen endian iPos oPos arbitrary: out rule: utf8_loop.induct)
  case (1 src n maxOLen endian iPos oPos)
  show ?case
  proof (cases "iPos < n \<and> oPos + 2 \<le> maxOLen")
    case False
    then show ?thesis using "1.prems" by (subst (asm) utf8_loop.simps) (auto split: if_splits)
  next
    case True
    then obtain b rest where b: "enc_utf8_to_unicode_one (drop iPos src) endian = Some b"
      and rest: "utf8_loop src n maxOLen endian (iPos + enc_get_utf8_size (peek src iPos)) (oPos + 2) = (Some E2BIG, rest, i)"
      using "1.prems" by (subst (asm) utf8_loop.simps) (auto split: option.splits prod.splits)
    have "iPos + enc_get_utf8_size (peek src iPos) \<le> i \<and> i < n" using "1.IH" [OF _ _ b rest] True by auto
    then show ?thesis using utf8_size_pos [of "peek src iPos"] by linarith
  qed
qed

lemma size_minus_le: "b \<le> a \<Longrightarrow> a < 2 ^ 32 \<Longrightarrow> size_minus a b = a - b"
  by (simp add: size_minus_def flip: of_nat_diff)

lemma ucs2_loop_advances:
  assumes "ucs2_loop endian n src maxOLen oPos = (Some E2BIG, out, i)"
  shows "i < n \<and> (oPos + 3 \<le> maxOLen \<longrightarrow> 0 < i)"
  using assms
proof (induction endian n src maxOLen oPos arbitrary: out i rule: ucs2_loop.induct)
  case (1 endian n a b src maxOLen oPos)
  let ?utf = "utf8_bytes (unicode_val endian a b)"
  have "length ?utf \<le> 3" by (simp add: utf8_bytes_def)
  show ?case
  proof (cases "maxOLen < oPos + length ?utf")
    case True
    then show ?thesis using "1.prems" \<open>length ?utf \<le> 3\<close> by simp
  next
    case False
    obtain err rest k where k: "ucs2_loop endian n src maxOLen (oPos + length ?utf) = (err, rest, k)"
      by (metis prod_cases3)
    then have "err = Some E2BIG" "i = k + 2" using "1.prems" False by (simp_all add: Let_def)
    then show ?thesis using "1.IH" [OF refl False, of rest k] k by simp
  qed
qed simp_all

lemma gb_loop_advances:
  assumes "gb_loop t endian src n maxOLen oPos = (Some E2BIG, out, i, left)"
  shows "left \<le> n \<and> (oPos + 2 \<le> maxOLen \<longrightarrow> left < n)"
  using assms
proof (induction t endian src n maxOLen oPos arbitrary: out i rule: gb_loop.induct)
  case (1 t endian src n maxOLen oPos)
  show ?case
  proof (cases "n = 0 \<or> maxOLen < oPos + 2")
    case True
    then show ?thesis using "1.prems" by (subst (asm) gb_loop.simps) (auto split: if_splits)
  next
    case False
    consider (ascii) "peek src 0 < 0x80" | (gb) "\<not> peek src 0 < 0x80" "2 \<le> n" | (odd) "\<not> peek src 0 < 0x80" "\<not> 2 \<le> n" by blast
    then show ?thesis
    proof cases
      case ascii
      then obtain rest k where "gb_loop t endian (drop 1 src) (n - 1) maxOLen (oPos + 2) = (Some E2BIG, rest, k, left)"
        using "1.prems" False by (subst (asm) gb_loop.simps) (auto simp: Let_def split: prod.splits)
      then have "left \<le> n - 1" using "1.IH"(1) [of "peek src 0"] False ascii by auto
      moreover have "0 < n" using False by simp
      ultimately show ?thesis by linarith
    next
      case gb
      then obtain rest k where "gb_loop t endian (drop 2 src) (n - 2) maxOLen (oPos + 2) = (Some E2BIG, rest, k, left)"
        using "1.prems" False by (subst (asm) gb_loop.simps) (auto simp: Let_def split: prod.splits)
      then have "left \<le> n - 2" using "1.IH"(2) [of "peek src 0"] False gb by auto
      moreover have "0 < n" using False by simp
      ultimately show ?thesis by linarith
    next
      case odd
      then show ?thesis using "1.prems" False by (subst (asm) gb_loop.simps) (simp add: Let_def)
    qed
  qed
qed

lemma to_gb_loop_advances:
  assumes "to_gb_loop t endian k src maxOLen oPos = (Some E2BIG, out, left)"
  shows "0 < k \<and> left \<le> k"
  using assms
proof (induction t endian k src maxOLen oPos arbitrary: out rule: to_gb_loop.induct)
  case (2 t endian k src maxOLen oPos)
  then show ?case by (fastforce simp: Let_def split: if_splits prod.splits)
qed simp

lemma iconv_map_fct:
  assumes "(f, to, cd) \<in> set (iconv_map t)"
  shows "cd \<in> {iconv_ucs2_to_gb2312_endian t False, iconv_ucs2_to_gb2312_endian t True,
    iconv_gb2312_to_ucs2_endian t False, iconv_gb2312_to_ucs2_endian t True,
    iconv_utf8_to_ucs2, iconv_utf8_to_ucs2be, iconv_ucs2_to_utf8, iconv_ucs2be_to_utf8}"
  using assms by (auto simp: iconv_map_def)


lemma size_minus_less: "0 < i \<Longrightarrow> i \<le> n \<Longrightarrow> size_minus n i < n"
proof -
  assume "0 < i" "i \<le> n"
  have "size_minus n i = (n - i) mod 2 ^ 32" using \<open>i \<le> n\<close> by (simp add: size_minus_def nat_mod_as_int flip: of_nat_diff)
  also have "\<dots> \<le> n - i" by (rule mod_less_eq_dividend)
  also have "\<dots> < n" using \<open>0 < i\<close> \<open>i \<le> n\<close> by simp
  finally show ?thesis .
qed

lemma converters_advance:
  assumes "(f, to, cd) \<in> set (iconv_map t)" "256 \<le> obsize" "cr_error (cd src n obsize) = Some E2BIG"
  shows "cr_inleft (cd src n obsize) < n"
proof -
  have utf8: "cr_inleft (enc_utf8_to_unicode endian src n obsize) < n"
    if "cr_error (enc_utf8_to_unicode endian src n obsize) = Some E2BIG" for endian
  proof -
    obtain e out i where l: "utf8_loop src n obsize endian 0 0 = (e, out, i)" by (metis prod_cases3)
    then show ?thesis using that utf8_loop_advances [of src n obsize endian 0 0 out i] assms(2)
      by (simp add: enc_utf8_to_unicode_def size_minus_less)
  qed
  have ucs2: "cr_inleft (enc_unicode_to_utf8 endian src n obsize) < n"
    if "cr_error (enc_unicode_to_utf8 endian src n obsize) = Some E2BIG" for endian
  proof -
    obtain e out i where l: "ucs2_loop endian n src obsize 0 = (e, out, i)" by (metis prod_cases3)
    then show ?thesis using that ucs2_loop_advances [of endian n src obsize 0 out i] assms(2)
      by (simp add: enc_unicode_to_utf8_def size_minus_less)
  qed
  have gb: "cr_inleft (iconv_gb2312_to_ucs2_endian t endian src n obsize) < n"
    if "cr_error (iconv_gb2312_to_ucs2_endian t endian src n obsize) = Some E2BIG" for endian
  proof -
    obtain e out i left where l: "gb_loop t endian src n obsize 0 = (e, out, i, left)" by (metis prod_cases4)
    then show ?thesis using that gb_loop_advances [of t endian src n obsize 0 out i left] assms(2)
      by (simp add: iconv_gb2312_to_ucs2_endian_def)
  qed
  have to_gb: "cr_inleft (iconv_ucs2_to_gb2312_endian t endian src n obsize) < n"
    if "cr_error (iconv_ucs2_to_gb2312_endian t endian src n obsize) = Some E2BIG" for endian
  proof -
    obtain e out left where l: "to_gb_loop t endian (n div 2) src obsize 0 = (e, out, left)" by (metis prod_cases3)
    then have "0 < n div 2 \<and> left \<le> n div 2" using that to_gb_loop_advances [of t endian "n div 2" src obsize 0 out left]
      by (simp add: iconv_ucs2_to_gb2312_endian_def)
    then have "left < n" by linarith
    then show ?thesis using l by (simp add: iconv_ucs2_to_gb2312_endian_def)
  qed
  show ?thesis using iconv_map_fct [OF assms(1)] assms(3) utf8 ucs2 gb to_gb
    by (auto simp: iconv_utf8_to_ucs2_def iconv_utf8_to_ucs2be_def iconv_ucs2_to_utf8_def iconv_ucs2be_to_utf8_def)
qed

lemma iconv_open_set:
  assumes "iconv_open t tocode fromcode = Some cd"
  shows "\<exists>f to. (f, to, cd) \<in> set (iconv_map t)"
  using assms by (auto simp: iconv_open_def find_Some_iff) (metis nth_mem)

text \<open>ASCII text as UCS-2.\<close>

lemma ascii_one:
  assumes "i < length s" "s ! i < 0x80"
  shows "enc_get_utf8_size (peek s i) = 1" "enc_utf8_to_unicode_one (drop i s) False = Some [s ! i, 0]"
proof -
  have "\<not> bit (s ! i) 7" using small_bits [of "s ! i" 7 7] assms(2) by auto
  then show "enc_get_utf8_size (peek s i) = 1" "enc_utf8_to_unicode_one (drop i s) False = Some [s ! i, 0]"
    using assms(1) by (simp_all add: peek_def utf8_size_bits enc_utf8_to_unicode_one_def)
qed

lemma ascii_loop:
  assumes "\<forall>c\<in>set s. c < 0x80" "n \<le> length s" "i \<le> n" "even oPos" "even maxOLen" "oPos \<le> maxOLen"
  shows "utf8_loop s n maxOLen False i oPos =
    (let k = min (n - i) ((maxOLen - oPos) div 2)
     in (if k = n - i then None else Some E2BIG, concat (map (\<lambda>c. [c, 0]) (take k (drop i s))), i + k))"
  using assms(3-)
proof (induction "n - i" arbitrary: i oPos)
  case 0
  then show ?case by (simp add: utf8_loop.simps)
next
  case (Suc d)
  have i: "i < n" "i < length s" using Suc.hyps(2) assms(2) by auto
  have c: "s ! i < 0x80" using assms(1) i(2) by simp
  show ?case
  proof (cases "maxOLen < oPos + 2")
    case True
    then have "maxOLen = oPos" using Suc.prems by presburger
    then show ?thesis using i by (simp add: utf8_loop.simps)
  next
    case False
    obtain k where k: "k = min (n - Suc i) ((maxOLen - (oPos + 2)) div 2)" by blast
    have IH: "utf8_loop s n maxOLen False (i + 1) (oPos + 2) =
      (if k = n - Suc i then None else Some E2BIG, concat (map (\<lambda>c. [c, 0]) (take k (drop (i + 1) s))), i + 1 + k)"
      using Suc.hyps(1) [of "i + 1" "oPos + 2"] Suc.hyps(2) Suc.prems False i by (simp add: k Let_def)
    have sk: "min (n - i) ((maxOLen - oPos) div 2) = Suc k"
    proof -
      have "(maxOLen - oPos) div 2 = Suc ((maxOLen - (oPos + 2)) div 2)" using False by (simp add: div_nat_eqI)
      then show ?thesis using i by (simp add: k Suc_diff_Suc flip: min_Suc_Suc)
    qed
    have "take (Suc k) (drop i s) = s ! i # take k (drop (i + 1) s)" using i(2) by (simp add: Cons_nth_drop_Suc [symmetric])
    moreover have "Suc k = n - i \<longleftrightarrow> k = n - Suc i" using i by linarith
    ultimately show ?thesis using i False
      by (subst utf8_loop.simps) (simp add: ascii_one [OF i(2) c] IH [simplified] sk)
  qed
qed


lemma ascii_convert:
  assumes "\<forall>c\<in>set s. c < 0x80" "n \<le> length s" "n < 2 ^ 32" "even obsize"
  shows "iconv_utf8_to_ucs2 s n obsize =
    (let k = min n (obsize div 2)
     in \<lparr>cr_error = (if k = n then None else Some E2BIG), cr_out = concat (map (\<lambda>c. [c, 0]) (take k s)),
         cr_inleft = n - k, cr_advance = 0\<rparr>)"
  using ascii_loop [OF assms(1,2), of 0 0 obsize] assms(3,4)
  by (simp add: iconv_utf8_to_ucs2_def enc_utf8_to_unicode_def Let_def size_minus_le)

text \<open>C25: A conversion of the Lua module always ends, whatever the string: each of the eight converters that
  \<^verbatim>\<open>iconv_open\<close> knows leaves fewer bytes than it was given whenever it stops for a full output buffer, which
  has 256 bytes at least.
\<close>

theorem liconv_ends:
  assumes "iconv_open t tocode fromcode = Some cd"
  shows "\<exists>r. Liconv ok cd s = Some r"
proof -
  obtain f to where "(f, to, cd) \<in> set (iconv_map t)" using iconv_open_set [OF assms] by blast
  from converters_advance [OF this]
  have "\<exists>r. liconv_loop cd s (if 256 < length s then length s else 256) 0 (length s) [] = Some r"
    by (intro liconv_terminates) (simp split: if_splits)
  then show ?thesis by (simp add: Liconv_def)
qed

definition demo_tables :: gb_tables where
  "demo_tables = \<lparr>gb2312_to_ucs2_table = (\<lambda>i. i), ucs2_index_table = (\<lambda>p i. 0), ucs2_mirror = (\<lambda>p i. 0),
    ucs2_to_gb2312_table = (\<lambda>i. i), tab_UCS2_to_GBK = []\<rparr>"

theorem liconv_ends_witness:
  "\<exists>r. Liconv True (iconv_gb2312_to_ucs2_endian demo_tables True) (replicate 300 0xB0) = Some r"
  by (rule liconv_ends [of demo_tables "''ucs2be''" "''gb2312''"]) (simp add: iconv_open_def iconv_map_def)

text \<open>C24: From UCS-2 to UTF-8 the converters write the standard encoding of every character, in either byte order.
  Back from UTF-8 they return the same characters up to the first one between 0x80 and 0x7FF with bit 5 set, where
  they report EINVAL: the test of the second byte of a two-byte sequence looks at one bit too many.
\<close>

theorem utf8_roundtrip:
  assumes "3 * length us \<le> obsize"
    and utf8: "utf8 = concat (map utf8_enc us)"
  shows "enc_unicode_to_utf8 endian (concat (map (ucs2_bytes endian) us)) (2 * length us) obsize
      = \<lparr>cr_error = None, cr_out = utf8, cr_inleft = 0, cr_advance = 0\<rparr> \<and>
    cr_error (enc_utf8_to_unicode endian utf8 (length utf8) obsize) = (if list_ex bad_char us then Some EINVAL else None) \<and>
    cr_out (enc_utf8_to_unicode endian utf8 (length utf8) obsize)
      = concat (map (ucs2_bytes endian) (takeWhile (Not \<circ> bad_char) us))"
proof -
  have room: "0 + length (concat (map utf8_enc us)) \<le> obsize" "0 + 2 * length us \<le> obsize"
    using utf8_enc_total [of us] assms(1) by linarith+
  have "enc_unicode_to_utf8 endian (concat (map (ucs2_bytes endian) us)) (2 * length us) obsize
      = \<lparr>cr_error = None, cr_out = utf8, cr_inleft = 0, cr_advance = 0\<rparr>"
    by (simp add: enc_unicode_to_utf8_def ucs2_loop_enc [OF room(1)] size_minus_def utf8)
  moreover have all: "takeWhile (Not \<circ> bad_char) us = us" if "\<not> list_ex bad_char us"
    using that by (simp add: list_ex_iff takeWhile_eq_all_conv)
  moreover obtain i where "utf8_loop utf8 (length utf8) obsize endian 0 0 =
    (if list_ex bad_char us then (Some EINVAL, concat (map (ucs2_bytes endian) (takeWhile (Not \<circ> bad_char) us)), i)
     else (None, concat (map (ucs2_bytes endian) us), length utf8))"
    using utf8_loop_enc [of 0 utf8 us 0 obsize endian] room(2) by (auto simp: utf8)
  ultimately show ?thesis by (simp add: enc_utf8_to_unicode_def all del: takeWhile_eq_all_conv)
qed

theorem utf8_roundtrip_witness:
  "cr_error (enc_utf8_to_unicode True [0x41, 0xC3, 0x89, 0xE4, 0xB8, 0xAD] 6 16) = None \<and>
   cr_out (enc_utf8_to_unicode True [0x41, 0xC3, 0x89, 0xE4, 0xB8, 0xAD] 6 16) = [0x00, 0x41, 0x00, 0xC9, 0x4E, 0x2D] \<and>
   cr_error (enc_utf8_to_unicode False [0x41, 0xC3, 0xA9] 3 16) = Some EINVAL"
proof -
  have a: "[0x41, 0xC3, 0x89, 0xE4, 0xB8, 0xAD] = concat (map utf8_enc [0x41, 0xC9, 0x4E2D])" by code_simp
  have b: "[0x41, 0xC3, 0xA9] = concat (map utf8_enc [0x41, 0xE9])" by code_simp
  have "\<not> list_ex bad_char [0x41, 0xC9, 0x4E2D]" "list_ex bad_char [0x41, 0xE9]"
    "concat (map (ucs2_bytes True) (takeWhile (Not \<circ> bad_char) [0x41, 0xC9, 0x4E2D])) = [0x00, 0x41, 0x00, 0xC9, 0x4E, 0x2D]"
    by code_simp+
  then show ?thesis using utf8_roundtrip [OF _ a, of 16 True] utf8_roundtrip [OF _ b, of 16 False] by (simp add: eval_nat_numeral)
qed

text \<open>A text too long for the output buffer is converted wrongly.  The converters never advance
  \<^verbatim>\<open>*_inbuf\<close>, so the second round of \<^verbatim>\<open>Liconv\<close> starts at the beginning of the string again: ASCII text of
  \<open>n > 128\<close> bytes comes out as its first \<open>m\<close> characters followed by its first \<open>n - m\<close> ones, where \<open>m\<close> is how many
  fit the buffer.
\<close>

theorem liconv_repeats:
  assumes "\<forall>c\<in>set s. c < 0x80" "128 < length s" "length s \<le> 256 \<or> even (length s)" "length s < 2 ^ 32"
    and "m = (if 256 < length s then length s div 2 else 128)"
  shows "Liconv True iconv_utf8_to_ucs2 s = Some (concat (map (\<lambda>c. [c, 0]) (take m s @ take (length s - m) s)), None)"
proof -
  let ?ob = "if 256 < length s then length s else 256"
  have ob: "even ?ob" "?ob div 2 = m" using assms(3,5) by auto
  have m: "m < length s" "length s - m \<le> m" using assms(2,3,5) by auto
  note conv = ascii_convert [OF assms(1) _ _ ob(1), unfolded ob(2)]
  have "liconv_loop iconv_utf8_to_ucs2 s ?ob 0 (length s) [] =
      liconv_loop iconv_utf8_to_ucs2 s ?ob 0 (length s - m) (concat (map (\<lambda>c. [c, 0]) (take m s)))"
    by (subst liconv_loop.simps) (use m assms(4) in \<open>simp add: conv Let_def\<close>)
  also have "\<dots> = Some (concat (map (\<lambda>c. [c, 0]) (take m s)) @ concat (map (\<lambda>c. [c, 0]) (take (length s - m) s)), None)"
    by (subst liconv_loop.simps) (use m assms(4) in \<open>simp add: conv Let_def\<close>)
  finally show ?thesis by (simp add: Liconv_def)
qed


theorem liconv_repeats_witness:
  "Liconv True iconv_utf8_to_ucs2 (replicate 129 0x41 @ [0x42]) = Some (concat (replicate 130 [0x41, 0]), None)"
proof -
  have "concat (map (\<lambda>c. [c, 0 :: u8]) (take 128 (replicate 129 0x41 @ [0x42]) @ take (length (replicate 129 0x41 @ [0x42]) - 128) (replicate 129 0x41 @ [0x42])))
      = concat (replicate 130 [0x41, 0])"
    by (simp add: map_replicate_const flip: replicate_add concat_append)
  then show ?thesis using liconv_repeats [of "replicate 129 0x41 @ [0x42]" 128] by simp
qed

end
