(* ===== verification/Luadb.thy ===== *)
theory Luadb
  imports Prelude
begin

unbundle bit_operations_syntax

text \<open>
  The preset files: \<^verbatim>\<open>platform/src/preload.c\<close> and, for packed ones, \<^verbatim>\<open>lib/lzma/src/LzmaLib.c\<close>.

  A LuaDB image is a header followed by files, each a list of typed fields, a checksum and the contents.
  Compressed files are unpacked into the file system; scripts and media stay where they are and are
  entered into one of two tables, from which the streams of Table_Files read them.

  The memory behind a pointer is the list of its bytes; reading past it is the result \<open>None\<close>.
\<close>

subsection \<open>Reading the image\<close>

datatype luadb_error = LUADB_ERR_TLV_LEN | LUADB_ERR_CHECK_FAIL | LUADB_ERR_FILE_COUNT | LUADB_ERR_MAGIC
  | LUADB_ERR_OUT_OF_RANGE | LUADB_ERR_UNKNOWN_TYPE | LUADB_ERR_UNZIP_FILE | LUADB_ERR_WRITE_FILE
  | LUADB_ERR_ADD_TABLE_ITEM | LUADB_ERR_NOT_DBDATA

definition rd :: "bytes \<Rightarrow> nat \<Rightarrow> nat \<Rightarrow> bytes option" where
  "rd d p n = (if p + n \<le> length d then Some (take n (drop p d)) else None)"

definition DBMAKEU16 :: "bytes \<Rightarrow> nat \<Rightarrow> u16 option" where
  "DBMAKEU16 d p = map_option (\<lambda>b. ucast (b ! 0) OR push_bit 8 (ucast (b ! 1))) (rd d p 2)"

definition DBMAKEU32 :: "bytes \<Rightarrow> nat \<Rightarrow> u32 option" where
  "DBMAKEU32 d p = (case (DBMAKEU16 d p, DBMAKEU16 d (p + 2)) of
     (Some lo, Some hi) \<Rightarrow> Some (ucast lo OR push_bit 16 (ucast hi)) | _ \<Rightarrow> None)"

primrec check_sum :: "bytes \<Rightarrow> nat \<Rightarrow> u32" where
  "check_sum d 0 = 0"
| "check_sum d (Suc n) = ucast (d ! n) + check_sum d n"

definition calcCheckCode :: "bytes \<Rightarrow> nat \<Rightarrow> u16" where
  "calcCheckCode d n = ucast (check_sum d n)"

definition ASSERT_LEN :: "u8 \<Rightarrow> u8 \<Rightarrow> luadb_error option" where
  "ASSERT_LEN len defLen = (if len = defLen then None else Some LUADB_ERR_TLV_LEN)"

record db_head_info =
  verNum :: u16
  filecount :: u16
  h_length :: u32

record db_file_info =
  f_name :: bytes
  f_length :: u32
  f_offset :: u32

text \<open>What the field loops keep beside the structure they fill: the magic number, and the checksum once
  it has ended the loop.\<close>

type_synonym 'i scan = "'i \<times> u32 \<times> u16 option"

definition file_field :: "bytes \<Rightarrow> nat \<Rightarrow> u8 \<Rightarrow> u8 \<Rightarrow> db_file_info scan \<Rightarrow> (luadb_error option \<times> db_file_info scan) option" where
  "file_field d p type len s =
    (case s of (f, magic, c) \<Rightarrow>
       if type = 0x00 \<or> type = 0xFF then Some (ASSERT_LEN len 0, s)
       else if type = 0x01 then map_option (\<lambda>v. (ASSERT_LEN len 4, f, v, c)) (DBMAKEU32 d p)
       else if type = 0x02 then map_option (\<lambda>n. (None, f\<lparr>f_name := n\<rparr>, magic, c)) (rd d p (unat len))
       else if type = 0x03 then map_option (\<lambda>v. (ASSERT_LEN len 4, f\<lparr>f_length := v\<rparr>, magic, c)) (DBMAKEU32 d p)
       else if type = 0xFE then map_option (\<lambda>v. (ASSERT_LEN len 2, f, magic, Some v)) (DBMAKEU16 d p)
       else Some (Some LUADB_ERR_UNKNOWN_TYPE, s))"

definition head_field :: "bytes \<Rightarrow> nat \<Rightarrow> u8 \<Rightarrow> u8 \<Rightarrow> db_head_info scan \<Rightarrow> (luadb_error option \<times> db_head_info scan) option" where
  "head_field d p type len s =
    (case s of (h, magic, c) \<Rightarrow>
       if type = 0x01 then map_option (\<lambda>v. (ASSERT_LEN len 4, h, v, c)) (DBMAKEU32 d p)
       else if type = 0x02 then map_option (\<lambda>v. (ASSERT_LEN len 2, h\<lparr>verNum := v\<rparr>, magic, c)) (DBMAKEU16 d p)
       else if type = 0x03 then map_option (\<lambda>v. (ASSERT_LEN len 4, h\<lparr>h_length := v\<rparr>, magic, c)) (DBMAKEU32 d p)
       else if type = 0x04 then
         (if verNum h = 0 then map_option (\<lambda>b. (ASSERT_LEN len 1, h\<lparr>filecount := ucast (b ! 0)\<rparr>, magic, c)) (rd d p 1)
          else map_option (\<lambda>v. (ASSERT_LEN len 2, h\<lparr>filecount := v\<rparr>, magic, c)) (DBMAKEU16 d p))
       else if type = 0x00 \<or> type = 0xFF then Some (ASSERT_LEN len 0, s)
       else if type = 0xFE then map_option (\<lambda>v. (ASSERT_LEN len 2, h, magic, Some v)) (DBMAKEU16 d p)
       else Some (Some LUADB_ERR_UNKNOWN_TYPE, s))"

text \<open>The loop over the fields from \<open>pos\<close>: the error or what was read and the position behind the checksum.\<close>

function field_loop ::
  "(bytes \<Rightarrow> nat \<Rightarrow> u8 \<Rightarrow> u8 \<Rightarrow> 'i scan \<Rightarrow> (luadb_error option \<times> 'i scan) option) \<Rightarrow> bytes \<Rightarrow> nat \<Rightarrow> 'i scan \<Rightarrow>
   (luadb_error + ('i scan \<times> nat)) option" where
  "field_loop field d pos s =
    (if length d < pos + 2 then None
     else (let len = d ! (pos + 1)
           in case field d (pos + 2) (d ! pos) len s of
                None \<Rightarrow> None
              | Some (Some e, s') \<Rightarrow> Some (Inl e)
              | Some (None, s') \<Rightarrow>
                  (if snd (snd s') \<noteq> None then Some (Inr (s', pos + 2 + unat len))
                   else field_loop field d (pos + 2 + unat len) s')))"
  by pat_completeness auto
termination
  by (relation "measure (\<lambda>(field, d, pos, s). Suc (length d) - pos)") auto

declare field_loop.simps [simp del]

text \<open>The checks after the loop.\<close>

definition check_fields :: "bytes \<Rightarrow> (luadb_error + ('i scan \<times> nat)) \<Rightarrow> luadb_error + ('i \<times> nat)" where
  "check_fields d r = (case r of
     Inl e \<Rightarrow> Inl e
   | Inr ((i, magic, c), pos) \<Rightarrow>
       (if magic \<noteq> 0xA55AA55A then Inl LUADB_ERR_MAGIC
        else if Some (calcCheckCode d (pos - 2)) \<noteq> c then Inl LUADB_ERR_CHECK_FAIL
        else Inr (i, pos)))"

text \<open>\<open>d\<close> is the image from \<open>offset\<close>; the new offset is returned.\<close>

definition decodeFile :: "bytes \<Rightarrow> u32 \<Rightarrow> (luadb_error + (db_file_info \<times> u32)) option" where
  "decodeFile d offset =
    map_option (\<lambda>r. case check_fields d r of
        Inl e \<Rightarrow> Inl e
      | Inr (f, pos) \<Rightarrow> Inr (f\<lparr>f_offset := offset + of_nat pos\<rparr>, offset + (of_nat pos + f_length f)))
      (field_loop file_field d 0 (\<lparr>f_name = [], f_length = 0, f_offset = 0\<rparr>, 0, None))"

definition decodeHeadInfo :: "bytes \<Rightarrow> (luadb_error + (db_head_info \<times> u32)) option" where
  "decodeHeadInfo d =
    map_option (\<lambda>r. case check_fields d r of Inl e \<Rightarrow> Inl e | Inr (h, pos) \<Rightarrow> Inr (h, h_length h))
      (field_loop head_field d 0 (\<lparr>verNum = 0, filecount = 0, h_length = 0\<rparr>, 0, None))"

text \<open>The loop over the files: \<open>n\<close> are left.\<close>

primrec files_loop :: "nat \<Rightarrow> bytes \<Rightarrow> u32 \<Rightarrow> u32 \<Rightarrow> (luadb_error + (db_file_info list \<times> u32)) option" where
  "files_loop 0 db len offset = Some (Inr ([], offset))"
| "files_loop (Suc n) db len offset =
    (if \<not> offset < len then Some (Inr ([], offset))
     else (case decodeFile (drop (unat offset) db) offset of
         None \<Rightarrow> None
       | Some (Inl e) \<Rightarrow> Some (Inl e)
       | Some (Inr (f, offset')) \<Rightarrow>
           map_option (map_sum id (\<lambda>(fs, o'). (f # fs, o'))) (files_loop n db len offset')))"

text \<open>The first half of \<^verbatim>\<open>parse_luadb_data\<close>: the header, then the files of the image.\<close>

definition luadb_head :: "bytes \<Rightarrow> (luadb_error + (db_head_info \<times> u32)) option" where
  "luadb_head db =
    (case rd db 0 2 of
       None \<Rightarrow> None
     | Some b \<Rightarrow> (if \<not> (b ! 0 = 0x01 \<or> b ! 1 = 0x04) then Some (Inl LUADB_ERR_NOT_DBDATA) else decodeHeadInfo db))"

definition luadb_files :: "bytes \<Rightarrow> u32 \<Rightarrow> db_head_info \<Rightarrow> u32 \<Rightarrow> (luadb_error + db_file_info list) option" where
  "luadb_files db len h offset =
    map_option (\<lambda>r. case r of
        Inl e \<Rightarrow> Inl e
      | Inr (infos, end) \<Rightarrow>
          (if len < end then Inl LUADB_ERR_OUT_OF_RANGE
           else if length infos \<noteq> unat (filecount h) then Inl LUADB_ERR_FILE_COUNT
           else Inr infos))
      (files_loop (unat (filecount h)) db len offset)"

subsection \<open>The tables of files that stay in place\<close>

datatype table_section = LUA_SCRIPT_TABLE_UPDATE_SECTION | LUA_SCRIPT_TABLE_FLASH_SECTION

record table_item =
  pFile :: bytes
  nOffset :: u32
  nLen :: u32

text \<open>The two tables, newest entry first, and the file system of the platform: contents by path.\<close>

record db_state =
  pUpdateFileTable :: "table_item list"
  pFlashFileTable :: "table_item list"
  vfs :: "bytes \<Rightarrow> bytes option"

text \<open>\<open>ok\<close>: both allocations, of the entry and of its path, succeed; when the second one fails the first is freed.\<close>

definition AddUncompressFileItem :: "bool \<Rightarrow> table_section \<Rightarrow> bytes \<Rightarrow> u32 \<Rightarrow> u32 \<Rightarrow> db_state \<Rightarrow> bool \<times> db_state" where
  "AddUncompressFileItem ok sec file off len st =
    (if file = [] then (False, st)
     else if \<not> ok then (False, st)
     else (let item = \<lparr>pFile = file, nOffset = off, nLen = len\<rparr>
           in (True, case sec of
                 LUA_SCRIPT_TABLE_UPDATE_SECTION \<Rightarrow> st\<lparr>pUpdateFileTable := item # pUpdateFileTable st\<rparr>
               | LUA_SCRIPT_TABLE_FLASH_SECTION \<Rightarrow> st\<lparr>pFlashFileTable := item # pFlashFileTable st\<rparr>)))"

definition FindUncompressFileItem :: "bytes \<Rightarrow> db_state \<Rightarrow> (table_section \<times> table_item) option" where
  "FindUncompressFileItem file st =
    (if file = [] then None
     else (case List.find (\<lambda>i. pFile i = file) (pUpdateFileTable st) of
         Some i \<Rightarrow> Some (LUA_SCRIPT_TABLE_UPDATE_SECTION, i)
       | None \<Rightarrow> map_option (Pair LUA_SCRIPT_TABLE_FLASH_SECTION) (List.find (\<lambda>i. pFile i = file) (pFlashFileTable st))))"

definition in_update :: "bytes \<Rightarrow> db_state \<Rightarrow> bool" where
  "in_update file st \<longleftrightarrow> map_option fst (FindUncompressFileItem file st) = Some LUA_SCRIPT_TABLE_UPDATE_SECTION"

text \<open>What the platform decides: which paths can be created, which writes go through, which allocations
  succeed, those for a table entry by the path and the offset of its file; and the decoder of LZMA: the acceptance of its properties, and from the properties, the packed data
  and the size of the output what it produced and how much it read.\<close>

record plat =
  can_create :: "bytes \<Rightarrow> bool"
  can_write :: "bytes \<Rightarrow> bytes \<Rightarrow> bool"
  alloc :: "nat \<Rightarrow> bool"
  alloc_item :: "bytes \<Rightarrow> u32 \<Rightarrow> bool"
  LzmaDec_Allocate :: "bytes \<Rightarrow> bool"
  LzmaDec_DecodeToBuf :: "bytes \<Rightarrow> bytes \<Rightarrow> nat \<Rightarrow> bytes \<times> nat"

text \<open>\<^verbatim>\<open>fopen\<close> for reading succeeds: in the update table, in the file system or in the flash table
  (\<^verbatim>\<open>file_exist\<close> of \<^verbatim>\<open>shell.c\<close>).\<close>

definition file_exist :: "bytes \<Rightarrow> db_state \<Rightarrow> bool" where
  "file_exist file st \<longleftrightarrow> FindUncompressFileItem file st \<noteq> None \<or> vfs st file \<noteq> None"

definition remove_file :: "bytes \<Rightarrow> db_state \<Rightarrow> db_state" where
  "remove_file file st = st\<lparr>vfs := (vfs st)(file := None)\<rparr>"

text \<open>\<^verbatim>\<open>fopen(file, "wb")\<close>, one \<^verbatim>\<open>fwrite\<close> and \<^verbatim>\<open>fclose\<close>, with the removal after a failed write.  For a
  file of the update table \<^verbatim>\<open>fopen\<close> returns the table's entry, as it does for one of the flash table
  that cannot be created; such a stream refuses to be written.  \<^verbatim>\<open>fwrite\<close> reports an error for no bytes.\<close>

definition write_file :: "plat \<Rightarrow> bytes \<Rightarrow> bytes \<Rightarrow> db_state \<Rightarrow> bool \<times> db_state" where
  "write_file pl file data st =
    (if in_update file st \<or> (\<not> can_create pl file \<and> FindUncompressFileItem file st \<noteq> None) then (False, remove_file file st)
     else if \<not> can_create pl file then (False, st)
     else if data = [] \<or> \<not> can_write pl file data then (False, remove_file file st)
     else (True, st\<lparr>vfs := (vfs st)(file \<mapsto> data)\<rparr>))"

subsection \<open>Packed files\<close>

datatype sz_error = SZ_ERROR_DATA | SZ_ERROR_MEM | SZ_ERROR_INPUT_EOF | SZ_ERROR_FAIL | SZ_ERROR_UNSUPPORTED

abbreviation (input) LZMA_PROPS_SIZE :: nat where "LZMA_PROPS_SIZE \<equiv> 5"
abbreviation (input) LZMA_HEAD_SIZE :: nat where "LZMA_HEAD_SIZE \<equiv> 13"

definition unpack_size :: "bytes \<Rightarrow> u64" where
  "unpack_size inbuff = fold (\<lambda>i n. n + push_bit (i * 8) (ucast (inbuff ! (LZMA_PROPS_SIZE + i)))) [0..<8] 0"

definition DecodeToBuf :: "plat \<Rightarrow> bytes \<Rightarrow> nat \<Rightarrow> sz_error + bytes" where
  "DecodeToBuf pl src unpackSize =
    (if \<not> LzmaDec_Allocate pl (take LZMA_PROPS_SIZE src) then Inl SZ_ERROR_UNSUPPORTED
     else (let (out, inProcessed) = LzmaDec_DecodeToBuf pl (take LZMA_PROPS_SIZE src) (drop LZMA_HEAD_SIZE src) unpackSize
           in if length out \<noteq> unpackSize then Inl SZ_ERROR_INPUT_EOF
              else if inProcessed = 0 \<and> length out = 0 then Inl SZ_ERROR_DATA
              else Inr out))"

definition LzmaDecodeBufToBuf :: "plat \<Rightarrow> bytes \<Rightarrow> sz_error + bytes" where
  "LzmaDecodeBufToBuf pl inbuff =
    (if length inbuff \<le> LZMA_HEAD_SIZE then Inl SZ_ERROR_INPUT_EOF
     else if drop_bit 31 (unpack_size inbuff) \<noteq> 0 then Inl SZ_ERROR_MEM
     else (let outlen = unat (unpack_size inbuff)
           in if \<not> alloc pl outlen then Inl SZ_ERROR_MEM else DecodeToBuf pl inbuff outlen))"

definition LzmaDecodeBufToFile :: "plat \<Rightarrow> bytes \<Rightarrow> bytes \<Rightarrow> db_state \<Rightarrow> sz_error option \<times> db_state" where
  "LzmaDecodeBufToFile pl inbuff outfile st =
    (if length inbuff \<le> LZMA_HEAD_SIZE then (Some SZ_ERROR_INPUT_EOF, st)
     else if drop_bit 31 (unpack_size inbuff) \<noteq> 0 then (Some SZ_ERROR_MEM, st)
     else (let outlen = unat (unpack_size inbuff)
           in if \<not> alloc pl outlen then (Some SZ_ERROR_MEM, st)
              else (case DecodeToBuf pl inbuff outlen of
                  Inl e \<Rightarrow> (Some e, st)
                | Inr out \<Rightarrow> (let (ok, st') = write_file pl outfile out st in (if ok then None else Some SZ_ERROR_FAIL, st')))))"

text \<open>The same from a file; \<open>contents\<close> is what \<^verbatim>\<open>fread\<close> gets of it when it can be opened.\<close>

definition LzmaUncompressFile :: "plat \<Rightarrow> bytes option \<Rightarrow> bytes \<Rightarrow> db_state \<Rightarrow> sz_error option \<times> db_state" where
  "LzmaUncompressFile pl contents outfile st =
    (case contents of
       None \<Rightarrow> (Some SZ_ERROR_FAIL, st)
     | Some inbuff \<Rightarrow>
        (if length inbuff \<le> LZMA_HEAD_SIZE then (Some SZ_ERROR_INPUT_EOF, st)
         else if \<not> alloc pl (length inbuff) then (Some SZ_ERROR_MEM, st)
         else LzmaDecodeBufToFile pl inbuff outfile st))"

subsection \<open>Installing an image\<close>

abbreviation (input) lit :: "string \<Rightarrow> bytes" where "lit \<equiv> map of_char"

definition LUA_DIR :: bytes where "LUA_DIR = lit ''/lua''"
definition LUA_DATA_DIR :: bytes where "LUA_DATA_DIR = lit ''/ldata''"
definition LUA_UPDATE_FILE :: bytes where "LUA_UPDATE_FILE = lit ''/luazip/update.bin''"

definition cstr :: "bytes \<Rightarrow> bytes" where
  "cstr = takeWhile (\<lambda>b. b \<noteq> 0)"

text \<open>\<^verbatim>\<open>strncmp(&name[i], s, strlen(s)) == 0\<close>; \<open>None\<close> when \<^verbatim>\<open>i\<close> is outside the allocated name.\<close>

definition name_at :: "bytes \<Rightarrow> int \<Rightarrow> bytes \<Rightarrow> bool option" where
  "name_at name i s =
    (if i < 0 \<or> int (length name) < i then None else Some (take (length s) (cstr (drop (nat i) name)) = s))"

definition opt_or :: "bool option \<Rightarrow> bool option \<Rightarrow> bool option" where
  "opt_or a b = (case a of None \<Rightarrow> None | Some True \<Rightarrow> Some True | Some False \<Rightarrow> b)"

text \<open>The path of a file: the directory, a slash and \<open>n\<close> characters of the name, in a buffer of 256 bytes.\<close>

definition path_of :: "bool \<Rightarrow> bytes \<Rightarrow> nat \<Rightarrow> bytes option" where
  "path_of script name n =
    (let p = (if script then LUA_DIR else LUA_DATA_DIR) @ [0x2F] @ cstr (take n name)
     in if length p < 256 then Some p else None)"

definition is_zip :: "bytes \<Rightarrow> bool" where
  "is_zip name \<longleftrightarrow> cstr (drop (length name - 4) name) = lit ''.zip''"

definition table_suffixes :: "bytes list" where
  "table_suffixes = [lit ''.lua'', lit ''.bmp'', lit ''.BMP'', lit ''.png'', lit ''.PNG'', lit ''.amr'', lit ''.AMR'', lit ''.MP3'', lit ''.mp3'']"

text \<open>The test before a file is written.\<close>

definition must_write :: "bool \<Rightarrow> bytes \<Rightarrow> db_state \<Rightarrow> bool" where
  "must_write override file st \<longleftrightarrow> (\<not> file_exist file st \<and> \<not> in_update file st) \<or> override"

record install =
  i_st :: db_state
  delupdpack :: bool
  wrFile :: bool

text \<open>One file of the image; \<open>content\<close> is the memory at its offset.\<close>

definition install_file :: "plat \<Rightarrow> bool \<Rightarrow> table_section \<Rightarrow> bytes \<Rightarrow> db_file_info \<Rightarrow> install \<Rightarrow> (luadb_error option \<times> install) option" where
  "install_file pl override sec db f s =
    (let name = f_name f; nameLen = length name; st = i_st s;
         content = rd db (unat (f_offset f)) (unat (f_length f))
     in if nameLen \<le> 4 then Some (None, s)
        else if is_zip name then
          (let withoutZipLen = nameLen - 4; withoutLuaLen = unat (of_nat withoutZipLen - 4 :: u8)
           in case opt_or (name_at name (int withoutLuaLen) (lit ''.lua'')) (name_at name (int withoutLuaLen - 1) (lit ''.luae'')) of
                None \<Rightarrow> None
              | Some script \<Rightarrow>
                (case path_of script name withoutZipLen of
                   None \<Rightarrow> None
                 | Some file \<Rightarrow>
                    (if must_write override file st then
                       (case content of
                          None \<Rightarrow> None
                        | Some data \<Rightarrow>
                            (let (e, st') = LzmaDecodeBufToFile pl data file st
                             in Some (if e = None then (None, s\<lparr>i_st := st', wrFile := True\<rparr>)
                                      else (Some LUADB_ERR_UNZIP_FILE, s\<lparr>i_st := st'\<rparr>))))
                     else Some (None, s))))
        else
          (let s = s\<lparr>delupdpack := False\<rparr>
           in case (name_at name (int nameLen - 4) (lit ''.lua''), name_at name (int nameLen - 5) (lit ''.luae'')) of
                (Some lua, Some luae) \<Rightarrow>
                (case path_of (lua \<or> luae) name nameLen of
                   None \<Rightarrow> None
                 | Some file \<Rightarrow>
                    (if luae \<or> (\<exists>x\<in>set table_suffixes. name_at name (int nameLen - 4) x = Some True) then
                       (let (ok, st') = AddUncompressFileItem (alloc_item pl file (f_offset f)) sec file (f_offset f) (f_length f) st
                        in Some (if ok then (None, s\<lparr>i_st := st'\<rparr>) else (Some LUADB_ERR_ADD_TABLE_ITEM, s)))
                     else if must_write override file st then
                       (case content of
                          None \<Rightarrow> None
                        | Some data \<Rightarrow>
                            (let (ok, st') = write_file pl file data st
                             in Some (if ok then (None, s\<lparr>i_st := st', wrFile := True\<rparr>)
                                      else (Some LUADB_ERR_WRITE_FILE, s\<lparr>i_st := st'\<rparr>))))
                     else Some (None, s)))
              | _ \<Rightarrow> None))"

fun install_loop :: "plat \<Rightarrow> bool \<Rightarrow> table_section \<Rightarrow> bytes \<Rightarrow> db_file_info list \<Rightarrow> install \<Rightarrow> (luadb_error option \<times> install) option" where
  "install_loop pl override sec db [] s = Some (None, s)"
| "install_loop pl override sec db (f # fs) s =
    (case install_file pl override sec db f s of
       None \<Rightarrow> None
     | Some (Some e, s') \<Rightarrow> Some (Some e, s')
     | Some (None, s') \<Rightarrow> install_loop pl override sec db fs s')"

text \<open>The end of \<^verbatim>\<open>parse_luadb_data\<close>: the error, the restart flag and the state.\<close>

definition finish_install :: "table_section \<Rightarrow> bool \<Rightarrow> luadb_error option \<times> install \<Rightarrow> luadb_error option \<times> bool \<times> db_state" where
  "finish_install sec restart r =
    (case r of (e, s) \<Rightarrow>
       let upd = (e = None \<and> sec = LUA_SCRIPT_TABLE_UPDATE_SECTION)
       in (e, restart \<or> (upd \<and> (delupdpack s \<or> wrFile s)),
           if upd \<and> delupdpack s then remove_file LUA_UPDATE_FILE (i_st s) else i_st s))"

definition parse_luadb_data ::
  "plat \<Rightarrow> bytes \<Rightarrow> u32 \<Rightarrow> bool \<Rightarrow> table_section \<Rightarrow> bool \<Rightarrow> db_state \<Rightarrow> (luadb_error option \<times> bool \<times> db_state) option" where
  "parse_luadb_data pl db len override sec restart st =
    (let s = \<lparr>i_st = st, delupdpack = True, wrFile = False\<rparr>
     in case luadb_head db of
          None \<Rightarrow> None
        | Some (Inl LUADB_ERR_NOT_DBDATA) \<Rightarrow> Some (Some LUADB_ERR_NOT_DBDATA, restart, st)
        | Some (Inl e) \<Rightarrow> Some (finish_install sec restart (Some e, s))
        | Some (Inr (h, offset)) \<Rightarrow>
            (if \<not> alloc pl (20 * unat (filecount h)) then Some (finish_install sec restart (None, s))
             else (case luadb_files db len h offset of
                 None \<Rightarrow> None
               | Some (Inl e) \<Rightarrow> Some (finish_install sec restart (Some e, s))
               | Some (Inr infos) \<Rightarrow> map_option (finish_install sec restart) (install_loop pl override sec db infos s))))"


subsection \<open>The image format\<close>

definition le16 :: "u16 \<Rightarrow> bytes" where
  "le16 v = [ucast v, ucast (drop_bit 8 v)]"

definition le32 :: "u32 \<Rightarrow> bytes" where
  "le32 v = le16 (ucast v) @ le16 (ucast (drop_bit 16 v))"

definition tlv :: "u8 \<Rightarrow> bytes \<Rightarrow> bytes" where
  "tlv t v = [t, of_nat (length v)] @ v"

definition with_check :: "bytes \<Rightarrow> bytes" where
  "with_check b = b @ [0xFE, 2] @ le16 (calcCheckCode (b @ [0xFE, 2]) (length b + 2))"

definition encode_file :: "bytes \<Rightarrow> bytes \<Rightarrow> bytes" where
  "encode_file name content =
    with_check (tlv 0x01 (le32 0xA55AA55A) @ tlv 0x02 name @ tlv 0x03 (le32 (of_nat (length content)))) @ content"

definition encode_head :: "nat \<Rightarrow> bytes" where
  "encode_head n = with_check (tlv 0x01 (le32 0xA55AA55A) @ tlv 0x02 (le16 1) @ tlv 0x03 (le32 24) @ tlv 0x04 (le16 (of_nat n)))"

definition encode_db :: "(bytes \<times> bytes) list \<Rightarrow> bytes" where
  "encode_db files = encode_head (length files) @ concat (map (\<lambda>(n, c). encode_file n c) files)"

lemma length_le: "length (le16 v) = 2" "length (le32 w) = 4"
  by (simp_all add: le16_def le32_def)

lemma length_encode_file: "length (encode_file n c) = 18 + length n + length c"
  by (simp add: encode_file_def with_check_def tlv_def length_le)

lemma length_encode_head: "length (encode_head n) = 24"
  by (simp add: encode_head_def with_check_def tlv_def length_le)

lemma rd_append: "rd (pre @ v @ post) (length pre) (length v) = Some v"
  by (simp add: rd_def)

lemma rd_append': "p = length pre \<Longrightarrow> n = length v \<Longrightarrow> rd (pre @ v @ post) p n = Some v"
  using rd_append by simp

lemma DBMAKEU16_append:
  assumes "p = length pre"
  shows "DBMAKEU16 (pre @ le16 v @ post) p = Some v"
proof -
  have "rd (pre @ le16 v @ post) p 2 = Some (le16 v)" using assms by (intro rd_append') (simp_all add: length_le)
  moreover have "ucast (ucast v :: u8) OR push_bit 8 (ucast (ucast (drop_bit 8 v) :: u8)) = v"
  proof (rule bit_word_eqI)
    fix n assume "n < LENGTH(16)"
    then show "bit (ucast (ucast v :: u8) OR push_bit 8 (ucast (ucast (drop_bit 8 v) :: u8)) :: u16) n \<longleftrightarrow> bit v n"
      by (cases "n < 8") (auto simp: bit_simps)
  qed
  ultimately show ?thesis by (simp add: DBMAKEU16_def le16_def)
qed

lemma DBMAKEU32_append:
  assumes "p = length pre"
  shows "DBMAKEU32 (pre @ le32 v @ post) p = Some v"
proof -
  have "DBMAKEU16 (pre @ le16 (ucast v) @ (le16 (ucast (drop_bit 16 v)) @ post)) p = Some (ucast v)"
    using assms by (rule DBMAKEU16_append)
  moreover have "DBMAKEU16 ((pre @ le16 (ucast v)) @ le16 (ucast (drop_bit 16 v)) @ post) (p + 2) = Some (ucast (drop_bit 16 v))"
    using assms by (intro DBMAKEU16_append) (simp add: length_le)
  moreover have "ucast (ucast v :: u16) OR push_bit 16 (ucast (ucast (drop_bit 16 v) :: u16)) = v"
  proof (rule bit_word_eqI)
    fix n assume "n < LENGTH(32)"
    then show "bit (ucast (ucast v :: u16) OR push_bit 16 (ucast (ucast (drop_bit 16 v) :: u16)) :: u32) n \<longleftrightarrow> bit v n"
      by (cases "n < 16") (auto simp: bit_simps)
  qed
  ultimately show ?thesis by (simp add: DBMAKEU32_def le32_def)
qed

lemma field_loop_step:
  assumes d: "d = pre @ tlv t v @ post" and len: "length v < 256"
    and f: "field d (length pre + 2) t (of_nat (length v)) s = Some (None, i, m, None)"
  shows "field_loop field d (length pre) s = field_loop field d (length (pre @ tlv t v)) (i, m, None)"
proof -
  have at: "d ! length pre = t" "d ! (length pre + 1) = of_nat (length v)"
    using d by (simp_all add: tlv_def nth_append)
  have un: "unat (of_nat (length v) :: u8) = length v" using len by (simp add: unat_of_nat_small)
  show ?thesis
    by (subst field_loop.simps) (use d at f un in \<open>simp add: Let_def tlv_def\<close>)
qed

lemma check_sum_take: "n \<le> length d \<Longrightarrow> check_sum (d @ e) n = check_sum d n"
  by (induction n) (simp_all add: nth_append)

lemma calcCheckCode_append: "n = length d \<Longrightarrow> calcCheckCode (d @ e) n = calcCheckCode d n"
  by (simp add: calcCheckCode_def check_sum_take)

lemma field_loop_check:
  assumes d: "d = with_check pre @ post"
    and f: "\<And>v. DBMAKEU16 d (length pre + 2) = Some v \<Longrightarrow> field d (length pre + 2) 0xFE 2 s = Some (None, i, m, Some v)"
  shows "field_loop field d (length pre) s = Some (Inr ((i, m, Some (calcCheckCode d (length pre + 2))), length pre + 4))"
proof -
  have sum: "calcCheckCode d (length pre + 2) = calcCheckCode (pre @ [0xFE, 2]) (length pre + 2)"
    using calcCheckCode_append [of "length pre + 2" "pre @ [0xFE, 2]"] by (simp add: d with_check_def)
  have "DBMAKEU16 ((pre @ [0xFE, 2]) @ le16 (calcCheckCode (pre @ [0xFE, 2]) (length pre + 2)) @ post) (length pre + 2)
      = Some (calcCheckCode (pre @ [0xFE, 2]) (length pre + 2))" by (rule DBMAKEU16_append) simp
  then have c: "DBMAKEU16 d (length pre + 2) = Some (calcCheckCode d (length pre + 2))"
    unfolding sum by (simp add: d with_check_def)
  have at: "d ! length pre = 0xFE" "d ! (length pre + 1) = 2" using d by (simp_all add: with_check_def nth_append)
  have "length pre + 4 \<le> length d" using d by (simp add: with_check_def length_le)
  then show ?thesis
    by (subst field_loop.simps) (use at f [OF c] in \<open>simp add: Let_def\<close>)
qed


lemma check_with_check:
  assumes "d = with_check pre @ post" "m = 0xA55AA55A"
  shows "check_fields d (Inr ((i, m, Some (calcCheckCode d (length pre + 2))), length pre + 4)) = Inr (i, length pre + 4)"
  using assms(2) by (simp add: check_fields_def)

lemma decode_encode_file:
  assumes n: "length n < 256"
  shows "decodeFile (encode_file n c @ rest) offset =
    Some (Inr (\<lparr>f_name = n, f_length = of_nat (length c), f_offset = offset + of_nat (18 + length n)\<rparr>,
               offset + of_nat (length (encode_file n c))))"
proof -
  let ?t1 = "tlv 0x01 (le32 0xA55AA55A)" and ?t2 = "tlv 0x02 n" and ?t3 = "tlv 0x03 (le32 (of_nat (length c)))"
  let ?d = "encode_file n c @ rest" and ?pre = "tlv 0x01 (le32 0xA55AA55A) @ tlv 0x02 n @ tlv 0x03 (le32 (of_nat (length c)))"
  obtain post where d: "?d = with_check ?pre @ post" by (simp add: encode_file_def)
  obtain post' where d': "?d = ?pre @ post'" by (simp add: encode_file_def with_check_def)
  let ?i0 = "\<lparr>f_name = [], f_length = 0, f_offset = 0\<rparr>"
  have un: "unat (of_nat (length n) :: u8) = length n" using n by (simp add: unat_of_nat_small)
  have 1: "DBMAKEU32 ?d (Suc (Suc 0)) = Some 0xA55AA55A"
    using DBMAKEU32_append [of "Suc (Suc 0)" "[0x01, 4]" "0xA55AA55A"] d' by (simp add: tlv_def length_le)
  have 2: "rd ?d 8 (length n) = Some n"
    using rd_append' [of 8 "?t1 @ [0x02, of_nat (length n)]" "length n" n] d' by (simp add: tlv_def length_le)
  have 3: "DBMAKEU32 ?d (10 + length n) = Some (of_nat (length c))"
    using DBMAKEU32_append [of "10 + length n" "?t1 @ ?t2 @ [0x03, 4]" "of_nat (length c)"] d' by (simp add: tlv_def length_le)
  have lens: "length ?t1 = 6" "length (?t1 @ ?t2) = length n + 8" "length ?pre = length n + 14"
    by (simp_all add: tlv_def length_le)
  have s1: "field_loop file_field ?d (length ([] :: bytes)) (?i0, 0, None) = field_loop file_field ?d (length ([] @ ?t1)) (?i0, 0xA55AA55A, None)"
    by (rule field_loop_step [where post = "?t2 @ ?t3 @ post'"])
      (simp_all add: d' length_le file_field_def ASSERT_LEN_def 1 [unfolded d' append_assoc])
  have s2: "field_loop file_field ?d (length ?t1) (?i0, 0xA55AA55A, None)
      = field_loop file_field ?d (length (?t1 @ ?t2)) (?i0\<lparr>f_name := n\<rparr>, 0xA55AA55A, None)"
    by (rule field_loop_step [where post = "?t3 @ post'"])
      (use n in \<open>simp_all add: d' lens(1) file_field_def un 2 [unfolded d' append_assoc]\<close>)
  have s3: "field_loop file_field ?d (length (?t1 @ ?t2)) (?i0\<lparr>f_name := n\<rparr>, 0xA55AA55A, None)
      = field_loop file_field ?d (length ((?t1 @ ?t2) @ ?t3)) (?i0\<lparr>f_name := n, f_length := of_nat (length c)\<rparr>, 0xA55AA55A, None)"
    by (rule field_loop_step [where post = post'])
      (simp_all add: d' lens(2) [simplified] length_le file_field_def ASSERT_LEN_def 3 [unfolded d' append_assoc])
  have s4: "field_loop file_field ?d (length ?pre) (?i0\<lparr>f_name := n, f_length := of_nat (length c)\<rparr>, 0xA55AA55A, None)
      = Some (Inr ((?i0\<lparr>f_name := n, f_length := of_nat (length c)\<rparr>, 0xA55AA55A, Some (calcCheckCode ?d (length ?pre + 2))), length ?pre + 4))"
    by (rule field_loop_check [OF d]) (simp add: file_field_def ASSERT_LEN_def)
  have loop: "field_loop file_field ?d 0 (?i0, 0, None)
      = Some (Inr ((?i0\<lparr>f_name := n, f_length := of_nat (length c)\<rparr>, 0xA55AA55A, Some (calcCheckCode ?d (length ?pre + 2))), length ?pre + 4))"
    using s1 s2 s3 s4 by simp
  show ?thesis
    unfolding decodeFile_def loop option.map sum.case check_with_check [OF d refl]
    by (simp add: tlv_def length_le length_encode_file algebra_simps)
qed


lemma decode_encode_head:
  assumes n: "n < 2 ^ 16"
  shows "decodeHeadInfo (encode_head n @ rest) = Some (Inr (\<lparr>verNum = 1, filecount = of_nat n, h_length = 24\<rparr>, 24))"
proof -
  let ?t1 = "tlv 0x01 (le32 0xA55AA55A)" and ?t2 = "tlv 0x02 (le16 1)" and ?t3 = "tlv 0x03 (le32 24)" and ?t4 = "tlv 0x04 (le16 (of_nat n))"
  let ?d = "encode_head n @ rest"
    and ?pre = "tlv 0x01 (le32 0xA55AA55A) @ tlv 0x02 (le16 1) @ tlv 0x03 (le32 24) @ tlv 0x04 (le16 (of_nat n))"
  obtain post where d: "?d = with_check ?pre @ post" by (simp add: encode_head_def)
  obtain post' where d': "?d = ?pre @ post'" by (simp add: encode_head_def with_check_def)
  let ?i0 = "\<lparr>verNum = 0, filecount = 0, h_length = 0\<rparr>"
  have 1: "DBMAKEU32 ?d (Suc (Suc 0)) = Some 0xA55AA55A"
    using DBMAKEU32_append [of "Suc (Suc 0)" "[0x01, 4]" "0xA55AA55A"] d' by (simp add: tlv_def length_le)
  have 2: "DBMAKEU16 ?d 8 = Some 1"
    using DBMAKEU16_append [of 8 "?t1 @ [0x02, 2]" 1] d' by (simp add: tlv_def length_le)
  have 3: "DBMAKEU32 ?d 12 = Some 24"
    using DBMAKEU32_append [of 12 "?t1 @ ?t2 @ [0x03, 4]" 24] d' by (simp add: tlv_def length_le)
  have 4: "DBMAKEU16 ?d 18 = Some (of_nat n)"
    using DBMAKEU16_append [of 18 "?t1 @ ?t2 @ ?t3 @ [0x04, 2]" "of_nat n"] d' by (simp add: tlv_def length_le)
  have lens: "length ?t1 = 6" "length (?t1 @ ?t2) = 10" "length ((?t1 @ ?t2) @ ?t3) = 16" "length ?pre = 20"
    by (simp_all add: tlv_def length_le)
  have s1: "field_loop head_field ?d (length ([] :: bytes)) (?i0, 0, None) = field_loop head_field ?d (length ([] @ ?t1)) (?i0, 0xA55AA55A, None)"
    by (rule field_loop_step [where post = "?t2 @ ?t3 @ ?t4 @ post'"])
      (simp_all add: d' length_le head_field_def ASSERT_LEN_def 1 [unfolded d' append_assoc])
  have s2: "field_loop head_field ?d (length ?t1) (?i0, 0xA55AA55A, None)
      = field_loop head_field ?d (length (?t1 @ ?t2)) (?i0\<lparr>verNum := 1\<rparr>, 0xA55AA55A, None)"
    by (rule field_loop_step [where post = "?t3 @ ?t4 @ post'"])
      (simp_all add: d' lens(1) length_le head_field_def ASSERT_LEN_def 2 [unfolded d' append_assoc])
  have s3: "field_loop head_field ?d (length (?t1 @ ?t2)) (?i0\<lparr>verNum := 1\<rparr>, 0xA55AA55A, None)
      = field_loop head_field ?d (length ((?t1 @ ?t2) @ ?t3)) (?i0\<lparr>verNum := 1, h_length := 24\<rparr>, 0xA55AA55A, None)"
    by (rule field_loop_step [where post = "?t4 @ post'"])
      (simp_all add: d' lens(2) [simplified] length_le head_field_def ASSERT_LEN_def 3 [unfolded d' append_assoc])
  have s4: "field_loop head_field ?d (length ((?t1 @ ?t2) @ ?t3)) (?i0\<lparr>verNum := 1, h_length := 24\<rparr>, 0xA55AA55A, None)
      = field_loop head_field ?d (length (((?t1 @ ?t2) @ ?t3) @ ?t4)) (?i0\<lparr>verNum := 1, h_length := 24, filecount := of_nat n\<rparr>, 0xA55AA55A, None)"
    by (rule field_loop_step [where post = post'])
      (simp_all add: d' lens(3) [simplified] length_le head_field_def ASSERT_LEN_def 4 [unfolded d' append_assoc])
  have s5: "field_loop head_field ?d (length ?pre) (?i0\<lparr>verNum := 1, h_length := 24, filecount := of_nat n\<rparr>, 0xA55AA55A, None)
      = Some (Inr ((?i0\<lparr>verNum := 1, h_length := 24, filecount := of_nat n\<rparr>, 0xA55AA55A, Some (calcCheckCode ?d (length ?pre + 2))), length ?pre + 4))"
    by (rule field_loop_check [OF d]) (simp add: head_field_def ASSERT_LEN_def)
  have loop: "field_loop head_field ?d 0 (?i0, 0, None)
      = Some (Inr ((?i0\<lparr>verNum := 1, h_length := 24, filecount := of_nat n\<rparr>, 0xA55AA55A, Some (calcCheckCode ?d (length ?pre + 2))), length ?pre + 4))"
    using s1 s2 s3 s4 s5 by simp
  show ?thesis
    unfolding decodeHeadInfo_def loop option.map sum.case check_with_check [OF d refl] by simp
qed

text \<open>What the parser has to find: the files with the place of their contents.\<close>

fun file_infos :: "nat \<Rightarrow> (bytes \<times> bytes) list \<Rightarrow> db_file_info list" where
  "file_infos offset [] = []"
| "file_infos offset ((n, c) # files) =
    \<lparr>f_name = n, f_length = of_nat (length c), f_offset = of_nat (offset + 18 + length n)\<rparr>
      # file_infos (offset + length (encode_file n c)) files"

lemma length_file_infos [simp]: "length (file_infos o1 files) = length files"
  by (induction o1 files rule: file_infos.induct) simp_all

lemma files_loop_encode:
  assumes "\<forall>(n, c)\<in>set files. length n < 256"
    and "db = pre @ concat (map (\<lambda>(n, c). encode_file n c) files) @ post"
    and "length (pre @ concat (map (\<lambda>(n, c). encode_file n c) files)) \<le> unat len"
  shows "files_loop (length files) db len (of_nat (length pre))
    = Some (Inr (file_infos (length pre) files, of_nat (length (pre @ concat (map (\<lambda>(n, c). encode_file n c) files)))))"
  using assms
proof (induction files arbitrary: pre)
  case (Cons f files)
  obtain n c where f: "f = (n, c)" by (cases f)
  have n: "length n < 256" using Cons.prems(1) f by auto
  have fits: "length pre + length (encode_file n c) \<le> unat len" using Cons.prems(3) f by simp
  have un: "unat (of_nat (length pre) :: u32) = length pre"
    using fits unsigned_less [of len, where ?'a = nat] by (intro unat_of_nat_small) simp
  have less: "(of_nat (length pre) :: u32) < len"
    using fits by (simp add: word_less_nat_alt un length_encode_file)
  have d: "decodeFile (drop (length pre) db) (of_nat (length pre)) =
    Some (Inr (\<lparr>f_name = n, f_length = of_nat (length c), f_offset = of_nat (length pre) + of_nat (18 + length n)\<rparr>,
               of_nat (length pre) + of_nat (length (encode_file n c))))"
    using decode_encode_file [OF n, of c _ "of_nat (length pre)"] Cons.prems(2) f by simp
  have "files_loop (length files) db len (of_nat (length (pre @ encode_file n c)))
    = Some (Inr (file_infos (length (pre @ encode_file n c)) files,
        of_nat (length ((pre @ encode_file n c) @ concat (map (\<lambda>(n, c). encode_file n c) files)))))"
    using Cons.prems f by (intro Cons.IH) auto
  then show ?case
    by (simp add: f less un d ac_simps)
qed simp

lemma luadb_encode:
  assumes "length files < 2 ^ 16" "\<forall>(n, c)\<in>set files. length n < 256" "length (encode_db files) \<le> unat len"
  shows "luadb_head (encode_db files @ post) = Some (Inr (\<lparr>verNum = 1, filecount = of_nat (length files), h_length = 24\<rparr>, 24))"
    and "luadb_files (encode_db files @ post) len \<lparr>verNum = 1, filecount = of_nat (length files), h_length = 24\<rparr> 24
      = Some (Inr (file_infos 24 files))"
proof -
  have b: "encode_db files @ post = encode_head (length files) @ (concat (map (\<lambda>(n, c). encode_file n c) files) @ post)"
    by (simp add: encode_db_def)
  have "encode_head (length files) = [0x01, 4] @ drop 2 (encode_head (length files))"
    by (simp add: encode_head_def with_check_def tlv_def length_le)
  then obtain tail where tail: "encode_head (length files) = [0x01, 4] @ tail" by blast
  have "rd (encode_db files @ post) 0 2 = Some [0x01, 4]"
    unfolding b tail by (simp add: rd_def)
  then show "luadb_head (encode_db files @ post) = Some (Inr (\<lparr>verNum = 1, filecount = of_nat (length files), h_length = 24\<rparr>, 24))"
    using decode_encode_head [OF assms(1)] by (simp add: luadb_head_def b)
  have un: "unat (of_nat (length files) :: u16) = length files" using assms(1) by (simp add: unat_of_nat_small)
  have len: "length (encode_head (length files) @ concat (map (\<lambda>(n, c). encode_file n c) files)) \<le> unat len"
    using assms(3) by (simp add: encode_db_def)
  have "(of_nat (length (encode_head (length files) @ concat (map (\<lambda>(n, c). encode_file n c) files))) :: u32) \<le> len"
    using len unsigned_less [of len, where ?'a = nat] by (simp only: word_le_nat_alt) (subst unat_of_nat_small, simp_all)
  moreover have "files_loop (length files) (encode_db files @ post) len (of_nat (length (encode_head (length files))))
    = Some (Inr (file_infos (length (encode_head (length files))) files,
        of_nat (length (encode_head (length files) @ concat (map (\<lambda>(n, c). encode_file n c) files)))))"
    using assms(2) len by (intro files_loop_encode) (simp_all add: encode_db_def)
  ultimately show "luadb_files (encode_db files @ post) len \<lparr>verNum = 1, filecount = of_nat (length files), h_length = 24\<rparr> 24
      = Some (Inr (file_infos 24 files))"
    by (simp add: luadb_files_def un length_encode_head not_less)
qed

definition demo_plat :: plat where
  "demo_plat = \<lparr>can_create = (\<lambda>p. True), can_write = (\<lambda>p d. True), alloc = (\<lambda>n. n < 4096), alloc_item = (\<lambda>p off. True),
    LzmaDec_Allocate = (\<lambda>p. True), LzmaDec_DecodeToBuf = (\<lambda>p d n. (take n d, length d))\<rparr>"

definition demo_files :: "(bytes \<times> bytes) list" where
  "demo_files = [(lit ''main.lua'', lit ''print(1)''), (lit ''a.bmp'', [0x42, 0x4D])]"

subsection \<open>Bounds and errors of the parser\<close>

lemma DBMAKEU16_Some: "DBMAKEU16 d p = Some v \<Longrightarrow> p + 2 \<le> length d"
  by (auto simp: DBMAKEU16_def rd_def split: if_splits)

lemma file_loop_end:
  "field_loop file_field d pos s = Some (Inr (s', p)) \<Longrightarrow> snd (snd s) = None \<Longrightarrow> p \<le> length d"
proof (induction file_field d pos s rule: field_loop.induct)
  case (1 d pos s)
  obtain i m where s: "s = (i, m, None)" using "1.prems"(2) by (cases s) auto
  have room: "\<not> length d < pos + 2" using "1.prems"(1) by (subst (asm) field_loop.simps) (auto split: if_splits)
  obtain i' m' c' where f: "file_field d (pos + 2) (d ! pos) (d ! (pos + 1)) s = Some (None, i', m', c')"
    using "1.prems"(1) room by (subst (asm) field_loop.simps) (auto simp: Let_def split: option.splits)
  show ?case
  proof (cases c')
    case None
    then have "field_loop file_field d (pos + 2 + unat (d ! (pos + 1))) (i', m', None) = Some (Inr (s', p))"
      using "1.prems"(1) room f by (subst (asm) field_loop.simps) (simp add: Let_def)
    then show ?thesis using "1.hyps" [OF room refl f refl] None by simp
  next
    case (Some c)
    then have p: "p = pos + 2 + unat (d ! (pos + 1))"
      using "1.prems"(1) room f by (subst (asm) field_loop.simps) (simp add: Let_def)
    have "d ! (pos + 1) = 2" "DBMAKEU16 d (pos + 2) = Some c"
      using f Some s by (auto simp: file_field_def ASSERT_LEN_def split: if_splits)
    then show ?thesis using DBMAKEU16_Some [of d "pos + 2" c] p by simp
  qed
qed

lemma decodeFile_end:
  assumes "decodeFile d offset = Some (Inr (f, offset'))" "unat offset + length d < 2 ^ 32"
    and "unat (f_offset f) + unat (f_length f) < 2 ^ 32"
  shows "unat offset \<le> unat (f_offset f) \<and> unat offset' = unat (f_offset f) + unat (f_length f)"
proof -
  obtain r where r: "field_loop file_field d 0 (\<lparr>f_name = [], f_length = 0, f_offset = 0\<rparr>, 0, None) = Some r"
    using assms(1) by (auto simp: decodeFile_def)
  then obtain g pos where c: "check_fields d r = Inr (g, pos)"
    and f: "f = g\<lparr>f_offset := offset + of_nat pos\<rparr>" "offset' = offset + (of_nat pos + f_length g)"
    using assms(1) by (auto simp: decodeFile_def split: sum.splits)
  obtain s' where "r = Inr (s', pos)"
    using c by (auto simp: check_fields_def split: sum.splits prod.splits if_splits)
  then have "pos \<le> length d" using file_loop_end r by fastforce
  then have "unat (offset + of_nat pos) = unat offset + pos"
    using assms(2) by (simp add: unat_word_ariths unat_of_nat_small)
  moreover have "offset' = f_offset f + f_length f" using f by simp
  ultimately show ?thesis using assms(3) f(1) by (simp add: unat_word_ariths)
qed

lemma files_loop_inside:
  assumes "files_loop n db len offset = Some (Inr (infos, fin))" "length infos = n" "fin \<le> len" "length db < 2 ^ 32"
  shows "\<forall>f\<in>set infos. unat (f_offset f) + unat (f_length f) < 2 ^ 32 \<longrightarrow> unat (f_offset f) + unat (f_length f) \<le> unat len"
  using assms(1,2)
proof (induction n arbitrary: offset infos)
  case (Suc n)
  have "offset < len" using Suc.prems by (auto split: if_splits)
  then obtain f offset' z where f: "decodeFile (drop (unat offset) db) offset = Some (Inr (f, offset'))"
    and z: "files_loop n db len offset' = Some z" "map_sum id (\<lambda>(fs, o'). (f # fs, o')) z = Inr (infos, fin)"
    using Suc.prems(1) by (auto split: option.splits sum.splits)
  then obtain rest where rest: "files_loop n db len offset' = Some (Inr (rest, fin))" "infos = f # rest"
    by (cases z) auto
  have n: "length rest = n" using Suc.prems(2) rest(2) by simp
  have next_in: "offset' \<le> len"
  proof (cases n)
    case 0
    then show ?thesis using rest(1) assms(3) by simp
  next
    case (Suc m)
    then show ?thesis using rest(1) n by (auto split: if_splits)
  qed
  have "drop (unat offset) db \<noteq> []"
    using f by (auto simp: decodeFile_def field_loop.simps)
  then have "unat offset + length (drop (unat offset) db) < 2 ^ 32" using assms(4) by simp
  then have "unat offset' = unat (f_offset f) + unat (f_length f)" if "unat (f_offset f) + unat (f_length f) < 2 ^ 32"
    using decodeFile_end [OF f] that by simp
  then show ?case using Suc.IH [OF rest(1) n] next_in rest(2) by (auto simp: word_le_nat_alt)
qed simp

text \<open>C26: When the file list of an image passes its checks, it has as many files as the header says, and every file whose
  end does not exceed 32 bits lies inside the image, whatever the other files are: the arithmetic of the parser
  wraps around, but a file that does not wrap is caught by the check before the next file or by the last one.\<close>

theorem luadb_files_inside:
  assumes "luadb_files db len h offset = Some (Inr infos)" "length db < 2 ^ 32"
  shows "length infos = unat (filecount h) \<and>
    (\<forall>f\<in>set infos. unat (f_offset f) + unat (f_length f) < 2 ^ 32 \<longrightarrow> unat (f_offset f) + unat (f_length f) \<le> unat len)"
proof -
  obtain fin where loop: "files_loop (unat (filecount h)) db len offset = Some (Inr (infos, fin))" "fin \<le> len"
    and count: "length infos = unat (filecount h)"
  proof -
    obtain z where z: "files_loop (unat (filecount h)) db len offset = Some z"
      using assms(1) by (auto simp: luadb_files_def)
    then obtain r where "z = Inr r" using assms(1) by (cases z) (auto simp: luadb_files_def)
    then show ?thesis using that assms(1) z by (cases r) (auto simp: luadb_files_def not_less split: if_splits)
  qed
  show ?thesis using files_loop_inside [OF loop(1) count loop(2) assms(2)] count by blast
qed

text \<open>An image with a file whose length field makes the end wrap around is accepted.\<close>

definition wrap_db :: bytes where
  "wrap_db = encode_head 1 @ with_check (tlv 0x01 (le32 0xA55AA55A) @ tlv 0x02 (lit ''a.lua'') @ tlv 0x03 (le32 0xFFFFFFF6))"

lemma luadb_length_wraps:
  "luadb_head wrap_db = Some (Inr (\<lparr>verNum = 1, filecount = 1, h_length = 24\<rparr>, 24)) \<and>
   luadb_files wrap_db (of_nat (length wrap_db)) \<lparr>verNum = 1, filecount = 1, h_length = 24\<rparr> 24 =
     Some (Inr [\<lparr>f_name = lit ''a.lua'', f_length = 0xFFFFFFF6, f_offset = 47\<rparr>])"
  by code_simp


definition two_files :: "db_file_info list" where
  "two_files = file_infos 24 demo_files"

theorem luadb_files_inside_witness:
  "list_all (\<lambda>f. unat (f_offset f) + unat (f_length f) \<le> 83) two_files"
proof -
  have len: "length (encode_db demo_files) = 83"
    by (simp add: encode_db_def demo_files_def length_encode_head length_encode_file)
  have "luadb_files (encode_db demo_files @ []) 83 \<lparr>verNum = 1, filecount = of_nat (length demo_files), h_length = 24\<rparr> 24 = Some (Inr two_files)"
    unfolding two_files_def by (rule luadb_encode(2)) (simp_all only: len, simp_all add: demo_files_def)
  from luadb_files_inside [OF this] len
  have "\<forall>f\<in>set two_files. unat (f_offset f) + unat (f_length f) < 2 ^ 32 \<longrightarrow> unat (f_offset f) + unat (f_length f) \<le> 83" by simp
  moreover have "\<forall>f\<in>set two_files. unat (f_offset f) + unat (f_length f) < 2 ^ 32"
    by (simp add: two_files_def demo_files_def length_encode_file)
  ultimately show ?thesis by (simp only: list_all_iff) blast
qed

text \<open>No installed file gets into \<^verbatim>\<open>/luazip\<close>, where the updates are.\<close>

definition in_luazip :: "bytes \<Rightarrow> bool" where
  "in_luazip q \<longleftrightarrow> take 5 q = lit ''/luaz''"

lemma update_in_luazip: "in_luazip LUA_UPDATE_FILE"
  by (simp add: in_luazip_def LUA_UPDATE_FILE_def)

lemma path_of_not_luazip: "path_of script name n = Some p \<Longrightarrow> in_luazip q \<Longrightarrow> p \<noteq> q"
  by (auto simp: path_of_def LUA_DIR_def LUA_DATA_DIR_def in_luazip_def Let_def split: if_splits)

lemma write_file_other: "p \<noteq> q \<Longrightarrow> vfs (snd (write_file pl p d st)) q = vfs st q"
  by (simp add: write_file_def remove_file_def)

lemma lzma_file_other: "p \<noteq> q \<Longrightarrow> vfs (snd (LzmaDecodeBufToFile pl d p st)) q = vfs st q"
  using write_file_other [of p q pl _ st]
  by (auto simp: LzmaDecodeBufToFile_def Let_def split: sum.splits prod.splits) (metis snd_conv)+

lemma install_file_keeps:
  assumes "install_file pl override sec db f s = Some (e, s')"
  shows "(in_luazip q \<longrightarrow> vfs (i_st s') q = vfs (i_st s) q) \<and>
    (e = None \<longrightarrow> delupdpack s' = (delupdpack s \<and> (length (f_name f) \<le> 4 \<or> is_zip (f_name f))))"
proof -
  consider (short) "length (f_name f) \<le> 4" | (zip) "\<not> length (f_name f) \<le> 4" "is_zip (f_name f)"
    | (plain) "\<not> length (f_name f) \<le> 4" "\<not> is_zip (f_name f)" by blast
  then show ?thesis
  proof cases
    case short
    then show ?thesis using assms by (simp add: install_file_def)
  next
    case zip
    then show ?thesis using assms lzma_file_other path_of_not_luazip
      by (auto simp: install_file_def Let_def split: option.splits if_splits prod.splits) (metis snd_conv)+
  next
    case plain
    then show ?thesis using assms write_file_other path_of_not_luazip
      by (auto simp: install_file_def Let_def AddUncompressFileItem_def split: option.splits if_splits prod.splits table_section.splits)
         (metis snd_conv)+
  qed
qed

lemma install_loop_keeps:
  "install_loop pl override sec db infos s = Some (e, s') \<Longrightarrow>
    (in_luazip q \<longrightarrow> vfs (i_st s') q = vfs (i_st s) q) \<and>
    (e = None \<longrightarrow> delupdpack s' = (delupdpack s \<and> (\<forall>f\<in>set infos. length (f_name f) \<le> 4 \<or> is_zip (f_name f))))"
proof (induction infos arbitrary: s)
  case (Cons f infos)
  then show ?case using install_file_keeps [of pl override sec db f s]
    by (auto split: option.splits prod.splits)
qed simp

lemma update_end:
  assumes "parse_luadb_data pl db len override LUA_SCRIPT_TABLE_UPDATE_SECTION restart st = Some (None, restart', st')"
  shows "\<exists>h offset. luadb_head db = Some (Inr (h, offset)) \<and>
    (if \<not> alloc pl (20 * unat (filecount h)) then restart' \<and> st' = remove_file LUA_UPDATE_FILE st
     else (\<exists>infos. luadb_files db len h offset = Some (Inr infos) \<and>
       (if \<forall>f\<in>set infos. length (f_name f) \<le> 4 \<or> is_zip (f_name f)
        then restart' \<and> vfs st' LUA_UPDATE_FILE = None
        else vfs st' LUA_UPDATE_FILE = vfs st LUA_UPDATE_FILE)))"
proof -
  let ?s = "\<lparr>i_st = st, delupdpack = True, wrFile = False\<rparr>"
  obtain h offset where head: "luadb_head db = Some (Inr (h, offset))"
    using assms by (auto simp: parse_luadb_data_def finish_install_def Let_def split: option.splits sum.splits prod.splits luadb_error.splits)
  show ?thesis
  proof (cases "alloc pl (20 * unat (filecount h))")
    case False
    then show ?thesis using assms head by (simp add: parse_luadb_data_def finish_install_def Let_def)
  next
    case True
    obtain infos where infos: "luadb_files db len h offset = Some (Inr infos)"
      using assms head True by (auto simp: parse_luadb_data_def finish_install_def Let_def split: option.splits sum.splits prod.splits)
    then obtain e s' where loop: "install_loop pl override LUA_SCRIPT_TABLE_UPDATE_SECTION db infos ?s = Some (e, s')"
      and fin: "finish_install LUA_SCRIPT_TABLE_UPDATE_SECTION restart (e, s') = (None, restart', st')"
      using assms head True by (auto simp: parse_luadb_data_def Let_def)
    have e: "e = None" using fin by (simp add: finish_install_def Let_def)
    have "delupdpack s' \<longleftrightarrow> (\<forall>f\<in>set infos. length (f_name f) \<le> 4 \<or> is_zip (f_name f))"
      "vfs (i_st s') LUA_UPDATE_FILE = vfs st LUA_UPDATE_FILE"
      using install_loop_keeps [OF loop, of LUA_UPDATE_FILE] e update_in_luazip by simp_all
    then show ?thesis using head True infos fin e
      by (auto simp: finish_install_def Let_def remove_file_def)
  qed
qed

text \<open>What becomes of the update file.  When an update ends without an error, it is deleted and the system restarts if
  all its files were compressed (names of up to four characters count for nothing); an update with files that stay in
  place is kept unchanged, since the update table refers to it.  When the memory for the file list is not available,
  the update is deleted as well, although nothing of it was installed.
\<close>

theorem update_file_kept_or_deleted:
  assumes "parse_luadb_data pl db len override LUA_SCRIPT_TABLE_UPDATE_SECTION restart st = Some (None, restart', st')"
  shows "\<exists>h offset. luadb_head db = Some (Inr (h, offset)) \<and>
    (if \<not> alloc pl (20 * unat (filecount h)) then restart' \<and> st' = remove_file LUA_UPDATE_FILE st
     else (\<exists>infos. luadb_files db len h offset = Some (Inr infos) \<and>
       (if \<forall>f\<in>set infos. length (f_name f) \<le> 4 \<or> is_zip (f_name f)
        then restart' \<and> vfs st' LUA_UPDATE_FILE = None
        else vfs st' LUA_UPDATE_FILE = vfs st LUA_UPDATE_FILE)))"
  using assms by (rule update_end)

definition zip_files :: "(bytes \<times> bytes) list" where
  "zip_files = [(lit ''a.txt.zip'', replicate 5 0 @ [3, 0, 0, 0, 0, 0, 0, 0] @ [7, 8, 9])]"

definition zip_state :: db_state where
  "zip_state = \<lparr>pUpdateFileTable = [], pFlashFileTable = [],
     vfs = (\<lambda>p. if p = LUA_UPDATE_FILE then Some (encode_db zip_files) else None)\<rparr>"

theorem update_file_kept_or_deleted_witness:
  "\<exists>st'. parse_luadb_data demo_plat (encode_db zip_files) 4096 True LUA_SCRIPT_TABLE_UPDATE_SECTION False zip_state
      = Some (None, True, st') \<and> vfs st' LUA_UPDATE_FILE = None"
proof -
  have "(case parse_luadb_data demo_plat (encode_db zip_files) 4096 True LUA_SCRIPT_TABLE_UPDATE_SECTION False zip_state of
      Some (None, r, st') \<Rightarrow> r | _ \<Rightarrow> False)" by code_simp
  then obtain st' where run: "parse_luadb_data demo_plat (encode_db zip_files) 4096 True LUA_SCRIPT_TABLE_UPDATE_SECTION False zip_state
      = Some (None, True, st')" by (auto split: option.splits)
  have "luadb_head (encode_db zip_files) = Some (Inr (\<lparr>verNum = 1, filecount = 1, h_length = 24\<rparr>, 24))" by code_simp
  moreover have "luadb_files (encode_db zip_files) 4096 \<lparr>verNum = 1, filecount = 1, h_length = 24\<rparr> 24
      = Some (Inr [\<lparr>f_name = lit ''a.txt.zip'', f_length = 16, f_offset = 51\<rparr>])" by code_simp
  moreover have "is_zip (lit ''a.txt.zip'')" "alloc demo_plat 20" by code_simp+
  ultimately show ?thesis using update_file_kept_or_deleted [OF run] run by simp
qed

text \<open>An empty file that does not belong into a table makes an image fail: \<^verbatim>\<open>fwrite\<close> of no bytes is an error.\<close>

lemma empty_file_fails:
  assumes "can_create pl p" "FindUncompressFileItem p st = None"
  shows "fst (write_file pl p [] st) = False"
  using assms by (simp add: write_file_def in_update_def)

text \<open>A script of the update table blocks the compressed script of the same path in the ROM image: it cannot be
  written, and a copy in the file system is removed.\<close>

lemma update_entry_blocks_rom:
  assumes "in_update p st"
  shows "snd (LzmaDecodeBufToFile pl d p st) \<in> {st, remove_file p st} \<and> fst (LzmaDecodeBufToFile pl d p st) \<noteq> None"
  using assms by (auto simp: LzmaDecodeBufToFile_def write_file_def Let_def split: sum.splits)

end
