(* ===== verification/Table_Files.thy ===== *)
theory Table_Files
  imports Luadb
begin

unbundle bit_operations_syntax

text \<open>
  The streams of \<^verbatim>\<open>platform/src/preload.c\<close> that read the files of the tables: from the script section of
  the flash or from the update file, decrypted where the name says so; and the loop of \<^verbatim>\<open>fgets\<close>, which
  \<^verbatim>\<open>newlib/libc/src/stdio.c\<close> has in the same words.
\<close>

subsection \<open>Files of the tables\<close>

record ext_file =
  x_section :: table_section
  x_item :: table_item
  x_offset :: u32
  x_enc :: bool

text \<open>What these files are read from: the script section of the flash, the update file when it can be
  opened, and the platform's decryption of a block of whole words.\<close>

record storage =
  flash :: bytes
  update_bin :: "bytes option"
  decode :: "bytes \<Rightarrow> bytes"

text \<open>\<open>ok\<close>: the allocation of the stream succeeds; when it fails the type is written all the same through the
  null pointer, which is undefined.\<close>

definition fopen_ext :: "bool \<Rightarrow> bytes \<Rightarrow> db_state \<Rightarrow> ext_file option option" where
  "fopen_ext ok file st =
    (case FindUncompressFileItem file st of
       None \<Rightarrow> Some None
     | Some (sec, i) \<Rightarrow>
        (if ok then Some (Some \<lparr>x_section = sec, x_item = i, x_offset = 0,
            x_enc = (cstr (drop (length file - 5) file) = lit ''.luae'')\<rparr>)
         else None))"

definition ftell_ext :: "ext_file \<Rightarrow> u32" where
  "ftell_ext fp = x_offset fp"

definition feof_ext :: "ext_file \<Rightarrow> bool" where
  "feof_ext fp \<longleftrightarrow> sint (nLen (x_item fp)) \<le> sint (x_offset fp)"

datatype whence = SEEK_SET | SEEK_CUR | SEEK_END

text \<open>\<open>True\<close> is 0, \<open>False\<close> is -1.\<close>

definition fseek_ext :: "ext_file \<Rightarrow> u32 \<Rightarrow> whence \<Rightarrow> bool \<times> ext_file" where
  "fseek_ext fp offset w =
    (let len = sint (nLen (x_item fp))
     in case w of
          SEEK_SET \<Rightarrow>
            (if len < sint offset \<or> sint offset < 0 then (False, fp) else (True, fp\<lparr>x_offset := offset\<rparr>))
        | SEEK_CUR \<Rightarrow>
            (if len < sint (x_offset fp + offset) \<or> sint (x_offset fp + offset) < 0 then (False, fp)
             else (True, fp\<lparr>x_offset := x_offset fp + offset\<rparr>))
        | SEEK_END \<Rightarrow>
            (if sint offset < sint (- nLen (x_item fp)) \<or> 0 < sint offset then (False, fp)
             else (True, fp\<lparr>x_offset := nLen (x_item fp) - offset\<rparr>)))"

definition region :: "bytes \<Rightarrow> u32 \<Rightarrow> u32 \<Rightarrow> bytes" where
  "region mem at n = take (unat n) (drop (unat at) mem)"

text \<open>Decryption in blocks of 512 bytes; of the last, shorter one the whole words.\<close>

definition platform_decode :: "storage \<Rightarrow> bytes \<Rightarrow> nat \<Rightarrow> bytes" where
  "platform_decode s buf words = decode s (take (4 * words) buf) @ drop (4 * words) buf"

function decode_blocks :: "storage \<Rightarrow> bytes \<Rightarrow> bytes" where
  "decode_blocks s buf =
    (if length buf < 512 then platform_decode s buf (length buf div 4)
     else platform_decode s (take 512 buf) 128 @ decode_blocks s (drop 512 buf))"
  by pat_completeness auto
termination
  by (relation "measure (\<lambda>(s, buf). length buf)") auto

declare decode_blocks.simps [simp del]

text \<open>The count returned, the bytes put into the buffer and the stream.  What lies behind the bytes read is
  uninitialised memory and is left out.\<close>

definition decode_file :: "storage \<Rightarrow> u32 \<Rightarrow> u32 \<Rightarrow> ext_file \<Rightarrow> u32 \<times> bytes \<times> ext_file" where
  "decode_file s sz count fp =
    (let offset = ftell_ext fp;
         resid = count * sz;
         item = x_item fp;
         act_low_boundary = offset AND 0xFFFFFE00;
         act_up_boundary = (offset + resid + 512 - 1) AND 0xFFFFFE00;
         read_count = act_up_boundary - act_low_boundary;
         fp = snd (fseek_ext fp act_low_boundary SEEK_SET);
         len = (if read_count \<le> nLen item - offset then read_count else nLen item - offset);
         temp = region (flash s) (nOffset item + offset) len;
         act_count = (if len < read_count \<and> nLen item - offset < resid then nLen item - offset else resid);
         fp = snd (fseek_ext fp (offset + act_count) SEEK_SET);
         temp = decode_blocks s temp
     in (act_count div sz, region temp (offset - act_low_boundary) act_count, fp))"

definition fread_ext :: "storage \<Rightarrow> u32 \<Rightarrow> u32 \<Rightarrow> ext_file \<Rightarrow> u32 \<times> bytes \<times> ext_file" where
  "fread_ext s sz count fp =
    (let resid = count * sz
     in if resid = 0 then (0, [], fp)
        else (let item = x_item fp;
                  len = (if resid \<le> nLen item - x_offset fp then resid else nLen item - x_offset fp)
              in if sint len \<le> 0 then (0, [], fp)
                 else (case x_section fp of
                     LUA_SCRIPT_TABLE_UPDATE_SECTION \<Rightarrow>
                       (case update_bin s of
                          None \<Rightarrow> (0, [], fp)
                        | Some bin \<Rightarrow>
                            (len div sz, region bin (nOffset item + x_offset fp) len, fp\<lparr>x_offset := x_offset fp + len\<rparr>))
                   | LUA_SCRIPT_TABLE_FLASH_SECTION \<Rightarrow>
                       (if x_enc fp then decode_file s sz count fp
                        else (len div sz, region (flash s) (nOffset item + x_offset fp) len, fp\<lparr>x_offset := x_offset fp + len\<rparr>)))))"

text \<open>A character is a signed \<^verbatim>\<open>char\<close> on this processor.\<close>

definition getc_ext :: "storage \<Rightarrow> ext_file \<Rightarrow> int \<times> ext_file" where
  "getc_ext s fp =
    (let (n, b, fp) = fread_ext s 1 1 fp in (if n \<noteq> 1 then - 1 else sint (hd (b @ [0])), fp))"

definition ungetc_ext :: "ext_file \<Rightarrow> ext_file" where
  "ungetc_ext fp = snd (fseek_ext fp (- 1) SEEK_CUR)"

text \<open>The loop of \<^verbatim>\<open>fgets\<close>: \<open>k\<close> bytes of room are left, \<open>c\<close> is the character read last.  The bytes stored
  before the terminator, and the stream.\<close>

fun fgets_loop :: "('s \<Rightarrow> int \<times> 's) \<Rightarrow> nat \<Rightarrow> int \<Rightarrow> 's \<Rightarrow> bytes \<times> 's" where
  "fgets_loop getc k c s =
    (if c = - 1 then ([], s)
     else (case k of
         0 \<Rightarrow> ([], s)
       | Suc k' \<Rightarrow>
           (if c = 0x0A then ([0x0A], s)
            else (let (c', s') = getc s; (bs, s'') = fgets_loop getc k' c' s' in (word_of_int c # bs, s'')))))"

declare fgets_loop.simps [simp del]

definition fgets :: "('s \<Rightarrow> int \<times> 's) \<Rightarrow> int \<Rightarrow> 's \<Rightarrow> bytes option \<times> 's" where
  "fgets getc n s =
    (if n \<le> 1 then (None, s)
     else (let (c, s') = getc s
           in if c = - 1 then (None, s')
              else (let (bs, s'') = fgets_loop getc (nat (n - 1)) c s' in (Some bs, s''))))"

definition fgets_ext :: "storage \<Rightarrow> int \<Rightarrow> ext_file \<Rightarrow> bytes option \<times> ext_file" where
  "fgets_ext s = fgets (getc_ext s)"

subsection \<open>Table files as streams of bytes\<close>

text \<open>A plain file of the flash table whose position is inside the file.\<close>

definition x_ok :: "storage \<Rightarrow> ext_file \<Rightarrow> bool" where
  "x_ok s fp \<longleftrightarrow> x_section fp = LUA_SCRIPT_TABLE_FLASH_SECTION \<and> \<not> x_enc fp \<and> unat (nLen (x_item fp)) < 2 ^ 31 \<and>
    unat (x_offset fp) \<le> unat (nLen (x_item fp)) \<and> length (flash s) < 2 ^ 32 \<and>
    unat (nOffset (x_item fp)) + unat (nLen (x_item fp)) \<le> length (flash s)"

definition x_content :: "storage \<Rightarrow> ext_file \<Rightarrow> bytes" where
  "x_content s fp = region (flash s) (nOffset (x_item fp)) (nLen (x_item fp))"

definition x_pos :: "ext_file \<Rightarrow> nat" where
  "x_pos fp = unat (x_offset fp)"

lemma x_content_length: "x_ok s fp \<Longrightarrow> length (x_content s fp) = unat (nLen (x_item fp))"
  by (auto simp: x_ok_def x_content_def region_def min_def)

lemma x_pos_le: "x_ok s fp \<Longrightarrow> x_pos fp \<le> length (x_content s fp)"
  by (simp add: x_ok_def x_content_length x_pos_def)

lemma x_content_upd [simp]: "x_content s (fp\<lparr>x_offset := o1\<rparr>) = x_content s fp"
  by (simp add: x_content_def)

lemma x_pos_upd: "n < 2 ^ 32 \<Longrightarrow> x_pos (fp\<lparr>x_offset := of_nat n\<rparr>) = n"
  unfolding x_pos_def by (simp add: unat_of_nat_small)

lemma x_ok_upd: "x_ok s fp \<Longrightarrow> n \<le> length (x_content s fp) \<Longrightarrow> x_ok s (fp\<lparr>x_offset := of_nat n\<rparr>)"
  using x_content_length [of s fp] by (simp add: x_ok_def unat_of_nat_small)

lemma x_content_small: "x_ok s fp \<Longrightarrow> length (x_content s fp) < 2 ^ 31"
  by (simp add: x_content_length) (simp add: x_ok_def)

lemma fread_ext_eq:
  assumes ok: "x_ok s fp" and k: "k = min (unat (count * sz)) (length (x_content s fp) - x_pos fp)"
  shows "fread_ext s sz count fp =
    (of_nat k div sz, take k (drop (x_pos fp) (x_content s fp)), fp\<lparr>x_offset := of_nat (x_pos fp + k)\<rparr>)"
proof -
  let ?i = "x_item fp" and ?resid = "count * sz"
  let ?len = "if ?resid \<le> nLen ?i - x_offset fp then ?resid else nLen ?i - x_offset fp"
  have same: "fp\<lparr>x_offset := of_nat (x_pos fp + 0)\<rparr> = fp" by (simp add: x_pos_def)
  have le: "x_offset fp \<le> nLen ?i" using ok by (simp add: x_ok_def word_le_nat_alt)
  have sub: "unat (nLen ?i - x_offset fp) = length (x_content s fp) - x_pos fp"
    using unat_sub [OF le] ok by (simp add: x_content_length x_pos_def)
  have len: "unat ?len = k" using sub by (simp add: k word_le_nat_alt)
  have lenw: "?len = of_nat k" using len [symmetric] by (simp only: word_of_nat_eq_iff) simp
  have small: "k < 2 ^ 31" using x_content_small [OF ok] k by simp
  have sint: "sint ?len = int k" using sint_low [of ?len] len small by simp
  show ?thesis
  proof (cases "k = 0")
    case True
    then have "?resid = 0 \<or> sint ?len \<le> 0" using sint by simp
    then show ?thesis using True same by (auto simp: fread_ext_def Let_def)
  next
    case False
    then have r: "?resid \<noteq> 0" using k by auto
    have "unat (nOffset ?i + x_offset fp) = unat (nOffset ?i) + x_pos fp"
      using ok by (simp add: x_ok_def x_pos_def unat_word_ariths)
    then have data: "region (flash s) (nOffset ?i + x_offset fp) ?len = take k (drop (x_pos fp) (x_content s fp))"
      using k x_content_length [OF ok] len
      by (simp add: region_def x_content_def drop_take min_def ac_simps)
    have off: "x_offset fp + ?len = of_nat (x_pos fp + k)" by (simp add: lenw x_pos_def)
    have "\<not> sint ?len \<le> 0" using sint False by simp
    then show ?thesis using r ok unfolding fread_ext_def Let_def
      by (simp only: if_False lenw x_ok_def table_section.case if_P) (simp add: data [unfolded lenw] x_pos_def)
  qed
qed


text \<open>The same file as the C standard describes it: a sequence of bytes and a position.\<close>

datatype x_op = Fread u32 u32 | Getc | Ungetc | Fseek u32 whence | Ftell | Feof

datatype x_res = Data u32 bytes | Char int | Done | Ok bool | Pos u32

definition x_exec :: "storage \<Rightarrow> x_op \<Rightarrow> ext_file \<Rightarrow> x_res \<times> ext_file" where
  "x_exec s c fp = (case c of
     Fread sz count \<Rightarrow> (let (n, b, fp') = fread_ext s sz count fp in (Data n b, fp'))
   | Getc \<Rightarrow> (let (ch, fp') = getc_ext s fp in (Char ch, fp'))
   | Ungetc \<Rightarrow> (Done, ungetc_ext fp)
   | Fseek off w \<Rightarrow> (let (r, fp') = fseek_ext fp off w in (Ok r, fp'))
   | Ftell \<Rightarrow> (Pos (ftell_ext fp), fp)
   | Feof \<Rightarrow> (Ok (feof_ext fp), fp))"

definition a_seek :: "bytes \<Rightarrow> int \<Rightarrow> nat \<Rightarrow> bool \<times> nat" where
  "a_seek content target pos = (if 0 \<le> target \<and> target \<le> int (length content) then (True, nat target) else (False, pos))"

definition a_exec :: "bytes \<Rightarrow> x_op \<Rightarrow> nat \<Rightarrow> x_res \<times> nat" where
  "a_exec content c pos = (case c of
     Fread sz count \<Rightarrow>
       (let k = min (unat (count * sz)) (length content - pos) in (Data (of_nat k div sz) (take k (drop pos content)), pos + k))
   | Getc \<Rightarrow> (if pos < length content then (Char (sint (content ! pos)), pos + 1) else (Char (- 1), pos))
   | Ungetc \<Rightarrow> (Done, pos - 1)
   | Fseek off w \<Rightarrow>
       (let (r, p) = a_seek content
             (sint off + (case w of SEEK_SET \<Rightarrow> 0 | SEEK_CUR \<Rightarrow> int pos | SEEK_END \<Rightarrow> int (length content))) pos
        in (Ok r, p))
   | Ftell \<Rightarrow> (Pos (of_nat pos), pos)
   | Feof \<Rightarrow> (Ok (length content \<le> pos), pos))"

primrec run_ops :: "(x_op \<Rightarrow> 's \<Rightarrow> x_res \<times> 's) \<Rightarrow> x_op list \<Rightarrow> 's \<Rightarrow> x_res list \<times> 's" where
  "run_ops exec [] s = ([], s)"
| "run_ops exec (c # cs) s = (let (r, s') = exec c s; (rs, s'') = run_ops exec cs s' in (r # rs, s''))"

lemma run_ops_Cons: "run_ops exec (c # cs) s =
    (fst (exec c s) # fst (run_ops exec cs (snd (exec c s))), snd (run_ops exec cs (snd (exec c s))))"
  by (simp split: prod.split)

lemma getc_ext_eq:
  assumes ok: "x_ok s fp"
  shows "getc_ext s fp = (if x_pos fp < length (x_content s fp)
    then (sint (x_content s fp ! x_pos fp), fp\<lparr>x_offset := of_nat (x_pos fp + 1)\<rparr>) else (- 1, fp))"
proof -
  have same: "fp\<lparr>x_offset := of_nat (x_pos fp)\<rparr> = fp" by (simp add: x_pos_def)
  let ?k = "min (unat (1 * 1 :: u32)) (length (x_content s fp) - x_pos fp)"
  show ?thesis
  proof (cases "x_pos fp < length (x_content s fp)")
    case True
    then have "?k = 1" by simp
    moreover have "take 1 (drop (x_pos fp) (x_content s fp)) = [x_content s fp ! x_pos fp]"
      using True by (simp add: take_Suc_conv_app_nth hd_drop_conv_nth flip: take_hd_drop [of "0 :: nat"])
    ultimately show ?thesis using True fread_ext_eq [OF ok refl, of 1 1] by (simp add: getc_ext_def)
  next
    case False
    then have "?k = 0" by simp
    then show ?thesis using False fread_ext_eq [OF ok refl, of 1 1] same by (simp add: getc_ext_def)
  qed
qed

lemma sint_range: "- (2 ^ 31) \<le> sint (w :: u32)" "sint (w :: u32) < 2 ^ 31"
  using sint_greater_eq [of w] sint_less [of w] by simp_all

lemma sint_add_small:
  "unat (a :: u32) < 2 ^ 31 \<Longrightarrow> sint (a + b) = (if int (unat a) + sint b < 2 ^ 31 then int (unat a) + sint b else int (unat a) + sint b - 2 ^ 32)"
proof -
  assume a: "unat a < 2 ^ 31"
  let ?t = "int (unat a) + sint b"
  have "a = word_of_int (int (unat a))" "b = word_of_int (sint b)" by simp_all
  then have "a + b = word_of_int ?t" by (metis wi_hom_add)
  then have t: "sint (a + b) = (?t + 2 ^ 31) mod 2 ^ 32 - 2 ^ 31" using int_word_sint [of ?t, where ?'a = 32] by simp
  have "int (unat a) < int (2 ^ 31)" using a by (simp only: of_nat_less_iff)
  then have "int (unat a) < 2 ^ 31" by (simp only: of_nat_power of_nat_numeral)
  moreover have "(2 :: int) ^ 32 = 2 * 2 ^ 31" "0 \<le> int (unat a)" by (simp_all only: of_nat_0_le_iff) simp
  ultimately have ge: "- (2 ^ 31) \<le> ?t" "?t < 2 ^ 32" using sint_range [of b] by linarith+
  show ?thesis
  proof (cases "?t < 2 ^ 31")
    case True
    have "(?t + 2 ^ 31) mod 2 ^ 32 = ?t + 2 ^ 31" using True ge by (intro mod_pos_pos_trivial) simp_all
    then show ?thesis using True t by simp
  next
    case False
    have "(?t + 2 ^ 31) mod 2 ^ 32 = (?t + 2 ^ 31 - 2 ^ 32) mod 2 ^ 32" by (simp only: minus_mod_self2)
    also have "\<dots> = ?t + 2 ^ 31 - 2 ^ 32" using False ge by (intro mod_pos_pos_trivial) simp_all
    finally show ?thesis using False t by simp
  qed
qed


lemma of_nat_int_word: "0 \<le> i \<Longrightarrow> (of_nat (nat i) :: u32) = word_of_int i"
  using of_int_of_nat_eq [of "nat i", where ?'a = u32] by simp

lemma fseek_ext_eq:
  assumes ok: "x_ok s fp" and w: "w = SEEK_END \<Longrightarrow> sint off = 0"
  shows "fseek_ext fp off w =
    (let (r, p) = a_seek (x_content s fp)
          (sint off + (case w of SEEK_SET \<Rightarrow> 0 | SEEK_CUR \<Rightarrow> int (x_pos fp) | SEEK_END \<Rightarrow> int (length (x_content s fp)))) (x_pos fp)
     in (r, fp\<lparr>x_offset := of_nat p\<rparr>))"
proof -
  let ?L = "length (x_content s fp)" and ?i = "x_item fp"
  have same: "fp\<lparr>x_offset := of_nat (x_pos fp)\<rparr> = fp" by (simp add: x_pos_def)
  have L: "sint (nLen ?i) = int ?L" "?L < 2 ^ 31" "unat (nLen ?i) = ?L"
    using ok by (simp_all add: x_content_length x_ok_def sint_low)
  have pos: "unat (x_offset fp) < 2 ^ 31" "x_pos fp \<le> ?L" "unat (x_offset fp) = x_pos fp"
    using ok x_pos_le [OF ok] L(2) by (simp_all add: x_pos_def)
  show ?thesis
  proof (cases w)
    case SEEK_SET
    have "of_nat (nat (sint off)) = off" if "0 \<le> sint off" using that by (simp add: of_nat_int_word)
    then show ?thesis using same SEEK_SET L by (auto simp: fseek_ext_def a_seek_def)
  next
    case SEEK_CUR
    let ?t = "sint off + int (x_pos fp)"
    have add: "sint (x_offset fp + off) = (if ?t < 2 ^ 31 then ?t else ?t - 2 ^ 32)"
      using sint_add_small [OF pos(1), of off] pos(3) by (simp add: add.commute)
    have word: "of_nat (nat ?t) = x_offset fp + off" if "0 \<le> ?t"
    proof -
      have "(of_nat (nat ?t) :: u32) = word_of_int ?t" using that by (rule of_nat_int_word)
      also have "\<dots> = word_of_int (sint off) + word_of_int (int (x_pos fp))" by (simp only: wi_hom_add)
      also have "\<dots> = x_offset fp + off" by (simp add: x_pos_def add.commute)
      finally show ?thesis .
    qed
    have test: "(int ?L < sint (x_offset fp + off) \<or> sint (x_offset fp + off) < 0) \<longleftrightarrow> \<not> (0 \<le> ?t \<and> ?t \<le> int ?L)"
      using add sint_range [of off] pos(2) L(2) by (auto split: if_splits)
    show ?thesis
      unfolding fseek_ext_def Let_def SEEK_CUR whence.case a_seek_def L(1) test
      using same word by (simp split: if_split)
  next
    case SEEK_END
    then have o: "sint off = 0" using w by simp
    then have off: "off = 0" by (metis signed_eq_0_iff)
    have "sint (- nLen ?i) \<le> 0"
    proof (cases "nLen ?i = 0")
      case False
      then have "?L \<noteq> 0" using L(3) by (metis unat_eq_0)
      then have "unat (- nLen ?i) = 2 ^ 32 - ?L" using L(3) unat_sub_if' [of 0 "nLen ?i"] by simp
      then show ?thesis using sint_high [of "- nLen ?i"] L(2) by simp
    qed simp
    moreover have "nLen ?i = of_nat ?L" using L(3) [symmetric] by simp
    ultimately show ?thesis using SEEK_END off by (simp add: fseek_ext_def a_seek_def)
  qed
qed

text \<open>C7: Over any sequence of reads, single characters, pushed-back characters and seeks, a plain file of the flash table
  (not encrypted) behaves as the standard stream on its bytes: every result is that of the sequence of bytes and a position, and the
  position never leaves the file.  Excluded are only seeks from the end by other than 0.
\<close>

theorem table_file_is_stream:
  assumes "x_ok s fp" "\<forall>c\<in>set cs. \<forall>off. c = Fseek off SEEK_END \<longrightarrow> sint off = 0"
  shows "fst (run_ops (x_exec s) cs fp) = fst (run_ops (a_exec (x_content s fp)) cs (x_pos fp)) \<and>
    x_ok s (snd (run_ops (x_exec s) cs fp)) \<and> x_item (snd (run_ops (x_exec s) cs fp)) = x_item fp \<and>
    x_pos (snd (run_ops (x_exec s) cs fp)) = snd (run_ops (a_exec (x_content s fp)) cs (x_pos fp))"
  using assms
proof (induction cs arbitrary: fp)
  case (Cons c cs)
  have ok: "x_ok s fp" using Cons.prems(1) .
  have step: "\<exists>p. snd (x_exec s c fp) = fp\<lparr>x_offset := of_nat p\<rparr> \<and> p \<le> length (x_content s fp) \<and>
      a_exec (x_content s fp) c (x_pos fp) = (fst (x_exec s c fp), p)"
  proof (cases c)
    case (Fread sz count)
    let ?k = "min (unat (count * sz)) (length (x_content s fp) - x_pos fp)"
    show ?thesis using x_pos_le [OF ok]
      by (intro exI [of _ "x_pos fp + ?k"]) (simp add: Fread x_exec_def a_exec_def fread_ext_eq [OF ok refl] Let_def)
  next
    case Getc
    have same: "fp = fp\<lparr>x_offset := of_nat (x_pos fp)\<rparr>" by (simp add: x_pos_def)
    show ?thesis
    proof (cases "x_pos fp < length (x_content s fp)")
      case True
      then show ?thesis
        by (intro exI [of _ "x_pos fp + 1"]) (simp add: Getc x_exec_def a_exec_def getc_ext_eq [OF ok])
    next
      case False
      then show ?thesis using same x_pos_le [OF ok]
        by (intro exI [of _ "x_pos fp"]) (simp add: Getc x_exec_def a_exec_def getc_ext_eq [OF ok])
    qed
  next
    case Ungetc
    have e: "fseek_ext fp (- 1) SEEK_CUR = (let (r, p) = a_seek (x_content s fp) (sint (- 1 :: u32) + int (x_pos fp)) (x_pos fp)
        in (r, fp\<lparr>x_offset := of_nat p\<rparr>))" using fseek_ext_eq [OF ok, of SEEK_CUR "- 1"] by simp
    show ?thesis using x_pos_le [OF ok]
      by (intro exI [of _ "x_pos fp - 1"])
        (auto simp: Ungetc x_exec_def a_exec_def ungetc_ext_def e a_seek_def Let_def of_nat_diff nat_diff_distrib' split: prod.splits)
  next
    case (Fseek off w)
    have e: "w = SEEK_END \<Longrightarrow> sint off = 0" using Cons.prems(2) Fseek by auto
    show ?thesis using x_pos_le [OF ok] fseek_ext_eq [OF ok e]
      by (auto simp: Fseek x_exec_def a_exec_def Let_def a_seek_def split: prod.splits if_splits intro!: exI)
  next
    case Ftell
    show ?thesis using x_pos_le [OF ok]
      by (intro exI [of _ "x_pos fp"]) (simp add: Ftell x_exec_def a_exec_def ftell_ext_def x_pos_def)
  next
    case Feof
    have "sint (nLen (x_item fp)) = int (length (x_content s fp))" "sint (x_offset fp) = int (x_pos fp)"
      using ok x_content_length [OF ok] by (simp_all add: x_ok_def sint_low x_pos_def)
    then have "feof_ext fp \<longleftrightarrow> length (x_content s fp) \<le> x_pos fp" by (simp only: feof_ext_def of_nat_le_iff)
    moreover have "fp = fp\<lparr>x_offset := of_nat (x_pos fp)\<rparr>" by (simp add: x_pos_def)
    ultimately show ?thesis using x_pos_le [OF ok]
      by (intro exI [of _ "x_pos fp"]) (simp add: Feof x_exec_def a_exec_def)
  qed
  then obtain p where p: "snd (x_exec s c fp) = fp\<lparr>x_offset := of_nat p\<rparr>" "p \<le> length (x_content s fp)"
    "a_exec (x_content s fp) c (x_pos fp) = (fst (x_exec s c fp), p)" by blast
  have "p < 2 ^ 32" using p(2) x_content_small [OF ok] by simp
  then have pos: "x_pos (fp\<lparr>x_offset := of_nat p\<rparr>) = p" by (rule x_pos_upd)
  show ?case using Cons.IH [OF x_ok_upd [OF ok p(2)]] Cons.prems(2) p(3)
    by (simp only: run_ops_Cons p(1) p(3) fst_conv snd_conv pos x_content_upd) simp
qed simp


definition demo_storage :: storage where
  "demo_storage = \<lparr>flash = [0, 1, 2, 3, 4, 5, 6, 7, 8, 9], update_bin = None, decode = (\<lambda>b. b)\<rparr>"

definition demo_ext :: ext_file where
  "demo_ext = \<lparr>x_section = LUA_SCRIPT_TABLE_FLASH_SECTION, x_item = \<lparr>pFile = lit ''/lua/a.lua'', nOffset = 3, nLen = 4\<rparr>,
    x_offset = 0, x_enc = False\<rparr>"

lemma demo_ext_ok: "x_ok demo_storage demo_ext"
  by (simp add: x_ok_def demo_storage_def demo_ext_def)

theorem table_file_is_stream_witness:
  "fst (run_ops (x_exec demo_storage) [Fread 1 3, Getc, Getc, Ungetc, Fseek 1 SEEK_SET, Getc, Fseek 0 SEEK_END, Feof] demo_ext)
    = [Data 3 [3, 4, 5], Char 6, Char (- 1), Done, Ok True, Char 4, Ok True, Ok True]"
proof -
  have c: "x_content demo_storage demo_ext = [3, 4, 5, 6]" "x_pos demo_ext = 0"
    by (simp_all add: x_content_def demo_storage_def demo_ext_def region_def x_pos_def)
  have "fst (run_ops (a_exec [3, 4, 5, 6]) [Fread 1 3, Getc, Getc, Ungetc, Fseek 1 SEEK_SET, Getc, Fseek 0 SEEK_END, Feof] 0)
    = [Data 3 [3, 4, 5], Char 6, Char (- 1), Done, Ok True, Char 4, Ok True, Ok True]" by code_simp
  then show ?thesis
    using table_file_is_stream [OF demo_ext_ok, of "[Fread 1 3, Getc, Getc, Ungetc, Fseek 1 SEEK_SET, Getc, Fseek 0 SEEK_END, Feof]"]
    unfolding c by simp
qed

text \<open>C0: A seek from the end of a table file goes to the wrong side: \<^verbatim>\<open>fseek(fp, -n, SEEK_END)\<close> reports success
  and leaves the position \<open>n\<close> bytes behind the end.  The comparison that bounds the next read is unsigned, so the
  read is not cut short: it delivers the memory behind the file.
\<close>

theorem seek_end_leaves_file:
  assumes "x_ok s fp" "0 < n" "n \<le> length (x_content s fp)" "x_pos fp = 0"
    and "0 < m" "m < 2 ^ 31" "unat (nOffset (x_item fp)) + length (x_content s fp) + n + m \<le> length (flash s)"
  shows "fst (fseek_ext fp (- of_nat n) SEEK_END) \<and>
    x_pos (snd (fseek_ext fp (- of_nat n) SEEK_END)) = length (x_content s fp) + n \<and>
    fread_ext s 1 (of_nat m) (snd (fseek_ext fp (- of_nat n) SEEK_END)) =
      (of_nat m, take m (drop (unat (nOffset (x_item fp)) + length (x_content s fp) + n) (flash s)),
       fp\<lparr>x_offset := of_nat (length (x_content s fp) + n + m)\<rparr>)"
proof -
  let ?L = "length (x_content s fp)" and ?i = "x_item fp"
  have L: "?L < 2 ^ 31" "nLen ?i = of_nat ?L"
    using x_content_small [OF assms(1)] x_content_length [OF assms(1)] by simp_all
  have neg: "sint (- of_nat k :: u32) = - int k" if "0 < k" "k \<le> 2 ^ 31" for k
  proof -
    have "unat (of_nat k :: u32) = k" using that by (intro unat_of_nat_small) simp
    then have "unat (- of_nat k :: u32) = 2 ^ 32 - k" using unat_sub_if' [of 0 "of_nat k :: u32"] that by simp
    then show ?thesis using sint_high [of "- of_nat k :: u32"] that by simp
  qed
  let ?fp = "fp\<lparr>x_offset := of_nat (?L + n)\<rparr>"
  have seek: "fseek_ext fp (- of_nat n) SEEK_END = (True, ?fp)"
  proof -
    have "x_content s fp \<noteq> []" using assms(2,3) by auto
    then have "sint (- of_nat ?L :: u32) = - int ?L" using neg [of ?L] L(1) by simp
    then show ?thesis using neg [of n] assms(2,3) L by (simp add: fseek_ext_def)
  qed
  have pos: "x_pos ?fp = ?L + n" using L assms(3) by (intro x_pos_upd) simp
  have fl: "length (flash s) < 2 ^ 32" using assms(1) by (simp add: x_ok_def)
  have "nLen ?i - x_offset ?fp = - of_nat n" by (simp add: L(2))
  moreover have "unat (- of_nat n :: u32) = 2 ^ 32 - n"
    using unat_sub_if' [of 0 "of_nat n :: u32"] assms(2,3) L by (simp add: unat_of_nat_small)
  moreover have m: "unat (of_nat m :: u32) = m" using assms(6) by (intro unat_of_nat_small) simp
  ultimately have le: "(of_nat m :: u32) \<le> nLen ?i - x_offset ?fp"
    using assms(3,6) L(1) by (simp add: word_le_nat_alt)
  have "unat (nOffset ?i + of_nat (?L + n)) = unat (nOffset ?i) + (?L + n)"
    using assms(7) fl L(1) assms(3) by (simp add: unat_word_ariths unat_of_nat_small del: of_nat_add)
  then have sl: "region (flash s) (nOffset ?i + of_nat (?L + n)) (of_nat m) = take m (drop (unat (nOffset ?i) + ?L + n) (flash s))"
    by (simp add: region_def m add.assoc)
  have "sint (of_nat m :: u32) = int m" using sint_low [of "of_nat m :: u32"] m assms(6) by simp
  moreover have "(of_nat m :: u32) \<noteq> 0" using m assms(5) by (metis less_irrefl unat_0)
  ultimately have "fread_ext s 1 (of_nat m) ?fp = (of_nat m, take m (drop (unat (nOffset ?i) + ?L + n) (flash s)), fp\<lparr>x_offset := of_nat (?L + n + m)\<rparr>)"
    using le sl assms(1,5) unfolding fread_ext_def Let_def by (simp add: x_ok_def)
  then show ?thesis using seek pos by simp
qed

theorem seek_end_leaves_file_witness:
  "fread_ext demo_storage 1 2 (snd (fseek_ext demo_ext (- 1) SEEK_END)) = (2, [8, 9], demo_ext\<lparr>x_offset := 7\<rparr>)"
proof -
  have c: "x_content demo_storage demo_ext = [3, 4, 5, 6]" "x_pos demo_ext = 0"
    by (simp_all add: x_content_def demo_storage_def demo_ext_def region_def x_pos_def)
  show ?thesis using seek_end_leaves_file [OF demo_ext_ok, of 1 2]
    by (simp add: c) (simp add: demo_storage_def demo_ext_def)
qed

subsection \<open>Lines\<close>

text \<open>The first line of a text, with its line end.\<close>

definition line_of :: "bytes \<Rightarrow> bytes" where
  "line_of bs = takeWhile (\<lambda>c. c \<noteq> 10) bs @ (if 10 \<in> set bs then [10] else [])"

lemma line_of_simps [simp]: "line_of [] = []" "line_of (b # bs) = (if b = 10 then [10] else b # line_of bs)"
  by (simp_all add: line_of_def)

lemma line_of_prefix: "bs = line_of bs @ drop (length (line_of bs)) bs"
  by (induction bs) auto

lemma sint_byte: "sint (b :: u8) = - 1 \<longleftrightarrow> b = 255" "sint (b :: u8) = 10 \<longleftrightarrow> b = 10"
proof -
  have "sint (255 :: u8) = - 1" "sint (10 :: u8) = 10" by simp_all
  then show "sint b = - 1 \<longleftrightarrow> b = 255" "sint b = 10 \<longleftrightarrow> b = 10" by (metis signed_word_eqI)+
qed

text \<open>What \<^verbatim>\<open>fgets\<close> relies on: \<^verbatim>\<open>getc\<close> delivers the unread bytes one by one as signed characters and -1
  at the end.\<close>

locale char_source =
  fixes getc :: "'s \<Rightarrow> int \<times> 's" and unread :: "'s \<Rightarrow> bytes" and valid :: "'s \<Rightarrow> bool"
  assumes getc_end: "valid t \<Longrightarrow> unread t = [] \<Longrightarrow> \<exists>t'. getc t = (- 1, t') \<and> valid t' \<and> unread t' = []"
    and getc_byte: "valid t \<Longrightarrow> unread t = b # bs \<Longrightarrow> \<exists>t'. getc t = (sint b, t') \<and> valid t' \<and> unread t' = bs"
begin

lemma fgets_loop_line:
  assumes "valid t" "255 \<notin> set (b # unread t)"
  shows "\<exists>t'. valid t' \<and> fgets_loop getc k (sint b) t = (take k (line_of (b # unread t)), t') \<and>
    unread t' = drop (min (Suc k) (length (line_of (b # unread t)))) (b # unread t)"
  using assms
proof (induction k arbitrary: b t)
  case 0
  then have "sint b \<noteq> - 1" by (auto simp: sint_byte)
  then show ?case using 0(1) by (intro exI [of _ t]) (simp add: fgets_loop.simps [of getc 0])
next
  case (Suc k)
  have b: "sint b \<noteq> - 1" using Suc.prems(2) by (auto simp: sint_byte)
  consider (newline) "b = 10" | (last) "b \<noteq> 10" "unread t = []" | (more) b' bs where "b \<noteq> 10" "unread t = b' # bs"
    by (cases "unread t") auto
  then show ?case
  proof cases
    case newline
    then show ?thesis using Suc.prems(1) by (intro exI [of _ t]) (simp add: fgets_loop.simps [of getc "Suc k"])
  next
    case last
    then obtain t' where "getc t = (- 1, t')" "valid t'" "unread t' = []" using getc_end [OF Suc.prems(1)] by blast
    then show ?thesis using last b
      by (intro exI [of _ t']) (simp add: fgets_loop.simps [of getc "Suc k"] fgets_loop.simps [of getc k] sint_byte)
  next
    case more
    then obtain t' where t': "getc t = (sint b', t')" "valid t'" "unread t' = bs" using getc_byte [OF Suc.prems(1)] by blast
    then obtain t'' where "valid t''" "fgets_loop getc k (sint b') t' = (take k (line_of (b' # bs)), t'')"
      "unread t'' = drop (min (Suc k) (length (line_of (b' # bs)))) (b' # bs)"
      using Suc.IH [OF t'(2), of b'] Suc.prems(2) more by auto
    then show ?thesis using more b t'(1)
      by (intro exI [of _ t'']) (simp add: fgets_loop.simps [of getc "Suc k"] sint_byte)
  qed
qed

lemma fgets_line:
  assumes "valid t" "255 \<notin> set (unread t)" "1 < n" "unread t \<noteq> []"
  shows "\<exists>t'. valid t' \<and> fgets getc n t = (Some (take (nat (n - 1)) (line_of (unread t))), t') \<and>
    unread t' = drop (min (nat n) (length (line_of (unread t)))) (unread t)"
proof -
  obtain b bs where b: "unread t = b # bs" using assms(4) by (cases "unread t") auto
  then obtain t' where t': "getc t = (sint b, t')" "valid t'" "unread t' = bs" using getc_byte [OF assms(1)] by blast
  then obtain t'' where "valid t''" "fgets_loop getc (nat (n - 1)) (sint b) t' = (take (nat (n - 1)) (line_of (b # bs)), t'')"
    "unread t'' = drop (min (Suc (nat (n - 1))) (length (line_of (b # bs)))) (b # bs)"
    using fgets_loop_line [OF t'(2), of b "nat (n - 1)"] assms(2) b by auto
  moreover have "Suc (nat (n - 1)) = nat n" using assms(3) by linarith
  moreover have "sint b \<noteq> - 1" using assms(2) b by (auto simp: sint_byte)
  ultimately show ?thesis using assms(3) t'(1) b by (intro exI [of _ t'']) (simp add: fgets_def)
qed

end

definition x_unread :: "storage \<Rightarrow> ext_file \<Rightarrow> bytes" where
  "x_unread s fp = drop (x_pos fp) (x_content s fp)"

interpretation ext_chars: char_source "getc_ext s" "x_unread s" "x_ok s" for s
proof
  fix fp assume ok: "x_ok s fp" and e: "x_unread s fp = []"
  then show "\<exists>t'. getc_ext s fp = (- 1, t') \<and> x_ok s t' \<and> x_unread s t' = []"
    by (simp add: getc_ext_eq [OF ok] x_unread_def)
next
  fix fp b bs assume ok: "x_ok s fp" and r: "x_unread s fp = b # bs"
  have less: "x_pos fp < length (x_content s fp)" using r unfolding x_unread_def by (metis drop_all leI list.distinct(1))
  then have "x_pos fp + 1 < 2 ^ 32" using x_content_small [OF ok] by simp
  then have "x_pos (fp\<lparr>x_offset := of_nat (x_pos fp + 1)\<rparr>) = x_pos fp + 1" by (rule x_pos_upd)
  then have "x_unread s (fp\<lparr>x_offset := of_nat (x_pos fp + 1)\<rparr>) = bs"
    using r unfolding x_unread_def x_content_upd by (metis Suc_eq_plus1 drop_Suc list.sel(3) tl_drop)
  moreover have "x_content s fp ! x_pos fp = b" using r less unfolding x_unread_def by (metis hd_drop_conv_nth list.sel(1))
  moreover have "x_ok s (fp\<lparr>x_offset := of_nat (x_pos fp + 1)\<rparr>)" using less by (intro x_ok_upd [OF ok]) simp
  ultimately show "\<exists>t'. getc_ext s fp = (sint b, t') \<and> x_ok s t' \<and> x_unread s t' = bs"
    using less by (simp add: getc_ext_eq [OF ok])
qed

text \<open>\<^verbatim>\<open>fgets\<close> on a table file gives the next line, cut to \<open>n - 1\<close> bytes.  A line that is cut loses a byte: the
  loop reads the character behind the last one it stores and drops it, so that the next call goes on one byte too late.
\<close>

theorem fgets_line_cut:
  assumes "x_ok s fp" "255 \<notin> set (x_unread s fp)" "1 < n" "x_unread s fp \<noteq> []"
    and "line = line_of (x_unread s fp)"
  shows "fst (fgets_ext s n fp) = Some (take (nat (n - 1)) line) \<and>
    (length line < nat n \<longrightarrow> x_unread s fp = line @ x_unread s (snd (fgets_ext s n fp))) \<and>
    (nat n \<le> length line \<longrightarrow> x_unread s fp =
       take (nat (n - 1)) line @ [line ! nat (n - 1)] @ x_unread s (snd (fgets_ext s n fp)))"
proof -
  let ?u = "x_unread s fp"
  obtain t' where t': "fgets_ext s n fp = (Some (take (nat (n - 1)) line), t')" "x_unread s t' = drop (min (nat n) (length line)) ?u"
    using ext_chars.fgets_line [OF assms(1-4)] by (auto simp: fgets_ext_def assms(5))
  have pre: "?u = line @ drop (length line) ?u" unfolding assms(5) by (rule line_of_prefix)
  have "?u = take (nat (n - 1)) line @ [line ! nat (n - 1)] @ drop (nat n) ?u" if le: "nat n \<le> length line"
  proof -
    have n: "nat n = Suc (nat (n - 1))" using assms(3) by linarith
    have "take (nat n) ?u = take (nat n) line" using le by (subst pre) simp
    also have "\<dots> = take (nat (n - 1)) line @ [line ! nat (n - 1)]" using le unfolding n by (intro take_Suc_conv_app_nth) simp
    finally show ?thesis by (metis append.assoc append_take_drop_id)
  qed
  then show ?thesis using t' pre by (auto simp: min_def)
qed

theorem fgets_line_cut_witness:
  "fst (fgets_ext (demo_storage\<lparr>flash := [65, 66, 67, 68, 10, 69]\<rparr>) 4 (demo_ext\<lparr>x_item := \<lparr>pFile = [], nOffset = 0, nLen = 6\<rparr>\<rparr>))
     = Some [65, 66, 67] \<and>
   x_unread (demo_storage\<lparr>flash := [65, 66, 67, 68, 10, 69]\<rparr>)
     (snd (fgets_ext (demo_storage\<lparr>flash := [65, 66, 67, 68, 10, 69]\<rparr>) 4 (demo_ext\<lparr>x_item := \<lparr>pFile = [], nOffset = 0, nLen = 6\<rparr>\<rparr>)))
     = [10, 69]"
proof -
  let ?s = "demo_storage\<lparr>flash := [65, 66, 67, 68, 10, 69]\<rparr>" and ?fp = "demo_ext\<lparr>x_item := \<lparr>pFile = [], nOffset = 0, nLen = 6\<rparr>\<rparr>"
  have ok: "x_ok ?s ?fp" by (simp add: x_ok_def demo_storage_def demo_ext_def)
  have u: "x_unread ?s ?fp = [65, 66, 67, 68, 10, 69]"
    by (simp add: x_unread_def x_content_def demo_storage_def demo_ext_def region_def x_pos_def)
  show ?thesis using fgets_line_cut [OF ok, of 4 "[65, 66, 67, 68, 10]"] unfolding u by simp
qed

subsection \<open>Encrypted files\<close>

definition decodes_words :: "storage \<Rightarrow> bool" where
  "decodes_words s \<longleftrightarrow> (\<forall>b. 4 dvd length b \<longrightarrow> length (decode s b) = length b)"

lemma length_platform_decode: "decodes_words s \<Longrightarrow> 4 * w \<le> length b \<Longrightarrow> length (platform_decode s b w) = length b"
  by (simp add: platform_decode_def decodes_words_def)

lemma length_decode_blocks: "decodes_words s \<Longrightarrow> length (decode_blocks s b) = length b"
proof (induction s b rule: decode_blocks.induct)
  case (1 s b)
  then show ?case by (subst decode_blocks.simps) (simp add: length_platform_decode)
qed

lemma decode_blocks_take_drop:
  assumes "decodes_words s"
  shows "512 * k \<le> length b \<Longrightarrow> decode_blocks s (take (512 * k) b) = take (512 * k) (decode_blocks s b) \<and>
    decode_blocks s (drop (512 * k) b) = drop (512 * k) (decode_blocks s b)"
proof (induction k arbitrary: b)
  case 0
  have "decode s [] = []" using assms unfolding decodes_words_def by (metis dvd_0_right length_0_conv list.size(3))
  then show ?case by (simp add: decode_blocks.simps [of s "[]"] platform_decode_def)
next
  case (Suc k)
  let ?r = "drop 512 b" and ?f = "platform_decode s (take 512 b) 128"
  have len: "length ?f = 512" using Suc.prems length_platform_decode [OF assms, of 128 "take 512 b"] by simp
  have IH: "decode_blocks s (take (512 * k) ?r) = take (512 * k) (decode_blocks s ?r)"
    "decode_blocks s (drop (512 * k) ?r) = drop (512 * k) (decode_blocks s ?r)"
    using Suc.IH [of ?r] Suc.prems by simp_all
  have all: "decode_blocks s b = ?f @ decode_blocks s ?r" using Suc.prems by (subst decode_blocks.simps) simp
  have "decode_blocks s (take (512 * Suc k) b) = platform_decode s (take 512 (take (512 * Suc k) b)) 128 @ decode_blocks s (drop 512 (take (512 * Suc k) b))"
    using Suc.prems by (subst decode_blocks.simps) simp
  moreover have "take 512 (take (512 * Suc k) b) = take 512 b" "drop 512 (take (512 * Suc k) b) = take (512 * k) ?r"
    by (simp_all add: drop_take)
  moreover have "drop (512 * Suc k) b = drop (512 * k) ?r" by (simp add: add.commute)
  ultimately show ?case using IH len all by simp
qed


lemma word_of_unat: "unat (w :: u32) = n \<Longrightarrow> w = of_nat n"
  by auto

lemma unat_align: "unat ((w :: u32) AND 0xFFFFFE00) = unat w - unat w mod 512"
proof -
  have m: "(0xFFFFFE00 :: u32) = NOT (mask 9)" by (simp add: mask_eq_exp_minus_1)
  have disj: "(w AND NOT (mask 9)) AND take_bit 9 w = 0" by (rule bit_word_eqI) (auto simp: bit_simps)
  have "(w AND NOT (mask 9)) OR take_bit 9 w = w" by (rule bit_word_eqI) (auto simp: bit_simps)
  then have "(w AND NOT (mask 9)) + take_bit 9 w = w"
    using word_plus_and_or [of "w AND NOT (mask 9)" "take_bit 9 w"] disj by simp
  then have "w AND NOT (mask 9) = w - take_bit 9 w" by (metis add_diff_cancel_right')
  moreover have t: "unat (take_bit 9 w) = unat w mod 512" by (simp add: take_bit_eq_mod unat_mod_distrib)
  ultimately show ?thesis using unat_sub [of "take_bit 9 w" w] by (simp add: m word_le_nat_alt)
qed

lemma fseek_ext_set:
  "unat (nLen (x_item fp)) < 2 ^ 31 \<Longrightarrow> unat off \<le> unat (nLen (x_item fp)) \<Longrightarrow> fseek_ext fp off SEEK_SET = (True, fp\<lparr>x_offset := off\<rparr>)"
proof -
  assume "unat (nLen (x_item fp)) < 2 ^ 31" "unat off \<le> unat (nLen (x_item fp))"
  then have "sint off = int (unat off)" "sint (nLen (x_item fp)) = int (unat (nLen (x_item fp)))" "unat off \<le> unat (nLen (x_item fp))"
    by (simp_all add: sint_low)
  then have "\<not> (sint (nLen (x_item fp)) < sint off \<or> sint off < 0)" by linarith
  then show ?thesis by (simp add: fseek_ext_def Let_def)
qed

text \<open>The decoded piece at any position: it is taken from the position itself, but indexed from the block start.\<close>

lemma decode_file_any:
  assumes dec: "decodes_words s"
    and plain: "x_ok s (fp\<lparr>x_enc := False\<rparr>)" "content = x_content s fp"
    and small: "x_pos fp + unat (count * sz) < 2 ^ 31"
    and k: "k = min (unat (count * sz)) (length content - x_pos fp)"
  shows "\<exists>l. 512 dvd l \<and> unat (count * sz) + x_pos fp mod 512 \<le> l \<and>
    decode_file s sz count fp = (of_nat k div sz,
      take k (drop (x_pos fp mod 512) (decode_blocks s (take l (drop (x_pos fp) content)))), fp\<lparr>x_offset := of_nat (x_pos fp + k)\<rparr>)"
proof -
  let ?i = "x_item fp" and ?pos = "x_pos fp" and ?resid = "count * sz" and ?L = "length content"
  let ?n = "unat ?resid" and ?r = "x_pos fp mod 512"
  have L: "?L = unat (nLen ?i)" "?L < 2 ^ 31" "?pos \<le> ?L" "unat (nOffset ?i) + ?L \<le> length (flash s)" "length (flash s) < 2 ^ 32"
    using plain x_content_length [OF plain(1)] by (simp_all add: x_ok_def x_content_def x_pos_def)
  have content: "content = take ?L (drop (unat (nOffset ?i)) (flash s))" using L(1) plain(2) by (simp add: x_content_def region_def)
  let ?low = "x_offset fp AND 0xFFFFFE00"
  have low: "unat ?low = ?pos - ?r" using unat_align [of "x_offset fp"] by (simp only: x_pos_def)
  then have le_low: "?low \<le> x_offset fp" by (simp add: word_le_nat_alt x_pos_def)
  have r: "unat (x_offset fp - ?low) = ?r"
    using unat_sub [OF le_low] low mod_less_eq_dividend [of ?pos 512] unfolding x_pos_def by linarith
  let ?up = "(x_offset fp + ?resid + 512 - 1) AND 0xFFFFFE00"
  have "unat (x_offset fp + ?resid + 511) = ?pos + ?n + 511"
    using small by (simp add: unat_word_ariths x_pos_def)
  moreover have "x_offset fp + ?resid + 512 - 1 = x_offset fp + ?resid + 511" by simp
  ultimately have up: "unat ?up = (?pos + ?n + 511) - (?pos + ?n + 511) mod 512"
    using unat_align [of "x_offset fp + ?resid + 511"] by (simp only:)
  have ge: "?pos + ?n \<le> unat ?up" using mod_less_divisor [of 512 "?pos + ?n + 511"] up by linarith
  let ?R = "?up - ?low"
  have "?low \<le> ?up" unfolding word_le_nat_alt low using ge by linarith
  then have R: "unat ?R = unat ?up - (?pos - ?r)" using unat_sub [of ?low ?up] low by simp
  have bound: "?n + ?r \<le> unat ?R" using R ge mod_less_eq_dividend [of ?pos 512] by linarith
  have "512 dvd unat ?up" unfolding up by (rule dvd_minus_mod)
  moreover have "512 dvd ?pos - ?r" by (rule dvd_minus_mod)
  ultimately have dvd: "512 dvd unat ?R" unfolding R by (rule dvd_diff_nat)
  have rest: "unat (nLen ?i - x_offset fp) = ?L - ?pos"
    using unat_sub [of "x_offset fp" "nLen ?i"] L(1,3) by (simp add: word_le_nat_alt x_pos_def)
  let ?len = "if ?R \<le> nLen ?i - x_offset fp then ?R else nLen ?i - x_offset fp"
  have len: "unat ?len = min (unat ?R) (?L - ?pos)" using rest by (simp add: word_le_nat_alt)
  let ?act = "if ?len < ?R \<and> nLen ?i - x_offset fp < ?resid then nLen ?i - x_offset fp else ?resid"
  have "unat ?act = k" using bound len rest unfolding k word_less_nat_alt by (auto simp: word_le_nat_alt)
  then have act: "?act = of_nat k" by (rule word_of_unat)
  have k_le: "k \<le> ?L - ?pos" using k by auto
  have unk: "unat (x_offset fp + of_nat k) = ?pos + k"
    using k_le L(2,3) by (simp add: unat_word_ariths unat_of_nat_small x_pos_def)
  have seek: "snd (fseek_ext (snd (fseek_ext fp ?low SEEK_SET)) (x_offset fp + of_nat k) SEEK_SET) = fp\<lparr>x_offset := x_offset fp + of_nat k\<rparr>"
    using fseek_ext_set [of fp ?low] fseek_ext_set [of "fp\<lparr>x_offset := ?low\<rparr>" "x_offset fp + of_nat k"] L(1-3) k_le unk low by simp
  have "unat (nOffset ?i + x_offset fp) = unat (nOffset ?i) + ?pos"
    using L by (simp add: unat_word_ariths x_pos_def)
  then have temp: "region (flash s) (nOffset ?i + x_offset fp) ?len = take (unat ?R) (drop ?pos content)"
    unfolding region_def len by (subst content) (simp add: drop_take min_def ac_simps)
  have "k < 2 ^ 32" using k_le L(2) by simp
  then have data: "region (decode_blocks s (region (flash s) (nOffset ?i + x_offset fp) ?len)) (x_offset fp - ?low) (of_nat k)
      = take k (drop ?r (decode_blocks s (take (unat ?R) (drop ?pos content))))"
    unfolding temp by (simp add: region_def r unat_of_nat_small)
  have "decode_file s sz count fp = (of_nat k div sz, take k (drop ?r (decode_blocks s (take (unat ?R) (drop ?pos content)))),
      fp\<lparr>x_offset := of_nat (?pos + k)\<rparr>)"
    unfolding decode_file_def Let_def ftell_ext_def act seek data by (simp add: x_pos_def)
  then show ?thesis using dvd bound by blast
qed

text \<open>Reading an encrypted table file from a position that is a multiple of 512 delivers exactly the bytes of the
  decrypted file, whatever the block decryption is, and moves behind them.
\<close>

theorem decode_file_blocks:
  assumes dec: "decodes_words s"
    and plain: "x_ok s (fp\<lparr>x_enc := False\<rparr>)" "content = x_content s fp"
    and aligned: "x_pos fp mod 512 = 0" "x_pos fp + unat (count * sz) < 2 ^ 31"
    and k: "k = min (unat (count * sz)) (length content - x_pos fp)"
  shows "decode_file s sz count fp =
    (of_nat k div sz, take k (drop (x_pos fp) (decode_blocks s content)), fp\<lparr>x_offset := of_nat (x_pos fp + k)\<rparr>)"
proof -
  let ?pos = "x_pos fp"
  obtain l where l: "512 dvd l" "unat (count * sz) \<le> l"
    "decode_file s sz count fp = (of_nat k div sz, take k (decode_blocks s (take l (drop ?pos content))), fp\<lparr>x_offset := of_nat (?pos + k)\<rparr>)"
    using decode_file_any [OF dec plain aligned(2) k] aligned(1) by auto
  obtain j where j: "?pos = 512 * j" using aligned(1) by auto
  obtain r where r: "l = 512 * r" using l(1) by (auto elim: dvdE)
  have "?pos \<le> length content" using plain x_content_length [OF plain(1)] by (simp add: x_ok_def x_content_def x_pos_def)
  then have tail: "decode_blocks s (drop ?pos content) = drop ?pos (decode_blocks s content)"
    using decode_blocks_take_drop [OF dec, of j content] j by simp
  have "take k (decode_blocks s (take l (drop ?pos content))) = take k (drop ?pos (decode_blocks s content))"
  proof (cases "l \<le> length content - ?pos")
    case True
    then have "decode_blocks s (take l (drop ?pos content)) = take l (drop ?pos (decode_blocks s content))"
      using decode_blocks_take_drop [OF dec, of r "drop ?pos content"] r tail by simp
    then show ?thesis using l(2) k by (simp add: min_def)
  next
    case False
    then show ?thesis using tail by simp
  qed
  then show ?thesis using l(3) by simp
qed

theorem decode_file_blocks_witness:
  "decode_file (demo_storage\<lparr>decode := map (\<lambda>b. b XOR 0xFF)\<rparr>) 1 3 demo_ext = (3, [252, 251, 250], demo_ext\<lparr>x_offset := 3\<rparr>)"
proof -
  let ?s = "demo_storage\<lparr>decode := map (\<lambda>b. b XOR 0xFF)\<rparr>"
  have c: "x_content ?s demo_ext = [3, 4, 5, 6]" "x_pos demo_ext = 0"
    by (simp_all add: x_content_def demo_storage_def demo_ext_def region_def x_pos_def)
  have d: "decode_blocks ?s [3, 4, 5, 6] = [252, 251, 250, 249]"
    by (subst decode_blocks.simps) (simp add: platform_decode_def)
  have "decode_file ?s 1 3 demo_ext = (of_nat 3 div 1, take 3 (drop (x_pos demo_ext) (decode_blocks ?s [3, 4, 5, 6])),
      demo_ext\<lparr>x_offset := of_nat (x_pos demo_ext + 3)\<rparr>)"
  proof (rule decode_file_blocks)
    show "decodes_words ?s" by (simp add: decodes_words_def)
    show "x_ok ?s (demo_ext\<lparr>x_enc := False\<rparr>)" by (simp add: x_ok_def demo_storage_def demo_ext_def)
  qed (simp_all add: c)
  then show ?thesis unfolding c d by simp
qed

text \<open>C0: From any other position the bytes are wrong: the piece is fetched from the position itself instead of from the
  start of its block, but indexed from the block start.  Even when the decryption changes nothing, a read at
  \<open>pos\<close> delivers the bytes at \<open>pos + pos mod 512\<close>.
\<close>

theorem decode_file_unaligned:
  assumes "x_ok s (fp\<lparr>x_enc := False\<rparr>)" "content = x_content s fp" "decode s = (\<lambda>b. b)"
    and "x_pos fp + unat (count * sz) + x_pos fp mod 512 \<le> length content"
  shows "fst (snd (decode_file s sz count fp)) = take (unat (count * sz)) (drop (x_pos fp + x_pos fp mod 512) content)"
proof -
  let ?pos = "x_pos fp" and ?n = "unat (count * sz)"
  have id: "decode_blocks s b = b" for b
    using assms(3) by (induction s b rule: decode_blocks.induct) (subst decode_blocks.simps, simp add: platform_decode_def)
  have "decodes_words s" using assms(3) by (simp add: decodes_words_def)
  moreover have "?pos + ?n < 2 ^ 31" using assms(4) x_content_small [OF assms(1)] assms(2) by (simp add: x_content_def)
  moreover have "?n = min ?n (length content - ?pos)" using assms(4) by simp
  ultimately obtain l where l: "?n + ?pos mod 512 \<le> l"
    "fst (snd (decode_file s sz count fp)) = take ?n (drop (?pos mod 512) (take l (drop ?pos content)))"
    using decode_file_any [OF _ assms(1,2), of count sz ?n] id by (metis fst_conv snd_conv)
  then show ?thesis by (simp add: drop_take min_def add.commute)
qed


theorem decode_file_unaligned_witness:
  "fst (snd (decode_file demo_storage 1 2 (demo_ext\<lparr>x_offset := 1\<rparr>))) = [5, 6]"
proof -
  have "x_ok demo_storage ((demo_ext\<lparr>x_offset := 1\<rparr>)\<lparr>x_enc := False\<rparr>)" by (simp add: x_ok_def demo_storage_def demo_ext_def)
  moreover have "x_content demo_storage (demo_ext\<lparr>x_offset := 1\<rparr>) = [3, 4, 5, 6]" "x_pos (demo_ext\<lparr>x_offset := 1\<rparr>) = 1"
    by (simp_all add: x_content_def demo_storage_def demo_ext_def region_def x_pos_def)
  moreover have "decode demo_storage = (\<lambda>b. b)" by (simp add: demo_storage_def)
  ultimately show ?thesis using decode_file_unaligned [of demo_storage "demo_ext\<lparr>x_offset := 1\<rparr>" "[3, 4, 5, 6]" 2 1] by simp
qed


subsection \<open>Installing a ROM image of files that stay in place\<close>

text \<open>Names whose files are entered into a table unencrypted.\<close>

definition table_name :: "bytes \<Rightarrow> bool" where
  "table_name n \<longleftrightarrow> 4 < length n \<and> length n < 249 \<and> 0 \<notin> set n \<and> drop (length n - 4) n \<in> set table_suffixes"

definition table_path :: "bytes \<Rightarrow> bytes" where
  "table_path n = (if drop (length n - 4) n = lit ''.lua'' then LUA_DIR else LUA_DATA_DIR) @ [0x2F] @ n"

definition item_of :: "db_file_info \<Rightarrow> table_item" where
  "item_of f = \<lparr>pFile = table_path (f_name f), nOffset = f_offset f, nLen = f_length f\<rparr>"

lemma cstr_id: "0 \<notin> set n \<Longrightarrow> cstr n = n"
  unfolding cstr_def by (induction n) auto

lemma name_at_end:
  assumes "0 \<notin> set n" "k \<le> length n" "length x = k"
  shows "name_at n (int (length n) - int k) x = Some (drop (length n - k) n = x)"
proof -
  have "0 \<notin> set (drop (length n - k) n)" using assms(1) in_set_dropD by fastforce
  moreover have "nat (int (length n) - int k) = length n - k" using assms(2) by linarith
  ultimately show ?thesis using assms(2,3) by (simp add: name_at_def cstr_id)
qed

lemma table_suffix_length: "x \<in> set table_suffixes \<Longrightarrow> length x = 4 \<and> x \<noteq> lit ''.zip'' \<and> last x \<noteq> 101"
  by (auto simp: table_suffixes_def)

lemma length_dirs: "length LUA_DIR = 4" "length LUA_DATA_DIR = 6"
  by (simp_all add: LUA_DIR_def LUA_DATA_DIR_def)

text \<open>An entry that cannot be allocated ends the installation with the error of its own.\<close>

lemma install_table_entry:
  assumes "table_name (f_name f)"
  shows "install_file pl override sec db f s =
    Some (case AddUncompressFileItem (alloc_item pl (table_path (f_name f)) (f_offset f)) sec (table_path (f_name f))
        (f_offset f) (f_length f) (i_st s) of
      (ok, st) \<Rightarrow> if ok then (None, s\<lparr>delupdpack := False, i_st := st\<rparr>) else (Some LUADB_ERR_ADD_TABLE_ITEM, s\<lparr>delupdpack := False\<rparr>))"
proof -
  let ?n = "f_name f"
  have n: "4 < length ?n" "length ?n < 249" "0 \<notin> set ?n" "drop (length ?n - 4) ?n \<in> set table_suffixes"
    using assms by (auto simp: table_name_def)
  have end4: "name_at ?n (int (length ?n) - 4) x = Some (drop (length ?n - 4) ?n = x)" if "length x = 4" for x
    using name_at_end [OF n(3), of 4 x] n(1) that by simp
  have sub: "drop (length ?n - 4) ?n = drop 1 (drop (length ?n - 5) ?n)" using n(1) by (simp add: Suc_diff_Suc numeral_eq_Suc)
  have "drop (length ?n - 5) ?n \<noteq> lit ''.luae''"
  proof
    assume "drop (length ?n - 5) ?n = lit ''.luae''"
    then have "drop (length ?n - 4) ?n = lit ''luae''" using sub by simp
    then show False using table_suffix_length [OF n(4)] by simp
  qed
  then have luae: "name_at ?n (int (length ?n) - 5) (lit ''.luae'') = Some False"
    using name_at_end [OF n(3), of 5 "lit ''.luae''"] n(1) by simp
  have "cstr (drop (length ?n - 4) ?n) = drop (length ?n - 4) ?n" using n(3) in_set_dropD by (intro cstr_id) fastforce
  then have zip: "\<not> is_zip ?n" using table_suffix_length [OF n(4)] by (simp add: is_zip_def)
  have path: "path_of (drop (length ?n - 4) ?n = lit ''.lua'') ?n (length ?n) = Some (table_path ?n)"
    using n(2,3) by (simp add: path_of_def table_path_def cstr_id Let_def length_dirs)
  have suffix: "\<exists>x\<in>set table_suffixes. name_at ?n (int (length ?n) - 4) x = Some True"
  proof (rule bexI [OF _ n(4)])
    show "name_at ?n (int (length ?n) - 4) (drop (length ?n - 4) ?n) = Some True"
      using end4 [of "drop (length ?n - 4) ?n"] n(1) by simp
  qed
  have lua: "name_at ?n (int (length ?n) - 4) (lit ''.lua'') = Some (drop (length ?n - 4) ?n = lit ''.lua'')"
    by (rule end4) simp
  show ?thesis
    using n(1) zip suffix
    unfolding install_file_def Let_def lua luae
    by (simp add: path Let_def del: list.map split: prod.split)
qed

lemma install_table_file:
  assumes "table_name (f_name f)"
  shows "install_file pl override LUA_SCRIPT_TABLE_FLASH_SECTION db f s =
    Some (if alloc_item pl (table_path (f_name f)) (f_offset f)
      then (None, s\<lparr>delupdpack := False, i_st := (i_st s)\<lparr>pFlashFileTable := item_of f # pFlashFileTable (i_st s)\<rparr>\<rparr>)
      else (Some LUADB_ERR_ADD_TABLE_ITEM, s\<lparr>delupdpack := False\<rparr>))"
proof -
  have "table_path (f_name f) \<noteq> []" by (simp add: table_path_def)
  then show ?thesis by (simp add: install_table_entry [OF assms] AddUncompressFileItem_def item_of_def Let_def)
qed


definition items_allocated :: "plat \<Rightarrow> db_file_info list \<Rightarrow> bool" where
  "items_allocated pl infos \<longleftrightarrow> (\<forall>f\<in>set infos. alloc_item pl (table_path (f_name f)) (f_offset f))"

lemma install_table_files:
  assumes "\<forall>f\<in>set infos. table_name (f_name f)" "items_allocated pl infos"
  shows "\<exists>d. install_loop pl override LUA_SCRIPT_TABLE_FLASH_SECTION db infos s =
    Some (None, s\<lparr>delupdpack := d, i_st := (i_st s)\<lparr>pFlashFileTable := rev (map item_of infos) @ pFlashFileTable (i_st s)\<rparr>\<rparr>)"
  using assms
proof (induction infos arbitrary: s)
  case Nil
  show ?case by (intro exI [of _ "delupdpack s"]) simp
next
  case (Cons f infos)
  let ?s = "s\<lparr>delupdpack := False, i_st := (i_st s)\<lparr>pFlashFileTable := item_of f # pFlashFileTable (i_st s)\<rparr>\<rparr>"
  obtain d where "install_loop pl override LUA_SCRIPT_TABLE_FLASH_SECTION db infos ?s =
      Some (None, ?s\<lparr>delupdpack := d, i_st := (i_st ?s)\<lparr>pFlashFileTable := rev (map item_of infos) @ pFlashFileTable (i_st ?s)\<rparr>\<rparr>)"
    using Cons.IH [of ?s] Cons.prems by (auto simp: items_allocated_def)
  then show ?case using install_table_file [of f pl override db s] Cons.prems
    by (intro exI [of _ d]) (simp add: items_allocated_def)
qed

text \<open>The files before one whose entry cannot be allocated are entered, those behind it are not.\<close>

lemma install_table_files_stop:
  assumes "\<forall>f\<in>set (xs @ [f]). table_name (f_name f)" "items_allocated pl xs" "\<not> alloc_item pl (table_path (f_name f)) (f_offset f)"
  shows "\<exists>s'. install_loop pl override LUA_SCRIPT_TABLE_FLASH_SECTION db (xs @ f # ys) s = Some (Some LUADB_ERR_ADD_TABLE_ITEM, s') \<and>
    i_st s' = (i_st s)\<lparr>pFlashFileTable := rev (map item_of xs) @ pFlashFileTable (i_st s)\<rparr>"
  using assms
proof (induction xs arbitrary: s)
  case Nil
  then show ?case using install_table_file [of f pl override db s] by simp
next
  case (Cons x xs)
  let ?s = "s\<lparr>delupdpack := False, i_st := (i_st s)\<lparr>pFlashFileTable := item_of x # pFlashFileTable (i_st s)\<rparr>\<rparr>"
  have "install_file pl override LUA_SCRIPT_TABLE_FLASH_SECTION db x s = Some (None, ?s)"
    using install_table_file [of x pl override db s] Cons.prems by (simp add: items_allocated_def)
  then show ?case using Cons.IH [of ?s] Cons.prems by (simp add: items_allocated_def)
qed

lemma f_name_file_infos: "map f_name (file_infos o1 files) = map fst files"
  by (induction o1 files rule: file_infos.induct) simp_all

lemma parse_table_image:
  assumes "length files < 2 ^ 16" "\<forall>(n, c)\<in>set files. table_name n" "length (encode_db files) \<le> unat len"
    and "alloc pl (20 * length files)" "items_allocated pl (file_infos 24 files)"
  shows "parse_luadb_data pl (encode_db files @ post) len override LUA_SCRIPT_TABLE_FLASH_SECTION restart st =
    Some (None, restart, st\<lparr>pFlashFileTable := rev (map item_of (file_infos 24 files)) @ pFlashFileTable st\<rparr>)"
proof -
  have n: "\<forall>(n, c)\<in>set files. length n < 256" using assms(2) by (auto simp: table_name_def)
  have "\<forall>f\<in>set (file_infos 24 files). table_name (f_name f)"
  proof
    fix f assume "f \<in> set (file_infos 24 files)"
    then have "f_name f \<in> set (map f_name (file_infos 24 files))" by simp
    then show "table_name (f_name f)" using assms(2) unfolding f_name_file_infos by auto
  qed
  then obtain d where "install_loop pl override LUA_SCRIPT_TABLE_FLASH_SECTION (encode_db files @ post) (file_infos 24 files)
      \<lparr>i_st = st, delupdpack = True, wrFile = False\<rparr> = Some (None, \<lparr>i_st = st\<lparr>pFlashFileTable := rev (map item_of (file_infos 24 files)) @ pFlashFileTable st\<rparr>,
        delupdpack = d, wrFile = False\<rparr>)"
    using install_table_files [of "file_infos 24 files" pl override _ "\<lparr>i_st = st, delupdpack = True, wrFile = False\<rparr>"] assms(5) by fastforce
  moreover have "unat (of_nat (length files) :: u16) = length files" using assms(1) by (simp add: unat_of_nat_small)
  ultimately show ?thesis
    using luadb_encode [OF assms(1) n assms(3), of post] assms(4)
    by (simp add: parse_luadb_data_def Let_def finish_install_def)
qed

text \<open>Where the contents of the files lie.\<close>

lemma file_infos_content:
  assumes "(n, c) \<in> set files" "length (pre @ concat (map (\<lambda>(n, c). encode_file n c) files)) < 2 ^ 32"
  shows "\<exists>f\<in>set (file_infos (length pre) files). f_name f = n \<and> f_length f = of_nat (length c) \<and>
    region (pre @ concat (map (\<lambda>(n, c). encode_file n c) files) @ post) (f_offset f) (f_length f) = c \<and>
    unat (f_offset f) + length c \<le> length (pre @ concat (map (\<lambda>(n, c). encode_file n c) files))"
  using assms
proof (induction files arbitrary: pre)
  case (Cons x files)
  obtain n' c' where f: "x = (n', c')" by (cases x)
  let ?rest = "concat (map (\<lambda>(n, c). encode_file n c) files)"
  show ?case
  proof (cases "(n, c) = x")
    case True
    obtain h where h: "encode_file n c = h @ c" "length h = 18 + length n"
      by (simp add: encode_file_def with_check_def tlv_def length_le)
    have small: "length pre + 18 + length n < 2 ^ 32" "length c < 2 ^ 32"
      using Cons.prems(2) True [symmetric] by (simp_all add: length_encode_file)
    have "region (pre @ (h @ c) @ ?rest @ post) (of_nat (length pre + 18 + length n)) (of_nat (length c)) = c"
      using small h(2) unfolding region_def by (subst (1 2) unat_of_nat_small) simp_all
    moreover have "unat (of_nat (length pre + 18 + length n) :: u32) = length pre + 18 + length n"
      using small(1) by (intro unat_of_nat_small) simp
    ultimately show ?thesis using True h f
      by (intro bexI [of _ "\<lparr>f_name = n, f_length = of_nat (length c), f_offset = of_nat (length pre + 18 + length n)\<rparr>"]) simp_all
  next
    case False
    then have "(n, c) \<in> set files" using Cons.prems(1) by simp
    from Cons.IH [OF this, of "pre @ encode_file n' c'"] Cons.prems(2) f
    obtain g where "g \<in> set (file_infos (length (pre @ encode_file n' c')) files)" "f_name g = n" "f_length g = of_nat (length c)"
      "region ((pre @ encode_file n' c') @ ?rest @ post) (f_offset g) (f_length g) = c"
      "unat (f_offset g) + length c \<le> length ((pre @ encode_file n' c') @ ?rest)" by auto
    then show ?thesis using f by (intro bexI [of _ g]) simp_all
  qed
qed simp


lemma table_path_inj: "table_path n = table_path n' \<Longrightarrow> n = n'"
  by (auto simp: table_path_def LUA_DIR_def LUA_DATA_DIR_def split: if_splits)

lemma find_unique:
  assumes "i \<in> set xs" "\<forall>j\<in>set xs. pFile j = pFile i \<longrightarrow> j = i"
  shows "List.find (\<lambda>j. pFile j = pFile i) xs = Some i"
  using assms by (induction xs) auto

text \<open>In the tables the ROM image leaves, each of its files is found and read.\<close>

lemma installed_file_found:
  assumes "\<forall>(n, c)\<in>set files. table_name n" "distinct (map fst files)" "length (encode_db files) < 2 ^ 31"
    and "pUpdateFileTable st = []" "pFlashFileTable st = rev (map item_of (file_infos 24 files))"
    and "flash s = encode_db files @ post" "length (flash s) < 2 ^ 32" "(n, c) \<in> set files"
  shows "\<exists>fp. fopen_ext True (table_path n) st = Some (Some fp) \<and> x_section fp = LUA_SCRIPT_TABLE_FLASH_SECTION \<and>
    fst (fread_ext s 1 (of_nat (length c)) fp) = of_nat (length c) \<and> fst (snd (fread_ext s 1 (of_nat (length c)) fp)) = c"
proof -
  let ?infos = "file_infos 24 files"
  have db: "encode_db files = encode_head (length files) @ concat (map (\<lambda>(n, c). encode_file n c) files)"
    by (simp add: encode_db_def)
  have "length (encode_head (length files) @ concat (map (\<lambda>(n, c). encode_file n c) files)) < 2 ^ 32"
    using assms(3) by (simp add: db)
  from file_infos_content [OF assms(8) this, of post]
  obtain f where f: "f \<in> set ?infos" "f_name f = n" "f_length f = of_nat (length c)" "region (flash s) (f_offset f) (f_length f) = c"
    "unat (f_offset f) + length c \<le> length (encode_db files)"
    unfolding assms(6) db by (auto simp: length_encode_head)
  have "distinct (map f_name ?infos)" using assms(2) by (simp add: f_name_file_infos)
  then have uniq: "g = f" if "g \<in> set ?infos" "f_name g = f_name f" for g
    using that f(1) by (simp add: distinct_map inj_on_def)
  have "List.find (\<lambda>j. pFile j = pFile (item_of f)) (rev (map item_of ?infos)) = Some (item_of f)"
  proof (rule find_unique)
    show "item_of f \<in> set (rev (map item_of ?infos))" using f(1) by simp
    show "\<forall>j\<in>set (rev (map item_of ?infos)). pFile j = pFile (item_of f) \<longrightarrow> j = item_of f"
      using uniq by (auto simp: item_of_def dest!: table_path_inj)
  qed
  moreover have path: "pFile (item_of f) = table_path n" "table_path n \<noteq> []" by (simp_all add: item_of_def f(2) table_path_def)
  ultimately have find: "FindUncompressFileItem (table_path n) st = Some (LUA_SCRIPT_TABLE_FLASH_SECTION, item_of f)"
    using assms(4,5) by (simp add: FindUncompressFileItem_def)
  have "table_name n" using assms(1,8) by auto
  then have "last n \<noteq> 101" "n \<noteq> []" using table_suffix_length unfolding table_name_def by (force, force)
  then have "last (table_path n) \<noteq> 101" by (simp add: table_path_def)
  moreover have "0 \<notin> set (table_path n)"
    using \<open>table_name n\<close> by (auto simp: table_name_def table_path_def LUA_DIR_def LUA_DATA_DIR_def)
  then have "cstr (drop (length (table_path n) - 5) (table_path n)) = drop (length (table_path n) - 5) (table_path n)"
    using in_set_dropD by (intro cstr_id) fastforce
  moreover have "last (drop (length (table_path n) - 5) (table_path n)) = last (table_path n)"
    using path(2) by (simp add: last_drop)
  ultimately have "\<not> cstr (drop (length (table_path n) - 5) (table_path n)) = lit ''.luae''" by auto
  then obtain fp where fp: "fopen_ext True (table_path n) st = Some (Some fp)"
    "fp = \<lparr>x_section = LUA_SCRIPT_TABLE_FLASH_SECTION, x_item = item_of f, x_offset = 0, x_enc = False\<rparr>"
    using find by (simp add: fopen_ext_def)
  have lc: "length c < 2 ^ 31" using f(5) assms(3) by linarith
  then have unc: "unat (of_nat (length c) :: u32) = length c" by (intro unat_of_nat_small) simp
  have ok: "x_ok s fp" using lc unc f assms(3,6,7) by (simp add: x_ok_def fp(2) item_of_def)
  have content: "x_content s fp = c" "x_pos fp = 0" using f(4) by (simp_all add: x_content_def fp(2) item_of_def x_pos_def)
  have "fread_ext s 1 (of_nat (length c)) fp = (of_nat (length c) div 1, take (length c) (drop (x_pos fp) (x_content s fp)),
      fp\<lparr>x_offset := of_nat (x_pos fp + length c)\<rparr>)"
    by (rule fread_ext_eq [OF ok]) (simp add: content unc)
  then show ?thesis using fp content by simp
qed



text \<open>A stream that cannot be allocated is written to all the same.\<close>

lemma fopen_ext_no_memory:
  "FindUncompressFileItem file st \<noteq> None \<Longrightarrow> fopen_ext False file st = None"
  by (auto simp: fopen_ext_def split: option.split)

end
