(* ===== verification/Boot.thy ===== *)
theory Boot
  imports Table_Files
begin

unbundle bit_operations_syntax

text \<open>
  Start-up of the script engine: \<^verbatim>\<open>shell/src/shell.c\<close>.  An update file is installed, then the image in the
  script section of the flash; the entry script is looked for; a restart may be asked for.

  A boot starts with empty tables and the file system the last one left.
\<close>

subsection \<open>Loading the images\<close>

definition LUA_CHECK_INTEGRITY_FILE :: bytes where "LUA_CHECK_INTEGRITY_FILE = lit ''/integrity.bin''"

definition integrity_flag :: bytes where "integrity_flag = le32 0xABCD8765"

text \<open>\<^verbatim>\<open>fopen(..., "wb")\<close> and \<^verbatim>\<open>fwrite\<close> of the flag, whose result is not looked at.\<close>

definition write_integrity :: "plat \<Rightarrow> db_state \<Rightarrow> db_state" where
  "write_integrity pl st =
    (if can_create pl LUA_CHECK_INTEGRITY_FILE
     then st\<lparr>vfs := (vfs st)(LUA_CHECK_INTEGRITY_FILE \<mapsto>
            (if can_write pl LUA_CHECK_INTEGRITY_FILE integrity_flag then integrity_flag else []))\<rparr>
     else st)"

definition integrity_ok :: "db_state \<Rightarrow> bool" where
  "integrity_ok st = (case vfs st LUA_CHECK_INTEGRITY_FILE of None \<Rightarrow> False | Some c \<Rightarrow> take 4 c = integrity_flag)"

text \<open>From \<^verbatim>\<open>lua_db_script_parse\<close> on: the result, whether a restart is asked for, and the state.\<close>

definition script_parse :: "plat \<Rightarrow> bytes \<Rightarrow> bool \<Rightarrow> bool \<Rightarrow> db_state \<Rightarrow> (luadb_error option \<times> bool \<times> db_state) option" where
  "script_parse pl rom file_override restart1 st =
    (case parse_luadb_data pl rom (of_nat (length rom)) file_override LUA_SCRIPT_TABLE_FLASH_SECTION False st of
       None \<Rightarrow> None
     | Some (result, restart2, st) \<Rightarrow>
         Some (result, restart1 \<or> restart2, if file_override then write_integrity pl st else st))"

definition load_luadb :: "plat \<Rightarrow> bytes \<Rightarrow> db_state \<Rightarrow> (luadb_error option \<times> bool \<times> db_state) option" where
  "load_luadb pl rom st =
    (case vfs st LUA_UPDATE_FILE of
       None \<Rightarrow> script_parse pl rom (\<not> integrity_ok st) False st
     | Some buff \<Rightarrow>
        (case parse_luadb_data pl buff (of_nat (length buff)) True LUA_SCRIPT_TABLE_UPDATE_SECTION False st of
           None \<Rightarrow> None
         | Some (Some e, restart1, st) \<Rightarrow> script_parse pl rom True True (remove_file LUA_UPDATE_FILE st)
         | Some (None, restart1, st) \<Rightarrow> script_parse pl rom (\<not> integrity_ok st) restart1 st))"

subsection \<open>The entry script\<close>

datatype entry = Run_null | Run_const | Run_file | Run_enc_file

definition LUA_ENTRY_FILE :: bytes where "LUA_ENTRY_FILE = lit ''/lua/main.lua''"
definition LUA_ENTRY_ENC_FILE :: bytes where "LUA_ENTRY_ENC_FILE = lit ''/lua/main.luae''"
definition LUA_ENTRY_FILE_ZIP :: bytes where "LUA_ENTRY_FILE_ZIP = lit ''/luazip/main.lua.zip''"
definition LUA_ENTRY_ENC_FILE_ZIP :: bytes where "LUA_ENTRY_ENC_FILE_ZIP = lit ''/luazip/main.luae.zip''"

definition LuaDeleteMainFile :: "db_state \<Rightarrow> db_state" where
  "LuaDeleteMainFile st = remove_file LUA_ENTRY_ENC_FILE (remove_file LUA_ENTRY_FILE st)"

text \<open>The older way to update: one packed main file.  Whether it asked for a restart, and the state.\<close>

definition unpack_main :: "plat \<Rightarrow> db_state \<Rightarrow> bool \<times> db_state" where
  "unpack_main pl st =
    (case (if file_exist LUA_ENTRY_FILE_ZIP st then Some (LUA_ENTRY_FILE_ZIP, LUA_ENTRY_FILE)
           else if file_exist LUA_ENTRY_ENC_FILE_ZIP st then Some (LUA_ENTRY_ENC_FILE_ZIP, LUA_ENTRY_ENC_FILE) else None) of
       None \<Rightarrow> (False, st)
     | Some (packed, enter) \<Rightarrow>
        (case LzmaUncompressFile pl (vfs st packed) enter st of
           (None, st) \<Rightarrow> (True, remove_file packed st)
         | (Some e, st) \<Rightarrow> (False, st)))"

definition choose_entry :: "bool \<Rightarrow> db_state \<Rightarrow> entry" where
  "choose_entry existLuaDB st =
    (if file_exist LUA_ENTRY_FILE st then Run_file
     else if file_exist LUA_ENTRY_ENC_FILE st then Run_enc_file
     else if existLuaDB then Run_null
     else Run_const)"

definition LuaAppTask :: "plat \<Rightarrow> bytes \<Rightarrow> db_state \<Rightarrow> (entry \<times> bool \<times> db_state) option" where
  "LuaAppTask pl rom st =
    (let existScript = \<not> (rom ! 0 = 0xFF \<or> rom ! 0 = 0)
     in case load_luadb pl rom st of
          None \<Rightarrow> None
        | Some (dbret, restart, st) \<Rightarrow>
            (let existLuaDB = (dbret \<noteq> Some LUADB_ERR_NOT_DBDATA)
             in if existScript \<or> existLuaDB then
                  (let (restart', st) = unpack_main pl st in Some (choose_entry existLuaDB st, restart \<or> restart', st))
                else Some (Run_null, restart, st)))"

text \<open>Which file the engine then gets when it opens its script for reading (\<^verbatim>\<open>fopen\<close> of \<^verbatim>\<open>stdio.c\<close>): an entry of
  the update table first, then a file of the file system, then an entry of the flash table; undefined when the
  stream of an entry cannot be allocated.\<close>

datatype script_source = On_file_system bytes | In_table ext_file

definition open_script :: "bool \<Rightarrow> bytes \<Rightarrow> db_state \<Rightarrow> script_source option option" where
  "open_script ok file st =
    (case fopen_ext ok file st of
       None \<Rightarrow> None
     | Some ext \<Rightarrow>
        (case ext of
           Some x \<Rightarrow> (if x_section x = LUA_SCRIPT_TABLE_UPDATE_SECTION then Some (Some (In_table x))
                      else (case vfs st file of Some c \<Rightarrow> Some (Some (On_file_system c)) | None \<Rightarrow> Some (Some (In_table x))))
         | None \<Rightarrow> Some (map_option On_file_system (vfs st file))))"

text \<open>The end of the task of \<^verbatim>\<open>platform_main.c\<close> when the script engine returns: scripts, data and update are
  deleted; \<open>inside\<close> tells the paths below a directory.\<close>

definition inside :: "bytes \<Rightarrow> bytes \<Rightarrow> bool" where
  "inside dir p \<longleftrightarrow> take (length dir + 1) p = dir @ [0x2F]"

definition remove_dir :: "bytes \<Rightarrow> db_state \<Rightarrow> db_state" where
  "remove_dir dir st = st\<lparr>vfs := (\<lambda>p. if inside dir p then None else vfs st p)\<rparr>"

definition lua_exit :: "db_state \<Rightarrow> db_state" where
  "lua_exit st = remove_dir (lit ''/luazip'') (remove_dir LUA_DATA_DIR (remove_dir LUA_DIR (LuaDeleteMainFile st)))"

subsection \<open>Boots\<close>

definition fresh :: "db_state \<Rightarrow> db_state" where
  "fresh st = st\<lparr>pUpdateFileTable := [], pFlashFileTable := []\<rparr>"

text \<open>Whether a boot asks for a restart, and the files it leaves.\<close>

definition boot :: "plat \<Rightarrow> bytes \<Rightarrow> db_state \<Rightarrow> (bool \<times> db_state) option" where
  "boot pl rom st = map_option (\<lambda>(entry, restart, st). (restart, st)) (LuaAppTask pl rom (fresh st))"

primrec boots :: "plat \<Rightarrow> bytes \<Rightarrow> nat \<Rightarrow> db_state \<Rightarrow> (bool list \<times> db_state) option" where
  "boots pl rom 0 st = Some ([], st)"
| "boots pl rom (Suc n) st =
    (case boot pl rom st of None \<Rightarrow> None | Some (r, st') \<Rightarrow> map_option (\<lambda>(rs, s). (r # rs, s)) (boots pl rom n st'))"

subsection \<open>What the steps leave alone\<close>

lemma not_integrity: "in_luazip q \<Longrightarrow> q \<noteq> LUA_CHECK_INTEGRITY_FILE"
  by (auto simp: in_luazip_def LUA_CHECK_INTEGRITY_FILE_def)

lemma entry_not_luazip: "in_luazip q \<Longrightarrow> q \<noteq> LUA_ENTRY_FILE \<and> q \<noteq> LUA_ENTRY_ENC_FILE"
  by (auto simp: in_luazip_def LUA_ENTRY_FILE_def LUA_ENTRY_ENC_FILE_def)

lemma packed_main_in_luazip: "in_luazip LUA_ENTRY_FILE_ZIP" "in_luazip LUA_ENTRY_ENC_FILE_ZIP"
  by (simp_all add: in_luazip_def LUA_ENTRY_FILE_ZIP_def LUA_ENTRY_ENC_FILE_ZIP_def)

lemma packed_main_not_update: "LUA_ENTRY_FILE_ZIP \<noteq> LUA_UPDATE_FILE" "LUA_ENTRY_ENC_FILE_ZIP \<noteq> LUA_UPDATE_FILE"
  by (simp_all add: LUA_UPDATE_FILE_def LUA_ENTRY_FILE_ZIP_def LUA_ENTRY_ENC_FILE_ZIP_def)

text \<open>Table entries are scripts or media below \<^verbatim>\<open>/lua\<close> and \<^verbatim>\<open>/ldata\<close>.\<close>

definition tables_outside :: "db_state \<Rightarrow> bool" where
  "tables_outside st \<longleftrightarrow> (\<forall>i\<in>set (pUpdateFileTable st @ pFlashFileTable st). \<not> in_luazip (pFile i))"

lemma install_file_tables:
  assumes "install_file pl override sec db f s = Some (e, s')" "tables_outside (i_st s)"
  shows "tables_outside (i_st s')"
proof -
  have w: "tables_outside st \<Longrightarrow> tables_outside (snd (write_file pl p d st))" for p d st
    by (simp add: write_file_def remove_file_def tables_outside_def)
  have l: "tables_outside st \<Longrightarrow> tables_outside (snd (LzmaDecodeBufToFile pl d p st))" for p d st
    using w [of st p] by (auto simp: LzmaDecodeBufToFile_def Let_def split: sum.splits prod.splits) (metis snd_conv)+
  have a: "tables_outside st \<Longrightarrow> \<not> in_luazip p \<Longrightarrow> tables_outside (snd (AddUncompressFileItem ok sec p o1 n st))" for ok p o1 n st
    by (cases sec; cases ok) (auto simp: AddUncompressFileItem_def tables_outside_def Let_def)
  consider (short) "length (f_name f) \<le> 4" | (zip) "\<not> length (f_name f) \<le> 4" "is_zip (f_name f)"
    | (plain) "\<not> length (f_name f) \<le> 4" "\<not> is_zip (f_name f)" by blast
  then show ?thesis
  proof cases
    case short
    then show ?thesis using assms by (simp add: install_file_def)
  next
    case zip
    then show ?thesis using assms l
      by (auto simp: install_file_def Let_def split: option.splits if_splits prod.splits) (metis snd_conv)+
  next
    case plain
    then show ?thesis using assms w a path_of_not_luazip
      by (auto simp: install_file_def Let_def split: option.splits if_splits prod.splits) (metis snd_conv)+
  qed
qed

lemma install_loop_tables:
  "install_loop pl override sec db infos s = Some (e, s') \<Longrightarrow> tables_outside (i_st s) \<Longrightarrow> tables_outside (i_st s')"
proof (induction infos arbitrary: s)
  case (Cons f infos)
  then show ?case using install_file_tables [of pl override sec db f s]
    by (auto split: option.splits prod.splits)
qed simp

lemma parse_tables:
  assumes "parse_luadb_data pl db len override sec restart st = Some (e, r, st')" "tables_outside st"
  shows "tables_outside st'"
  using assms install_loop_tables [of pl override sec db _ "\<lparr>i_st = st, delupdpack = True, wrFile = False\<rparr>"]
  by (fastforce simp: parse_luadb_data_def Let_def finish_install_def remove_file_def tables_outside_def
      split: option.splits sum.splits prod.splits luadb_error.splits if_splits)

lemma parse_flash_keeps:
  assumes "parse_luadb_data pl db len override LUA_SCRIPT_TABLE_FLASH_SECTION restart st = Some (e, restart', st')"
  shows "restart' = restart \<and> (in_luazip q \<longrightarrow> vfs st' q = vfs st q)"
  using assms install_loop_keeps [of pl override LUA_SCRIPT_TABLE_FLASH_SECTION db _ "\<lparr>i_st = st, delupdpack = True, wrFile = False\<rparr>", where q = q]
  by (fastforce simp: parse_luadb_data_def Let_def finish_install_def
      split: option.splits sum.splits prod.splits luadb_error.splits if_splits)

lemma parse_update_keeps:
  assumes "parse_luadb_data pl db len override LUA_SCRIPT_TABLE_UPDATE_SECTION restart st = Some (e, restart', st')"
    and "in_luazip q" "q \<noteq> LUA_UPDATE_FILE"
  shows "vfs st' q = vfs st q"
  using assms install_loop_keeps [of pl override LUA_SCRIPT_TABLE_UPDATE_SECTION db _ "\<lparr>i_st = st, delupdpack = True, wrFile = False\<rparr>", where q = q]
  by (fastforce simp: parse_luadb_data_def Let_def finish_install_def remove_file_def
      split: option.splits sum.splits prod.splits luadb_error.splits if_splits)

lemma script_parse_keeps:
  assumes "script_parse pl rom ov restart1 st = Some (e, r, st')"
  shows "r = restart1 \<and> (in_luazip q \<longrightarrow> vfs st' q = vfs st q) \<and> (tables_outside st \<longrightarrow> tables_outside st')"
proof -
  obtain e' r' s' where p: "parse_luadb_data pl rom (of_nat (length rom)) ov LUA_SCRIPT_TABLE_FLASH_SECTION False st = Some (e', r', s')"
    using assms by (auto simp: script_parse_def split: option.splits)
  have "in_luazip q \<longrightarrow> vfs (write_integrity pl s') q = vfs s' q"
    using not_integrity [of q] by (simp add: write_integrity_def)
  moreover have "tables_outside (write_integrity pl s') = tables_outside s'"
    by (simp add: write_integrity_def tables_outside_def)
  ultimately show ?thesis using assms parse_flash_keeps [OF p] parse_tables [OF p] p
    by (auto simp: script_parse_def split: if_splits)
qed

lemma tables_fresh: "tables_outside (fresh st)"
  by (simp add: tables_outside_def fresh_def)

lemma not_in_tables:
  assumes "tables_outside st" "in_luazip q"
  shows "FindUncompressFileItem q st = None"
proof -
  have "List.find (\<lambda>i. pFile i = q) (pUpdateFileTable st) = None" "List.find (\<lambda>i. pFile i = q) (pFlashFileTable st) = None"
    using assms by (auto simp: tables_outside_def find_None_iff)
  then show ?thesis by (simp add: FindUncompressFileItem_def)
qed

text \<open>Without a packed main file a boot is the loading of the images.\<close>

lemma boot_is_load:
  assumes "load_luadb pl rom (fresh st) = Some (e, r, st')" "tables_outside st'"
    and "vfs st' LUA_ENTRY_FILE_ZIP = None" "vfs st' LUA_ENTRY_ENC_FILE_ZIP = None"
  shows "boot pl rom st = Some (r, st')"
  using assms not_in_tables [OF assms(2)] packed_main_in_luazip
  by (simp add: boot_def LuaAppTask_def Let_def unpack_main_def file_exist_def)


lemma fresh_simps [simp]: "vfs (fresh st) = vfs st" "pUpdateFileTable (fresh st) = []" "pFlashFileTable (fresh st) = []"
  by (simp_all add: fresh_def)

text \<open>The files that would make a boot restart are missing.\<close>

definition no_packed_main :: "db_state \<Rightarrow> bool" where
  "no_packed_main st \<longleftrightarrow> vfs st LUA_ENTRY_FILE_ZIP = None \<and> vfs st LUA_ENTRY_ENC_FILE_ZIP = None"

lemma boots_settled:
  "no_packed_main st \<Longrightarrow> vfs st LUA_UPDATE_FILE = None \<Longrightarrow> boots pl rom n st = Some (rs, st') \<Longrightarrow> rs = replicate n False"
proof (induction n arbitrary: st rs)
  case (Suc n)
  obtain r st1 where b: "boot pl rom st = Some (r, st1)" using Suc.prems(3) by (auto split: option.splits)
  then obtain rs' where rs': "boots pl rom n st1 = Some (rs', st')" "rs = r # rs'" using Suc.prems(3) by auto
  obtain e r0 s0 where l: "load_luadb pl rom (fresh st) = Some (e, r0, s0)"
    using b by (auto simp: boot_def LuaAppTask_def Let_def split: option.splits)
  then have s: "script_parse pl rom (\<not> integrity_ok (fresh st)) False (fresh st) = Some (e, r0, s0)"
    using Suc.prems(2) by (simp add: load_luadb_def)
  note keeps = script_parse_keeps [OF s]
  have t: "tables_outside s0" "no_packed_main s0" "vfs s0 LUA_UPDATE_FILE = None" "\<not> r0"
    using keeps packed_main_in_luazip update_in_luazip tables_fresh Suc.prems by (auto simp: no_packed_main_def)
  have "boot pl rom st = Some (r0, s0)" using boot_is_load [OF l t(1)] t(2) by (simp add: no_packed_main_def)
  then show ?case using Suc.IH [OF _ _ rs'(1)] rs'(2) b t by simp
qed simp

text \<open>When the script engine has returned, the next boots start from the flash only, and do not restart.\<close>

lemma exit_boots: "boots pl rom n (lua_exit st) = Some (rs, st') \<Longrightarrow> rs = replicate n False"
  by (rule boots_settled)
     (simp_all add: no_packed_main_def lua_exit_def remove_dir_def inside_def LUA_ENTRY_FILE_ZIP_def
       LUA_ENTRY_ENC_FILE_ZIP_def LUA_UPDATE_FILE_def)

text \<open>An update with files that stay in place or are copied uncompressed.\<close>

definition has_plain_files :: "plat \<Rightarrow> bytes \<Rightarrow> bool" where
  "has_plain_files pl buff \<longleftrightarrow>
    (case luadb_head buff of
       Some (Inr (h, offset)) \<Rightarrow> alloc pl (20 * unat (filecount h)) \<and>
         (case luadb_files buff (of_nat (length buff)) h offset of
            Some (Inr infos) \<Rightarrow> (\<exists>f\<in>set infos. 4 < length (f_name f) \<and> \<not> is_zip (f_name f))
          | _ \<Rightarrow> False)
     | _ \<Rightarrow> False)"

lemma load_update:
  assumes "vfs st LUA_UPDATE_FILE = Some buff" "\<not> has_plain_files pl buff" "no_packed_main st"
    and "load_luadb pl rom (fresh st) = Some (e, r, st1)"
  shows "r \<and> vfs st1 LUA_UPDATE_FILE = None \<and> no_packed_main st1 \<and> tables_outside st1"
proof -
  have f: "vfs (fresh st) LUA_UPDATE_FILE = Some buff" using assms(1) by simp
  obtain err r1 s1 where p: "parse_luadb_data pl buff (of_nat (length buff)) True LUA_SCRIPT_TABLE_UPDATE_SECTION False (fresh st)
      = Some (err, r1, s1)"
    using assms(4) f by (auto simp: load_luadb_def split: option.splits)
  have n1: "no_packed_main s1"
    using assms(3) parse_update_keeps [OF p packed_main_in_luazip(1) packed_main_not_update(1)]
      parse_update_keeps [OF p packed_main_in_luazip(2) packed_main_not_update(2)] by (simp add: no_packed_main_def)
  have t1: "tables_outside s1" by (rule parse_tables [OF p tables_fresh])
  show ?thesis
  proof (cases err)
    case (Some e')
    then have s: "script_parse pl rom True True (remove_file LUA_UPDATE_FILE s1) = Some (e, r, st1)"
      using assms(4) f p by (simp add: load_luadb_def)
    have "tables_outside (remove_file LUA_UPDATE_FILE s1)" using t1 by (simp add: tables_outside_def remove_file_def)
    then show ?thesis using script_parse_keeps [OF s] packed_main_in_luazip update_in_luazip n1 packed_main_not_update
      by (simp add: remove_file_def no_packed_main_def)
  next
    case None
    then have s: "script_parse pl rom (\<not> integrity_ok s1) r1 s1 = Some (e, r, st1)"
      using assms(4) f p by (simp add: load_luadb_def)
    have "r1 \<and> vfs s1 LUA_UPDATE_FILE = None"
      using update_end [OF p [unfolded None]] assms(2)
      by (auto simp: has_plain_files_def remove_file_def not_le split: if_splits)
    then show ?thesis using script_parse_keeps [OF s] packed_main_in_luazip update_in_luazip n1 t1
      by (simp add: no_packed_main_def)
  qed
qed

text \<open>C5: An update settles.  Whether it can be installed or is broken in whatever way, a boot that finds an update without
  plain files restarts once, and no later boot restarts again: the file is gone after the first boot.
\<close>

theorem update_settles:
  assumes "vfs st LUA_UPDATE_FILE = Some buff" "\<not> has_plain_files pl buff" "no_packed_main st"
    and "boots pl rom (Suc n) st = Some (rs, st')"
  shows "rs = True # replicate n False"
proof -
  obtain r st1 where b: "boot pl rom st = Some (r, st1)" using assms(4) by (auto split: option.splits)
  then obtain rs' where rs': "boots pl rom n st1 = Some (rs', st')" "rs = r # rs'" using assms(4) by auto
  obtain e r0 s0 where l: "load_luadb pl rom (fresh st) = Some (e, r0, s0)"
    using b by (auto simp: boot_def LuaAppTask_def Let_def split: option.splits)
  note t = load_update [OF assms(1-3) l]
  have "boot pl rom st = Some (r0, s0)" using boot_is_load [OF l] t by (simp add: no_packed_main_def)
  then show ?thesis using boots_settled [OF _ _ rs'(1)] rs' b t by simp
qed

definition script_rom :: bytes where "script_rom = lit ''print(1)'' @ [0]"

theorem update_settles_witness:
  "map_option fst (boots demo_plat script_rom 3 zip_state) = Some [True, False, False]"
proof -
  have "\<not> has_plain_files demo_plat (encode_db zip_files)" by code_simp
  moreover have "vfs zip_state LUA_UPDATE_FILE = Some (encode_db zip_files)" by (simp add: zip_state_def)
  moreover have "no_packed_main zip_state" by (simp add: zip_state_def no_packed_main_def packed_main_not_update)
  moreover have "boots demo_plat script_rom 3 zip_state \<noteq> None" by code_simp
  ultimately show ?thesis using update_settles [of zip_state "encode_db zip_files" demo_plat script_rom 2]
    by (auto simp: eval_nat_numeral)
qed

lemma unpack_main_keeps: "vfs (snd (unpack_main pl st)) LUA_UPDATE_FILE = vfs st LUA_UPDATE_FILE"
proof -
  have "vfs (snd (LzmaUncompressFile pl c p st)) LUA_UPDATE_FILE = vfs st LUA_UPDATE_FILE" if "p \<noteq> LUA_UPDATE_FILE" for c p
    using lzma_file_other [OF that] by (auto simp: LzmaUncompressFile_def split: option.splits)
  then show ?thesis using packed_main_not_update entry_not_luazip [OF update_in_luazip]
    by (auto simp: unpack_main_def remove_file_def split: option.splits prod.splits if_splits) (metis snd_conv)+
qed

text \<open>A plain data file in the update: the file is written by every boot, and since the update is kept every boot
  asks for a restart.  The files of such an update: data files that can be written, files that stay in place whose
  entries can be allocated, and files with short names, which are passed over.\<close>

definition data_name :: "bytes \<Rightarrow> bool" where
  "data_name n \<longleftrightarrow> 4 < length n \<and> length n < 249 \<and> 0 \<notin> set n \<and> drop (length n - 4) n \<notin> set (lit ''.zip'' # table_suffixes) \<and>
    drop (length n - 5) n \<noteq> lit ''.luae''"

definition data_path :: "bytes \<Rightarrow> bytes" where
  "data_path n = LUA_DATA_DIR @ [0x2F] @ n"

definition data_file :: "plat \<Rightarrow> bytes \<Rightarrow> db_file_info \<Rightarrow> bool" where
  "data_file pl db f \<longleftrightarrow> data_name (f_name f) \<and> can_create pl (data_path (f_name f)) \<and>
    (case rd db (unat (f_offset f)) (unat (f_length f)) of
       Some d \<Rightarrow> d \<noteq> [] \<and> can_write pl (data_path (f_name f)) d | None \<Rightarrow> False)"

definition placed_file :: "plat \<Rightarrow> db_file_info \<Rightarrow> bool" where
  "placed_file pl f \<longleftrightarrow> length (f_name f) \<le> 4 \<or>
    table_name (f_name f) \<and> alloc_item pl (table_path (f_name f)) (f_offset f)"

definition plain_update :: "plat \<Rightarrow> bytes \<Rightarrow> bool" where
  "plain_update pl buff \<longleftrightarrow>
    (case luadb_head buff of
       Some (Inr (h, offset)) \<Rightarrow> alloc pl (20 * unat (filecount h)) \<and>
         (case luadb_files buff (of_nat (length buff)) h offset of
            Some (Inr infos) \<Rightarrow> (\<forall>f\<in>set infos. data_file pl buff f \<or> placed_file pl f) \<and> (\<exists>f\<in>set infos. data_file pl buff f)
          | _ \<Rightarrow> False)
     | _ \<Rightarrow> False)"

text \<open>The table of the update holds no path of a data file.\<close>

definition table_paths_only :: "db_state \<Rightarrow> bool" where
  "table_paths_only st \<longleftrightarrow> (\<forall>i\<in>set (pUpdateFileTable st). \<exists>n. table_name n \<and> pFile i = table_path n)"

lemma data_path_not_table: "data_name n \<Longrightarrow> table_name n' \<Longrightarrow> data_path n \<noteq> table_path n'"
  by (auto simp: data_name_def table_name_def data_path_def table_path_def LUA_DIR_def LUA_DATA_DIR_def split: if_splits)

lemma data_not_in_update:
  assumes "table_paths_only st" "data_name n"
  shows "\<not> in_update (data_path n) st"
proof -
  have "List.find (\<lambda>i. pFile i = data_path n) (pUpdateFileTable st) = None"
    using assms data_path_not_table by (auto simp: table_paths_only_def find_None_iff) metis
  then show ?thesis by (auto simp: in_update_def FindUncompressFileItem_def split: option.splits)
qed

lemma install_data_file:
  assumes "data_file pl db f" "table_paths_only (i_st s)"
  shows "\<exists>s'. install_file pl True sec db f s = Some (None, s') \<and> wrFile s' \<and> \<not> delupdpack s' \<and> table_paths_only (i_st s') \<and>
    (\<forall>q. in_luazip q \<longrightarrow> vfs (i_st s') q = vfs (i_st s) q)"
proof -
  let ?n = "f_name f"
  obtain d where d: "rd db (unat (f_offset f)) (unat (f_length f)) = Some d" "d \<noteq> []" "can_write pl (data_path ?n) d"
    and n: "data_name ?n" "4 < length ?n" "length ?n < 249" "0 \<notin> set ?n" "drop (length ?n - 4) ?n \<notin> set table_suffixes"
      "drop (length ?n - 4) ?n \<noteq> lit ''.zip''" "drop (length ?n - 5) ?n \<noteq> lit ''.luae''"
    and c: "can_create pl (data_path ?n)"
    using assms(1) by (auto simp: data_file_def data_name_def split: option.splits)
  have end4: "name_at ?n (int (length ?n) - 4) x = Some (drop (length ?n - 4) ?n = x)" if "length x = 4" for x
    using name_at_end [OF n(4), of 4 x] n(2) that by simp
  have luae: "name_at ?n (int (length ?n) - 5) (lit ''.luae'') = Some False"
    using name_at_end [OF n(4), of 5 "lit ''.luae''"] n(2,7) by simp
  have lua: "name_at ?n (int (length ?n) - 4) (lit ''.lua'') = Some False"
    using end4 [of "lit ''.lua''"] n(5) by (auto simp: table_suffixes_def)
  have "cstr (drop (length ?n - 4) ?n) = drop (length ?n - 4) ?n" using n(4) in_set_dropD by (intro cstr_id) fastforce
  then have zip: "\<not> is_zip ?n" using n(6) by (simp add: is_zip_def)
  have suffix: "\<not> (\<exists>x\<in>set table_suffixes. name_at ?n (int (length ?n) - 4) x = Some True)"
  proof
    assume "\<exists>x\<in>set table_suffixes. name_at ?n (int (length ?n) - 4) x = Some True"
    then obtain x where x: "x \<in> set table_suffixes" "name_at ?n (int (length ?n) - 4) x = Some True" by blast
    then have "drop (length ?n - 4) ?n = x" using end4 [of x] table_suffix_length by auto
    then show False using x(1) n(5) by simp
  qed
  have path: "path_of False ?n (length ?n) = Some (data_path ?n)"
    using n(3,4) by (simp add: path_of_def data_path_def cstr_id Let_def length_dirs)
  have w: "write_file pl (data_path ?n) d (i_st s) = (True, (i_st s)\<lparr>vfs := (vfs (i_st s))(data_path ?n \<mapsto> d)\<rparr>)"
    using data_not_in_update [OF assms(2) n(1)] c d by (simp add: write_file_def)
  have "install_file pl True sec db f s = Some (None, s\<lparr>delupdpack := False, wrFile := True,
      i_st := (i_st s)\<lparr>vfs := (vfs (i_st s))(data_path ?n \<mapsto> d)\<rparr>\<rparr>)"
    unfolding install_file_def Let_def lua luae d(1)
    using n(2) zip suffix by (simp add: path w must_write_def)
  moreover have "q \<noteq> data_path ?n" if "in_luazip q" for q using path_of_not_luazip [OF path that] by blast
  ultimately show ?thesis using assms(2) by (simp add: table_paths_only_def)
qed

lemma install_placed_file:
  assumes "placed_file pl f" "table_paths_only (i_st s)"
  shows "\<exists>s'. install_file pl True LUA_SCRIPT_TABLE_UPDATE_SECTION db f s = Some (None, s') \<and> wrFile s' = wrFile s \<and>
    (delupdpack s' \<longrightarrow> delupdpack s) \<and> table_paths_only (i_st s') \<and> vfs (i_st s') = vfs (i_st s)"
proof (cases "length (f_name f) \<le> 4")
  case True
  then show ?thesis using assms(2) by (simp add: install_file_def)
next
  case False
  then have n: "table_name (f_name f)" "alloc_item pl (table_path (f_name f)) (f_offset f)"
    using assms(1) by (simp_all add: placed_file_def)
  have "table_path (f_name f) \<noteq> []" by (simp add: table_path_def)
  then show ?thesis using n assms(2)
    by (auto simp: install_table_entry [OF n(1)] AddUncompressFileItem_def Let_def table_paths_only_def)
qed

lemma install_plain_update:
  assumes "\<forall>f\<in>set infos. data_file pl db f \<or> placed_file pl f" "table_paths_only (i_st s)"
    and "(\<exists>f\<in>set infos. data_file pl db f) \<or> wrFile s \<and> \<not> delupdpack s"
  shows "\<exists>s'. install_loop pl True LUA_SCRIPT_TABLE_UPDATE_SECTION db infos s = Some (None, s') \<and> wrFile s' \<and> \<not> delupdpack s' \<and>
    (\<forall>q. in_luazip q \<longrightarrow> vfs (i_st s') q = vfs (i_st s) q)"
  using assms
proof (induction infos arbitrary: s)
  case (Cons f infos)
  show ?case
  proof (cases "data_file pl db f")
    case True
    obtain s1 where s1: "install_file pl True LUA_SCRIPT_TABLE_UPDATE_SECTION db f s = Some (None, s1)" "wrFile s1" "\<not> delupdpack s1"
      "table_paths_only (i_st s1)" "\<forall>q. in_luazip q \<longrightarrow> vfs (i_st s1) q = vfs (i_st s) q"
      using install_data_file [OF True Cons.prems(2)] by blast
    then show ?thesis using Cons.IH [of s1] Cons.prems(1) by auto
  next
    case False
    then have "placed_file pl f" using Cons.prems(1) by simp
    from install_placed_file [OF this Cons.prems(2)] obtain s1 where
      s1: "install_file pl True LUA_SCRIPT_TABLE_UPDATE_SECTION db f s = Some (None, s1)" "wrFile s1 = wrFile s"
      "delupdpack s1 \<longrightarrow> delupdpack s" "table_paths_only (i_st s1)" "vfs (i_st s1) = vfs (i_st s)" by blast
    have "(\<exists>f\<in>set infos. data_file pl db f) \<or> wrFile s1 \<and> \<not> delupdpack s1" using Cons.prems(3) False s1(2,3) by auto
    then show ?thesis using Cons.IH [of s1] Cons.prems(1) s1 by auto
  qed
qed simp

lemma plain_update_boot:
  assumes "plain_update pl buff" "vfs st LUA_UPDATE_FILE = Some buff" "boot pl rom st = Some (r, st')"
  shows "r \<and> vfs st' LUA_UPDATE_FILE = Some buff"
proof -
  let ?db = "buff" and ?st = "fresh st"
  obtain h offset where head: "luadb_head ?db = Some (Inr (h, offset))"
    using assms(1) by (auto simp: plain_update_def split: option.splits sum.splits)
  note plain = assms(1) [unfolded plain_update_def head option.case sum.case prod.case]
  then obtain infos where files: "luadb_files ?db (of_nat (length ?db)) h offset = Some (Inr infos)"
    by (cases "luadb_files ?db (of_nat (length ?db)) h offset") (auto split: sum.splits)
  have alloc: "alloc pl (20 * unat (filecount h))"
    and good: "\<forall>f\<in>set infos. data_file pl ?db f \<or> placed_file pl f" "\<exists>f\<in>set infos. data_file pl ?db f"
    using plain unfolding files by simp_all
  obtain s1 where s1: "install_loop pl True LUA_SCRIPT_TABLE_UPDATE_SECTION ?db infos \<lparr>i_st = ?st, delupdpack = True, wrFile = False\<rparr> = Some (None, s1)"
    "wrFile s1" "\<not> delupdpack s1" "vfs (i_st s1) LUA_UPDATE_FILE = Some buff"
    using install_plain_update [of infos pl ?db "\<lparr>i_st = ?st, delupdpack = True, wrFile = False\<rparr>"] good update_in_luazip assms(2)
    by (auto simp: table_paths_only_def)
  then have p: "parse_luadb_data pl ?db (of_nat (length ?db)) True LUA_SCRIPT_TABLE_UPDATE_SECTION False ?st = Some (None, True, i_st s1)"
    using alloc by (simp add: parse_luadb_data_def head files finish_install_def)
  obtain e r0 s2 where l: "load_luadb pl rom ?st = Some (e, r0, s2)"
    using assms(3) by (auto simp: boot_def LuaAppTask_def Let_def split: option.splits)
  then have s: "script_parse pl rom (\<not> integrity_ok (i_st s1)) True (i_st s1) = Some (e, r0, s2)"
    using assms(2) p by (simp add: load_luadb_def)
  then have s2: "r0" "vfs s2 LUA_UPDATE_FILE = Some buff"
    using script_parse_keeps [OF s] update_in_luazip s1(4) by auto
  then show ?thesis using assms(3) l unpack_main_keeps [of pl s2]
    by (auto simp: boot_def LuaAppTask_def Let_def split: if_splits prod.splits)
qed

text \<open>C27: The restart loop of updates with plain data files.  When an update holds a data file that is not a script and not
  compressed, among files that stay in place, and its files can be written and entered, the boot writes the file and
  asks for a restart, but keeps the update; so the next boot does the same, and no boot ever gets past it, whatever the
  ROM image is: all of \<open>n\<close> boots restart.\<close>

theorem reboot_loop:
  assumes "plain_update pl buff" "vfs st LUA_UPDATE_FILE = Some buff" "boots pl rom n st = Some (rs, st')"
  shows "rs = replicate n True"
  using assms(2,3)
proof (induction n arbitrary: st rs)
  case (Suc n)
  obtain r st1 where b: "boot pl rom st = Some (r, st1)" using Suc.prems(2) by (auto split: option.splits)
  then obtain rs' where rs': "boots pl rom n st1 = Some (rs', st')" "rs = r # rs'" using Suc.prems(2) by auto
  then show ?case using Suc.IH [OF _ rs'(1)] plain_update_boot [OF assms(1) Suc.prems(1) b] by simp
qed simp

definition plain_files :: "(bytes \<times> bytes) list" where
  "plain_files = [(lit ''b.lua'', [1]), (lit ''a.txt'', [1, 2])]"

definition plain_state :: db_state where
  "plain_state = \<lparr>pUpdateFileTable = [], pFlashFileTable = [],
     vfs = (\<lambda>p. if p = LUA_UPDATE_FILE then Some (encode_db plain_files) else None)\<rparr>"

theorem reboot_loop_witness: "map_option fst (boots demo_plat script_rom 3 plain_state) = Some [True, True, True]"
proof -
  have "plain_update demo_plat (encode_db plain_files)" by code_simp
  moreover have "vfs plain_state LUA_UPDATE_FILE = Some (encode_db plain_files)" by (simp add: plain_state_def)
  moreover have "boots demo_plat script_rom 3 plain_state \<noteq> None" by code_simp
  ultimately show ?thesis using reboot_loop [of demo_plat "encode_db plain_files" plain_state script_rom 3]
    by (auto simp: eval_nat_numeral)
qed

text \<open>C9: The preset script runs.  Without an update, and whatever is left in the file system apart from packed main
  files, an image in the flash of files that stay in place, with the script \<^verbatim>\<open>main.lua\<close> among them, whose entries
  can be allocated, is entered into the flash table, and the script engine starts with \<^verbatim>\<open>/lua/main.lua\<close>, without a
  restart: what it opens is a file of that path left in the file system when there is one, and else the preset
  script, from which it reads the contents in the image.\<close>

theorem preset_script_runs:
  assumes "length files < 2 ^ 16" "\<forall>(n, c)\<in>set files. table_name n" "distinct (map fst files)"
    and "(lit ''main.lua'', script) \<in> set files" "rom = encode_db files @ post" "length (encode_db files) < 2 ^ 31" "length rom < 2 ^ 32"
    and "alloc pl (20 * length files)" "items_allocated pl (file_infos 24 files)"
    and "vfs st LUA_UPDATE_FILE = None" "no_packed_main st" "flash s = rom"
  shows "\<exists>st'. LuaAppTask pl rom (fresh st) = Some (Run_file, False, st') \<and>
    (case vfs st LUA_ENTRY_FILE of
       Some left \<Rightarrow> open_script True LUA_ENTRY_FILE st' = Some (Some (On_file_system left))
     | None \<Rightarrow> (\<exists>fp. open_script True LUA_ENTRY_FILE st' = Some (Some (In_table fp)) \<and>
         fst (snd (fread_ext s 1 (of_nat (length script)) fp)) = script))"
proof -
  let ?len = "of_nat (length rom) :: u32" and ?infos = "file_infos 24 files"
  let ?st = "(fresh st)\<lparr>pFlashFileTable := rev (map item_of ?infos)\<rparr>"
  have "unat ?len = length rom" using assms(7) by (intro unat_of_nat_small) simp
  then have "parse_luadb_data pl rom ?len ov LUA_SCRIPT_TABLE_FLASH_SECTION False (fresh st) = Some (None, False, ?st)" for ov
    using parse_table_image [OF assms(1,2) _ assms(8,9), of ?len post ov False "fresh st"] assms(5) by simp
  then obtain st1 where l: "load_luadb pl rom (fresh st) = Some (None, False, st1)"
    and st1: "pFlashFileTable st1 = rev (map item_of ?infos)" "pUpdateFileTable st1 = []"
      "\<And>p. p \<noteq> LUA_CHECK_INTEGRITY_FILE \<Longrightarrow> vfs st1 p = vfs st p"
    using assms(10) by (simp add: load_luadb_def script_parse_def write_integrity_def)
  have "tables_outside st1"
    by (auto simp: tables_outside_def st1 item_of_def table_path_def in_luazip_def LUA_DIR_def LUA_DATA_DIR_def)
  then have nozip: "file_exist LUA_ENTRY_FILE_ZIP st1 = False" "file_exist LUA_ENTRY_ENC_FILE_ZIP st1 = False"
    using assms(11) not_in_tables packed_main_in_luazip st1(3) not_integrity
    by (simp_all add: file_exist_def no_packed_main_def)
  have entry: "table_path (lit ''main.lua'') = LUA_ENTRY_FILE"
    by (simp add: table_path_def LUA_DIR_def LUA_ENTRY_FILE_def)
  obtain fp where fp: "fopen_ext True LUA_ENTRY_FILE st1 = Some (Some fp)" "x_section fp = LUA_SCRIPT_TABLE_FLASH_SECTION"
      "fst (snd (fread_ext s 1 (of_nat (length script)) fp)) = script"
    using installed_file_found [OF assms(2,3,6) st1(2,1) _ _ assms(4), of s post] assms(5,7,12) entry by auto
  then have "file_exist LUA_ENTRY_FILE st1"
    by (auto simp: file_exist_def fopen_ext_def LUA_ENTRY_FILE_def split: option.splits)
  then have "LuaAppTask pl rom (fresh st) = Some (Run_file, False, st1)"
    using nozip l by (simp add: LuaAppTask_def Let_def unpack_main_def choose_entry_def)
  moreover have "vfs st1 LUA_ENTRY_FILE = vfs st LUA_ENTRY_FILE"
    by (rule st1(3)) (simp add: LUA_ENTRY_FILE_def LUA_CHECK_INTEGRITY_FILE_def)
  ultimately show ?thesis using fp by (simp add: open_script_def split: option.split)
qed

theorem preset_script_runs_witness:
  "\<exists>st'. LuaAppTask demo_plat (encode_db demo_files @ [0xFF]) (fresh (plain_state\<lparr>vfs := (\<lambda>p. None)\<rparr>)) = Some (Run_file, False, st') \<and>
    (\<exists>fp. open_script True LUA_ENTRY_FILE st' = Some (Some (In_table fp)) \<and>
      fst (snd (fread_ext (demo_storage\<lparr>flash := encode_db demo_files @ [0xFF]\<rparr>) 1 8 fp)) = lit ''print(1)'')"
proof -
  let ?st = "plain_state\<lparr>vfs := (\<lambda>p. None)\<rparr>" and ?s = "demo_storage\<lparr>flash := encode_db demo_files @ [0xFF]\<rparr>"
  have len: "length (encode_db demo_files) = 83"
    by (simp add: encode_db_def demo_files_def length_encode_head length_encode_file)
  have names: "\<forall>(n, c)\<in>set demo_files. table_name n"
    by (simp add: demo_files_def table_name_def table_suffixes_def)
  have main: "(lit ''main.lua'', lit ''print(1)'') \<in> set demo_files" "distinct (map fst demo_files)" by (simp_all add: demo_files_def)
  have two: "length demo_files = 2" by (simp add: demo_files_def)
  show ?thesis
    using preset_script_runs [of demo_files "lit ''print(1)''" "encode_db demo_files @ [0xFF]" "[0xFF]" demo_plat ?st ?s,
        OF _ names main(2,1)] len two
    by (auto simp: demo_plat_def no_packed_main_def items_allocated_def)
qed

text \<open>When the entry of \<^verbatim>\<open>main.lua\<close> is the one that cannot be allocated, no script is started.\<close>

lemma preset_entry_not_allocated:
  "map_option fst (LuaAppTask (demo_plat\<lparr>alloc_item := (\<lambda>p off. False)\<rparr>) (encode_db demo_files @ [0xFF])
      (fresh (plain_state\<lparr>vfs := (\<lambda>p. None)\<rparr>))) = Some Run_null"
  by code_simp

end
