(* ===== verification/Devices.thy ===== *)
theory Devices
  imports Prelude
begin

unbundle bit_operations_syntax

text \<open>
  The devices under the C library: \<^verbatim>\<open>newlib/src/devman.c\<close> (the table of devices),
  \<^verbatim>\<open>newlib/src/stubs.c\<close> (the calls that choose a device), \<^verbatim>\<open>newlib/src/genstd.c\<close>
  (the console), \<^verbatim>\<open>platform/coolsand/src/platform_fs.c\<close> (the file system) and the comparisons of
  \<^verbatim>\<open>newlib/libc/src/string.c\<close>.

  A string is the list of its bytes without the terminator.  A device is a record of optional functions on a state
  \<^verbatim>\<open>'s\<close>, the state of the drivers.
\<close>

subsection \<open>Comparisons without case\<close>

definition charmap :: bytes where
  "charmap = map of_nat ([0..<65] @ [97..<123] @ [91..<256])"

definition chr :: "bytes \<Rightarrow> u8" where
  "chr s = (case s of [] \<Rightarrow> 0 | c # _ \<Rightarrow> c)"

definition cm :: "bytes \<Rightarrow> u8" where
  "cm s = charmap ! unat (chr s)"

primrec strcasecmp :: "bytes \<Rightarrow> bytes \<Rightarrow> int" where
  "strcasecmp [] t = uint (cm []) - uint (cm t)"
| "strcasecmp (a # s) t =
    (if cm (a # s) = cm t then strcasecmp s (tl t) else uint (cm (a # s)) - uint (cm t))"

primrec strncasecmp :: "bytes \<Rightarrow> bytes \<Rightarrow> nat \<Rightarrow> int" where
  "strncasecmp s t 0 = 0"
| "strncasecmp s t (Suc n) =
    (if cm s \<noteq> cm t then uint (cm s) - uint (cm t) else if s = [] then 0 else strncasecmp (tl s) (tl t) n)"

subsection \<open>The table of devices\<close>

datatype errno = E_NODEV | E_NOSYS | E_BADF | E_INVAL | E_NOMEM | E_SPIPE | E_driver int

text \<open>The console: whether its functions are set, the character read ahead (-1 for none), what the calls of
  \<^verbatim>\<open>std_get_char_func\<close> will return (-1 for a timeout, and for ever at the end), and what was sent.\<close>

record console =
  con_set :: bool
  std_prev_char :: int
  con_in :: "int list"
  con_out :: bytes

text \<open>\<^verbatim>\<open>errno\<close> and the drivers; \<^verbatim>\<open>'s\<close> is the state of the file system.\<close>

record 's sys =
  sys_errno :: "errno option"
  sys_con :: console
  sys_fs :: 's

record 's dm_device =
  dev_name :: bytes
  p_open_r :: "(bytes \<Rightarrow> u32 \<Rightarrow> 's sys \<Rightarrow> int \<times> 's sys) option"
  p_close_r :: "(int \<Rightarrow> 's sys \<Rightarrow> int \<times> 's sys) option"
  p_write_r :: "(int \<Rightarrow> bytes \<Rightarrow> 's sys \<Rightarrow> int \<times> 's sys) option"
  p_read_r :: "(int \<Rightarrow> nat \<Rightarrow> 's sys \<Rightarrow> int \<times> bytes \<times> 's sys) option"
  p_lseek_r :: "(int \<Rightarrow> int \<Rightarrow> int \<Rightarrow> 's sys \<Rightarrow> int \<times> 's sys) option"
  p_opendir_r :: "(bytes \<Rightarrow> 's sys \<Rightarrow> nat option \<times> 's sys) option"
  p_readdir_r :: "(nat \<Rightarrow> 's sys \<Rightarrow> bytes option \<times> 's sys) option"
  p_closedir_r :: "(nat \<Rightarrow> 's sys \<Rightarrow> int \<times> 's sys) option"

abbreviation (input) DM_MAX_DEVICES :: nat where "DM_MAX_DEVICES \<equiv> 16"
abbreviation (input) DM_MAX_DEV_NAME :: nat where "DM_MAX_DEV_NAME \<equiv> 12"

abbreviation (input) DM_ERR_ALREADY_REGISTERED :: int where "DM_ERR_ALREADY_REGISTERED \<equiv> - 1"
abbreviation (input) DM_ERR_NOT_REGISTERED :: int where "DM_ERR_NOT_REGISTERED \<equiv> - 2"
abbreviation (input) DM_ERR_NO_SPACE :: int where "DM_ERR_NO_SPACE \<equiv> - 3"
abbreviation (input) DM_ERR_INVALID_NAME :: int where "DM_ERR_INVALID_NAME \<equiv> - 4"

text \<open>The array of pointers, \<open>None\<close> for \<^verbatim>\<open>NULL\<close>, and how many of them count.\<close>

record 's dm =
  dm_list :: "'s dm_device option list"
  dm_num_devs :: nat

definition dm_start :: "'s dm" where
  "dm_start = \<lparr>dm_list = replicate DM_MAX_DEVICES None, dm_num_devs = 0\<rparr>"

definition named :: "bytes \<Rightarrow> 's dm_device option \<Rightarrow> bool" where
  "named name d \<longleftrightarrow> strcasecmp name (dev_name (the d)) = 0"

definition dm_register :: "'s dm_device option \<Rightarrow> 's dm \<Rightarrow> int \<times> 's dm" where
  "dm_register pdev dm =
    (case pdev of
       None \<Rightarrow> (DM_ERR_INVALID_NAME, dm)
     | Some d \<Rightarrow>
        (if chr (dev_name d) \<noteq> 0x2F \<or> DM_MAX_DEV_NAME < length (dev_name d) then (DM_ERR_INVALID_NAME, dm)
         else if list_ex (named (dev_name d)) (take (dm_num_devs dm) (dm_list dm)) then (DM_ERR_ALREADY_REGISTERED, dm)
         else if dm_num_devs dm = DM_MAX_DEVICES then (DM_ERR_NO_SPACE, dm)
         else (int (dm_num_devs dm),
               dm\<lparr>dm_list := (dm_list dm)[dm_num_devs dm := pdev], dm_num_devs := dm_num_devs dm + 1\<rparr>)))"

text \<open>\<^verbatim>\<open>memmove\<close> moves the bytes of one pointer.\<close>

definition dm_unregister :: "bytes option \<Rightarrow> 's dm \<Rightarrow> int \<times> 's dm" where
  "dm_unregister name dm =
    (case name of
       None \<Rightarrow> (DM_ERR_INVALID_NAME, dm)
     | Some n \<Rightarrow>
        (if chr n \<noteq> 0x2F \<or> DM_MAX_DEV_NAME < length n then (DM_ERR_INVALID_NAME, dm)
         else (let i = length (takeWhile (\<lambda>d. \<not> named n d) (take (dm_num_devs dm) (dm_list dm)))
               in if i = dm_num_devs dm then (DM_ERR_NOT_REGISTERED, dm)
                  else (0, dm\<lparr>dm_list := (if i \<noteq> dm_num_devs dm - 1 then (dm_list dm)[i := dm_list dm ! (i + 1)] else dm_list dm),
                              dm_num_devs := dm_num_devs dm - 1\<rparr>))))"

definition dm_get_device_at :: "'s dm \<Rightarrow> int \<Rightarrow> 's dm_device option" where
  "dm_get_device_at dm idx = (if idx < 0 \<or> int (dm_num_devs dm) \<le> idx then None else dm_list dm ! nat idx)"

definition dm_get_num_devices :: "'s dm \<Rightarrow> nat" where
  "dm_get_num_devices = dm_num_devs"

text \<open>The device with the longest name that begins the path, and the rest of the path.\<close>

definition dm_device_id_from_name :: "bytes \<Rightarrow> 's dm \<Rightarrow> (nat \<times> bytes) option" where
  "dm_device_id_from_name name dm =
    (let (matchlen, pos) = fold (\<lambda>i (m, p).
           let n = dev_name (the (dm_list dm ! i))
           in if strncasecmp name n (length n) = 0 \<and> m < length n then (length n, i) else (m, p)) [0..<dm_num_devs dm] (0, 0)
     in if matchlen = 0 then None else Some (pos, drop (length (dev_name (the (dm_list dm ! pos)))) name))"

definition fail :: "errno \<Rightarrow> 's sys \<Rightarrow> int \<times> 's sys" where
  "fail e s = (- 1, s\<lparr>sys_errno := Some e\<rparr>)"

text \<open>Directories: the device and the handle it gave.\<close>

definition dm_opendir :: "(nat \<Rightarrow> bool) \<Rightarrow> 's dm \<Rightarrow> bytes \<Rightarrow> 's sys \<Rightarrow> (nat \<times> nat) option \<times> 's sys" where
  "dm_opendir alloc dm dirname s =
    (case dm_device_id_from_name dirname dm of
       None \<Rightarrow> (None, s\<lparr>sys_errno := Some E_NOSYS\<rparr>)
     | Some (pos, rest) \<Rightarrow>
        (case p_opendir_r (the (dm_list dm ! pos)) of
           None \<Rightarrow> (None, s\<lparr>sys_errno := Some E_NOSYS\<rparr>)
         | Some f \<Rightarrow>
            (case f rest s of
               (None, s) \<Rightarrow> (None, s)
             | (Some h, s) \<Rightarrow> (if alloc 8 then (Some (pos, h), s) else (None, s\<lparr>sys_errno := Some E_NOMEM\<rparr>)))))"

definition dm_readdir :: "'s dm \<Rightarrow> nat \<times> nat \<Rightarrow> 's sys \<Rightarrow> bytes option \<times> 's sys" where
  "dm_readdir dm d s =
    (if dm_num_devs dm \<le> fst d then (None, s\<lparr>sys_errno := Some E_BADF\<rparr>)
     else (case p_readdir_r (the (dm_list dm ! fst d)) of
         None \<Rightarrow> (None, s\<lparr>sys_errno := Some E_BADF\<rparr>)
       | Some f \<Rightarrow> f (snd d) s))"

text \<open>\<open>None\<close> when the device has no \<^verbatim>\<open>closedir\<close>: the call through the null pointer.\<close>

definition dm_closedir :: "'s dm \<Rightarrow> nat \<times> nat \<Rightarrow> 's sys \<Rightarrow> (int \<times> 's sys) option" where
  "dm_closedir dm d s =
    (if dm_num_devs dm \<le> fst d then Some (fail E_BADF s)
     else (case dm_list dm ! fst d of
         None \<Rightarrow> Some (fail E_BADF s)
       | Some dev \<Rightarrow> map_option (\<lambda>f. f (snd d) s) (p_closedir_r dev)))"

subsection \<open>The choice of the device\<close>

text \<open>The loop of \<^verbatim>\<open>find_dm_entry\<close>: the device found, or the root file system passed on the way.\<close>

primrec find_device :: "bytes \<Rightarrow> 's dm_device option list \<Rightarrow> nat \<Rightarrow> nat option \<Rightarrow> nat + nat option" where
  "find_device temp [] i devroot = Inr devroot"
| "find_device temp (d # ds) i devroot =
    (if named temp d then Inl i
     else find_device temp ds (i + 1) (if dev_name (the d) = [0x2F] then Some i else devroot))"

text \<open>The device for the name \<open>temp\<close>, whose file name is \<open>preal\<close> behind its slash; or the root device and
  the whole name.\<close>

definition pick_device :: "'s dm \<Rightarrow> bytes \<Rightarrow> bytes \<Rightarrow> bytes \<Rightarrow> (nat \<times> bytes) option" where
  "pick_device dm name temp preal =
    (let strip = (\<lambda>i p. if tl p = [] then None else Some (i, tl p))
     in case find_device temp (take (dm_get_num_devices dm) (dm_list dm)) 0 None of
          Inl i \<Rightarrow> strip i preal
        | Inr None \<Rightarrow> None
        | Inr (Some i) \<Rightarrow> strip i name)"

definition find_dm_entry :: "'s dm \<Rightarrow> bytes \<Rightarrow> (nat \<times> bytes) option" where
  "find_dm_entry dm name =
    (if chr name \<noteq> 0x2F then None
     else (let k = 1 + length (takeWhile (\<lambda>c. c \<noteq> 0x2F) (tl name))
           in if k = length name then pick_device dm name [0x2F] name
              else if DM_MAX_DEV_NAME < k \<or> k = 1 then None
              else pick_device dm name (take k name) (drop k name)))"

definition DM_MAKE_DESC :: "int \<Rightarrow> int \<Rightarrow> int" where
  "DM_MAKE_DESC devid fd = push_bit 11 devid OR fd"

definition DM_GET_DEVID :: "int \<Rightarrow> int" where
  "DM_GET_DEVID desc = drop_bit 11 desc"

definition DM_GET_FD :: "int \<Rightarrow> int" where
  "DM_GET_FD desc = desc AND (push_bit 11 1 - 1)"

definition open_r :: "'s dm \<Rightarrow> bytes \<Rightarrow> u32 \<Rightarrow> 's sys \<Rightarrow> int \<times> 's sys" where
  "open_r dm name flags s =
    (case find_dm_entry dm name of
       None \<Rightarrow> fail E_NODEV s
     | Some (devid, actname) \<Rightarrow>
        (case p_open_r (the (dm_get_device_at dm (int devid))) of
           None \<Rightarrow> fail E_NOSYS s
         | Some f \<Rightarrow>
            (let (res, s) = f actname flags s
             in if res < 0 then (res, s\<lparr>sys_errno := Some (E_driver res)\<rparr>) else (DM_MAKE_DESC (int devid) res, s))))"

text \<open>The calls on a descriptor; \<open>None\<close> when it has no device, which the code does not check.\<close>

definition close_r :: "'s dm \<Rightarrow> int \<Rightarrow> 's sys \<Rightarrow> (int \<times> 's sys) option" where
  "close_r dm desc s = map_option (\<lambda>d. case p_close_r d of None \<Rightarrow> fail E_NOSYS s | Some f \<Rightarrow> f (DM_GET_FD desc) s)
     (dm_get_device_at dm (DM_GET_DEVID desc))"

definition lseek_r :: "'s dm \<Rightarrow> int \<Rightarrow> int \<Rightarrow> int \<Rightarrow> 's sys \<Rightarrow> (int \<times> 's sys) option" where
  "lseek_r dm desc off whence s =
    map_option (\<lambda>d. case p_lseek_r d of None \<Rightarrow> fail E_NOSYS s | Some f \<Rightarrow> f (DM_GET_FD desc) off whence s)
      (dm_get_device_at dm (DM_GET_DEVID desc))"

definition read_r :: "'s dm \<Rightarrow> int \<Rightarrow> nat \<Rightarrow> 's sys \<Rightarrow> (int \<times> bytes \<times> 's sys) option" where
  "read_r dm desc len s =
    map_option (\<lambda>d. case p_read_r d of
        None \<Rightarrow> (let (r, s) = fail E_NOSYS s in (r, [], s)) | Some f \<Rightarrow> f (DM_GET_FD desc) len s)
      (dm_get_device_at dm (DM_GET_DEVID desc))"

definition write_r :: "'s dm \<Rightarrow> int \<Rightarrow> bytes \<Rightarrow> 's sys \<Rightarrow> (int \<times> 's sys) option" where
  "write_r dm desc data s =
    map_option (\<lambda>d. case p_write_r d of None \<Rightarrow> fail E_NOSYS s | Some f \<Rightarrow> f (DM_GET_FD desc) data s)
      (dm_get_device_at dm (DM_GET_DEVID desc))"

subsection \<open>The console\<close>

abbreviation (input) STD_CTRLZ_CODE :: int where "STD_CTRLZ_CODE \<equiv> 26"

definition std_get_char :: "console \<Rightarrow> int \<times> console" where
  "std_get_char c = (case con_in c of [] \<Rightarrow> (- 1, c) | x # xs \<Rightarrow> (x, c\<lparr>con_in := xs\<rparr>))"

definition std_send_char :: "u8 list \<Rightarrow> console \<Rightarrow> console" where
  "std_send_char bs c = c\<lparr>con_out := con_out c @ bs\<rparr>"

definition isprint :: "int \<Rightarrow> bool" where
  "isprint c \<longleftrightarrow> 0x20 \<le> c \<and> c \<le> 0x7E"

text \<open>The end of a line: the other half of a pair of carriage return and line feed is dropped, any other
  character is kept for the next read.\<close>

definition std_newline :: "int \<Rightarrow> bytes \<Rightarrow> console \<Rightarrow> int \<times> bytes \<times> console" where
  "std_newline x buf c =
    (let (p, c) = std_get_char (std_send_char [word_of_int x] c);
         c = c\<lparr>std_prev_char := (if p + x = 13 + 10 then - 1 else p)\<rparr>
     in (int (length buf) + 1, buf @ [10], std_send_char [word_of_int (13 + 10 - x)] c))"

text \<open>The loop of \<^verbatim>\<open>std_read\<close> while nothing is read ahead: \<open>buf\<close> is the buffer so far.\<close>

function std_loop :: "nat \<Rightarrow> bytes \<Rightarrow> console \<Rightarrow> int \<times> bytes \<times> console" where
  "std_loop len buf c =
    (if len \<le> length buf then (int (length buf), buf, c)
     else (case con_in c of
         [] \<Rightarrow> (int (length buf), buf, c)
       | x # xs \<Rightarrow>
          (let c = c\<lparr>con_in := xs\<rparr>
           in if x = - 1 then (int (length buf), buf, c)
              else if x = 8 \<or> x = 0x7F then
                (if buf \<noteq> [] then std_loop len (butlast buf) (std_send_char [8, 0x20, 8] c) else std_loop len buf c)
              else if \<not> isprint x \<and> x \<noteq> 10 \<and> x \<noteq> 13 \<and> x \<noteq> STD_CTRLZ_CODE then std_loop len buf c
              else if x = STD_CTRLZ_CODE then (0, [], c)
              else if x = 13 \<or> x = 10 then std_newline x buf c
              else std_loop len (buf @ [word_of_int x]) (std_send_char [word_of_int x] c))))"
  by pat_completeness auto
termination
  by (relation "measure (\<lambda>(len, buf, c). length (con_in c))") (auto simp: std_send_char_def)

declare std_loop.simps [simp del]

definition std_read :: "int \<Rightarrow> nat \<Rightarrow> 's sys \<Rightarrow> int \<times> bytes \<times> 's sys" where
  "std_read fd len s =
    (let c = sys_con s; err = (\<lambda>e. (- 1, [], s\<lparr>sys_errno := Some e\<rparr>))
     in if \<not> con_set c \<or> fd < 0 \<or> 2 < fd then err E_BADF
        else if fd \<noteq> 0 then err E_INVAL
        else (let (r, b, c) =
                (if len \<noteq> 0 \<and> std_prev_char c \<noteq> - 1
                 then std_loop len [word_of_int (std_prev_char c)] (c\<lparr>std_prev_char := - 1\<rparr>)
                 else std_loop len [] c)
              in (r, b, s\<lparr>sys_con := c\<rparr>)))"

definition crlf :: "u8 \<Rightarrow> bytes" where
  "crlf b = (if b = 10 then [13, b] else [b])"

definition std_write :: "int \<Rightarrow> bytes \<Rightarrow> 's sys \<Rightarrow> int \<times> 's sys" where
  "std_write fd data s =
    (if \<not> con_set (sys_con s) \<or> fd < 0 \<or> 2 < fd then fail E_BADF s
     else if fd \<noteq> 1 \<and> fd \<noteq> 2 then fail E_INVAL s
     else (int (length data), s\<lparr>sys_con := fold (\<lambda>b. std_send_char (crlf b)) data (sys_con s)\<rparr>))"

definition std_get_desc :: "'s dm_device" where
  "std_get_desc =
    \<lparr>dev_name = [0x2F, 0x73, 0x74, 0x64], p_open_r = None, p_close_r = None, p_write_r = Some std_write,
     p_read_r = Some std_read, p_lseek_r = None, p_opendir_r = None, p_readdir_r = None, p_closedir_r = None\<rparr>"

definition dm_init :: "'s dm \<Rightarrow> 's dm" where
  "dm_init dm = snd (dm_register (Some std_get_desc) dm)"

subsection \<open>The file system\<close>

text \<open>The file functions of the operating system.\<close>

record 's fs_ops =
  open_file :: "u16 list \<Rightarrow> u32 \<Rightarrow> 's \<Rightarrow> int \<times> 's"
  close_file :: "int \<Rightarrow> 's \<Rightarrow> int \<times> 's"
  write_file_os :: "int \<Rightarrow> bytes \<Rightarrow> 's \<Rightarrow> int \<times> 's"
  read_file :: "int \<Rightarrow> nat \<Rightarrow> 's \<Rightarrow> int \<times> bytes \<times> 's"
  seek_file :: "int \<Rightarrow> int \<Rightarrow> int \<Rightarrow> 's \<Rightarrow> int \<times> 's"

text \<open>\<^verbatim>\<open>strtows\<close> widens characters, which are signed on this processor.\<close>

definition strtows :: "bytes \<Rightarrow> u16 list" where
  "strtows src = map scast src @ [0]"

definition on_fs :: "('s \<Rightarrow> int \<times> 's) \<Rightarrow> 's sys \<Rightarrow> int \<times> 's sys" where
  "on_fs f s = (let (r, t) = f (sys_fs s) in (r, s\<lparr>sys_fs := t\<rparr>))"

definition platformfs_open_r :: "'s fs_ops \<Rightarrow> bytes \<Rightarrow> u32 \<Rightarrow> 's sys \<Rightarrow> int \<times> 's sys" where
  "platformfs_open_r os path flags = on_fs (open_file os (strtows path) flags)"

definition platformfs_close_r :: "'s fs_ops \<Rightarrow> int \<Rightarrow> 's sys \<Rightarrow> int \<times> 's sys" where
  "platformfs_close_r os fd = on_fs (close_file os fd)"

definition platformfs_write_r :: "'s fs_ops \<Rightarrow> int \<Rightarrow> bytes \<Rightarrow> 's sys \<Rightarrow> int \<times> 's sys" where
  "platformfs_write_r os fd data s = (let (r, s) = on_fs (write_file_os os fd data) s in (if r < 0 then 0 else r, s))"

definition platformfs_read_r :: "'s fs_ops \<Rightarrow> int \<Rightarrow> nat \<Rightarrow> 's sys \<Rightarrow> int \<times> bytes \<times> 's sys" where
  "platformfs_read_r os fd len s =
    (let (r, b, t) = read_file os fd len (sys_fs s) in (if r < 0 then 0 else r, b, s\<lparr>sys_fs := t\<rparr>))"

definition platformfs_lseek_r :: "'s fs_ops \<Rightarrow> int \<Rightarrow> int \<Rightarrow> int \<Rightarrow> 's sys \<Rightarrow> int \<times> 's sys" where
  "platformfs_lseek_r os fd off whence s =
    (let (r, s) = on_fs (seek_file os fd off whence) s in (if r < 0 then - 1 else r, s))"

definition platform_fs_init :: "'s fs_ops \<Rightarrow> 's dm_device" where
  "platform_fs_init os =
    \<lparr>dev_name = [0x2F], p_open_r = Some (platformfs_open_r os), p_close_r = Some (platformfs_close_r os),
     p_write_r = Some (platformfs_write_r os), p_read_r = Some (platformfs_read_r os),
     p_lseek_r = Some (platformfs_lseek_r os), p_opendir_r = None, p_readdir_r = None, p_closedir_r = None\<rparr>"

text \<open>The table after \<^verbatim>\<open>LuaAppTask\<close> has registered the console and the file system.\<close>

definition boot_dm :: "'s fs_ops \<Rightarrow> 's dm" where
  "boot_dm os = snd (dm_register (Some (platform_fs_init os)) (dm_init dm_start))"

subsection \<open>Comparisons and descriptors\<close>

definition lower :: "u8 \<Rightarrow> u8" where
  "lower c = (if 0x41 \<le> c \<and> c \<le> 0x5A then c + 0x20 else c)"

lemma nth_upt_3:
  "b \<le> c \<Longrightarrow> n < a + (c - b) + (e - d) \<Longrightarrow> ([0..<a] @ [b..<c] @ [d..<e]) ! n =
    (if n < a then n else if n < a + (c - b) then b + (n - a) else d + (n - a - (c - b)))"
  by (auto simp: nth_append nth_upt)

lemma cm_lower: "cm s = lower (chr s)"
proof -
  let ?n = "unat (chr s)"
  have n: "?n < 256" using unsigned_less [of "chr s", where ?'a = nat] by simp
  have "cm s = of_nat (([0..<65] @ [97..<123] @ [91..<256]) ! ?n)"
    unfolding cm_def charmap_def by (rule nth_map) (simp only: length_append length_upt, use n in simp)
  also have "([0..<65] @ [97..<123] @ [91..<256]) ! ?n = (if ?n < 65 then ?n else if ?n < 91 then ?n + 32 else ?n)"
    using n by (subst nth_upt_3) simp_all
  finally show ?thesis using n by (auto simp: lower_def word_le_nat_alt not_less not_le)
qed

lemma chr_simps [simp]: "chr [] = 0" "chr (c # s) = c"
  by (simp_all add: chr_def)

lemma lower_0 [simp]: "lower c = 0 \<longleftrightarrow> c = 0"
proof
  assume *: "lower c = 0"
  show "c = 0"
  proof (rule ccontr)
    assume "c \<noteq> 0"
    then have c: "0x41 \<le> c" "c \<le> 0x5A" "c + 0x20 = 0" using * by (auto simp: lower_def split: if_splits)
    then have "unat (c + 0x20) = unat c + 0x20" by (subst unat_add_lem [THEN iffD1]) (auto simp: word_le_nat_alt)
    then show False using c by simp
  qed
qed (simp add: lower_def)

lemma lower_zero [simp]: "lower 0 = 0"
  by (simp add: lower_def)

lemma lower_slash: "lower 0x2F = 0x2F"
  by (simp add: lower_def)

lemma strcasecmp_iff:
  "0 \<notin> set s \<Longrightarrow> 0 \<notin> set t \<Longrightarrow> strcasecmp s t = 0 \<longleftrightarrow> map lower s = map lower t"
proof (induction s arbitrary: t)
  case Nil
  then show ?case by (cases t) (auto simp: cm_lower unsigned_eq_0_iff)
next
  case (Cons a s)
  show ?case
  proof (cases t)
    case Nil
    then show ?thesis using Cons.prems by (simp add: cm_lower unsigned_eq_0_iff)
  next
    case (Cons b t')
    then show ?thesis using Cons.IH [of t'] Cons.prems
      by (auto simp: cm_lower dest: word_uint_eq_iff [THEN iffD2])
  qed
qed

lemma desc_parts:
  assumes "0 \<le> fd" "fd < 2048"
  shows "DM_GET_DEVID (DM_MAKE_DESC devid fd) = devid" "DM_GET_FD (DM_MAKE_DESC devid fd) = fd"
proof -
  have "take_bit 11 fd = fd" using assms by (simp add: take_bit_int_eq_self_iff)
  then have fd: "bit fd n \<Longrightarrow> n < 11" for n by (metis bit_take_bit_iff)
  show "DM_GET_DEVID (DM_MAKE_DESC devid fd) = devid"
    using fd by (auto simp: DM_GET_DEVID_def DM_MAKE_DESC_def bit_eq_iff bit_drop_bit_eq bit_or_iff bit_push_bit_iff)
  have "push_bit 11 1 - 1 = (mask 11 :: int)" by (simp add: mask_eq_exp_minus_1)
  then show "DM_GET_FD (DM_MAKE_DESC devid fd) = fd"
    using fd by (auto simp: DM_GET_FD_def DM_MAKE_DESC_def bit_eq_iff bit_and_iff bit_or_iff bit_push_bit_iff bit_mask_iff)
qed

lemma desc_overflow: "DM_GET_DEVID (DM_MAKE_DESC 0 2048) = 1"
  by (simp add: DM_GET_DEVID_def DM_MAKE_DESC_def)

subsection \<open>Paths\<close>

lemma boot_dm_list:
  fixes os :: "'a fs_ops"
  shows
  "take (dm_num_devs (boot_dm os)) (dm_list (boot_dm os)) = [Some std_get_desc, Some (platform_fs_init os)]"
  "dm_num_devs (boot_dm os) = 2"
proof -
  have "\<not> named (dev_name (platform_fs_init os)) (Some std_get_desc)"
    unfolding named_def by (subst strcasecmp_iff) (simp_all add: platform_fs_init_def std_get_desc_def)
  moreover have "take 2 ((replicate 16 None)[0 := x, Suc 0 := y]) = [x, y]" "take (Suc 0) ((replicate 16 None)[0 := x]) = [x]"
    for x y :: "'a dm_device option" by (simp_all add: numeral_eq_Suc)
  moreover have "chr (dev_name (std_get_desc :: 'a dm_device)) = 0x2F"
    "length (dev_name (std_get_desc :: 'a dm_device)) = 4" "chr (dev_name (platform_fs_init os)) = 0x2F"
    "length (dev_name (platform_fs_init os)) = 1"
    by (simp_all add: std_get_desc_def platform_fs_init_def)
  ultimately show "take (dm_num_devs (boot_dm os)) (dm_list (boot_dm os)) = [Some std_get_desc, Some (platform_fs_init os)]"
    "dm_num_devs (boot_dm os) = 2"
    by (simp_all add: boot_dm_def dm_init_def dm_register_def dm_start_def flip: numeral_2_eq_2)
qed

lemma resolve_path:
  assumes "0 \<notin> set q"
  shows "find_dm_entry (boot_dm os) (0x2F # q) =
    (let dir = takeWhile (\<lambda>c. c \<noteq> 0x2F) q; rest = drop (length dir + 1) q
     in if q = [] then None
        else if 0x2F \<notin> set q then Some (1, q)
        else if dir = [] \<or> 11 < length dir then None
        else if map lower dir = [0x73, 0x74, 0x64] then (if rest = [] then None else Some (0, rest))
        else Some (1, q))"
proof -
  let ?dir = "takeWhile (\<lambda>c. c \<noteq> 0x2F) q"
  let ?n = "dev_name (platform_fs_init os)"
  have names: "?n = [0x2F]" "dev_name std_get_desc = [0x2F, 0x73, 0x74, 0x64]" by (simp_all add: platform_fs_init_def std_get_desc_def)
  have std: "named t (Some std_get_desc) \<longleftrightarrow> map lower t = [0x2F, 0x73, 0x74, 0x64]" if "0 \<notin> set t" for t
    unfolding named_def using that by (subst strcasecmp_iff) (simp_all add: names lower_def)
  have fs: "named t (Some (platform_fs_init os)) \<longleftrightarrow> map lower t = [0x2F]" if "0 \<notin> set t" for t
    unfolding named_def using that by (subst strcasecmp_iff) (simp_all add: names lower_def)
  have pick: "pick_device (boot_dm os) name t p =
     (let strip = (\<lambda>i p. if tl p = [] then None else Some (i, tl p))
      in if map lower t = [0x2F, 0x73, 0x74, 0x64] then strip 0 p else if map lower t = [0x2F] then strip 1 p else strip 1 name)"
    if "0 \<notin> set t" for t p name
    using that unfolding pick_device_def dm_get_num_devices_def boot_dm_list(1) by (simp add: std fs names Let_def)
  show ?thesis
  proof (cases "0x2F \<in> set q")
    case False
    then have dir: "?dir = q" by (induction q) auto
    show ?thesis using False by (simp add: find_dm_entry_def pick lower_slash Let_def dir)
  next
    case True
    then have "length ?dir < length q" by (induction q) auto
    moreover have "take (1 + length ?dir) (0x2F # q) = 0x2F # ?dir" "tl (drop (1 + length ?dir) (0x2F # q)) = drop (length ?dir + 1) q"
      by (simp_all add: takeWhile_eq_take [symmetric] tl_drop drop_Suc)
    moreover have "0 \<notin> set ?dir" using assms set_takeWhileD by metis
    ultimately show ?thesis using True by (auto simp: find_dm_entry_def pick lower_slash Let_def)
  qed
qed

text \<open>C28: Where a path leads after the start-up.  A file of the root directory belongs to the file system; \<^verbatim>\<open>/std\<close>,
  in any case, to the console; a file in any other directory to the file system, with its whole path without the first
  slash --- unless the name of the first directory has more than eleven characters: then it cannot be opened.
\<close>

theorem path_resolution:
  assumes "0 \<notin> set q"
  shows "find_dm_entry (boot_dm os) (0x2F # q) =
    (let dir = takeWhile (\<lambda>c. c \<noteq> 0x2F) q; rest = drop (length dir + 1) q
     in if q = [] then None
        else if 0x2F \<notin> set q then Some (1, q)
        else if dir = [] \<or> 11 < length dir then None
        else if map lower dir = [0x73, 0x74, 0x64] then (if rest = [] then None else Some (0, rest))
        else Some (1, q))"
  using assms by (rule resolve_path)

theorem path_resolution_witness:
  "\<forall>os :: unit fs_ops. find_dm_entry (boot_dm os) (map of_char ''/lua/main.lua'') = Some (1, map of_char ''lua/main.lua'')"
proof
  fix os :: "unit fs_ops"
  show "find_dm_entry (boot_dm os) (map of_char ''/lua/main.lua'') = Some (1, map of_char ''lua/main.lua'')"
    using path_resolution [of "map of_char ''lua/main.lua''" os] by (simp add: Let_def lower_def)
qed

text \<open>So a first directory of twelve characters makes everything below it unreachable, although the file system would
  be asked with the whole path.\<close>

lemma long_directory:
  assumes "0 \<notin> set dir" "0x2F \<notin> set dir" "11 < length dir" "0 \<notin> set file"
  shows "open_r (boot_dm os) (0x2F # dir @ 0x2F # file) flags s = fail E_NODEV s"
proof -
  have "takeWhile (\<lambda>c. c \<noteq> 0x2F) (dir @ 0x2F # file) = dir" using assms(2) by (induction dir) auto
  then show ?thesis using assms resolve_path [of "dir @ 0x2F # file" os] by (auto simp: open_r_def Let_def)
qed

subsection \<open>Registering devices\<close>

definition devices :: "'s dm \<Rightarrow> 's dm_device list" where
  "devices dm = map the (take (dm_num_devs dm) (dm_list dm))"

definition good_name :: "bytes \<Rightarrow> bool" where
  "good_name n \<longleftrightarrow> chr n = 0x2F \<and> length n \<le> DM_MAX_DEV_NAME \<and> 0 \<notin> set n"

definition dm_ok :: "'s dm \<Rightarrow> bool" where
  "dm_ok dm \<longleftrightarrow> length (dm_list dm) = DM_MAX_DEVICES \<and> dm_num_devs dm \<le> DM_MAX_DEVICES \<and>
    None \<notin> set (take (dm_num_devs dm) (dm_list dm)) \<and> (\<forall>d\<in>set (devices dm). good_name (dev_name d)) \<and>
    distinct (map (map lower \<circ> dev_name) (devices dm))"

lemma length_devices: "dm_ok dm \<Longrightarrow> length (devices dm) = dm_num_devs dm"
  by (simp add: dm_ok_def devices_def)

lemma devices_Some: "dm_ok dm \<Longrightarrow> take (dm_num_devs dm) (dm_list dm) = map Some (devices dm)"
  by (auto simp: dm_ok_def devices_def map_idI) (metis (mono_tags, lifting) list.map_comp map_idI comp_apply option.collapse)

lemma named_Some: "0 \<notin> set n \<Longrightarrow> good_name (dev_name d) \<Longrightarrow> named n (Some d) \<longleftrightarrow> map lower n = map lower (dev_name d)"
  by (simp add: named_def good_name_def strcasecmp_iff)

lemma dm_register_ok:
  assumes "dm_ok dm" "0 \<notin> set (dev_name d)" "dm_register (Some d) dm = (r, dm')"
  shows "dm_ok dm' \<and> (if r < 0 then dm' = dm else devices dm' = devices dm @ [d] \<and> r = int (length (devices dm)))"
proof (cases "r < 0")
  case True
  then show ?thesis using assms by (auto simp: dm_register_def split: if_splits)
next
  case False
  let ?n = "dm_num_devs dm"
  have r: "good_name (dev_name d)" "?n < DM_MAX_DEVICES" "\<not> list_ex (named (dev_name d)) (map Some (devices dm))"
    "dm' = dm\<lparr>dm_list := (dm_list dm)[?n := Some d], dm_num_devs := ?n + 1\<rparr>" "r = int ?n"
    using assms False by (auto simp: dm_register_def good_name_def dm_ok_def devices_Some [OF assms(1)] split: if_splits)
  have "take (Suc ?n) ((dm_list dm)[?n := Some d]) = take ?n (dm_list dm) @ [Some d]"
    using assms(1) r(2) by (simp add: dm_ok_def take_Suc_conv_app_nth)
  then have *: "take (dm_num_devs dm') (dm_list dm') = take ?n (dm_list dm) @ [Some d]" by (simp add: r(4))
  then have devs: "devices dm' = devices dm @ [d]" by (simp add: devices_def)
  have "map lower (dev_name d) \<notin> (map lower \<circ> dev_name) ` set (devices dm)"
    using r(3) assms(1,2) by (auto simp: list_ex_iff dm_ok_def named_Some)
  then show ?thesis using assms(1) r * devs False length_devices [OF assms(1)] by (auto simp: dm_ok_def)
qed

lemma dm_register_fresh:
  assumes "dm_ok dm" "good_name (dev_name d)" "\<forall>x\<in>set (devices dm). map lower (dev_name x) \<noteq> map lower (dev_name d)"
    and "length (devices dm) < DM_MAX_DEVICES"
  shows "\<exists>dm'. dm_register (Some d) dm = (int (length (devices dm)), dm') \<and> dm_ok dm' \<and> devices dm' = devices dm @ [d]"
proof -
  have zero: "0 \<notin> set (dev_name d)" using assms(2) by (simp add: good_name_def)
  have "\<not> list_ex (named (dev_name d)) (take (dm_num_devs dm) (dm_list dm))"
    using assms(1,3) by (auto simp: list_ex_iff devices_Some [OF assms(1)] named_Some [OF zero] dm_ok_def)
  then obtain dm' where "dm_register (Some d) dm = (int (length (devices dm)), dm')"
    using assms(2,4) length_devices [OF assms(1)] by (simp add: dm_register_def good_name_def)
  then show ?thesis using dm_register_ok [OF assms(1) zero] by simp
qed

lemma first_match:
  assumes "i < length xs" "P (xs ! i)" "\<And>j. j < i \<Longrightarrow> \<not> P (xs ! j)"
  shows "length (takeWhile (\<lambda>x. \<not> P x) xs) = i"
  using takeWhile_eq_take_P_nth [of i xs "\<lambda>x. \<not> P x"] assms by simp

lemma dm_unregister_index:
  assumes "dm_ok dm" "i < length (devices dm)"
  shows "length (takeWhile (\<lambda>d. \<not> named (dev_name (devices dm ! i)) d) (take (dm_num_devs dm) (dm_list dm))) = i"
proof (rule first_match)
  let ?ds = "devices dm"
  have good: "good_name (dev_name (?ds ! j))" if "j < length ?ds" for j using assms(1) that by (auto simp: dm_ok_def)
  then have "0 \<notin> set (dev_name (?ds ! i))" using assms(2) by (simp add: good_name_def)
  then have named: "named (dev_name (?ds ! i)) (take (dm_num_devs dm) (dm_list dm) ! j) \<longleftrightarrow>
      map (map lower \<circ> dev_name) ?ds ! i = map (map lower \<circ> dev_name) ?ds ! j" if "j < length ?ds" for j
    using that assms(2) by (simp add: devices_Some [OF assms(1)] named_Some good)
  show "i < length (take (dm_num_devs dm) (dm_list dm))" using assms(2) by (simp add: devices_Some [OF assms(1)])
  show "named (dev_name (?ds ! i)) (take (dm_num_devs dm) (dm_list dm) ! i)" by (rule named [THEN iffD2]) (use assms(2) in auto)
  have "distinct (map (map lower \<circ> dev_name) ?ds)" using assms(1) by (simp add: dm_ok_def)
  then show "\<not> named (dev_name (?ds ! i)) (take (dm_num_devs dm) (dm_list dm) ! j)" if "j < i" for j
    using named [of j] that assms(2) nth_eq_iff_index_eq [of "map (map lower \<circ> dev_name) ?ds" i j] by simp
qed

text \<open>What is left when the device at position \<open>i\<close> is removed.\<close>

lemma dm_unregister_devices:
  assumes "dm_ok dm" "i < length (devices dm)"
  shows "\<exists>dm'. dm_unregister (Some (dev_name (devices dm ! i))) dm = (0, dm') \<and>
    length (dm_list dm') = DM_MAX_DEVICES \<and> dm_num_devs dm' = length (devices dm) - 1 \<and>
    take (dm_num_devs dm') (dm_list dm') =
      map Some (butlast (if Suc i = length (devices dm) then devices dm else (devices dm)[i := devices dm ! Suc i]))"
proof -
  let ?ds = "devices dm" and ?n = "dm_num_devs dm" and ?xs = "dm_list dm"
  have n: "length ?ds = ?n" "?n \<le> length ?xs" "length ?xs = DM_MAX_DEVICES"
    using assms(1) length_devices by (auto simp: dm_ok_def)
  have xs: "take ?n ?xs = map Some ?ds" by (rule devices_Some [OF assms(1)])
  have name: "chr (dev_name (?ds ! i)) = 0x2F" "length (dev_name (?ds ! i)) \<le> DM_MAX_DEV_NAME"
    using assms by (auto simp: dm_ok_def good_name_def)
  let ?list = "if i \<noteq> ?n - 1 then ?xs[i := ?xs ! (i + 1)] else ?xs"
  have nth: "?xs ! Suc i = Some (?ds ! Suc i)" if "Suc i < ?n"
    using that xs n by (metis nth_map nth_take)
  have "take (?n - 1) ?list = butlast (take ?n ?list)"
    using n assms(2) by (simp add: butlast_take)
  also have "take ?n ?list = (if Suc i = ?n then map Some ?ds else map Some (?ds[i := ?ds ! Suc i]))"
    using nth assms(2) n by (cases "Suc i = ?n") (auto simp: xs take_update_swap map_update)
  finally have "take (?n - 1) ?list = map Some (butlast (if Suc i = ?n then ?ds else ?ds[i := ?ds ! Suc i]))"
    by (simp add: map_butlast)
  then show ?thesis
    using dm_unregister_index [OF assms] name n assms(2) by (simp add: dm_unregister_def)
qed

lemma butlast_move:
  assumes "length xs = Suc (Suc i)"
  shows "butlast (xs[i := xs ! Suc i]) = take i xs @ drop (Suc i) xs"
  using assms by (intro nth_equalityI) (auto simp: nth_butlast nth_append nth_list_update less_Suc_eq)

text \<open>Removal of a device.  Registered devices have distinct names, whatever their case.  A removal is right for the
  last two devices of the table; removing an earlier one leaves the device behind it in the table twice and loses the
  last one, because only one pointer of the rest is moved.
\<close>

theorem dm_unregister_last_two:
  assumes "dm_ok dm" "i < length (devices dm)" "dm_unregister (Some (dev_name (devices dm ! i))) dm = (r, dm')"
  shows "r = 0 \<and> (if length (devices dm) \<le> i + 2
      then dm_ok dm' \<and> devices dm' = take i (devices dm) @ drop (i + 1) (devices dm)
      else \<not> distinct (devices dm') \<and> last (devices dm) \<notin> set (devices dm'))"
proof -
  let ?ds = "devices dm"
  let ?ds' = "butlast (if Suc i = length ?ds then ?ds else ?ds[i := ?ds ! Suc i])"
  have r: "r = 0" and dm': "length (dm_list dm') = DM_MAX_DEVICES" "dm_num_devs dm' = length ?ds - 1"
    "take (dm_num_devs dm') (dm_list dm') = map Some ?ds'"
    using dm_unregister_devices [OF assms(1,2)] assms(3) by auto
  have ds': "devices dm' = ?ds'" by (simp add: devices_def dm'(3) comp_def)
  have small: "length ?ds \<le> DM_MAX_DEVICES" using assms(1) length_devices [OF assms(1)] by (simp add: dm_ok_def)
  show ?thesis
  proof (cases "length ?ds \<le> i + 2")
    case True
    have rest: "?ds' = take i ?ds @ drop (i + 1) ?ds"
    proof (cases "Suc i = length ?ds")
      case True
      then show ?thesis by (simp add: butlast_conv_take flip: True)
    next
      case False
      then have "length ?ds = Suc (Suc i)" using True assms(2) by simp
      then show ?thesis using False by (simp add: butlast_move)
    qed
    then have "set ?ds' \<subseteq> set ?ds" by (metis append_take_drop_id in_set_dropD in_set_takeD set_append subsetI Un_iff)
    moreover have "distinct (map (map lower \<circ> dev_name) (devices dm'))"
      using assms(1) set_take_disj_set_drop_if_distinct [of "map (map lower \<circ> dev_name) ?ds" i "i + 1"]
      unfolding ds' rest map_append by (simp add: dm_ok_def flip: take_map drop_map)
    ultimately show ?thesis using r assms(1) dm' ds' rest small True by (auto simp: dm_ok_def)
  next
    case False
    then have n: "Suc (Suc i) < length ?ds" by simp
    then have "?ds' ! i = ?ds' ! Suc i" "Suc i < length ?ds'" by (simp_all add: nth_butlast)
    then have "\<not> distinct ?ds'" using nth_eq_iff_index_eq [of ?ds' i "Suc i"] by auto
    moreover have "last ?ds \<notin> set ?ds'"
    proof
      assume "last ?ds \<in> set ?ds'"
      then obtain j where j: "j < length ?ds - 1" "?ds' ! j = last ?ds" using n by (auto simp: in_set_conv_nth)
      have "distinct ?ds" using assms(1) by (simp add: dm_ok_def distinct_map)
      moreover have "last ?ds = ?ds ! (length ?ds - 1)" using n by (intro last_conv_nth) auto
      ultimately show False using j n
        by (auto simp: nth_butlast nth_list_update nth_eq_iff_index_eq split: if_splits)
    qed
    ultimately show ?thesis using r False ds' by simp
  qed
qed

definition demo_dm :: "unit dm" where
  "demo_dm = fold (\<lambda>c dm. snd (dm_register (Some (std_get_desc\<lparr>dev_name := [0x2F, c]\<rparr>)) dm)) [0x61, 0x62, 0x63] dm_start"

lemma dm_start_ok: "dm_ok dm_start"
  by (simp add: dm_ok_def dm_start_def devices_def)

theorem dm_unregister_last_two_witness:
  "\<exists>dm'. dm_unregister (Some [0x2F, 0x61]) demo_dm = (0, dm') \<and> \<not> distinct (devices dm')"
proof -
  let ?d = "\<lambda>c. std_get_desc\<lparr>dev_name := [0x2F, c]\<rparr> :: unit dm_device"
  obtain dm1 where 1: "dm_register (Some (?d 0x61)) dm_start = (0, dm1)" "dm_ok dm1" "devices dm1 = [?d 0x61]"
    using dm_register_fresh [OF dm_start_ok, of "?d 0x61"] by (auto simp: good_name_def devices_def dm_start_def)
  obtain dm2 where 2: "dm_register (Some (?d 0x62)) dm1 = (1, dm2)" "dm_ok dm2" "devices dm2 = [?d 0x61, ?d 0x62]"
    using dm_register_fresh [OF 1(2), of "?d 0x62"] by (auto simp: good_name_def 1(3) lower_def)
  obtain dm3 where 3: "dm_register (Some (?d 0x63)) dm2 = (2, dm3)" "dm_ok dm3" "devices dm3 = [?d 0x61, ?d 0x62, ?d 0x63]"
    using dm_register_fresh [OF 2(2), of "?d 0x63"] by (auto simp: good_name_def 2(3) lower_def)
  have "demo_dm = dm3" using 1(1) 2(1) 3(1) by (simp add: demo_dm_def)
  moreover obtain r dm' where "dm_unregister (Some [0x2F, 0x61]) dm3 = (r, dm')" by (metis surj_pair)
  moreover from this have "r = 0 \<and> \<not> distinct (devices dm')"
    using dm_unregister_last_two [OF 3(2), of 0 r dm'] 3(3) by simp
  ultimately show ?thesis by auto
qed

subsection \<open>Editing a line on the console\<close>

text \<open>What a typed character does to the line, and what a sent character does to the screen of a terminal: the
  characters before the cursor, backwards, and those from it on.\<close>

definition edit :: "bytes \<Rightarrow> int \<Rightarrow> bytes" where
  "edit b x = (if x = 8 \<or> x = 0x7F then butlast b else if isprint x then b @ [word_of_int x] else b)"

definition screen :: "u8 \<Rightarrow> bytes \<times> bytes \<Rightarrow> bytes \<times> bytes" where
  "screen b = (\<lambda>(l, r). if b = 8 then (case l of [] \<Rightarrow> ([], r) | x # l' \<Rightarrow> (l', x # r)) else (b # l, tl r))"

definition typed :: "int list \<Rightarrow> bool" where
  "typed xs \<longleftrightarrow> (\<forall>x\<in>set xs. x \<notin> {- 1, 10, 13, STD_CTRLZ_CODE})"

lemma word_print: "isprint x \<Longrightarrow> (word_of_int x :: u8) \<noteq> 8"
proof
  assume "isprint x" "(word_of_int x :: u8) = 8"
  then have "uint (word_of_int x :: u8) = 8" by simp
  then show False using \<open>isprint x\<close> by (simp add: isprint_def uint_word_of_int)
qed

lemma std_loop_edit:
  assumes "length buf < len" "con_in c = x # xs" "x \<notin> {- 1, 10, 13, STD_CTRLZ_CODE}"
  shows "std_loop len buf c = std_loop len (edit buf x)
    (std_send_char (if x = 8 \<or> x = 0x7F then if buf = [] then [] else [8, 0x20, 8] else if isprint x then [word_of_int x] else [])
      (c\<lparr>con_in := xs\<rparr>))"
proof -
  have "std_send_char [] (c\<lparr>con_in := xs\<rparr>) = c\<lparr>con_in := xs\<rparr>" by (simp add: std_send_char_def)
  then show ?thesis using assms by (subst std_loop.simps) (simp add: edit_def Let_def)
qed

lemma std_loop_newline:
  assumes "length buf < len" "con_in c = e # n # rest" "e \<in> {10, 13}"
  shows "std_loop len buf c = (int (length buf) + 1, buf @ [10],
    c\<lparr>con_in := rest, std_prev_char := (if n + e = 23 then - 1 else n), con_out := con_out c @ [word_of_int e, word_of_int (23 - e)]\<rparr>)"
  using assms
  by (subst std_loop.simps) (auto simp: isprint_def std_newline_def std_get_char_def std_send_char_def Let_def)

lemma screen_edit:
  "\<exists>k'. fold screen (if x = 8 \<or> x = 0x7F then if buf = [] then [] else [8, 0x20, 8] else if isprint x then [word_of_int x] else [])
    (rev buf, replicate k 0x20) = (rev (edit buf x), replicate k' 0x20)"
proof (cases "x = 8 \<or> x = 0x7F")
  case True
  show ?thesis
  proof (cases buf rule: rev_cases)
    case Nil
    then show ?thesis using True by (auto simp: edit_def)
  next
    case (snoc b y)
    then show ?thesis using True by (intro exI [of _ "Suc k"]) (simp add: edit_def screen_def)
  qed
next
  case False
  then show ?thesis using word_print [of x] by (intro exI [of _ "if isprint x then k - 1 else k"]) (auto simp: edit_def screen_def)
qed

lemma std_loop_line:
  assumes "typed xs" "\<forall>k\<le>length xs. length (foldl edit buf (take k xs)) < len"
    and "con_in c = xs @ [e, n] @ rest" "e \<in> {10, 13}" "std_prev_char c = - 1"
  shows "\<exists>c' out k'. std_loop len buf c = (int (length (foldl edit buf xs)) + 1, foldl edit buf xs @ [10], c') \<and>
    con_in c' = rest \<and> con_set c' = con_set c \<and> std_prev_char c' = (if n + e = 23 then - 1 else n) \<and>
    con_out c' = con_out c @ out @ [word_of_int e, word_of_int (23 - e)] \<and>
    fold screen out (rev buf, replicate k 0x20) = (rev (foldl edit buf xs), replicate k' 0x20)"
  using assms
proof (induction xs arbitrary: buf c k)
  case Nil
  then show ?case using std_loop_newline [of buf len c e n rest] 
    by (intro exI [of _ "c\<lparr>con_in := rest, std_prev_char := (if n + e = 23 then - 1 else n),
        con_out := con_out c @ [word_of_int e, word_of_int (23 - e)]\<rparr>"] exI [of _ "[]"] exI [of _ k]) simp
next
  case (Cons x xs)
  let ?c = "c\<lparr>con_in := xs @ [e, n] @ rest\<rparr>"
  let ?out = "if x = 8 \<or> x = 0x7F then if buf = [] then [] else [8, 0x20, 8] else if isprint x then [word_of_int x] else []"
  have len: "length buf < len" using Cons.prems(2) by force
  have room: "\<forall>k\<le>length xs. length (foldl edit (edit buf x) (take k xs)) < len"
    using Cons.prems(2) by (metis Suc_le_mono foldl_Cons length_Cons take_Suc_Cons)
  have typed: "typed xs" "x \<notin> {- 1, 10, 13, STD_CTRLZ_CODE}" using Cons.prems(1) by (auto simp: typed_def)
  obtain out1 k1 where step: "std_loop len buf c = std_loop len (edit buf x) (std_send_char out1 ?c)"
    and out1: "fold screen out1 (rev buf, replicate k 0x20) = (rev (edit buf x), replicate k1 0x20)"
    using std_loop_edit [OF len _ typed(2), of c "xs @ [e, n] @ rest"] screen_edit [of x buf k] Cons.prems(3) by auto
  have "con_in (std_send_char out1 ?c) = xs @ [e, n] @ rest" "std_prev_char (std_send_char out1 ?c) = - 1"
    using Cons.prems(5) by (simp_all add: std_send_char_def)
  from Cons.IH [OF typed(1) room this(1) Cons.prems(4) this(2), of k1]
  obtain c' out k' where ih: "std_loop len (edit buf x) (std_send_char out1 ?c) =
      (int (length (foldl edit (edit buf x) xs)) + 1, foldl edit (edit buf x) xs @ [10], c')"
    "con_in c' = rest" "con_set c' = con_set c" "std_prev_char c' = (if n + e = 23 then - 1 else n)"
    "con_out c' = (con_out c @ out1) @ out @ [word_of_int e, word_of_int (23 - e)]"
    "fold screen out (rev (edit buf x), replicate k1 0x20) = (rev (foldl edit (edit buf x) xs), replicate k' 0x20)"
    by (auto simp: std_send_char_def)
  then show ?case using step out1 by (intro exI [of _ c'] exI [of _ "out1 @ out"] exI [of _ k']) simp
qed

text \<open>C29: A line on the console.  When no character is kept from before, the characters typed (not Ctrl-Z) end with a carriage
  return or a line feed and the line always fits, also while it is being edited, one read delivers the line as edited with backspaces, ended by a line feed; the character behind it is swallowed
  if it is the other half of the pair and is kept for the next read otherwise.  The echo leaves exactly the line on the
  screen, followed by blanks.
\<close>

theorem std_read_line:
  assumes "typed xs" "\<forall>k\<le>length xs. length (foldl edit [] (take k xs)) < len"
    and "con_in (sys_con s) = xs @ [e, n] @ rest" "e \<in> {10, 13}" "con_set (sys_con s)" "std_prev_char (sys_con s) = - 1"
  shows "\<exists>c' out k. std_read 0 len s = (int (length (foldl edit [] xs)) + 1, foldl edit [] xs @ [10], s\<lparr>sys_con := c'\<rparr>) \<and>
    con_in c' = rest \<and> std_prev_char c' = (if n + e = 23 then - 1 else n) \<and>
    con_out c' = con_out (sys_con s) @ out @ [word_of_int e, word_of_int (23 - e)] \<and>
    fold screen out ([], []) = (rev (foldl edit [] xs), replicate k 0x20)"
  using std_loop_line [OF assms(1-4,6), of 0] assms(5,6) by (auto simp: std_read_def Let_def)

definition demo_con :: "unit sys" where
  "demo_con = \<lparr>sys_errno = None, sys_con = \<lparr>con_set = True, std_prev_char = - 1,
     con_in = [0x61, 0x62, 8, 0x63, 13, 10, 0x64], con_out = []\<rparr>, sys_fs = ()\<rparr>"

theorem std_read_line_witness: "\<exists>s'. std_read 0 4 demo_con = (3, [0x61, 0x63, 10], s') \<and> con_in (sys_con s') = [0x64]"
proof -
  have "\<forall>k\<le>length [0x61, 0x62, 8, 0x63 :: int]. length (foldl edit [] (take k [0x61, 0x62, 8, 0x63])) < 4"
    by (simp add: edit_def isprint_def le_Suc_eq all_conj_distrib)
  then show ?thesis
    using std_read_line [of "[0x61, 0x62, 8, 0x63]" 4 demo_con 13 10 "[0x64]"]
    by (auto simp: demo_con_def typed_def edit_def isprint_def)
qed

text \<open>The output with each line feed preceded by a carriage return.\<close>

lemma std_write_out:
  assumes "con_set (sys_con s)" "fd \<in> {1, 2}"
  shows "std_write fd data s =
    (int (length data), s\<lparr>sys_con := std_send_char (concat (map crlf data)) (sys_con s)\<rparr>)"
proof -
  have "fold (\<lambda>b. std_send_char (crlf b)) data c = std_send_char (concat (map crlf data)) c" for c
    by (induction data arbitrary: c) (simp_all add: std_send_char_def)
  then show ?thesis using assms by (auto simp: std_write_def)
qed

end
