(* ===== verification/Stdio.thy ===== *)
theory Stdio
  imports Table_Files Devices "HOL-Library.Monad_Syntax"
begin

unbundle bit_operations_syntax

text \<open>
  The streams of \<^verbatim>\<open>newlib/libc/src/stdio.c\<close> and \<^verbatim>\<open>findfp.c\<close> on the descriptors of Devices.  A
  stream is a slot of the table of 20 \<^verbatim>\<open>FILE\<close>s, or one of the streams on preset files of Table_Files.

  \<open>None\<close> is a call on a descriptor without a device, or an access before the beginning of a file name.
\<close>

subsection \<open>Files\<close>

record FILE =
  fl_flags :: u16
  fl_file :: int
  fl_offset :: int
  fl_enc :: bool

abbreviation (input) SRD :: u16 where "SRD \<equiv> 0x0004"
abbreviation (input) SWR :: u16 where "SWR \<equiv> 0x0008"
abbreviation (input) SRW :: u16 where "SRW \<equiv> 0x0010"
abbreviation (input) SEOF :: u16 where "SEOF \<equiv> 0x0020"
abbreviation (input) SERR :: u16 where "SERR \<equiv> 0x0040"
abbreviation (input) SOFF :: u16 where "SOFF \<equiv> 0x1000"
abbreviation (input) O_APPEND :: u16 where "O_APPEND \<equiv> 0x0400"

definition set_flag :: "u16 \<Rightarrow> FILE \<Rightarrow> FILE" where
  "set_flag m fp = fp\<lparr>fl_flags := fl_flags fp OR m\<rparr>"

definition clear_flag :: "u16 \<Rightarrow> FILE \<Rightarrow> FILE" where
  "clear_flag m fp = fp\<lparr>fl_flags := fl_flags fp AND NOT m\<rparr>"

definition has_flag :: "u16 \<Rightarrow> FILE \<Rightarrow> bool" where
  "has_flag m fp \<longleftrightarrow> fl_flags fp AND m \<noteq> 0"

primrec whence_code :: "whence \<Rightarrow> int" where
  "whence_code SEEK_SET = 0"
| "whence_code SEEK_CUR = 1"
| "whence_code SEEK_END = 2"

subsection \<open>The operations behind a stream\<close>

definition sread :: "'s dm \<Rightarrow> nat \<Rightarrow> FILE \<Rightarrow> 's sys \<Rightarrow> (int \<times> bytes \<times> FILE \<times> 's sys) option" where
  "sread dm n fp s = do {
     (ret, b, s) \<leftarrow> read_r dm (fl_file fp) n s;
     Some (ret, b, if 0 \<le> ret then fp\<lparr>fl_offset := fl_offset fp + ret\<rparr> else clear_flag SOFF fp, s)
   }"

definition swrite :: "'s dm \<Rightarrow> bytes \<Rightarrow> FILE \<Rightarrow> 's sys \<Rightarrow> (int \<times> FILE \<times> 's sys) option" where
  "swrite dm data fp s = do {
     s \<leftarrow> (if has_flag O_APPEND fp then map_option snd (lseek_r dm (fl_file fp) 0 (whence_code SEEK_END) s) else Some s);
     (ret, s) \<leftarrow> write_r dm (fl_file fp) data s;
     Some (ret, clear_flag SOFF fp, s)
   }"

definition sseek :: "'s dm \<Rightarrow> int \<Rightarrow> whence \<Rightarrow> FILE \<Rightarrow> 's sys \<Rightarrow> (int \<times> FILE \<times> 's sys) option" where
  "sseek dm off whence fp s = do {
     (ret, s) \<leftarrow> lseek_r dm (fl_file fp) off (whence_code whence) s;
     Some (ret, if ret = - 1 then clear_flag SOFF fp else (set_flag SOFF fp)\<lparr>fl_offset := ret\<rparr>, s)
   }"

definition sclose :: "'s dm \<Rightarrow> FILE \<Rightarrow> 's sys \<Rightarrow> (int \<times> 's sys) option" where
  "sclose dm fp s = close_r dm (fl_file fp) s"

subsection \<open>The functions of the library on a slot\<close>

definition fseek :: "'s dm \<Rightarrow> int \<Rightarrow> whence \<Rightarrow> FILE \<Rightarrow> 's sys \<Rightarrow> (int \<times> FILE \<times> 's sys) option" where
  "fseek dm off whence fp s = do {
     (ret, fp, s) \<leftarrow> sseek dm off whence fp s;
     Some (if ret = - 1 then (- 1, clear_flag SEOF fp, s) else (0, fp, s))
   }"

definition ftell :: "'s dm \<Rightarrow> FILE \<Rightarrow> 's sys \<Rightarrow> (int \<times> FILE \<times> 's sys) option" where
  "ftell dm fp s = (if has_flag SOFF fp then Some (fl_offset fp, fp, s) else sseek dm 0 SEEK_CUR fp s)"

text \<open>\<^verbatim>\<open>fread\<close>: the count returned and the bytes put into the buffer.\<close>

definition fread_fail :: "int \<Rightarrow> FILE \<Rightarrow> FILE" where
  "fread_fail len fp = (if len = 0 then set_flag SEOF fp else set_flag SERR fp)"

text \<open>How many bytes are delivered: less than wanted only at the end of the file.\<close>

definition enc_count :: "'s dm \<Rightarrow> int \<Rightarrow> u32 \<Rightarrow> u32 \<Rightarrow> u32 \<Rightarrow> FILE \<Rightarrow> 's sys \<Rightarrow> (u32 \<times> FILE \<times> 's sys) option" where
  "enc_count dm len read_count resid offset fp s =
    (if of_int len < read_count then do {
       (r, fp, s) \<leftarrow> fseek dm 0 SEEK_END fp s;
       (real_size, fp, s) \<leftarrow> ftell dm fp s;
       Some (if of_int real_size - offset < resid then of_int real_size - offset else resid, fp, s)
     } else Some (resid, fp, s))"

definition fread_enc :: "'s dm \<Rightarrow> storage \<Rightarrow> u32 \<Rightarrow> u32 \<Rightarrow> u32 \<Rightarrow> FILE \<Rightarrow> 's sys \<Rightarrow> (u32 \<times> bytes \<times> FILE \<times> 's sys) option" where
  "fread_enc dm st sz resid offset fp s = do {
     let act_low_boundary = offset AND 0xFFFFFE00;
     let act_up_boundary = (offset + resid + 512 - 1) AND 0xFFFFFE00;
     let read_count = act_up_boundary - act_low_boundary;
     (r, fp, s) \<leftarrow> fseek dm (sint act_low_boundary) SEEK_SET fp s;
     (len, temp, fp, s) \<leftarrow> sread dm (unat read_count) fp s;
     if len \<le> 0 then Some (0, [], fread_fail len fp, s)
     else do {
       (act_count, fp, s) \<leftarrow> enc_count dm len read_count resid offset fp s;
       (r, fp, s) \<leftarrow> fseek dm (sint (offset + act_count)) SEEK_SET fp s;
       Some (act_count div sz, region (decode_blocks st temp) (offset - act_low_boundary) act_count, fp, s)
     }
   }"

definition fread :: "'s dm \<Rightarrow> storage \<Rightarrow> u32 \<Rightarrow> u32 \<Rightarrow> FILE \<Rightarrow> 's sys \<Rightarrow> (u32 \<times> bytes \<times> FILE \<times> 's sys) option" where
  "fread dm st sz count fp s = do {
     (offset, fp, s) \<leftarrow> ftell dm fp s;
     let resid = count * sz;
     if resid = 0 then Some (0, [], fp, s)
     else if fl_enc fp then fread_enc dm st sz resid (of_int offset) fp s
     else do {
       (len, b, fp, s) \<leftarrow> sread dm (unat resid) fp s;
       Some (if len \<le> 0 then (0, [], fread_fail len fp, s) else (of_int len div sz, b, fp, s))
     }
   }"

text \<open>\<open>EOF\<close> is the largest count.\<close>

definition fwrite :: "'s dm \<Rightarrow> bytes \<Rightarrow> u32 \<Rightarrow> FILE \<Rightarrow> 's sys \<Rightarrow> (u32 \<times> FILE \<times> 's sys) option" where
  "fwrite dm data sz fp s =
    (if \<not> has_flag (SWR OR SRW) fp then Some (- 1, fp, s\<lparr>sys_errno := Some E_BADF\<rparr>)
     else do {
       (w, fp, s) \<leftarrow> swrite dm data fp s;
       Some (if w \<le> 0 then (- 1, set_flag SERR fp, s) else (of_int w div sz, fp, s))
     })"

definition fputs :: "'s dm \<Rightarrow> bytes \<Rightarrow> FILE \<Rightarrow> 's sys \<Rightarrow> (int \<times> FILE \<times> 's sys) option" where
  "fputs dm str fp s = swrite dm (cstr str) fp s"

text \<open>\<^verbatim>\<open>printf\<close> and \<^verbatim>\<open>fprintf\<close>, given the formatted text; \<open>None\<close> is the failed assertion that it fits into
  the buffer of 2048 bytes.\<close>

definition vfprintf :: "'s dm \<Rightarrow> bytes \<Rightarrow> FILE \<Rightarrow> 's sys \<Rightarrow> (int \<times> FILE \<times> 's sys) option" where
  "vfprintf dm str fp s = (if length str < 2048 then swrite dm str fp s else None)"

definition putc :: "'s dm \<Rightarrow> u8 \<Rightarrow> FILE \<Rightarrow> 's sys \<Rightarrow> (int \<times> FILE \<times> 's sys) option" where
  "putc dm c fp s = swrite dm [c] fp s"

definition getc :: "'s dm \<Rightarrow> storage \<Rightarrow> FILE \<Rightarrow> 's sys \<Rightarrow> (int \<times> FILE \<times> 's sys) option" where
  "getc dm st fp s = do {
     (n, b, fp, s) \<leftarrow> fread dm st 1 1 fp s;
     Some (if n \<noteq> 1 then - 1 else sint (hd (b @ [0])), fp, s)
   }"

definition ungetc :: "'s dm \<Rightarrow> FILE \<Rightarrow> 's sys \<Rightarrow> (FILE \<times> 's sys) option" where
  "ungetc dm fp s = map_option snd (fseek dm (- 1) SEEK_CUR fp s)"

definition feof :: "FILE \<Rightarrow> bool" where
  "feof fp \<longleftrightarrow> \<not> fl_enc fp \<and> has_flag SEOF fp"

definition ferror :: "FILE \<Rightarrow> bool" where
  "ferror fp \<longleftrightarrow> has_flag SERR fp"

definition clearerr :: "FILE \<Rightarrow> FILE" where
  "clearerr = clear_flag (SERR OR SEOF)"

subsection \<open>Opening and closing\<close>

definition free_file :: FILE where
  "free_file = \<lparr>fl_flags = 0, fl_file = 0, fl_offset = 0, fl_enc = False\<rparr>"

text \<open>The three standard streams and the 17 others.\<close>

definition sF_start :: "FILE list" where
  "sF_start = [free_file\<lparr>fl_flags := SRD\<rparr>, free_file\<lparr>fl_flags := SWR, fl_file := 1\<rparr>,
     free_file\<lparr>fl_flags := SWR OR 0x0002, fl_file := 2\<rparr>] @ replicate 17 free_file"

definition sfp :: "FILE list \<Rightarrow> nat option" where
  "sfp fs = (let i = length (takeWhile (\<lambda>fp. fl_flags fp \<noteq> 0) fs) in if i < length fs then Some i else None)"

text \<open>The flags of the stream and those of the open call.\<close>

definition sflags :: "bytes \<Rightarrow> (u16 \<times> u32) option" where
  "sflags mode =
    (let both = (take 1 (drop 1 mode) = lit ''+'' \<or> take 2 (drop 1 mode) = lit ''b+'');
         m = (\<lambda>ret acc ex. Some (if both then (SRW, 2 OR ex) else (ret, acc OR ex)))
     in if chr mode = of_char (CHR ''r'') then m SRD 0 0
        else if chr mode = of_char (CHR ''w'') then m SWR 1 (0x40 OR 0x200)
        else if chr mode = of_char (CHR ''a'') then m SWR 1 (0x40 OR 0x400)
        else None)"

datatype stream = Table ext_file | Slot nat

record 's stdio =
  sF :: "FILE list"
  sys :: "'s sys"

text \<open>The part of \<^verbatim>\<open>fopen\<close> behind the look at the update table; \<open>other\<close> is the stream on the flash table,
  if there is one.\<close>

definition fopen_slot :: "'s dm \<Rightarrow> stream option \<Rightarrow> bytes \<Rightarrow> bytes \<Rightarrow> 's stdio \<Rightarrow> (stream option \<times> 's stdio) option" where
  "fopen_slot dm other file mode io =
    (case sflags mode of
       None \<Rightarrow> Some (None, io\<lparr>sys := (sys io)\<lparr>sys_errno := Some E_INVAL\<rparr>\<rparr>)
     | Some (flags, oflags) \<Rightarrow>
        (case sfp (sF io) of
           None \<Rightarrow> Some (None, io)
         | Some i \<Rightarrow>
            (let (f, s) = open_r dm file oflags (sys io); fp = sF io ! i
             in if f < 0 then Some (other, io\<lparr>sF := (sF io)[i := fp\<lparr>fl_flags := 0\<rparr>], sys := s\<rparr>)
                else map_option (\<lambda>enc. (Some (Slot i),
                      io\<lparr>sF := (sF io)[i := fp\<lparr>fl_flags := flags, fl_file := f, fl_enc := enc\<rparr>], sys := s\<rparr>))
                    (name_at file (int (length file) - 5) (lit ''.luae'')))))"

text \<open>\<open>ok\<close>: the allocation of a stream for a table entry succeeds.\<close>

definition fopen :: "bool \<Rightarrow> 's dm \<Rightarrow> db_state \<Rightarrow> bytes \<Rightarrow> bytes \<Rightarrow> 's stdio \<Rightarrow> (stream option \<times> 's stdio) option" where
  "fopen ok dm db file mode io =
    (case fopen_ext ok file db of
       None \<Rightarrow> None
     | Some None \<Rightarrow> fopen_slot dm None file mode io
     | Some (Some x) \<Rightarrow>
        (if x_section x = LUA_SCRIPT_TABLE_UPDATE_SECTION then Some (Some (Table x), io)
         else fopen_slot dm (Some (Table x)) file mode io))"

definition fclose :: "'s dm \<Rightarrow> stream \<Rightarrow> 's stdio \<Rightarrow> (int \<times> 's stdio) option" where
  "fclose dm st io =
    (case st of
       Table x \<Rightarrow> Some (0, io)
     | Slot i \<Rightarrow>
        (if fl_flags (sF io ! i) = 0 then Some (- 1, io\<lparr>sys := (sys io)\<lparr>sys_errno := Some E_BADF\<rparr>\<rparr>)
         else do {
           (r, s) \<leftarrow> sclose dm (sF io ! i) (sys io);
           Some (if r \<noteq> 0 then - 1 else 0, io\<lparr>sF := (sF io)[i := (sF io ! i)\<lparr>fl_flags := 0\<rparr>], sys := s\<rparr>)
         }))"

text \<open>\<^verbatim>\<open>remove\<close>, with the deletion of the operating system: of its errors only -1 is passed on.\<close>

definition lualibc_remove :: "(u16 list \<Rightarrow> 's \<Rightarrow> int \<times> 's) \<Rightarrow> bytes \<Rightarrow> 's sys \<Rightarrow> int \<times> 's sys" where
  "lualibc_remove delete_file path s =
    (let (ret, s) = on_fs (delete_file (strtows path)) s in (if ret = - 1 then - 1 else 0, s))"

subsection \<open>An open file of the file system\<close>

text \<open>What the file functions of the operating system do with the descriptor \<open>fd\<close>, given the contents of its file
  and the position: reads deliver what is there, seeks stay inside the file, and a write answers with an error, which
  leaves the file alone, or with the number of bytes it has taken, which overwrite and extend the file.\<close>

definition driver_ok :: "'s fs_ops \<Rightarrow> int \<Rightarrow> ('s \<Rightarrow> bytes) \<Rightarrow> ('s \<Rightarrow> nat) \<Rightarrow> bool" where
  "driver_ok os fd content pos \<longleftrightarrow> 0 \<le> fd \<and> fd < 2048 \<and>
    (\<forall>n s. \<exists>s'. read_file os fd n s = (int (length (take n (drop (pos s) (content s)))), take n (drop (pos s) (content s)), s') \<and>
       content s' = content s \<and> pos s' = pos s + length (take n (drop (pos s) (content s)))) \<and>
    (\<forall>off w s. \<exists>r s'. seek_file os fd off (whence_code w) s = (r, s') \<and> content s' = content s \<and>
       (let t = (case w of SEEK_SET \<Rightarrow> 0 | SEEK_CUR \<Rightarrow> int (pos s) | SEEK_END \<Rightarrow> int (length (content s))) + off
        in if 0 \<le> t \<and> t \<le> int (length (content s)) then r = t \<and> pos s' = nat t else r < 0 \<and> pos s' = pos s)) \<and>
    (\<forall>d s. \<exists>r s'. write_file_os os fd d s = (r, s') \<and> r \<le> int (length d) \<and>
       (if r \<le> 0 then content s' = content s \<and> pos s' = pos s
        else content s' = take (pos s) (content s) @ take (nat r) d @ drop (pos s + nat r) (content s) \<and> pos s' = pos s + nat r))"

text \<open>A stream on it, with contents \<open>c\<close> at position \<open>p\<close>: a known offset is the right one.\<close>

definition file_at ::
  "int \<Rightarrow> ('s \<Rightarrow> bytes) \<Rightarrow> ('s \<Rightarrow> nat) \<Rightarrow> bool \<Rightarrow> bool \<Rightarrow> nat \<Rightarrow> bytes \<Rightarrow> FILE \<Rightarrow> 's sys \<Rightarrow> bool" where
  "file_at fd content pos enc wr p c fp s \<longleftrightarrow>
    fl_file fp = DM_MAKE_DESC 1 fd \<and> (has_flag SOFF fp \<longrightarrow> fl_offset fp = int p) \<and> fl_enc fp = enc \<and>
    has_flag (SWR OR SRW) fp = wr \<and> \<not> has_flag O_APPEND fp \<and>
    pos (sys_fs s) = p \<and> content (sys_fs s) = c \<and> p \<le> length c \<and> length c < 2 ^ 31"

lemma has_flag_upd:
  "m AND x = 0 \<Longrightarrow> has_flag m (set_flag x fp) = has_flag m fp" "m AND x = 0 \<Longrightarrow> has_flag m (clear_flag x fp) = has_flag m fp"
  "\<not> has_flag x (clear_flag x fp)"
proof -
  have "(w OR x) AND m = (w AND m) OR (m AND x)" for w by (rule bit_word_eqI) (auto simp: bit_simps)
  then show "m AND x = 0 \<Longrightarrow> has_flag m (set_flag x fp) = has_flag m fp" by (simp add: has_flag_def set_flag_def)
  have "(w AND NOT x) AND m = (w AND m) AND NOT (m AND x)" for w by (rule bit_word_eqI) (auto simp: bit_simps)
  then show "m AND x = 0 \<Longrightarrow> has_flag m (clear_flag x fp) = has_flag m fp" by (simp add: has_flag_def clear_flag_def)
  have "(w AND NOT x) AND x = 0" for w by (rule bit_word_eqI) (auto simp: bit_simps)
  then show "\<not> has_flag x (clear_flag x fp)" by (simp add: has_flag_def clear_flag_def)
qed

lemma flag_upd_simps [simp]:
  "fl_file (set_flag m fp) = fl_file fp" "fl_offset (set_flag m fp) = fl_offset fp" "fl_enc (set_flag m fp) = fl_enc fp"
  "fl_file (clear_flag m fp) = fl_file fp" "fl_offset (clear_flag m fp) = fl_offset fp" "fl_enc (clear_flag m fp) = fl_enc fp"
  "has_flag m (fp\<lparr>fl_offset := x\<rparr>) = has_flag m fp"
  by (simp_all add: set_flag_def clear_flag_def has_flag_def)

lemma boot_device_1: "dm_get_device_at (boot_dm os) 1 = Some (platform_fs_init os)"
proof -
  have "dm_list (boot_dm os) ! 1 = take (dm_num_devs (boot_dm os)) (dm_list (boot_dm os)) ! 1"
    by (simp add: boot_dm_list(2))
  then show ?thesis unfolding boot_dm_list(1) by (simp add: dm_get_device_at_def boot_dm_list(2))
qed

lemma fs_calls:
  assumes "0 \<le> fd" "fd < 2048"
  shows "read_r (boot_dm os) (DM_MAKE_DESC 1 fd) n s = Some (platformfs_read_r os fd n s)"
    "lseek_r (boot_dm os) (DM_MAKE_DESC 1 fd) off w s = Some (platformfs_lseek_r os fd off w s)"
    "write_r (boot_dm os) (DM_MAKE_DESC 1 fd) d s = Some (platformfs_write_r os fd d s)"
    "close_r (boot_dm os) (DM_MAKE_DESC 1 fd) s = Some (platformfs_close_r os fd s)"
  using desc_parts [OF assms, of 1] boot_device_1 [of os]
  by (simp_all add: read_r_def lseek_r_def write_r_def close_r_def platform_fs_init_def)

lemma sread_at:
  assumes "driver_ok os fd content pos" "file_at fd content pos enc wr p c fp s" "b = take n (drop p c)"
  shows "\<exists>fp' s'. sread (boot_dm os) n fp s = Some (int (length b), b, fp', s') \<and>
    file_at fd content pos enc wr (p + length b) c fp' s'"
proof -
  let ?t = "sys_fs s"
  have fd: "0 \<le> fd" "fd < 2048" and at: "fl_file fp = DM_MAKE_DESC 1 fd" "pos ?t = p" "content ?t = c"
    using assms(1,2) by (auto simp: driver_ok_def file_at_def)
  obtain t' where t': "read_file os fd n ?t = (int (length b), b, t')" "content t' = c" "pos t' = p + length b"
    using assms(1) at(2,3) unfolding driver_ok_def assms(3) by metis
  have "p + length b \<le> length c" using assms(2) by (auto simp: assms(3) file_at_def)
  then show ?thesis
    using assms(2) t' by (simp add: sread_def at(1) fs_calls [OF fd] platformfs_read_r_def file_at_def)
qed

definition seek_target :: "bytes \<Rightarrow> nat \<Rightarrow> int \<Rightarrow> whence \<Rightarrow> int" where
  "seek_target c p off w = (case w of SEEK_SET \<Rightarrow> 0 | SEEK_CUR \<Rightarrow> int p | SEEK_END \<Rightarrow> int (length c)) + off"

lemma sseek_at:
  assumes "driver_ok os fd content pos" "file_at fd content pos enc wr p c fp s" "t = seek_target c p off w"
  shows "\<exists>fp' s'. sseek (boot_dm os) off w fp s = Some (if 0 \<le> t \<and> t \<le> int (length c) then t else - 1, fp', s') \<and>
    file_at fd content pos enc wr (if 0 \<le> t \<and> t \<le> int (length c) then nat t else p) c fp' s'"
proof -
  let ?s = "sys_fs s" and ?in = "0 \<le> t \<and> t \<le> int (length c)"
  have fd: "0 \<le> fd" "fd < 2048" and at: "fl_file fp = DM_MAKE_DESC 1 fd" "pos ?s = p" "content ?s = c"
    using assms(1,2) by (auto simp: driver_ok_def file_at_def)
  obtain r s' where s': "seek_file os fd off (whence_code w) ?s = (r, s')" "content s' = c"
    "if ?in then r = t \<and> pos s' = nat t else r < 0 \<and> pos s' = p"
    using assms(1) at(2,3) unfolding driver_ok_def assms(3) seek_target_def Let_def by metis
  then show ?thesis
    using assms(2) has_flag_upd(3) [of SOFF fp]
    by (auto simp: sseek_def at(1) fs_calls [OF fd] platformfs_lseek_r_def on_fs_def file_at_def has_flag_upd split: if_splits)
qed

lemma fseek_at:
  assumes "driver_ok os fd content pos" "file_at fd content pos enc wr p c fp s" "t = seek_target c p off w"
  shows "\<exists>fp' s'. fseek (boot_dm os) off w fp s = Some (if 0 \<le> t \<and> t \<le> int (length c) then 0 else - 1, fp', s') \<and>
    file_at fd content pos enc wr (if 0 \<le> t \<and> t \<le> int (length c) then nat t else p) c fp' s'"
proof -
  obtain fp' s' where *: "sseek (boot_dm os) off w fp s = Some (if 0 \<le> t \<and> t \<le> int (length c) then t else - 1, fp', s')"
    "file_at fd content pos enc wr (if 0 \<le> t \<and> t \<le> int (length c) then nat t else p) c fp' s'"
    using sseek_at [OF assms] by blast
  moreover have "file_at fd content pos enc wr p' c (clear_flag SEOF fp') s'"
    if "file_at fd content pos enc wr p' c fp' s'" for p'
    using that by (simp add: file_at_def has_flag_upd)
  ultimately show ?thesis by (auto simp: fseek_def)
qed

lemma fseek_set_at:
  assumes "driver_ok os fd content pos" "file_at fd content pos enc wr p c fp s" "q \<le> length c"
  shows "\<exists>fp' s'. fseek (boot_dm os) (int q) SEEK_SET fp s = Some (0, fp', s') \<and> file_at fd content pos enc wr q c fp' s'"
  using fseek_at [OF assms(1,2) refl, of "int q" SEEK_SET] assms(3) by (simp add: seek_target_def)

lemma ftell_at:
  assumes "driver_ok os fd content pos" "file_at fd content pos enc wr p c fp s"
  shows "\<exists>fp' s'. ftell (boot_dm os) fp s = Some (int p, fp', s') \<and> file_at fd content pos enc wr p c fp' s'"
proof (cases "has_flag SOFF fp")
  case True
  then show ?thesis using assms(2) by (simp add: ftell_def file_at_def)
next
  case False
  moreover have "seek_target c p 0 SEEK_CUR = int p" by (simp add: seek_target_def)
  moreover have "p \<le> length c" using assms(2) by (simp add: file_at_def)
  ultimately show ?thesis using sseek_at [OF assms refl, of 0 SEEK_CUR] by (simp add: ftell_def)
qed

text \<open>The number of bytes the driver takes of a write.\<close>

definition taken :: "'s fs_ops \<Rightarrow> int \<Rightarrow> bytes \<Rightarrow> 's sys \<Rightarrow> nat" where
  "taken os fd d s = nat (fst (write_file_os os fd d (sys_fs s)))"

lemma swrite_at:
  assumes "driver_ok os fd content pos" "file_at fd content pos enc wr p c fp s" "length c + length d < 2 ^ 31" "k = taken os fd d s"
  shows "k \<le> length d \<and> (\<exists>fp' s'. swrite (boot_dm os) d fp s = Some (int k, fp', s') \<and>
    file_at fd content pos enc wr (p + k) (take p c @ take k d @ drop (p + k) c) fp' s')"
proof -
  let ?t = "sys_fs s"
  have fd: "0 \<le> fd" "fd < 2048" and at: "fl_file fp = DM_MAKE_DESC 1 fd" "pos ?t = p" "content ?t = c" "\<not> has_flag O_APPEND fp"
    using assms(1,2) by (auto simp: driver_ok_def file_at_def)
  obtain r t' where t': "write_file_os os fd d ?t = (r, t')" "r \<le> int (length d)"
    "if r \<le> 0 then content t' = c \<and> pos t' = p
     else content t' = take p c @ take (nat r) d @ drop (p + nat r) c \<and> pos t' = p + nat r"
    using assms(1) at(2,3) unfolding driver_ok_def by metis
  have k: "k = nat r" "k \<le> length d" using t'(1,2) by (simp_all add: assms(4) taken_def)
  have c: "content t' = take p c @ take k d @ drop (p + k) c" "pos t' = p + k" using t'(3) k(1) by (simp_all split: if_splits)
  have "(if r < 0 then 0 else r) = int k" using k(1) by simp
  then show ?thesis
    using assms(2,3) has_flag_upd(3) [of SOFF fp] k(2) c t'(1)
    by (auto simp: swrite_def at(1,4) fs_calls [OF fd] platformfs_write_r_def on_fs_def file_at_def has_flag_upd)
qed

subsection \<open>Reading\<close>

lemma fread_fail_at:
  "file_at fd content pos enc wr p c fp s \<Longrightarrow> file_at fd content pos enc wr p c (fread_fail len fp) s"
  by (simp add: file_at_def fread_fail_def has_flag_upd)

text \<open>The contents as the reader sees them.\<close>

definition clear_text :: "storage \<Rightarrow> bool \<Rightarrow> bytes \<Rightarrow> bytes" where
  "clear_text st enc c = (if enc then decode_blocks st c else c)"

lemma decode_window:
  assumes "decodes_words st" "512 * k \<le> length c"
  shows "decode_blocks st (take (512 * m) (drop (512 * k) c)) = take (512 * m) (drop (512 * k) (decode_blocks st c))"
proof -
  let ?d = "drop (512 * k) c"
  have d: "decode_blocks st ?d = drop (512 * k) (decode_blocks st c)"
    using decode_blocks_take_drop [OF assms] by simp
  show ?thesis
  proof (cases "512 * m \<le> length ?d")
    case True
    then show ?thesis using decode_blocks_take_drop [OF assms(1) True] d by simp
  next
    case False
    then show ?thesis using d length_decode_blocks [OF assms(1), of c] by simp
  qed
qed

lemma align_up_blocks:
  fixes n p k u r r' :: nat
  assumes "0 < n" "512 * k + r = p" "r < 512" "512 * u + r' = p + n + 511" "r' < 512"
  shows "p - r = 512 * k" "p + n + 511 - r' = 512 * k + 512 * (u - k)" "0 < u - k" "p + n \<le> 512 * k + 512 * (u - k)"
proof -
  have "k < u" using assms by linarith
  then show "p - r = 512 * k" "p + n + 511 - r' = 512 * k + 512 * (u - k)" "0 < u - k" "p + n \<le> 512 * k + 512 * (u - k)"
    using assms by simp_all
qed

lemma align_up:
  fixes n p :: nat
  assumes "0 < n"
  shows "\<exists>k m. p - p mod 512 = 512 * k \<and> (p + n + 511) - (p + n + 511) mod 512 = 512 * k + 512 * m \<and> 0 < m \<and> p + n \<le> 512 * k + 512 * m"
proof -
  have m: "x mod 512 < 512" for x :: nat by (rule mod_less_divisor) simp
  note * = align_up_blocks [OF assms mult_div_mod_eq m mult_div_mod_eq m]
  show ?thesis
    by (intro exI conjI) (rule *)+
qed

lemma fread_enc_at:
  assumes "driver_ok os fd content pos" "file_at fd content pos True wr p c fp s" "decodes_words st"
    and "unat resid < 2 ^ 31 - 1024" "resid \<noteq> 0" "b = take (unat resid) (drop p (decode_blocks st c))"
  shows "\<exists>fp' s'. fread_enc (boot_dm os) st sz resid (of_nat p) fp s = Some (of_nat (length b) div sz, b, fp', s') \<and>
    file_at fd content pos True wr (p + length b) c fp' s'"
proof -
  let ?n = "unat resid" and ?D = "decode_blocks st c" and ?off = "of_nat p :: u32"
  let ?act = "min (length c - p) ?n"
  have n: "0 < ?n" using assms(5) by (simp add: unat_eq_0 neq0_conv flip: unat_eq_0)
  have p: "p \<le> length c" "length c < 2 ^ 31" using assms(2) by (simp_all add: file_at_def)
  have D: "length ?D = length c" by (rule length_decode_blocks [OF assms(3)])
  have lb: "length b = ?act" by (simp add: assms(6) D)
  obtain k m where km: "p - p mod 512 = 512 * k" "(p + ?n + 511) - (p + ?n + 511) mod 512 = 512 * k + 512 * m" "0 < m"
    "p + ?n \<le> 512 * k + 512 * m" using align_up [OF n, of p] by blast
  have lowp: "512 * k \<le> p" using km(1) by (metis diff_le_self)
  have unp: "unat ?off = p" using p by (intro unat_of_nat_small) simp
  have unlow: "unat (?off AND 0xFFFFFE00) = 512 * k" by (simp only: unat_align unp km(1))
  have "?off + resid + 512 - 1 = of_nat (p + ?n + 511)" by simp
  moreover have "unat (of_nat (p + ?n + 511) :: u32) = p + ?n + 511" using p assms(4) by (intro unat_of_nat_small) simp
  ultimately have unup: "unat ((?off + resid + 512 - 1) AND 0xFFFFFE00) = 512 * k + 512 * m" by (simp only: unat_align km(2))
  have unrc: "unat (((?off + resid + 512 - 1) AND 0xFFFFFE00) - (?off AND 0xFFFFFE00)) = 512 * m"
    using unup unlow by (subst unat_sub) (simp_all add: word_le_nat_alt)
  let ?low = "?off AND 0xFFFFFE00" and ?rc = "((?off + resid + 512 - 1) AND 0xFFFFFE00) - (?off AND 0xFFFFFE00)"
  have slow: "sint ?low = int (512 * k)" using sint_low [of ?low] unlow lowp p by simp
  let ?temp = "take (512 * m) (drop (512 * k) c)"
  obtain fp1 s1 where 1: "fseek (boot_dm os) (sint ?low) SEEK_SET fp s = Some (0, fp1, s1)"
    "file_at fd content pos True wr (512 * k) c fp1 s1"
    unfolding slow using fseek_set_at [OF assms(1,2), of "512 * k"] lowp p(1) by auto
  obtain fp2 s2 where 2: "sread (boot_dm os) (unat ?rc) fp1 s1 = Some (int (length ?temp), ?temp, fp2, s2)"
    "file_at fd content pos True wr (512 * k + length ?temp) c fp2 s2"
    using sread_at [OF assms(1) 1(2) refl, of "512 * m"] unrc by auto
  show ?thesis
  proof (cases "?temp = []")
    case True
    then have "512 * k = length c" using km(3) lowp p(1) by simp
    then have "p = length c" "b = []" using lowp p(1) D by (simp_all add: assms(6))
    then show ?thesis using 1 2 True fread_fail_at [OF 2(2)] \<open>512 * k = length c\<close>
      by (auto simp: fread_enc_def Let_def)
  next
    case False
    have small: "unat (of_nat ?act :: u32) = ?act" "unat (of_nat (length ?temp) :: u32) = length ?temp"
      "unat (of_nat (length c) :: u32) = length c" "unat (of_nat (p + ?act) :: u32) = p + ?act"
      using p by (intro unat_of_nat_small; simp)+
    have act: "?act = (if length ?temp < 512 * m \<and> length c - p < ?n then length c - p else ?n)"
      using km(4) lowp p(1) by (simp add: min_def) linarith
    obtain fp3 s3 p3 where 3: "enc_count (boot_dm os) (int (length ?temp)) ?rc resid ?off fp2 s2 = Some (of_nat ?act, fp3, s3)"
      "file_at fd content pos True wr p3 c fp3 s3"
    proof (cases "length ?temp < 512 * m")
      case True
      then have less: "of_int (int (length ?temp)) < ?rc" using small(2) unrc by (simp add: word_less_nat_alt)
      obtain fp3 s3 where seek: "fseek (boot_dm os) 0 SEEK_END fp2 s2 = Some (0, fp3, s3)" and at3: "file_at fd content pos True wr (length c) c fp3 s3"
        using fseek_at [OF assms(1) 2(2) refl, of 0 SEEK_END] by (auto simp: seek_target_def)
      obtain fp4 s4 where tell: "ftell (boot_dm os) fp3 s3 = Some (int (length c), fp4, s4)" and at4: "file_at fd content pos True wr (length c) c fp4 s4"
        using ftell_at [OF assms(1) at3] by blast
      have "unat (of_nat (length c) - ?off) = length c - p"
        using small(3) unp p(1) by (subst unat_sub) (simp_all add: word_le_nat_alt)
      then have "(if of_nat (length c) - ?off < resid then of_nat (length c) - ?off else resid) = of_nat ?act"
        using act True by (auto simp: word_less_nat_alt intro: word_of_unat)
      then show ?thesis using that less seek tell at4 by (simp add: enc_count_def cong: if_cong)
    next
      case False
      then have less: "\<not> of_int (int (length ?temp)) < ?rc" using small(2) unrc by (simp add: word_less_nat_alt)
      have "of_nat ?act = resid" using act False by simp
      then show ?thesis using that less 2(2) by (simp add: enc_count_def)
    qed
    have sact: "sint (?off + of_nat ?act) = int (p + ?act)"
    proof -
      have "unat (?off + of_nat ?act) = p + ?act" using small(4) by simp
      moreover have "p + ?act < 2 ^ 31" using p by simp
      ultimately show ?thesis using sint_low [of "?off + of_nat ?act"] by simp
    qed
    obtain fp4 s4 where 4: "fseek (boot_dm os) (sint (?off + of_nat ?act)) SEEK_SET fp3 s3 = Some (0, fp4, s4)"
      "file_at fd content pos True wr (p + ?act) c fp4 s4"
    proof -
      have "p + ?act \<le> length c" using p(1) by simp
      then show ?thesis using that fseek_set_at [OF assms(1) 3(2), of "p + ?act"] unfolding sact by blast
    qed
    have sub: "unat (?off - ?low) = p - 512 * k" using unp unlow lowp by (subst unat_sub) (simp_all add: word_le_nat_alt)
    have room: "?act \<le> 512 * m - (p - 512 * k)" using km(4) lowp by linarith
    have "512 * k \<le> length c" using lowp p(1) by simp
    from decode_window [OF assms(3) this]
    have "region (decode_blocks st ?temp) (?off - ?low) (of_nat ?act) = take ?act (drop (p - 512 * k) (take (512 * m) (drop (512 * k) ?D)))"
      by (simp only: region_def small(1) sub)
    also have "\<dots> = take ?act (drop p ?D)" using room lowp by (simp add: drop_take min_absorb1)
    also have "\<dots> = b" unfolding assms(6) by (metis D length_drop take_take take_all_iff min.commute order_refl)
    finally have "region (decode_blocks st ?temp) (?off - ?low) (of_nat ?act) = b" .
    moreover have "\<not> int (length ?temp) \<le> 0" using False by simp
    ultimately show ?thesis unfolding fread_enc_def Let_def 1(1) lb
      by (simp only: Option.bind.bind_lunit prod.case 2(1) 3(1) 4(1) if_False) (use 4(2) in blast)
  qed
qed

lemma fread_at:
  assumes "driver_ok os fd content pos" "file_at fd content pos enc wr p c fp s" "enc \<longrightarrow> decodes_words st"
    and "unat (count * sz) < 2 ^ 31 - 1024" "b = take (unat (count * sz)) (drop p (clear_text st enc c))"
  shows "\<exists>fp' s'. fread (boot_dm os) st sz count fp s = Some (of_nat (length b) div sz, b, fp', s') \<and>
    file_at fd content pos enc wr (p + length b) c fp' s'"
proof -
  obtain fp1 s1 where tell: "ftell (boot_dm os) fp s = Some (int p, fp1, s1)" and at: "file_at fd content pos enc wr p c fp1 s1"
    using ftell_at [OF assms(1,2)] by blast
  have enc: "fl_enc fp1 = enc" using at by (simp add: file_at_def)
  show ?thesis
  proof (cases "count * sz = 0")
    case True
    then show ?thesis using tell at assms(5) by (simp add: fread_def)
  next
    case False
    show ?thesis
    proof (cases enc)
      case True
      then have "file_at fd content pos True wr p c fp1 s1" "b = take (unat (count * sz)) (drop p (decode_blocks st c))"
        using at assms(5) by (simp_all add: clear_text_def)
      from fread_enc_at [OF assms(1) this(1) _ assms(4) \<open>count * sz \<noteq> 0\<close> this(2), of sz]
      show ?thesis using True assms(3) tell enc \<open>count * sz \<noteq> 0\<close> by (simp add: fread_def)
    next
      case False
      then obtain fp' s' where "sread (boot_dm os) (unat (count * sz)) fp1 s1 = Some (int (length b), b, fp', s')"
        "file_at fd content pos enc wr (p + length b) c fp' s'"
        using sread_at [OF assms(1) at, of b "unat (count * sz)"] assms(5) by (auto simp: clear_text_def)
      then show ?thesis
        using tell enc False \<open>count * sz \<noteq> 0\<close> fread_fail_at by (cases b) (auto simp: fread_def)
    qed
  qed
qed

subsection \<open>Every stream on the file system is a position in its contents\<close>

datatype f_op = F_read u32 u32 | F_getc | F_ungetc | F_seek int whence | F_tell | F_write bytes

datatype f_res = R_data u32 bytes | R_int int | R_none

definition f_exec :: "'s dm \<Rightarrow> storage \<Rightarrow> f_op \<Rightarrow> FILE \<Rightarrow> 's sys \<Rightarrow> (f_res \<times> FILE \<times> 's sys) option" where
  "f_exec dm st op fp s = (case op of
     F_read sz n \<Rightarrow> map_option (\<lambda>(k, b, r). (R_data k b, r)) (fread dm st sz n fp s)
   | F_getc \<Rightarrow> map_option (\<lambda>(x, r). (R_int x, r)) (getc dm st fp s)
   | F_ungetc \<Rightarrow> map_option (Pair R_none) (ungetc dm fp s)
   | F_seek off w \<Rightarrow> map_option (\<lambda>(x, r). (R_int x, r)) (fseek dm off w fp s)
   | F_tell \<Rightarrow> map_option (\<lambda>(x, r). (R_int x, r)) (ftell dm fp s)
   | F_write d \<Rightarrow> map_option (\<lambda>(k, r). (R_data k [], r)) (fwrite dm d 1 fp s))"

fun f_run :: "'s dm \<Rightarrow> storage \<Rightarrow> f_op list \<Rightarrow> FILE \<Rightarrow> 's sys \<Rightarrow> (f_res list \<times> FILE \<times> 's sys) option" where
  "f_run dm st [] fp s = Some ([], fp, s)"
| "f_run dm st (op # ops) fp s = do {
     (r, fp, s) \<leftarrow> f_exec dm st op fp s;
     (rs, fp, s) \<leftarrow> f_run dm st ops fp s;
     Some (r # rs, fp, s)
   }"

text \<open>The same on contents \<open>c\<close> and a position \<open>p\<close>, of which a write takes \<open>k\<close> bytes: reads see the clear text,
  writes store their bytes as they are, and only on a stream for writing.\<close>

definition file_abs :: "storage \<Rightarrow> bool \<Rightarrow> bool \<Rightarrow> f_op \<Rightarrow> nat \<Rightarrow> bytes \<times> nat \<Rightarrow> f_res \<times> bytes \<times> nat" where
  "file_abs st enc wr op k = (\<lambda>(c, p). let d = clear_text st enc c in case op of
     F_read sz n \<Rightarrow> (let b = take (unat (n * sz)) (drop p d) in (R_data (of_nat (length b) div sz) b, c, p + length b))
   | F_getc \<Rightarrow> if p < length d then (R_int (sint (d ! p)), c, p + 1) else (R_int (- 1), c, p)
   | F_ungetc \<Rightarrow> (R_none, c, p - 1)
   | F_seek off w \<Rightarrow> (let t = seek_target c p off w
                       in if 0 \<le> t \<and> t \<le> int (length c) then (R_int 0, c, nat t) else (R_int (- 1), c, p))
   | F_tell \<Rightarrow> (R_int (int p), c, p)
   | F_write b \<Rightarrow> (if \<not> wr \<or> k = 0 then (R_data (- 1) [], c, p)
                   else (R_data (of_nat k) [], take p c @ take k b @ drop (p + k) c, p + k)))"

fun abs_run :: "storage \<Rightarrow> bool \<Rightarrow> bool \<Rightarrow> (f_op \<times> nat) list \<Rightarrow> bytes \<times> nat \<Rightarrow> f_res list" where
  "abs_run st enc wr [] f = []"
| "abs_run st enc wr ((op, k) # ops) f = (let (r, f') = file_abs st enc wr op k f in r # abs_run st enc wr ops f')"

definition op_length :: "f_op \<Rightarrow> nat" where
  "op_length op = (case op of F_write b \<Rightarrow> length b | _ \<Rightarrow> 0)"

definition written :: "f_op list \<Rightarrow> nat" where
  "written ops = sum_list (map op_length ops)"

definition op_ok :: "f_op \<Rightarrow> bool" where
  "op_ok op = (case op of F_read sz n \<Rightarrow> unat (n * sz) < 2 ^ 31 - 1024 | _ \<Rightarrow> True)"

text \<open>A driver that takes every write in full.\<close>

definition full_writes :: "'s fs_ops \<Rightarrow> int \<Rightarrow> bool" where
  "full_writes os fd \<longleftrightarrow> (\<forall>d s. fst (write_file_os os fd d s) = int (length d))"

lemma length_clear_text: "enc \<longrightarrow> decodes_words st \<Longrightarrow> length (clear_text st enc c) = length c"
  by (simp add: clear_text_def length_decode_blocks)

lemma getc_at:
  assumes "driver_ok os fd content pos" "file_at fd content pos enc wr p c fp s" "enc \<longrightarrow> decodes_words st"
    and "d = clear_text st enc c"
  shows "\<exists>fp' s'. getc (boot_dm os) st fp s = Some (if p < length d then sint (d ! p) else - 1, fp', s') \<and>
    file_at fd content pos enc wr (if p < length d then p + 1 else p) c fp' s'"
proof -
  let ?b = "take (unat (1 * 1 :: u32)) (drop p d)"
  obtain fp' s' where r: "fread (boot_dm os) st 1 1 fp s = Some (of_nat (length ?b) div 1, ?b, fp', s')"
    "file_at fd content pos enc wr (p + length ?b) c fp' s'"
    using fread_at [OF assms(1-3), of 1 1 ?b] assms(4) by auto
  have "?b = (if p < length d then [d ! p] else [])" by (simp add: take_Suc_conv_app_nth take_Suc hd_drop_conv_nth)
  then show ?thesis using r by (auto simp: getc_def split: if_splits)
qed

lemma ungetc_at:
  assumes "driver_ok os fd content pos" "file_at fd content pos enc wr p c fp s"
  shows "\<exists>fp' s'. ungetc (boot_dm os) fp s = Some (fp', s') \<and> file_at fd content pos enc wr (p - 1) c fp' s'"
proof -
  have "(if 0 \<le> seek_target c p (- 1) SEEK_CUR \<and> seek_target c p (- 1) SEEK_CUR \<le> int (length c)
      then nat (seek_target c p (- 1) SEEK_CUR) else p) = p - 1"
    using assms(2) by (auto simp: seek_target_def file_at_def)
  then show ?thesis using fseek_at [OF assms refl, of "- 1" SEEK_CUR] by (auto simp: ungetc_def)
qed

lemma fwrite_at:
  assumes "driver_ok os fd content pos" "file_at fd content pos enc True p c fp s" "length c + length d < 2 ^ 31" "k = taken os fd d s"
  shows "k \<le> length d \<and> (\<exists>fp' s'. fwrite (boot_dm os) d 1 fp s = Some (if k = 0 then - 1 else of_nat k, fp', s') \<and>
    file_at fd content pos enc True (p + k) (take p c @ take k d @ drop (p + k) c) fp' s')"
proof -
  obtain fp1 s1 where w: "swrite (boot_dm os) d fp s = Some (int k, fp1, s1)" and k: "k \<le> length d"
    and at: "file_at fd content pos enc True (p + k) (take p c @ take k d @ drop (p + k) c) fp1 s1"
    using swrite_at [OF assms] by blast
  have "has_flag (SWR OR SRW) fp" using assms(2) by (simp add: file_at_def)
  moreover have "file_at fd content pos enc True (p + k) (take p c @ take k d @ drop (p + k) c) (set_flag SERR fp1) s1"
    using at by (simp add: file_at_def has_flag_upd)
  ultimately show ?thesis using w at k by (auto simp: fwrite_def)
qed

lemma fwrite_refused:
  assumes "file_at fd content pos enc False p c fp s"
  shows "\<exists>s'. fwrite dm d 1 fp s = Some (- 1, fp, s') \<and> file_at fd content pos enc False p c fp s'"
  using assms by (auto simp: fwrite_def file_at_def)

text \<open>One operation.\<close>

lemma f_exec_at:
  assumes "driver_ok os fd content pos" "file_at fd content pos enc wr p c fp s" "enc \<longrightarrow> decodes_words st"
    and "op_ok op" "length c + op_length op < 2 ^ 31"
    and "k = (case op of F_write b \<Rightarrow> if wr then taken os fd b s else length b | _ \<Rightarrow> 0)"
  shows "k \<le> op_length op \<and>
    (\<exists>c' p' fp' s'. f_exec (boot_dm os) st op fp s = Some (fst (file_abs st enc wr op k (c, p)), fp', s') \<and>
    snd (file_abs st enc wr op k (c, p)) = (c', p') \<and>
    file_at fd content pos enc wr p' c' fp' s' \<and> length c' \<le> length c + op_length op)"
proof (cases op)
  case (F_read sz n)
  then have "unat (n * sz) < 2 ^ 31 - 1024" using assms(4) by (simp add: op_ok_def)
  from fread_at [OF assms(1-3) this refl] obtain fp' s' where
    "fread (boot_dm os) st sz n fp s = Some (of_nat (length (take (unat (n * sz)) (drop p (clear_text st enc c)))) div sz,
       take (unat (n * sz)) (drop p (clear_text st enc c)), fp', s')"
    "file_at fd content pos enc wr (p + length (take (unat (n * sz)) (drop p (clear_text st enc c)))) c fp' s'" by blast
  then show ?thesis using assms(6) by (simp add: F_read f_exec_def file_abs_def Let_def)
next
  case F_getc
  then show ?thesis using getc_at [OF assms(1-3) refl] assms(6) by (auto simp: f_exec_def file_abs_def Let_def)
next
  case F_ungetc
  then show ?thesis using ungetc_at [OF assms(1,2)] assms(6) by (auto simp: f_exec_def file_abs_def Let_def)
next
  case (F_seek off w)
  then show ?thesis using fseek_at [OF assms(1,2) refl, of off w] assms(6)
    by (auto simp: F_seek f_exec_def file_abs_def Let_def)
next
  case F_tell
  then show ?thesis using ftell_at [OF assms(1,2)] assms(6) by (auto simp: f_exec_def file_abs_def Let_def)
next
  case (F_write b)
  have len: "length c + length b < 2 ^ 31" using assms(5) by (simp add: F_write op_length_def)
  have p: "p \<le> length c" using assms(2) by (simp add: file_at_def)
  show ?thesis
  proof (cases wr)
    case True
    then have at: "file_at fd content pos enc True p c fp s" using assms(2) by simp
    have k: "k = taken os fd b s" using assms(6) F_write True by simp
    obtain fp' s' where w: "fwrite (boot_dm os) b 1 fp s = Some (if k = 0 then - 1 else of_nat k, fp', s')"
      "file_at fd content pos enc True (p + k) (take p c @ take k b @ drop (p + k) c) fp' s'" "k \<le> length b"
      using fwrite_at [OF assms(1) at len k] by blast
    then show ?thesis using True p
      by (cases "k = 0") (auto simp: F_write f_exec_def file_abs_def Let_def op_length_def)
  next
    case False
    then have "file_at fd content pos enc False p c fp s" using assms(2) by simp
    from fwrite_refused [OF this, of "boot_dm os" b] False assms(6) show ?thesis
      by (auto simp: F_write f_exec_def file_abs_def Let_def op_length_def)
  qed
qed

text \<open>C4: A stream on the file system, encrypted or not, is a position in its contents: when the operating system's file
  functions do what they should, every sequence of reads, single and pushed back characters, seeks, position queries and
  writes gives the results that the contents and the position give, where each write stores as many bytes as the
  operating system takes of it and answers with that number or with EOF for none.  Reads see the decrypted contents;
  writes store their bytes as they are.  In particular the offset kept in the stream is never stale, and the reads of an
  encrypted file, which go through whole blocks, deliver exactly the bytes asked for.\<close>

theorem file_is_stream:
  assumes "driver_ok os fd content pos" "file_at fd content pos enc wr p c fp s" "enc \<longrightarrow> decodes_words st"
    and "list_all op_ok ops" "length c + written ops < 2 ^ 31"
  shows "\<exists>ks. list_all2 (\<lambda>op k. k \<le> op_length op) ops ks \<and> (full_writes os fd \<longrightarrow> ks = map op_length ops) \<and>
    map_option fst (f_run (boot_dm os) st ops fp s) = Some (abs_run st enc wr (zip ops ks) (c, p))"
  using assms(2,4,5)
proof (induction ops arbitrary: p c fp s)
  case (Cons op ops)
  have w: "length c + op_length op < 2 ^ 31" "written (op # ops) = op_length op + written ops"
    using Cons.prems(3) by (simp_all add: written_def)
  have "op_ok op" using Cons.prems(2) by simp
  from f_exec_at [OF assms(1) Cons.prems(1) assms(3) this w(1) refl] obtain k c' p' fp' s' where step:
    "k = (case op of F_write b \<Rightarrow> if wr then taken os fd b s else length b | _ \<Rightarrow> 0)" "k \<le> op_length op"
    "f_exec (boot_dm os) st op fp s = Some (fst (file_abs st enc wr op k (c, p)), fp', s')"
    "snd (file_abs st enc wr op k (c, p)) = (c', p')"
    "file_at fd content pos enc wr p' c' fp' s'" "length c' \<le> length c + op_length op" by blast
  obtain ks where ks: "list_all2 (\<lambda>op k. k \<le> op_length op) ops ks" "full_writes os fd \<longrightarrow> ks = map op_length ops"
    "map_option fst (f_run (boot_dm os) st ops fp' s') = Some (abs_run st enc wr (zip ops ks) (c', p'))"
    using Cons.IH [OF step(5)] Cons.prems(2,3) step(6) w(2) by auto
  have "full_writes os fd \<longrightarrow> k = op_length op"
    by (auto simp: step(1) full_writes_def taken_def op_length_def split: f_op.splits)
  then show ?case using ks step(2,3,4) by (intro exI [of _ "k # ks"]) (auto simp: Let_def split: prod.splits)
qed simp

text \<open>A file system with one file in memory, of at most eight bytes.\<close>

definition mem_os :: "(bytes \<times> nat) fs_ops" where
  "mem_os =
    \<lparr>open_file = (\<lambda>path flags s. (5, s)), close_file = (\<lambda>fd s. (0, s)),
     write_file_os = (\<lambda>fd d (c, p). let k = min (length d) (8 - p)
       in (int k, take p c @ take k d @ drop (p + k) c, p + k)),
     read_file = (\<lambda>fd n (c, p). let b = take n (drop p c) in (int (length b), b, c, p + length b)),
     seek_file = (\<lambda>fd off w (c, p).
       let t = (if w = 0 then 0 else if w = 1 then int p else int (length c)) + off
       in if 0 \<le> t \<and> t \<le> int (length c) then (t, c, nat t) else (- 1, c, p))\<rparr>"

lemma mem_os_ok: "driver_ok mem_os 5 fst snd"
proof -
  have "whence_code w \<in> {0, 1, 2}" for w by (cases w) simp_all
  moreover have "\<exists>r s'. seek_file mem_os 5 off (whence_code w) s = (r, s') \<and> fst s' = fst s \<and>
      (let t = (case w of SEEK_SET \<Rightarrow> 0 | SEEK_CUR \<Rightarrow> int (snd s) | SEEK_END \<Rightarrow> int (length (fst s))) + off
       in if 0 \<le> t \<and> t \<le> int (length (fst s)) then r = t \<and> snd s' = nat t else r < 0 \<and> snd s' = snd s)" for off w s
    by (cases s; cases w) (auto simp: mem_os_def Let_def)
  ultimately show ?thesis unfolding driver_ok_def by (auto simp: mem_os_def Let_def min_def)
qed

definition mem_file :: FILE where
  "mem_file = \<lparr>fl_flags = SRW, fl_file = DM_MAKE_DESC 1 5, fl_offset = 0, fl_enc = False\<rparr>"

definition mem_sys :: "(bytes \<times> nat) sys" where
  "mem_sys = \<lparr>sys_errno = None, sys_con = \<lparr>con_set = True, std_prev_char = - 1, con_in = [], con_out = []\<rparr>, sys_fs = ([1, 2, 3, 4], 0)\<rparr>"

theorem file_is_stream_witness:
  "\<exists>ks. length ks = 5 \<and> map_option fst (f_run (boot_dm mem_os) demo_storage [F_read 1 2, F_write [9], F_seek (- 1) SEEK_END, F_getc, F_tell] mem_file mem_sys)
    = Some [R_data 2 [1, 2], R_data (if ks ! 1 = 0 then - 1 else of_nat (ks ! 1)) [], R_int 0, R_int 4, R_int 4] \<and> ks ! 1 \<le> (1::nat)"
proof -
  have at: "file_at 5 fst snd False True 0 [1, 2, 3, 4] mem_file mem_sys"
    by (simp add: file_at_def mem_file_def mem_sys_def has_flag_def)
  let ?ops = "[F_read 1 2, F_write [9], F_seek (- 1) SEEK_END, F_getc, F_tell]"
  obtain ks where ks: "list_all2 (\<lambda>op k. k \<le> op_length op) ?ops ks"
    "map_option fst (f_run (boot_dm mem_os) demo_storage ?ops mem_file mem_sys) = Some (abs_run demo_storage False True (zip ?ops ks) ([1, 2, 3, 4], 0))"
  proof -
    have "list_all op_ok ?ops" "length [1, 2, 3, 4 :: u8] + written ?ops < 2 ^ 31" by (simp_all add: op_ok_def written_def op_length_def)
    from file_is_stream [OF mem_os_ok at _ this, of demo_storage] show ?thesis using that by blast
  qed
  then obtain k0 k1 k2 k3 k4 where "ks = [k0, k1, k2, k3, k4]" "k1 \<le> 1"
    by (auto simp: list_all2_Cons1 op_length_def)
  then show ?thesis using ks(2)
    by (intro exI [of _ ks]) (auto simp: clear_text_def file_abs_def seek_target_def Let_def le_Suc_eq)
qed

subsection \<open>Lines of a file\<close>

definition file_getc :: "'s fs_ops \<Rightarrow> storage \<Rightarrow> FILE \<times> 's sys \<Rightarrow> int \<times> FILE \<times> 's sys" where
  "file_getc os st = (\<lambda>(fp, s). the (getc (boot_dm os) st fp s))"

definition file_valid :: "'s fs_ops \<Rightarrow> storage \<Rightarrow> int \<Rightarrow> ('s \<Rightarrow> bytes) \<Rightarrow> ('s \<Rightarrow> nat) \<Rightarrow> FILE \<times> 's sys \<Rightarrow> bool" where
  "file_valid os st fd content pos = (\<lambda>(fp, s). driver_ok os fd content pos \<and> (fl_enc fp \<longrightarrow> decodes_words st) \<and>
    file_at fd content pos (fl_enc fp) (has_flag (SWR OR SRW) fp) (pos (sys_fs s)) (content (sys_fs s)) fp s)"

definition file_unread :: "storage \<Rightarrow> ('s \<Rightarrow> bytes) \<Rightarrow> ('s \<Rightarrow> nat) \<Rightarrow> FILE \<times> 's sys \<Rightarrow> bytes" where
  "file_unread st content pos = (\<lambda>(fp, s). drop (pos (sys_fs s)) (clear_text st (fl_enc fp) (content (sys_fs s))))"

interpretation file_chars: char_source "file_getc os st" "file_unread st content pos" "file_valid os st fd content pos"
  for os st fd content pos
proof
  fix t assume valid: "file_valid os st fd content pos t"
  obtain fp s where t: "t = (fp, s)" by (cases t)
  let ?p = "pos (sys_fs s)" and ?c = "content (sys_fs s)"
  let ?d = "clear_text st (fl_enc fp) ?c"
  have at: "driver_ok os fd content pos" "fl_enc fp \<longrightarrow> decodes_words st"
    "file_at fd content pos (fl_enc fp) (has_flag (SWR OR SRW) fp) ?p ?c fp s"
    using valid by (simp_all add: t file_valid_def)
  from getc_at [OF at(1,3,2) refl] obtain fp' s' where g:
    "getc (boot_dm os) st fp s = Some (if ?p < length ?d then sint (?d ! ?p) else - 1, fp', s')"
    "file_at fd content pos (fl_enc fp) (has_flag (SWR OR SRW) fp) (if ?p < length ?d then ?p + 1 else ?p) ?c fp' s'" by blast
  then have valid': "file_valid os st fd content pos (fp', s')"
    and unread': "file_unread st content pos (fp', s') = drop (if ?p < length ?d then ?p + 1 else ?p) ?d"
    using at(1,2) by (simp_all add: file_valid_def file_unread_def file_at_def split: if_splits)
  have call: "file_getc os st t = (if ?p < length ?d then sint (?d ! ?p) else - 1, fp', s')" by (simp add: file_getc_def t g(1))
  {
    assume "file_unread st content pos t = []"
    then have "\<not> ?p < length ?d" by (simp add: file_unread_def t)
    then show "\<exists>t'. file_getc os st t = (- 1, t') \<and> file_valid os st fd content pos t' \<and> file_unread st content pos t' = []"
      using call valid' unread' by (intro exI [of _ "(fp', s')"]) simp
  next
    fix b bs assume *: "file_unread st content pos t = b # bs"
    then have "drop ?p ?d = b # bs" by (simp add: file_unread_def t)
    moreover from this have "?p < length ?d" by (metis drop_all leI list.distinct(1))
    ultimately have "?p < length ?d" "?d ! ?p = b" "drop (?p + 1) ?d = bs"
      by (simp_all add: Cons_nth_drop_Suc [symmetric])
    then show "\<exists>t'. file_getc os st t = (sint b, t') \<and> file_valid os st fd content pos t' \<and> file_unread st content pos t' = bs"
      using call valid' unread' by (intro exI [of _ "(fp', s')"]) simp
  }
qed

text \<open>\<^verbatim>\<open>fgets\<close> on a file of the file system, encrypted or not, behaves as on a preset one.\<close>

lemma file_fgets:
  assumes "file_valid os st fd content pos t" "255 \<notin> set (file_unread st content pos t)" "1 < n" "file_unread st content pos t \<noteq> []"
  shows "\<exists>t'. fgets (file_getc os st) n t = (Some (take (nat (n - 1)) (line_of (file_unread st content pos t))), t') \<and>
    file_unread st content pos t' =
      drop (min (nat n) (length (line_of (file_unread st content pos t)))) (file_unread st content pos t)"
  using file_chars.fgets_line [OF assms] by blast

subsection \<open>Slots and flags\<close>

text \<open>A stream is given a slot that was free and nothing else of the table changes; without a stream in a slot the set of
  slots in use does not change.\<close>

lemma sfp_free: "sfp fs = Some i \<Longrightarrow> i < length fs \<and> fl_flags (fs ! i) = 0"
  by (auto simp: sfp_def Let_def split: if_splits) (metis (mono_tags, lifting) nth_length_takeWhile)

lemma sflags_nonzero: "sflags mode = Some (flags, oflags) \<Longrightarrow> flags \<noteq> 0"
  by (auto simp: sflags_def Let_def split: if_splits)

lemma fopen_slot_fresh:
  assumes "fopen_slot dm other file mode io = Some (Some (Slot i), io')" "other \<noteq> Some (Slot i)"
  shows "i < length (sF io) \<and> fl_flags (sF io ! i) = 0 \<and> fl_flags (sF io' ! i) \<noteq> 0 \<and>
    (\<forall>j. j \<noteq> i \<longrightarrow> sF io' ! j = sF io ! j) \<and> length (sF io') = length (sF io)"
  using assms sfp_free sflags_nonzero
  by (fastforce simp: fopen_slot_def Let_def split: option.splits prod.splits if_splits)

lemma fopen_slot_failed:
  assumes "fopen_slot dm other file mode io = Some (r, io')" "\<forall>i. r \<noteq> Some (Slot i)"
  shows "map fl_flags (sF io') = map fl_flags (sF io)"
proof -
  have "map fl_flags (fs[i := (fs ! i)\<lparr>fl_flags := 0\<rparr>]) = map fl_flags fs" if "sfp fs = Some i" for fs i
    using sfp_free [OF that] by (simp add: map_update) (metis list_update_id nth_map)
  then show ?thesis using assms
    by (auto simp: fopen_slot_def Let_def split: option.splits prod.splits if_splits)
qed

text \<open>When all slots are in use a preset file of the flash cannot be opened either, although it needs none.\<close>

lemma no_slot_hides_flash:
  assumes "fopen_ext True file db = Some (Some x)" "x_section x = LUA_SCRIPT_TABLE_FLASH_SECTION" "sflags mode \<noteq> None" "sfp (sF io) = None"
  shows "fopen True dm db file mode io = Some (None, io)"
  using assms by (auto simp: fopen_def fopen_slot_def)

text \<open>\<^verbatim>\<open>fseek\<close> leaves the end-of-file flag when it succeeds and clears it when it fails; for an encrypted file
  \<^verbatim>\<open>feof\<close> is never true.\<close>

lemma fseek_eof:
  assumes "driver_ok os fd content pos" "file_at fd content pos enc wr p c fp s" "t = seek_target c p off w"
    and "fseek (boot_dm os) off w fp s = Some (r, fp', s')"
  shows "has_flag SEOF fp' \<longleftrightarrow> has_flag SEOF fp \<and> 0 \<le> t \<and> t \<le> int (length c)"
proof -
  obtain fp1 s1 where k: "sseek (boot_dm os) off w fp s = Some (if 0 \<le> t \<and> t \<le> int (length c) then t else - 1, fp1, s1)"
    using sseek_at [OF assms(1-3)] by blast
  have "has_flag SEOF fp1 = has_flag SEOF fp"
  proof -
    have "fp1 \<in> {clear_flag SOFF fp, (set_flag SOFF fp)\<lparr>fl_offset := if 0 \<le> t \<and> t \<le> int (length c) then t else - 1\<rparr>}"
      using k by (auto simp: sseek_def split: option.splits Option.bind_splits prod.splits if_splits)
    then show ?thesis by (auto simp: has_flag_upd)
  qed
  then show ?thesis using k assms(4) has_flag_upd(3) [of SEOF fp1] by (auto simp: fseek_def split: if_splits)
qed

lemma feof_encrypted: "fl_enc fp \<Longrightarrow> \<not> feof fp"
  by (simp add: feof_def)

end
