(* ===== verification/Bits.thy ===== *)
theory Bits
  imports Prelude
begin

unbundle bit_operations_syntax

text \<open>
  The modules \<^verbatim>\<open>bit\<close> (\<^verbatim>\<open>modules/src/bit.c\<close>) and \<^verbatim>\<open>bitarray\<close>
  (\<^verbatim>\<open>modules/src/bitarray.c\<close>).

  A number of Lua is a 32-bit word here (\<^verbatim>\<open>LUA_NUMBER_INTEGRAL\<close>).
\<close>

subsection \<open>Operations on numbers\<close>

text \<open>The arguments of a call: \<open>None\<close> for one that is no number.  A result is an argument error, undefined (a shift by
  32 or more), a number or a truth value.\<close>

datatype lua_res = Arg_error | Undefined | Num u32 | Flag bool

definition checkinteger :: "u32 option list \<Rightarrow> nat \<Rightarrow> u32 option" where
  "checkinteger args n = (if n \<le> length args then args ! (n - 1) else None)"

definition num1 :: "(u32 \<Rightarrow> lua_res) \<Rightarrow> u32 option list \<Rightarrow> lua_res" where
  "num1 f args = (case checkinteger args 1 of None \<Rightarrow> Arg_error | Some a \<Rightarrow> f a)"

definition num2 :: "(u32 \<Rightarrow> u32 \<Rightarrow> lua_res) \<Rightarrow> u32 option list \<Rightarrow> lua_res" where
  "num2 f args = (case (checkinteger args 1, checkinteger args 2) of (Some a, Some b) \<Rightarrow> f a b | _ \<Rightarrow> Arg_error)"

definition bit_bnot :: "u32 option list \<Rightarrow> lua_res" where
  "bit_bnot = num1 (\<lambda>a. Num (NOT a))"

text \<open>The loop over the arguments from the second on.\<close>

primrec variadic :: "(u32 \<Rightarrow> u32 \<Rightarrow> lua_res) \<Rightarrow> u32 option list \<Rightarrow> u32 \<Rightarrow> lua_res" where
  "variadic f [] w = Num w"
| "variadic f (a # args) w =
    (case a of None \<Rightarrow> Arg_error | Some x \<Rightarrow> (case f w x of Num w' \<Rightarrow> variadic f args w' | r \<Rightarrow> r))"

definition VARIADIC :: "(u32 \<Rightarrow> u32 \<Rightarrow> lua_res) \<Rightarrow> u32 option list \<Rightarrow> lua_res" where
  "VARIADIC f args = num1 (variadic f (tl args)) args"

definition bit_band :: "u32 option list \<Rightarrow> lua_res" where "bit_band = VARIADIC (\<lambda>w x. Num (w AND x))"
definition bit_bor :: "u32 option list \<Rightarrow> lua_res" where "bit_bor = VARIADIC (\<lambda>w x. Num (w OR x))"
definition bit_bxor :: "u32 option list \<Rightarrow> lua_res" where "bit_bxor = VARIADIC (\<lambda>w x. Num (w XOR x))"

definition shift_res :: "(u32 \<Rightarrow> nat \<Rightarrow> u32) \<Rightarrow> u32 \<Rightarrow> u32 \<Rightarrow> lua_res" where
  "shift_res f a n = (if 32 \<le> n then Undefined else Num (f a (unat n)))"

definition bit_lshift :: "u32 option list \<Rightarrow> lua_res" where "bit_lshift = num2 (shift_res (\<lambda>a n. push_bit n a))"
definition bit_rshift :: "u32 option list \<Rightarrow> lua_res" where "bit_rshift = num2 (shift_res (\<lambda>a n. drop_bit n a))"
definition bit_arshift :: "u32 option list \<Rightarrow> lua_res" where "bit_arshift = num2 (shift_res (\<lambda>a n. signed_drop_bit n a))"

definition bit_bit :: "u32 option list \<Rightarrow> lua_res" where "bit_bit = num1 (shift_res (\<lambda>a n. push_bit n a) 1)"

definition bit_isset :: "u32 option list \<Rightarrow> lua_res" where
  "bit_isset = num2 (\<lambda>val pos. if 32 \<le> pos then Undefined else Flag (val AND push_bit (unat pos) 1 \<noteq> 0))"

definition bit_isclear :: "u32 option list \<Rightarrow> lua_res" where
  "bit_isclear = num2 (\<lambda>val pos. if 32 \<le> pos then Undefined else Flag (val AND push_bit (unat pos) 1 = 0))"

definition bit_set :: "u32 option list \<Rightarrow> lua_res" where
  "bit_set = VARIADIC (shift_res (\<lambda>val n. val OR push_bit n 1))"

definition bit_clear :: "u32 option list \<Rightarrow> lua_res" where
  "bit_clear = VARIADIC (shift_res (\<lambda>val n. val AND NOT (push_bit n 1)))"

subsection \<open>Arrays of small elements\<close>

record bitarray =
  capacity :: u32
  elsize :: u8
  ba_values :: bytes

definition ROUND_SIZE :: "u32 \<Rightarrow> u32" where
  "ROUND_SIZE s = drop_bit 3 s + (if s AND 7 \<noteq> 0 then 1 else 0)"

definition index_shift :: "u8 \<Rightarrow> nat" where
  "index_shift e = [0, 3, 2, 0, 1] ! unat e"

definition index_mask :: "u8 \<Rightarrow> u8" where
  "index_mask e = [0, 0x01, 0x03, 0, 0x0F] ! unat e"

text \<open>The first argument of \<^verbatim>\<open>bitarray.new\<close>: a number, also one written as a string; another string; a table of
  numbers; anything else.  \<^verbatim>\<open>Div_by_zero\<close> is the trap of the processor.\<close>

datatype ba_source = Ba_number u32 | Ba_string bytes | Ba_table "u32 list" | Ba_other

datatype ba_error = Not_multiple | Invalid_arguments | Invalid_size | Div_by_zero | Invalid_index | Invalid_mode | Too_large

definition bitarray_make :: "u32 \<Rightarrow> u8 \<Rightarrow> (u32 \<Rightarrow> bytes) \<Rightarrow> ba_error + bitarray" where
  "bitarray_make cap els fill =
    (if els = 0 \<or> 32 < els \<or> els AND (els - 1) \<noteq> 0 then Inl Invalid_size
     else (let total = ROUND_SIZE (cap * ucast els)
           in if total = 0 then Inl Invalid_arguments
              else Inr \<lparr>capacity = cap, elsize = els, ba_values = fill total\<rparr>))"

definition opt_u8 :: "u8 \<Rightarrow> u32 option \<Rightarrow> u8" where
  "opt_u8 d a = (case a of None \<Rightarrow> d | Some n \<Rightarrow> ucast n)"

definition bitarray_new :: "ba_source \<Rightarrow> u32 option \<Rightarrow> u32 option \<Rightarrow> ba_error + bitarray" where
  "bitarray_new src els fill =
    (let e = opt_u8 8 els;
         from_bytes = (\<lambda>bs. let temp = push_bit 3 (of_nat (length bs)) :: u32
           in if e = 0 then Inl Div_by_zero
              else if temp mod ucast e \<noteq> 0 then Inl Not_multiple
              else bitarray_make (temp div ucast e) e (\<lambda>total. bs))
     in case src of
          Ba_number n \<Rightarrow> bitarray_make n e (\<lambda>total. replicate (unat total) (opt_u8 0 fill))
        | Ba_string bs \<Rightarrow> from_bytes bs
        | Ba_table xs \<Rightarrow> from_bytes (map ucast xs)
        | Ba_other \<Rightarrow> Inl Invalid_arguments)"

text \<open>Bytes of the memory from the index \<open>i\<close> on; \<open>None\<close> outside the array.\<close>

definition byte_at :: "bitarray \<Rightarrow> nat \<Rightarrow> u8 option" where
  "byte_at pa i = (if i < length (ba_values pa) then Some (ba_values pa ! i) else None)"

definition sub_shift :: "u8 \<Rightarrow> u32 \<Rightarrow> nat" where
  "sub_shift e idx = unat (((push_bit (index_shift e) 1 - 1) - ucast (idx AND (push_bit (index_shift e) 1 - 1)) :: u8) * e)"

text \<open>Several bytes are little-endian.\<close>

definition bitarray_getval :: "bitarray \<Rightarrow> u32 \<Rightarrow> u32 option" where
  "bitarray_getval pa idx1 =
    (let idx = idx1 - 1; e = elsize pa; i = unat idx
     in if e < 8 then
          map_option (\<lambda>b. ucast (drop_bit (sub_shift e idx) b) AND ucast (index_mask e)) (byte_at pa (unat (drop_bit (index_shift e) idx)))
        else if e = 8 then map_option ucast (byte_at pa i)
        else if e = 16 then
          (case (byte_at pa (2 * i), byte_at pa (2 * i + 1)) of
             (Some a, Some b) \<Rightarrow> Some (ucast a OR push_bit 8 (ucast b)) | _ \<Rightarrow> None)
        else if e = 32 then
          (case (byte_at pa (4 * i), byte_at pa (4 * i + 1), byte_at pa (4 * i + 2), byte_at pa (4 * i + 3)) of
             (Some a, Some b, Some c, Some d) \<Rightarrow>
               Some (ucast a OR push_bit 8 (ucast b) OR push_bit 16 (ucast c) OR push_bit 24 (ucast d))
           | _ \<Rightarrow> None)
        else Some 0)"

definition bitarray_get :: "bitarray \<Rightarrow> u32 \<Rightarrow> (ba_error + u32) option" where
  "bitarray_get pa idx =
    (if idx = 0 \<or> capacity pa < idx then Some (Inl Invalid_index) else map_option Inr (bitarray_getval pa idx))"

text \<open>Writing bytes; the array is lost (\<open>None\<close>) when one lies outside.\<close>

definition put_bytes :: "nat \<Rightarrow> bytes \<Rightarrow> bitarray \<Rightarrow> bitarray option" where
  "put_bytes i bs pa =
    (if i + length bs \<le> length (ba_values pa)
     then Some (pa\<lparr>ba_values := take i (ba_values pa) @ bs @ drop (i + length bs) (ba_values pa)\<rparr>) else None)"

text \<open>The elements of one byte or more are set to \<^verbatim>\<open>val\<close>, which is still 0.\<close>

definition bitarray_set :: "bitarray \<Rightarrow> u32 \<Rightarrow> u32 \<Rightarrow> (ba_error + bitarray) option" where
  "bitarray_set pa idx1 newval =
    (if idx1 = 0 \<or> capacity pa < idx1 then Some (Inl Invalid_index)
     else (let idx = idx1 - 1; e = elsize pa; i = unat idx
           in map_option Inr
               (if e < 8 then
                  (let shift = unat (drop_bit (index_shift e) idx); s = sub_shift e idx
                   in case byte_at pa shift of
                        None \<Rightarrow> None
                      | Some b \<Rightarrow>
                          put_bytes shift [ucast (((ucast b :: u32) AND NOT (push_bit s (ucast (index_mask e)))) OR push_bit s newval)] pa)
                else if e = 8 then put_bytes i [0] pa
                else if e = 16 then put_bytes (2 * i) [0, 0] pa
                else if e = 32 then put_bytes (4 * i) [0, 0, 0, 0] pa
                else Some pa)))"

definition bitarray_len :: "bitarray \<Rightarrow> u32" where
  "bitarray_len pa = capacity pa"

text \<open>One step of the iterator: \<open>None\<close> inside is the end.\<close>

definition bitarray_iter :: "bitarray \<Rightarrow> u32 \<Rightarrow> (u32 \<times> u32) option option" where
  "bitarray_iter pa k =
    (let idx = k + 1 in if idx \<le> capacity pa then map_option (\<lambda>v. Some (idx, v)) (bitarray_getval pa idx) else Some None)"

text \<open>All values from the index \<open>idx\<close> on, \<open>n\<close> of them.\<close>

primrec getvals :: "bitarray \<Rightarrow> u32 \<Rightarrow> nat \<Rightarrow> u32 list option" where
  "getvals pa idx 0 = Some []"
| "getvals pa idx (Suc n) =
    (case (bitarray_getval pa idx, getvals pa (idx + 1) n) of (Some v, Some vs) \<Rightarrow> Some (v # vs) | _ \<Rightarrow> None)"

text \<open>The mode of an unpacking: raw or sequential; any other string is an error.\<close>

datatype ba_mode = Raw | Seq | Bad_mode

definition unpack :: "bitarray \<Rightarrow> ba_mode \<Rightarrow> (ba_error + u32 list) option" where
  "unpack pa mode =
    (case mode of
       Bad_mode \<Rightarrow> Some (Inl Invalid_mode)
     | Seq \<Rightarrow> if 8 < elsize pa then Some (Inl Too_large) else map_option Inr (getvals pa 1 (unat (capacity pa)))
     | Raw \<Rightarrow> (let n = unat (ROUND_SIZE (capacity pa * ucast (elsize pa)))
               in if n \<le> length (ba_values pa) then Some (Inr (map ucast (take n (ba_values pa)))) else None))"

definition bitarray_tostring :: "bitarray \<Rightarrow> ba_mode \<Rightarrow> (ba_error + bytes) option" where
  "bitarray_tostring pa mode = map_option (map_sum id (map ucast)) (unpack pa mode)"

definition bitarray_totable :: "bitarray \<Rightarrow> ba_mode \<Rightarrow> (ba_error + u32 list) option" where
  "bitarray_totable = unpack"

subsection \<open>Reading and writing one element\<close>

definition ba_wf :: "bitarray \<Rightarrow> bool" where
  "ba_wf pa \<longleftrightarrow> elsize pa \<in> {1, 2, 4, 8, 16, 32} \<and> unat (capacity pa) * unat (elsize pa) < 2 ^ 32
     \<and> length (ba_values pa) = (unat (capacity pa) * unat (elsize pa) + 7) div 8"

text \<open>The \<open>k\<close>-th field of \<open>e\<close> bits of a byte, from the low end, and the byte with that field replaced.\<close>

definition field :: "nat \<Rightarrow> nat \<Rightarrow> u8 \<Rightarrow> u32" where
  "field e k b = ucast (drop_bit (k * e) b) AND mask e"

definition put_field :: "nat \<Rightarrow> nat \<Rightarrow> u32 \<Rightarrow> u8 \<Rightarrow> u8" where
  "put_field e k v b = ucast (((ucast b :: u32) AND NOT (push_bit (k * e) (mask e))) OR push_bit (k * e) v)"

lemma field_disjoint:
  assumes "k \<noteq> k'" "n < (e::nat)"
  shows "n + k' * e < k * e \<or> k * e + e \<le> n + k' * e"
proof (cases "k' < k")
  case True
  then have "Suc k' * e \<le> k * e" by (intro mult_le_mono) auto
  with assms show ?thesis by simp
next
  case False
  then have "Suc k * e \<le> k' * e" using assms by (intro mult_le_mono) auto
  then show ?thesis by simp
qed

lemma small_high_bit: "bit (v::u32) n \<Longrightarrow> unat v < 2 ^ e \<Longrightarrow> n < e"
  by (metis bit_take_bit_iff not_less take_bit_nat_eq_self_iff unsigned_take_bit_eq word_unat_eq_iff)

lemma field_put:
  assumes "k * e + e \<le> 8" "k' * e + e \<le> 8" "unat v < 2 ^ e"
  shows "field e k' (put_field e k v b) = (if k' = k then v else field e k' b)"
proof (cases "k' = k")
  case True
  have "bit (field e k (put_field e k v b)) n = bit v n" if "n < 32" for n
  proof (cases "bit v n")
    case True
    then show ?thesis
      using assms that small_high_bit [OF _ assms(3), of n] by (auto simp: field_def put_field_def bit_simps)
  qed (use assms that in \<open>auto simp: field_def put_field_def bit_simps\<close>)
  then show ?thesis using True by (auto intro!: bit_word_eqI)
next
  case False
  have "bit (field e k' (put_field e k v b)) n = bit (field e k' b) n" if "n < 32" for n
  proof (cases "n < e")
    case True
    then show ?thesis
      using assms that field_disjoint [OF False [symmetric] True] small_high_bit [OF _ assms(3), of "k' * e + n - k * e"]
      by (auto simp: field_def put_field_def bit_simps)
  qed (simp add: field_def bit_simps)
  then show ?thesis using False by (auto intro!: bit_word_eqI)
qed

text \<open>The number of fields of a byte, and the place of the element \<open>i\<close>, counted from 0.\<close>

lemma index_tables:
  assumes "e = 1 \<or> e = 2 \<or> e = (4::u8)"
  shows "ucast (index_mask e) = (mask (unat e) :: u32)" "2 ^ index_shift e * unat e = 8" "index_shift e \<le> 3"
  using assms by (auto simp: index_mask_def index_shift_def mask_eq_exp_minus_1)

lemma unat_drop: "unat (drop_bit n (idx::u32)) = unat idx div 2 ^ n"
  unfolding unat_drop_bit_eq by (simp add: drop_bit_eq_div)

lemma rest_mod:
  assumes "n \<le> 3"
  shows "unat (ucast (idx AND (2 ^ n - 1) :: u32) :: u8) = unat idx mod 2 ^ n"
proof -
  have "unat (idx AND (2 ^ n - 1)) = unat idx mod 2 ^ n"
    by (metis mask_eq_exp_minus_1 take_bit_eq_mask take_bit_eq_mod unsigned_take_bit_eq)
  moreover have "unat idx mod 2 ^ n < (2::nat) ^ 3"
    by (rule less_le_trans [OF mod_less_divisor]) (use assms power_increasing [of n 3 "2::nat"] in simp_all)
  ultimately show ?thesis by (simp add: unsigned_ucast_eq take_bit_eq_mod)
qed

lemma sub_shift_eq:
  assumes "e = 1 \<or> e = 2 \<or> e = (4::u8)"
  shows "sub_shift e idx = (2 ^ index_shift e - 1 - unat idx mod 2 ^ index_shift e) * unat e"
proof -
  let ?p = "2 ^ index_shift e :: nat" and ?r = "ucast (idx AND (2 ^ index_shift e - 1)) :: u8"
  have p: "unat (2 ^ index_shift e - 1 :: u8) = ?p - 1" and pos: "0 < ?p" and e: "?p * unat e = 8"
    using assms by (auto simp: index_shift_def)
  have r: "unat ?r = unat idx mod ?p" by (rule rest_mod) (use assms in \<open>auto simp: index_shift_def\<close>)
  have "?r \<le> 2 ^ index_shift e - 1"
    unfolding word_le_nat_alt p r using mod_less_divisor [OF pos, of "unat idx"] by linarith
  then have "unat ((2 ^ index_shift e - 1) - ?r) = ?p - 1 - unat idx mod ?p"
    using p r by (simp add: unat_sub word_le_nat_alt)
  moreover have "(?p - 1 - unat idx mod ?p) * unat e < 256"
  proof -
    have "(?p - 1 - unat idx mod ?p) * unat e \<le> ?p * unat e" by (rule mult_le_mono1) simp
    with e show ?thesis by simp
  qed
  ultimately show ?thesis by (simp add: sub_shift_def unat_word_ariths push_bit_eq_mult)
qed
text \<open>The place of an element that is smaller than a byte.\<close>

abbreviation ba_sub :: "bitarray \<Rightarrow> bool" where
  "ba_sub pa \<equiv> elsize pa = 1 \<or> elsize pa = 2 \<or> elsize pa = 4"

abbreviation per :: "bitarray \<Rightarrow> nat" where
  "per pa \<equiv> 2 ^ index_shift (elsize pa)"

abbreviation fld :: "bitarray \<Rightarrow> nat \<Rightarrow> nat" where
  "fld pa i \<equiv> per pa - 1 - i mod per pa"

lemma div_less_ceil: "y < x \<Longrightarrow> y div 8 < (x + 7) div (8::nat)"
  using div_le_mono [of "y + 8" "x + 7" 8] by simp

lemma byte_inside:
  assumes "ba_wf pa" "ba_sub pa" "i < unat (capacity pa)"
  shows "i div per pa < length (ba_values pa)"
proof -
  let ?e = "unat (elsize pa)"
  have e: "per pa * ?e = 8" by (rule index_tables(2) [OF assms(2)])
  have e0: "?e \<noteq> 0" using assms(2) by auto
  have "(i * ?e) div (per pa * ?e) = i div per pa" by (rule div_mult_mult2 [OF e0])
  then have "i div per pa = (i * ?e) div 8" unfolding e by (rule sym)
  moreover have "i * ?e < unat (capacity pa) * ?e" by (rule mult_less_mono1) (use assms(3) e0 in simp_all)
  ultimately show ?thesis using assms(1) unfolding ba_wf_def by (simp only: div_less_ceil)
qed

lemma fld_inside: "ba_sub pa \<Longrightarrow> fld pa i * unat (elsize pa) + unat (elsize pa) \<le> 8"
proof -
  assume s: "ba_sub pa"
  have "(fld pa i + 1) * unat (elsize pa) \<le> per pa * unat (elsize pa)"
    by (rule mult_le_mono1) (simp add: Suc_le_eq)
  then show ?thesis using index_tables(2) [OF s] by simp
qed

lemma pred_inside:
  assumes "0 < idx" "idx \<le> (n::u32)" "i = unat idx - 1"
  shows "unat (idx - 1) = i" "i < unat n"
proof -
  have "0 < unat idx" "unat idx \<le> unat n" using assms by (simp_all add: word_less_nat_alt word_le_nat_alt)
  moreover have "idx \<noteq> 0" using assms(1) by auto
  ultimately show "unat (idx - 1) = i" "i < unat n" using assms(3) by (simp_all add: unat_minus_one)
qed

lemma getval_sub:
  assumes "ba_wf pa" "ba_sub pa" "0 < idx" "idx \<le> capacity pa" "i = unat idx - 1"
  shows "bitarray_getval pa idx = Some (field (unat (elsize pa)) (fld pa i) (ba_values pa ! (i div per pa)))"
proof -
  note i = pred_inside [OF assms(3-5)]
  have "elsize pa < 8" using assms(2) by auto
  then show ?thesis
    using byte_inside [OF assms(1,2) i(2)]
    by (simp add: bitarray_getval_def Let_def byte_at_def unat_drop i(1) sub_shift_eq [OF assms(2)]
        index_tables(1) [OF assms(2)] field_def ucast_drop_bit_eq)
qed

lemma put_one: "i < length (ba_values pa) \<Longrightarrow> put_bytes i [b] pa = Some (pa\<lparr>ba_values := (ba_values pa)[i := b]\<rparr>)"
  by (simp add: put_bytes_def upd_conv_take_nth_drop)

lemma set_sub:
  assumes "ba_wf pa" "ba_sub pa" "0 < idx" "idx \<le> capacity pa" "i = unat idx - 1"
  shows "bitarray_set pa idx v = Some (Inr (pa\<lparr>ba_values := (ba_values pa)
    [i div per pa := put_field (unat (elsize pa)) (fld pa i) v (ba_values pa ! (i div per pa))]\<rparr>))"
proof -
  note i = pred_inside [OF assms(3-5)]
  have "elsize pa < 8" "idx \<noteq> 0" "\<not> capacity pa < idx" using assms by auto
  then show ?thesis
    using byte_inside [OF assms(1,2) i(2)]
    by (simp add: bitarray_set_def Let_def byte_at_def unat_drop i(1) sub_shift_eq [OF assms(2)] put_one
        index_tables(1) [OF assms(2)] put_field_def)
qed
text \<open>Elements of one byte or more.\<close>

lemma byte_at_put:
  assumes "put_bytes i bs pa = Some pa'"
  shows "byte_at pa' n = (if i \<le> n \<and> n < i + length bs then Some (bs ! (n - i)) else byte_at pa n)"
    "length (ba_values pa') = length (ba_values pa)" "elsize pa' = elsize pa" "capacity pa' = capacity pa"
proof -
  have b: "i + length bs \<le> length (ba_values pa)"
    and pa': "pa' = pa\<lparr>ba_values := take i (ba_values pa) @ bs @ drop (i + length bs) (ba_values pa)\<rparr>"
    using assms by (auto simp: put_bytes_def split: if_splits)
  show "byte_at pa' n = (if i \<le> n \<and> n < i + length bs then Some (bs ! (n - i)) else byte_at pa n)"
    using b by (auto simp: pa' byte_at_def nth_append)
  show "length (ba_values pa') = length (ba_values pa)" "elsize pa' = elsize pa" "capacity pa' = capacity pa"
    using b by (simp_all add: pa')
qed

abbreviation ba_wide :: "bitarray \<Rightarrow> bool" where
  "ba_wide pa \<equiv> elsize pa = 8 \<or> elsize pa = 16 \<or> elsize pa = 32"

lemma zeros: "replicate 1 0 = [0 :: u8]" "replicate 2 0 = [0 :: u8, 0]" "replicate 4 0 = [0 :: u8, 0, 0, 0]"
  by (simp_all add: numeral_eq_Suc)

lemma set_wide:
  assumes "ba_wf pa" "elsize pa = 8 * of_nat w" "w = 1 \<or> w = 2 \<or> w = 4" "0 < idx" "idx \<le> capacity pa" "i = unat idx - 1"
  obtains pa' where "put_bytes (w * i) (replicate w 0) pa = Some pa'" "bitarray_set pa idx v = Some (Inr pa')"
proof -
  note i = pred_inside [OF assms(4-6)]
  have n: "idx \<noteq> 0" "\<not> capacity pa < idx" using assms by auto
  have "w * i + w \<le> length (ba_values pa)" using assms(1-3) i(2) by (auto simp: ba_wf_def)
  then obtain pa' where p: "put_bytes (w * i) (replicate w 0) pa = Some pa'" by (simp add: put_bytes_def)
  have "bitarray_set pa idx v = Some (Inr pa')"
    using assms(2,3) p unfolding bitarray_set_def Let_def i(1) by (elim disjE) (simp_all add: n zeros [simplified])
  with p show ?thesis by (rule that)
qed

lemma getval_wide:
  assumes "ba_wf pa" "ba_wide pa" "0 < idx" "idx \<le> capacity pa"
  shows "\<exists>v. bitarray_getval pa idx = Some v"
  using assms(1,2) pred_inside [OF assms(3,4) refl]
  by (auto simp: ba_wf_def bitarray_getval_def Let_def byte_at_def)

lemma getval_cong:
  assumes "elsize pa = 8 * of_nat w" "w \<in> {1, 2, 4}" "elsize pa' = elsize pa" "j = unat idx - 1" "0 < idx"
    "\<And>r. r < w \<Longrightarrow> byte_at pa' (w * j + r) = byte_at pa (w * j + r)"
  shows "bitarray_getval pa' idx = bitarray_getval pa idx"
proof -
  have j: "unat (idx - 1) = j" using assms(4,5) by (simp add: unat_minus_one word_neq_0_conv)
  have "byte_at pa' (w * j) = byte_at pa (w * j)" using assms(6) [of 0] assms(2) by auto
  then show ?thesis
    using assms(1-3) assms(6) [of 1] assms(6) [of 2] assms(6) [of 3] by (auto simp: bitarray_getval_def Let_def j cong: option.case_cong)
qed
lemma pred_eq: "0 < j \<Longrightarrow> 0 < i \<Longrightarrow> unat j - 1 = unat i - 1 \<longleftrightarrow> j = (i :: u32)"
  by (metis Suc_pred' unat_gt_0 word_neq_0_conv word_unat_eq_iff diff_Suc_1')

lemma place_eq:
  assumes "0 < j" "0 < (i :: u32)"
  shows "j = i \<longleftrightarrow> (unat j - 1) div per pa = (unat i - 1) div per pa \<and> fld pa (unat j - 1) = fld pa (unat i - 1)"
proof -
  have m: "n mod per pa < per pa" for n :: nat by simp
  have "per pa - 1 - a = per pa - 1 - b \<longleftrightarrow> a = b" if "a < per pa" "b < per pa" for a b using that by arith
  then have "fld pa (unat j - 1) = fld pa (unat i - 1) \<longleftrightarrow> (unat j - 1) mod per pa = (unat i - 1) mod per pa"
    using m by blast
  then show ?thesis unfolding pred_eq [OF assms, symmetric] by (metis mult_div_mod_eq)
qed

lemma set_get_sub:
  assumes "ba_wf pa" "0 < i" "i \<le> capacity pa" "elsize pa < 8 \<longrightarrow> unat v < 2 ^ unat (elsize pa)" and True: "ba_sub pa"
  shows "\<exists>pa'. bitarray_set pa i v = Some (Inr pa') \<and> ba_wf pa' \<and> elsize pa' = elsize pa \<and> capacity pa' = capacity pa
    \<and> (\<forall>j. 0 < j \<and> j \<le> capacity pa \<longrightarrow>
        bitarray_getval pa' j = (if j = i then Some (if elsize pa < 8 then v else 0) else bitarray_getval pa j))"
proof -
  let ?e = "unat (elsize pa)" and ?i = "unat i - 1"
  let ?b = "?i div per pa"
  let ?pa = "pa\<lparr>ba_values := (ba_values pa)[?b := put_field ?e (fld pa ?i) v (ba_values pa ! ?b)]\<rparr>"
  have wf: "ba_wf ?pa" using assms(1) by (simp add: ba_wf_def)
  have e8: "elsize pa < 8" using True by auto
  have "bitarray_getval ?pa j = (if j = i then Some v else bitarray_getval pa j)" if j: "0 < j" "j \<le> capacity pa" for j
  proof -
    let ?j = "unat j - 1"
    have len: "?j div per pa < length (ba_values pa)"
      by (rule byte_inside [OF assms(1) True pred_inside(2) [OF j refl]])
    have eq: "j = i \<longleftrightarrow> ?j div per pa = ?b \<and> fld pa ?j = fld pa ?i"
      by (rule place_eq) (use assms(2) j(1) in simp_all)
    have g: "bitarray_getval ?pa j = Some (field ?e (fld pa ?j) (ba_values ?pa ! (?j div per pa)))"
      using getval_sub [OF wf _ j(1) _ refl] True j(2) by simp
    show ?thesis
      unfolding g eq getval_sub [OF assms(1) True j refl]
      using len field_put [OF fld_inside [of pa ?i, OF True] fld_inside [of pa ?j, OF True], of v] assms(4) e8
      by (cases "?j div per pa = ?b") (simp_all add: nth_list_update)
  qed
  then show ?thesis
    using set_sub [OF assms(1) True assms(2,3) refl, of v] wf e8 by auto
qed

lemma set_get_wide:
  assumes "ba_wf pa" "0 < i" "i \<le> capacity pa" "\<not> ba_sub pa"
  shows "\<exists>pa'. bitarray_set pa i v = Some (Inr pa') \<and> ba_wf pa' \<and> elsize pa' = elsize pa \<and> capacity pa' = capacity pa
    \<and> (\<forall>j. 0 < j \<and> j \<le> capacity pa \<longrightarrow>
        bitarray_getval pa' j = (if j = i then Some (if elsize pa < 8 then v else 0) else bitarray_getval pa j))"
proof -
  obtain w where w: "elsize pa = 8 * of_nat w" "w = 1 \<or> w = 2 \<or> w = 4"
    using assms(1,4) by (auto simp: ba_wf_def intro: that [of 1] that [of 2] that [of 4])
  obtain pa' where p: "put_bytes (w * (unat i - 1)) (replicate w 0) pa = Some pa'" "bitarray_set pa i v = Some (Inr pa')"
    by (rule set_wide [OF assms(1) w assms(2,3) refl])
  note P = byte_at_put [OF p(1)]
  have e8: "\<not> elsize pa < 8" using w by auto
  have "bitarray_getval pa' j = (if j = i then Some 0 else bitarray_getval pa j)" if j: "0 < j" "j \<le> capacity pa" for j
  proof (cases "j = i")
    case True
    have z: "byte_at pa' (w * (unat i - 1) + r) = Some 0" if "r < w" for r using that by (simp add: P(1))
    then show ?thesis
      using w z [of 0] z [of 1] z [of 2] z [of 3] True
      by (auto simp: bitarray_getval_def Let_def P(3) pred_inside(1) [OF assms(2,3) refl] cong: option.case_cong)
  next
    case False
    have ne: "unat j - 1 \<noteq> unat i - 1" using False pred_eq [OF j(1) assms(2)] by simp
    have "byte_at pa' (w * (unat j - 1) + r) = byte_at pa (w * (unat j - 1) + r)" if "r < w" for r
      using field_disjoint [OF ne [symmetric] that] unfolding P(1) by (auto simp: mult.commute add.commute)
    then show ?thesis using False getval_cong [OF w(1) _ P(3) refl j(1)] w(2) by auto
  qed
  then show ?thesis
    using p(2) assms(1) e8 by (auto simp: P ba_wf_def)
qed

lemma set_get:
  assumes "ba_wf pa" "0 < i" "i \<le> capacity pa" "elsize pa < 8 \<longrightarrow> unat v < 2 ^ unat (elsize pa)"
  shows "\<exists>pa'. bitarray_set pa i v = Some (Inr pa') \<and> ba_wf pa' \<and> elsize pa' = elsize pa \<and> capacity pa' = capacity pa
    \<and> (\<forall>j. 0 < j \<and> j \<le> capacity pa \<longrightarrow>
        bitarray_getval pa' j = (if j = i then Some (if elsize pa < 8 then v else 0) else bitarray_getval pa j))"
  using set_get_sub [OF assms] set_get_wide [OF assms(1-3)] by blast

text \<open>C30: An element of an array that was set is read back, and the other elements keep their values: the new value for
  elements smaller than a byte, when it fits the element, but 0 for elements of 8, 16 and 32 bits, whatever was
  written.  No access leaves the array, whose shape stays.\<close>
theorem bitarray_set_get:
  assumes "ba_wf pa" "0 < i" "i \<le> capacity pa" "elsize pa < 8 \<longrightarrow> unat v < 2 ^ unat (elsize pa)"
  shows "\<exists>pa'. bitarray_set pa i v = Some (Inr pa') \<and> ba_wf pa' \<and> elsize pa' = elsize pa \<and> capacity pa' = capacity pa
    \<and> (\<forall>j. 0 < j \<and> j \<le> capacity pa \<longrightarrow>
        bitarray_getval pa' j = (if j = i then Some (if elsize pa < 8 then v else 0) else bitarray_getval pa j))"
  using assms by (rule set_get)

theorem bitarray_set_get_witness:
  "\<exists>pa'. bitarray_set \<lparr>capacity = 3, elsize = 4, ba_values = [0xAB, 0xC0]\<rparr> 2 7 = Some (Inr pa')
    \<and> bitarray_getval pa' 1 = Some 0xA \<and> bitarray_getval pa' 2 = Some 7 \<and> bitarray_getval pa' 3 = Some 0xC"
proof -
  let ?pa = "\<lparr>capacity = 3, elsize = 4, ba_values = [0xAB, 0xC0]\<rparr>"
  have "ba_wf ?pa" by (simp add: ba_wf_def)
  moreover have "bitarray_getval ?pa 1 = Some 0xA" "bitarray_getval ?pa 3 = Some 0xC" by code_simp+
  ultimately show ?thesis using bitarray_set_get [of ?pa 2 7] by auto
qed

text \<open>A value that does not fit is not cut: it changes the elements before it in the byte.\<close>

lemma set_spills:
  "bitarray_set \<lparr>capacity = 2, elsize = 4, ba_values = [0x10]\<rparr> 2 0x23 = Some (Inr \<lparr>capacity = 2, elsize = 4, ba_values = [0x33]\<rparr>)"
  by code_simp

subsection \<open>Making arrays\<close>

lemma powers_of_two:
  "list_all (\<lambda>n. n = 0 \<or> n AND (n - 1) \<noteq> 0 \<or> n = 1 \<or> n = 2 \<or> n = 4 \<or> n = 8 \<or> n = 16 \<or> n = 32) (map word_of_nat [0..<33] :: u8 list)"
  by code_simp

lemma elsize_cases:
  assumes "els \<noteq> 0" "\<not> 32 < els" "els AND (els - 1) = (0 :: u8)"
  shows "els = 1 \<or> els = 2 \<or> els = 4 \<or> els = 8 \<or> els = 16 \<or> els = 32"
proof -
  have "unat els < 33" using assms(2) by (simp add: word_less_nat_alt not_less)
  moreover have "els = word_of_nat (unat els)" by simp
  ultimately have "els \<in> set (map word_of_nat [0..<33])"
    unfolding set_map set_upt by (metis atLeastLessThan_iff image_eqI zero_le)
  then show ?thesis using powers_of_two assms(1,3) unfolding list_all_iff by blast
qed

lemma ceil_div_8: "(n + 7) div 8 = n div 8 + (if n mod 8 = 0 then 0 else 1 :: nat)"
proof -
  have "(8 * q + r + 7) div 8 = q + (if r = 0 then 0 else 1)" if "r < 8" for q r :: nat
  proof (cases r)
    case (Suc r')
    then have "8 * q + r + 7 = 8 * (q + 1) + r'" by simp
    then show ?thesis using Suc that by simp
  qed simp
  from this [of "n mod 8" "n div 8"] show ?thesis by simp
qed

lemma unat_ROUND_SIZE: "unat (ROUND_SIZE s) = (unat s + 7) div 8"
proof -
  have r: "unat (s AND 7) = unat s mod 8"
  proof -
    have "s AND 7 = take_bit 3 s" by (simp add: take_bit_eq_mask mask_eq_exp_minus_1)
    then show ?thesis by (simp only: unsigned_take_bit_eq) (simp add: take_bit_eq_mod)
  qed
  have d: "unat (drop_bit 3 s) = unat s div 8" unfolding unat_drop by simp
  have "unat s < 2 ^ 32" by (rule order.strict_trans2 [OF unsigned_less]) simp
  then have "unat (drop_bit 3 s + 1) = unat s div 8 + 1" by (simp add: unat_word_ariths d)
  moreover have "s AND 7 = 0 \<longleftrightarrow> unat s mod 8 = 0" using r by (metis unat_eq_zero)
  ultimately show ?thesis by (simp only: ROUND_SIZE_def ceil_div_8 if_distrib [of unat] d) (simp add: d)
qed

lemma byte_at_beyond: "length (ba_values pa) \<le> i \<Longrightarrow> byte_at pa i = None"
  by (simp add: byte_at_def)

lemma getval_beyond:
  assumes e: "elsize pa = 1 \<or> elsize pa = 2 \<or> elsize pa = 4 \<or> elsize pa = 8 \<or> elsize pa = 16 \<or> elsize pa = 32"
    and tx: "8 * length (ba_values pa) + 2 ^ 32 \<le> unat n * unat (elsize pa) + 7"
    and n: "unat (n - 1) = unat n - 1"
  shows "bitarray_getval pa n = None"
proof -
  let ?m = "unat n - 1"
  have far: "byte_at pa i = None" if "unat n * unat (elsize pa) < 8 * i + 2 ^ 32 + 1" for i
    by (rule byte_at_beyond) (use tx that in linarith)
  have lt: "unat n \<le> 8 * (?m div 8) + 8" "unat n \<le> 4 * (?m div 4) + 4" "unat n \<le> 2 * (?m div 2) + 2" "unat n \<le> ?m + 1"
    by presburger+
  show ?thesis using e
  proof (elim disjE)
    assume "elsize pa = 1"
    then show ?thesis using lt(1) far [of "?m div 8"]
      by (simp add: bitarray_getval_def Let_def index_shift_def unat_drop n)
  next
    assume "elsize pa = 2"
    then show ?thesis using lt(2) far [of "?m div 4"]
      by (simp add: bitarray_getval_def Let_def index_shift_def unat_drop n)
  next
    assume "elsize pa = 4"
    then show ?thesis using lt(3) far [of "?m div 2"]
      by (simp add: bitarray_getval_def Let_def index_shift_def unat_drop n)
  next
    assume "elsize pa = 8"
    then show ?thesis using lt(4) far [of ?m] by (simp add: bitarray_getval_def Let_def n)
  next
    assume "elsize pa = 16"
    then show ?thesis using lt(4) far [of "2 * ?m"] by (simp add: bitarray_getval_def Let_def n)
  next
    assume "elsize pa = 32"
    then show ?thesis using lt(4) far [of "4 * ?m"] by (simp add: bitarray_getval_def Let_def n)
  qed
qed

text \<open>C31: An array made from a number of elements that fits the address arithmetic has its shape; all its bytes are the
  filling.  Else the size is computed modulo \<open>2 ^ 32\<close>, and the elements lie outside of the memory that was
  allocated.\<close>
theorem bitarray_new_shape:
  assumes "bitarray_new (Ba_number n) els fill = Inr pa"
  shows "if unat n * unat (opt_u8 8 els) < 2 ^ 32 then ba_wf pa \<and> set (ba_values pa) = {opt_u8 0 fill}
    else length (ba_values pa) < (unat n * unat (opt_u8 8 els) + 7) div 8 \<and> bitarray_getval pa (capacity pa) = None"
proof -
  let ?e = "opt_u8 8 els"
  have m: "bitarray_make n ?e (\<lambda>total. replicate (unat total) (opt_u8 0 fill)) = Inr pa"
    using assms by (simp add: bitarray_new_def Let_def)
  then have e: "?e = 1 \<or> ?e = 2 \<or> ?e = 4 \<or> ?e = 8 \<or> ?e = 16 \<or> ?e = 32"
    by (intro elsize_cases) (auto simp: bitarray_make_def split: if_splits)
  define t where "t = ROUND_SIZE (n * ucast ?e)"
  have pa: "pa = \<lparr>capacity = n, elsize = ?e, ba_values = replicate (unat t) (opt_u8 0 fill)\<rparr>" and t0: "t \<noteq> 0"
    using m by (auto simp: bitarray_make_def Let_def t_def split: if_splits)
  have t: "unat t = ((unat n * unat ?e) mod 2 ^ 32 + 7) div 8"
    using e by (auto simp: t_def unat_ROUND_SIZE unat_word_ariths)
  show ?thesis
  proof (cases "unat n * unat ?e < 2 ^ 32")
    case True
    have "unat t \<noteq> 0" using t0 by (simp add: unat_eq_zero)
    with True show ?thesis using e by (auto simp: pa ba_wf_def t)
  next
    case False
    define x where "x = unat n * unat ?e"
    have "x mod 2 ^ 32 \<le> x - 2 ^ 32" using False unfolding x_def [symmetric] by (simp add: mod_if [of x])
    then have tx: "8 * unat t + 2 ^ 32 \<le> x + 7" using False unfolding t x_def [symmetric] by simp
    have "n \<noteq> 0" using False by auto
    then have n: "unat (n - 1) = unat n - 1" by (rule unat_minus_one)
    have "bitarray_getval pa n = None"
      using e tx n by (intro getval_beyond) (simp_all add: pa x_def)
    then show ?thesis using tx False by (simp add: pa x_def [symmetric])
  qed
qed
text \<open>A string as an array.\<close>

lemma new_string:
  assumes "bitarray_new (Ba_string bs) els fill = Inr pa" "length bs < 2 ^ 29"
  shows "ba_wf pa \<and> ba_values pa = bs \<and> elsize pa = opt_u8 8 els \<and> unat (capacity pa) * unat (elsize pa) = 8 * length bs"
proof -
  let ?e = "opt_u8 8 els"
  let ?n = "push_bit 3 (of_nat (length bs)) :: u32"
  have n: "unat ?n = 8 * length bs" using assms(2) by (simp add: push_bit_eq_mult unat_word_ariths unat_of_nat_small)
  have e0: "?e \<noteq> 0" and m: "?n mod ucast ?e = 0" and mk: "bitarray_make (?n div ucast ?e) ?e (\<lambda>total. bs) = Inr pa"
    using assms(1) by (auto simp: bitarray_new_def Let_def split: if_splits)
  then have e: "?e = 1 \<or> ?e = 2 \<or> ?e = 4 \<or> ?e = 8 \<or> ?e = 16 \<or> ?e = 32"
    by (intro elsize_cases) (auto simp: bitarray_make_def split: if_splits)
  have pa: "pa = \<lparr>capacity = ?n div ucast ?e, elsize = ?e, ba_values = bs\<rparr>"
    using mk by (auto simp: bitarray_make_def Let_def split: if_splits)
  have ue: "unat (ucast ?e :: u32) = unat ?e" by (simp add: unsigned_ucast_eq take_bit_nat_eq_self_iff order.strict_trans2 [OF unsigned_less])
  have "unat (?n mod ucast ?e) = 0" using m by simp
  then have "8 * length bs mod unat ?e = 0" by (simp add: unat_mod n ue)
  then have "(8 * length bs) div unat ?e * unat ?e = 8 * length bs" by auto
  then have c: "unat (capacity pa) * unat (elsize pa) = 8 * length bs" by (simp add: pa unat_div n ue)
  then show ?thesis using e assms(2) by (auto simp: pa ba_wf_def)
qed

lemma ucast_back: "ucast (ucast (b :: u8) :: u32) = b"
  by (rule bit_word_eqI) (auto simp: bit_simps)

lemma getvals_bytes:
  assumes "elsize pa = 8" "j + n \<le> length (ba_values pa)" "length (ba_values pa) < 2 ^ 29" "idx = of_nat (j + 1)"
  shows "getvals pa idx n = Some (map ucast (take n (drop j (ba_values pa))))"
  using assms(2,4)
proof (induction n arbitrary: j idx)
  case (Suc n)
  have "unat (idx - 1) = j" using Suc.prems assms(3) by (simp add: unat_of_nat_small)
  then have "bitarray_getval pa idx = Some (ucast (ba_values pa ! j))"
    using Suc.prems assms(1) by (simp add: bitarray_getval_def Let_def byte_at_def)
  moreover have "getvals pa (idx + 1) n = Some (map ucast (take n (drop (Suc j) (ba_values pa))))"
    by (rule Suc.IH) (use Suc.prems in simp_all)
  moreover have "drop j (ba_values pa) = ba_values pa ! j # drop (Suc j) (ba_values pa)"
    by (rule Cons_nth_drop_Suc [symmetric]) (use Suc.prems in simp)
  ultimately show ?case by simp
qed simp

text \<open>A string of less than \<open>2 ^ 29\<close> bytes that is made an array comes back from the raw conversion unchanged, whatever
  the size of the elements; and from the sequential one when the elements are bytes.\<close>
theorem bitarray_string_roundtrip:
  assumes "bitarray_new (Ba_string bs) els fill = Inr pa" "length bs < 2 ^ 29"
  shows "bitarray_tostring pa Raw = Some (Inr bs) \<and> (elsize pa = 8 \<longrightarrow> bitarray_tostring pa Seq = Some (Inr bs))"
proof -
  have pa: "ba_values pa = bs" "unat (capacity pa) * unat (elsize pa) = 8 * length bs" "ba_wf pa"
    using new_string [OF assms] by auto
  have "unat (ROUND_SIZE (capacity pa * ucast (elsize pa))) = length bs"
    using pa(2,3) assms(2) by (auto simp: unat_ROUND_SIZE unat_word_ariths ba_wf_def)
  then have "bitarray_tostring pa Raw = Some (Inr bs)"
    by (simp add: bitarray_tostring_def unpack_def pa(1) Let_def o_def ucast_back)
  moreover have "bitarray_tostring pa Seq = Some (Inr bs)" if "elsize pa = 8"
    using that pa assms(2) getvals_bytes [OF that, of 0 "length bs" 1]
    by (simp add: bitarray_tostring_def unpack_def o_def ucast_back)
  ultimately show ?thesis by simp
qed

theorem bitarray_string_roundtrip_witness:
  "\<exists>pa. bitarray_new (Ba_string [0x41, 0xFF, 7]) None None = Inr pa \<and> bitarray_tostring pa Seq = Some (Inr [0x41, 0xFF, 7])"
proof -
  let ?pa = "\<lparr>capacity = 3, elsize = 8, ba_values = [0x41, 0xFF, 7]\<rparr>"
  have "bitarray_new (Ba_string [0x41, 0xFF, 7]) None None = Inr ?pa" by code_simp
  then show ?thesis using bitarray_string_roundtrip [of "[0x41, 0xFF, 7]" None None ?pa] by simp
qed

theorem bitarray_new_shape_witness:
  "bitarray_getval \<lparr>capacity = 0x20000001, elsize = 8, ba_values = [0]\<rparr> 0x20000001 = None"
proof -
  have "bitarray_new (Ba_number 0x20000001) None None = Inr \<lparr>capacity = 0x20000001, elsize = 8, ba_values = [0]\<rparr>" by code_simp
  from bitarray_new_shape [OF this] show ?thesis by (simp add: opt_u8_def)
qed
subsection \<open>Setting and clearing bits\<close>

lemma variadic_shift:
  assumes "\<forall>p \<in> set ps. p < 32"
  shows "variadic (shift_res f) (map Some ps) w = Num (foldl (\<lambda>w p. f w (unat p)) w ps)"
  using assms by (induction ps arbitrary: w) (auto simp: shift_res_def not_le [symmetric])

lemma foldl_set_bit: "bit (foldl (\<lambda>w p. w OR 2 ^ unat p) w ps) n \<longleftrightarrow> bit (w :: u32) n \<or> (n < 32 \<and> (\<exists>p \<in> set ps. unat (p :: u32) = n))"
  by (induction ps arbitrary: w) (auto simp: bit_simps)

lemma foldl_clear_bit: "n < 32 \<Longrightarrow> bit (foldl (\<lambda>w p. w AND NOT (2 ^ unat p)) w ps) n \<longleftrightarrow> bit (w :: u32) n \<and> (\<forall>p \<in> set ps. unat (p :: u32) \<noteq> n)"
  by (induction ps arbitrary: w) (auto simp: bit_simps)

lemma isset_bit: "k < 32 \<Longrightarrow> bit_isset [Some w, Some k] = Flag (bit w (unat k))"
  by (simp add: bit_isset_def num2_def checkinteger_def bit_iff_and_push_bit_not_eq_0 [of w "unat k"] not_le [symmetric])

lemma isclear_bit: "k < 32 \<Longrightarrow> bit_isclear [Some w, Some k] = Flag (\<not> bit w (unat k))"
  by (simp add: bit_isclear_def num2_def checkinteger_def bit_iff_and_push_bit_not_eq_0 [of w "unat k"] not_le [symmetric])

text \<open>C0: Setting (clearing) any list of positions below 32 gives a number whose bits at these positions are set
  (clear) and whose other bits are unchanged, as \<^verbatim>\<open>isset\<close> and \<^verbatim>\<open>isclear\<close> see them.\<close>
theorem bits_set_clear:
  assumes "\<forall>p \<in> set ps. p < 32" "k < 32"
  shows "(\<exists>w. bit_set (Some v # map Some ps) = Num w \<and> bit_isset [Some w, Some k] = Flag (k \<in> set ps \<or> bit v (unat k)))
    \<and> (\<exists>w. bit_clear (Some v # map Some ps) = Num w \<and> bit_isclear [Some w, Some k] = Flag (k \<in> set ps \<or> \<not> bit v (unat k)))"
proof -
  have k: "unat k < 32" using assms(2) by (simp add: word_less_nat_alt)
  have m: "(\<exists>p \<in> set ps. unat p = unat k) \<longleftrightarrow> k \<in> set ps" "(\<forall>p \<in> set ps. unat p \<noteq> unat k) \<longleftrightarrow> k \<notin> set ps"
    by (metis word_unat_eq_iff)+
  show ?thesis
    by (simp add: bit_set_def bit_clear_def VARIADIC_def num1_def checkinteger_def variadic_shift [OF assms(1)]
        isset_bit [OF assms(2)] isclear_bit [OF assms(2)] foldl_set_bit foldl_clear_bit [OF k] m k disj_commute)
qed

theorem bits_set_clear_witness:
  "(\<exists>w. bit_set [Some 8, Some 0, Some 31] = Num w \<and> bit_isset [Some w, Some 31] = Flag True)
    \<and> (\<exists>w. bit_clear [Some 8, Some 0, Some 31] = Num w \<and> bit_isclear [Some w, Some 3] = Flag False)"
  using bits_set_clear [of "[0, 31]" 31 8] bits_set_clear [of "[0, 31]" 3 8] by (simp add: bit_numeral_rec)

end
