(* ===== verification/Pack.thy ===== *)
theory Pack
  imports Prelude
begin

unbundle bit_operations_syntax

text \<open>
  The module \<^verbatim>\<open>pack\<close> (\<^verbatim>\<open>modules/src/lpack.c\<close>): values of Lua written to a string of bytes under a
  format, and read back.

  A number of Lua is a 32-bit word (\<^verbatim>\<open>LUA_NUMBER_INTEGRAL\<close>, which also leaves out the codes \<open>d\<close> and \<open>f\<close>);
  \<^verbatim>\<open>char\<close> is signed, and the processor is little-endian.  An argument is known by what
  \<^verbatim>\<open>luaL_checknumber\<close> and \<^verbatim>\<open>luaL_checklstring\<close> make of it, as the virtual machine also converts between
  numbers and strings.
\<close>

record larg =
  as_number :: "u32 option"
  as_string :: "bytes option"

datatype lval = Number u32 | Str bytes

text \<open>The last error stands for an access outside of the string that is read.\<close>

datatype pk_error = Bad_code u8 | Bad_argument | Out_of_bounds

subsection \<open>Codes\<close>

definition badcode :: "u8 \<Rightarrow> pk_error + 'a" where
  "badcode c = Inl (Bad_code c)"

text \<open>The size of a number and whether it is signed; the size of the length that precedes a string.\<close>

definition num_code :: "u8 \<Rightarrow> (nat \<times> bool) option" where
  "num_code c =
    (if c = 110 \<or> c = 105 \<or> c = 108 then Some (4, True)
     else if c = 73 \<or> c = 76 then Some (4, False)
     else if c = 104 then Some (2, True) else if c = 72 then Some (2, False)
     else if c = 99 then Some (1, True) else if c = 98 then Some (1, False)
     else None)"

definition str_code :: "u8 \<Rightarrow> nat option" where
  "str_code c = (if c = 112 then Some 1 else if c = 80 then Some 2 else if c = 97 then Some 4 else None)"

abbreviation OP_STRING :: u8 where "OP_STRING \<equiv> 65"
abbreviation OP_ZSTRING :: u8 where "OP_ZSTRING \<equiv> 122"
abbreviation OP_BIGENDIAN :: u8 where "OP_BIGENDIAN \<equiv> 62"

definition is_endian :: "u8 \<Rightarrow> bool" where
  "is_endian c \<longleftrightarrow> c = 60 \<or> c = OP_BIGENDIAN \<or> c = 61"

definition is_blank :: "u8 \<Rightarrow> bool" where
  "is_blank c \<longleftrightarrow> c = 32 \<or> c = 44"

text \<open>\<^verbatim>\<open>e\<close> is 1 on this processor.\<close>

definition doendian :: "u8 \<Rightarrow> bool" where
  "doendian c \<longleftrightarrow> c = OP_BIGENDIAN"

text \<open>The loop of \<^verbatim>\<open>doswap\<close>: \<open>n\<close> exchanges, the indices moving towards each other.\<close>

fun doswap_loop :: "nat \<Rightarrow> nat \<Rightarrow> nat \<Rightarrow> bytes \<Rightarrow> bytes" where
  "doswap_loop 0 i j a = a"
| "doswap_loop (Suc n) i j a = doswap_loop n (i + 1) (j - 1) (a[i := a ! j, j := a ! i])"

definition doswap :: "bool \<Rightarrow> bytes \<Rightarrow> bytes" where
  "doswap swap p = (if swap then doswap_loop (length p div 2) 0 (length p - 1) p else p)"

text \<open>The bytes of a number in memory.\<close>

definition num_bytes :: "nat \<Rightarrow> u32 \<Rightarrow> bytes" where
  "num_bytes m x = map (\<lambda>j. ucast (drop_bit (8 * j) x)) [0..<m]"

fun le_number :: "bytes \<Rightarrow> u32" where
  "le_number [] = 0"
| "le_number (b # bs) = ucast b OR push_bit 8 (le_number bs)"

text \<open>A number of \<open>m\<close> bytes as a number of Lua.\<close>

definition widen :: "nat \<Rightarrow> bool \<Rightarrow> u32 \<Rightarrow> u32" where
  "widen m sg x = (if sg then signed_take_bit (8 * m - 1) x else take_bit (8 * m) x)"

subsection \<open>The format\<close>

abbreviation isdigit :: "u8 \<Rightarrow> bool" where
  "isdigit c \<equiv> 48 \<le> c \<and> c \<le> 57"

fun count :: "u32 \<Rightarrow> bytes \<Rightarrow> u32 \<times> bytes" where
  "count N [] = (N, [])"
| "count N (d # f) = (if isdigit d then count (10 * N + (ucast d - 48)) f else (N, d # f))"

lemma length_count: "length (snd (count N f)) \<le> length f"
  by (induction N f rule: count.induct) auto

text \<open>A code with its count, if there is one; the format ends at a zero byte.\<close>

function codes :: "bytes \<Rightarrow> (u8 \<times> u32 option) list" where
  "codes [] = []"
| "codes (c # f) =
    (if c = 0 then []
     else case f of
         [] \<Rightarrow> [(c, None)]
       | d # f' \<Rightarrow> if isdigit d then (c, Some (fst (count 0 f))) # codes (snd (count 0 f)) else (c, None) # codes f)"
  by pat_completeness auto
termination
  by (relation "measure length") (auto simp: less_Suc_eq_le intro: le_SucI length_count)

definition repeats :: "u32 option \<Rightarrow> nat" where
  "repeats N = (case N of None \<Rightarrow> 1 | Some n \<Rightarrow> unat n)"

subsection \<open>Packing\<close>

text \<open>One turn of the loop over a code: the bytes, the byte order, the arguments that are left and whether the count
  was set to 0.\<close>

definition pack_step :: "u8 \<Rightarrow> bool \<Rightarrow> larg list \<Rightarrow> pk_error + bytes \<times> bool \<times> larg list \<times> bool" where
  "pack_step c swap args =
    (if is_endian c then Inr ([], doendian c, args, True)
     else if c = OP_STRING \<or> c = OP_ZSTRING then
       (case args of
          a # args' \<Rightarrow> (case as_string a of
              None \<Rightarrow> Inl Bad_argument
            | Some bs \<Rightarrow> Inr (bs @ (if c = OP_ZSTRING then [0] else []), swap, args', False))
        | [] \<Rightarrow> Inl Bad_argument)
     else if is_blank c then Inr ([], swap, args, False)
     else case (str_code c, num_code c) of
         (Some m, _) \<Rightarrow>
           (case args of
              a # args' \<Rightarrow> (case as_string a of
                  None \<Rightarrow> Inl Bad_argument
                | Some bs \<Rightarrow> Inr (doswap swap (num_bytes m (of_nat (length bs))) @ bs, swap, args', False))
            | [] \<Rightarrow> Inl Bad_argument)
       | (None, Some (m, _)) \<Rightarrow>
           (case args of
              a # args' \<Rightarrow> (case as_number a of
                  None \<Rightarrow> Inl Bad_argument
                | Some x \<Rightarrow> Inr (doswap swap (num_bytes m x), swap, args', False))
            | [] \<Rightarrow> Inl Bad_argument)
       | (None, None) \<Rightarrow> badcode c)"

fun pack_repeat :: "nat \<Rightarrow> u8 \<Rightarrow> bool \<Rightarrow> larg list \<Rightarrow> pk_error + bytes \<times> bool \<times> larg list" where
  "pack_repeat 0 c swap args = Inr ([], swap, args)"
| "pack_repeat (Suc n) c swap args =
    (case pack_step c swap args of
       Inl e \<Rightarrow> Inl e
     | Inr (bs, swap, args, stop) \<Rightarrow>
         if stop then Inr (bs, swap, args)
         else (case pack_repeat n c swap args of Inl e \<Rightarrow> Inl e | Inr (bs', r) \<Rightarrow> Inr (bs @ bs', r)))"

fun pack_codes :: "(u8 \<times> u32 option) list \<Rightarrow> bool \<Rightarrow> larg list \<Rightarrow> pk_error + bytes" where
  "pack_codes [] swap args = Inr []"
| "pack_codes ((c, N) # cs) swap args =
    (case pack_repeat (repeats N) c swap args of
       Inl e \<Rightarrow> Inl e
     | Inr (bs, swap, args) \<Rightarrow> (case pack_codes cs swap args of Inl e \<Rightarrow> Inl e | Inr bs' \<Rightarrow> Inr (bs @ bs')))"

definition l_pack :: "bytes \<Rightarrow> larg list \<Rightarrow> pk_error + bytes" where
  "l_pack f args = pack_codes (codes f) False args"

subsection \<open>Unpacking\<close>

text \<open>\<open>Done\<close> leaves both loops.  Comparisons with the length of the string are unsigned.\<close>

datatype ustep = Done | Step "lval list" u32 bool bool

definition str_region :: "bytes \<Rightarrow> u32 \<Rightarrow> nat \<Rightarrow> bytes option" where
  "str_region s i n = (if unat i + n \<le> length s then Some (take n (drop (unat i) s)) else None)"

definition UNPACKNUMBER :: "nat \<Rightarrow> bool \<Rightarrow> bool \<Rightarrow> bytes \<Rightarrow> u32 \<Rightarrow> pk_error + ustep" where
  "UNPACKNUMBER m sg swap s i =
    (if of_nat (length s) < i + of_nat m then Inr Done
     else case str_region s i m of
         None \<Rightarrow> Inl Out_of_bounds
       | Some a \<Rightarrow> Inr (Step [Number (widen m sg (le_number (doswap swap a)))] (i + of_nat m) swap False))"

definition UNPACKSTRING :: "nat \<Rightarrow> bool \<Rightarrow> bytes \<Rightarrow> u32 \<Rightarrow> pk_error + ustep" where
  "UNPACKSTRING m swap s i =
    (if of_nat (length s) < i + of_nat m then Inr Done
     else case str_region s i m of
         None \<Rightarrow> Inl Out_of_bounds
       | Some a \<Rightarrow>
           (let l = le_number (doswap swap a)
            in if of_nat (length s) < i + of_nat m + l then Inr Done
               else case str_region s (i + of_nat m) (unat l) of
                   None \<Rightarrow> Inl Out_of_bounds
                 | Some t \<Rightarrow> Inr (Step [Str t] (i + of_nat m + l) swap False)))"

text \<open>\<open>N\<close> is the count before the loop took one from it.\<close>

definition unpack_step :: "u8 \<Rightarrow> u32 \<Rightarrow> bool \<Rightarrow> bytes \<Rightarrow> u32 \<Rightarrow> pk_error + ustep" where
  "unpack_step c N swap s i =
    (if is_endian c then Inr (Step [] i (doendian c) True)
     else if c = OP_STRING then
       (if of_nat (length s) < i + N then Inr Done
        else case str_region s i (unat N) of
            None \<Rightarrow> Inl Out_of_bounds
          | Some t \<Rightarrow> Inr (Step [Str t] (i + N) swap True))
     else if c = OP_ZSTRING then
       (if of_nat (length s) \<le> i then Inr Done
        else (let t = takeWhile (\<lambda>b. b \<noteq> 0) (drop (unat i) s)
              in Inr (Step [Str t] (i + of_nat (length t) + 1) swap False)))
     else if is_blank c then Inr (Step [] i swap False)
     else case (str_code c, num_code c) of
         (Some m, _) \<Rightarrow> UNPACKSTRING m swap s i
       | (None, Some (m, sg)) \<Rightarrow> UNPACKNUMBER m sg swap s i
       | (None, None) \<Rightarrow> badcode c)"

text \<open>The result has a flag for \<open>Done\<close>.\<close>

fun unpack_repeat :: "nat \<Rightarrow> u8 \<Rightarrow> bool \<Rightarrow> bytes \<Rightarrow> u32 \<Rightarrow> pk_error + lval list \<times> u32 \<times> bool \<times> bool" where
  "unpack_repeat 0 c swap s i = Inr ([], i, swap, False)"
| "unpack_repeat (Suc n) c swap s i =
    (case unpack_step c (of_nat (Suc n)) swap s i of
       Inl e \<Rightarrow> Inl e
     | Inr Done \<Rightarrow> Inr ([], i, swap, True)
     | Inr (Step vs i swap stop) \<Rightarrow>
         if stop then Inr (vs, i, swap, False)
         else (case unpack_repeat n c swap s i of Inl e \<Rightarrow> Inl e | Inr (vs', r) \<Rightarrow> Inr (vs @ vs', r)))"

fun unpack_codes :: "(u8 \<times> u32 option) list \<Rightarrow> bool \<Rightarrow> bytes \<Rightarrow> u32 \<Rightarrow> pk_error + lval list \<times> u32" where
  "unpack_codes [] swap s i = Inr ([], i)"
| "unpack_codes ((c, N) # cs) swap s i =
    (let none = (if N = Some 0 \<and> c = OP_STRING then [Str []] else [])
     in case unpack_repeat (repeats N) c swap s i of
         Inl e \<Rightarrow> Inl e
       | Inr (vs, i, swap, stop) \<Rightarrow>
           if stop then Inr (none @ vs, i)
           else (case unpack_codes cs swap s i of Inl e \<Rightarrow> Inl e | Inr (vs', i) \<Rightarrow> Inr (none @ vs @ vs', i)))"

text \<open>The results are the position after what was read, counted from 1, and the values.\<close>

definition l_unpack :: "bytes \<Rightarrow> bytes \<Rightarrow> u32 option \<Rightarrow> pk_error + u32 \<times> lval list" where
  "l_unpack s f init =
    (case unpack_codes (codes f) False s ((case init of None \<Rightarrow> 1 | Some p \<Rightarrow> p) - 1) of
       Inl e \<Rightarrow> Inl e
     | Inr (vs, i) \<Rightarrow> Inr (i + 1, vs))"

subsection \<open>Exchanging bytes\<close>

lemma nth_doswap_loop:
  assumes "2 * (i + n) \<le> length a" "k < length a"
  shows "doswap_loop n i (length a - 1 - i) a ! k =
    (if i \<le> k \<and> k < i + n \<or> i \<le> length a - 1 - k \<and> length a - 1 - k < i + n then a ! (length a - 1 - k) else a ! k)"
  using assms
proof (induction n arbitrary: i a)
  case (Suc n)
  let ?j = "length a - 1 - i"
  let ?a = "a[i := a ! ?j, ?j := a ! i]"
  have "doswap_loop (Suc n) i ?j a ! k = doswap_loop n (i + 1) (length ?a - 1 - (i + 1)) ?a ! k" by simp
  also have "\<dots> = (if i + 1 \<le> k \<and> k < i + 1 + n \<or> i + 1 \<le> length a - 1 - k \<and> length a - 1 - k < i + 1 + n
      then ?a ! (length a - 1 - k) else ?a ! k)"
    using Suc.IH [of "i + 1" ?a] Suc.prems by simp
  also have "\<dots> = (if i \<le> k \<and> k < i + Suc n \<or> i \<le> length a - 1 - k \<and> length a - 1 - k < i + Suc n
      then a ! (length a - 1 - k) else a ! k)"
    using Suc.prems by (auto simp: nth_list_update)
  finally show ?case .
qed auto

lemma length_doswap_loop [simp]: "length (doswap_loop n i j a) = length a"
  by (induction n i j a rule: doswap_loop.induct) auto

lemma doswap_rev: "doswap swap p = (if swap then rev p else p)"
proof -
  have "doswap_loop (length p div 2) 0 (length p - 1) p = rev p"
  proof (rule nth_equalityI)
    fix k assume "k < length (doswap_loop (length p div 2) 0 (length p - 1) p)"
    then have k: "k < length p" by simp
    have "k < length p div 2 \<or> length p - 1 - k < length p div 2 \<or> length p - 1 - k = k" using k by arith
    then show "doswap_loop (length p div 2) 0 (length p - 1) p ! k = rev p ! k"
      using nth_doswap_loop [of 0 "length p div 2" p k] k by (auto simp: rev_nth)
  qed simp
  then show ?thesis by (simp add: doswap_def)
qed

lemma doswap_twice [simp]: "doswap s (doswap s p) = p"
  by (simp add: doswap_rev)

lemma length_doswap [simp]: "length (doswap s p) = length p"
  by (simp add: doswap_rev)

subsection \<open>Bytes of a number\<close>

lemma length_num_bytes [simp]: "length (num_bytes m x) = m"
  by (simp add: num_bytes_def)

lemma num_bytes_Suc: "num_bytes (Suc m) x = ucast x # num_bytes m (drop_bit 8 x)"
  unfolding num_bytes_def by (simp only: upt_conv_Cons zero_less_Suc map_Suc_upt [symmetric] list.map) (simp add: ac_simps)

lemma le_number_bytes: "le_number (num_bytes m x) = take_bit (8 * m) x"
proof (induction m arbitrary: x)
  case (Suc m)
  show ?case unfolding num_bytes_Suc le_number.simps Suc.IH
    by (rule bit_word_eqI) (auto simp: bit_simps)
qed (simp add: num_bytes_def)

lemma widen_take_bit: "0 < m \<Longrightarrow> widen m sg (take_bit (8 * m) x) = widen m sg x"
  by (auto simp: widen_def signed_take_bit_take_bit)

lemma num_code_size: "num_code c = Some (m, sg) \<Longrightarrow> m \<in> {1, 2, 4}"
  by (auto simp: num_code_def split: if_splits)

lemma str_code_size: "str_code c = Some m \<Longrightarrow> m \<in> {1, 2, 4}"
  by (auto simp: str_code_def split: if_splits)

subsection \<open>Reading what was written\<close>

text \<open>What a code takes from the arguments, when the written form carries it: a string of the code \<open>A\<close> is not
  delimited, one of \<open>z\<close> ends at its first zero byte, and a length has its number of bytes.\<close>

definition value_step :: "u8 \<Rightarrow> larg list \<Rightarrow> (lval list \<times> larg list) option" where
  "value_step c args =
    (if is_endian c \<or> is_blank c then Some ([], args)
     else if c = OP_STRING then None
     else case args of
         [] \<Rightarrow> None
       | a # args' \<Rightarrow>
           if c = OP_ZSTRING then
             (case as_string a of None \<Rightarrow> None | Some t \<Rightarrow> if 0 \<in> set t then None else Some ([Str t], args'))
           else case (str_code c, num_code c) of
               (Some m, _) \<Rightarrow>
                 (case as_string a of None \<Rightarrow> None
                  | Some t \<Rightarrow> if length t < 2 ^ (8 * m) then Some ([Str t], args') else None)
             | (None, Some (m, sg)) \<Rightarrow>
                 (case as_number a of None \<Rightarrow> None | Some x \<Rightarrow> Some ([Number (widen m sg x)], args'))
             | (None, None) \<Rightarrow> None)"

fun value_repeat :: "nat \<Rightarrow> u8 \<Rightarrow> larg list \<Rightarrow> (lval list \<times> larg list) option" where
  "value_repeat 0 c args = Some ([], args)"
| "value_repeat (Suc n) c args =
    (case value_step c args of None \<Rightarrow> None
     | Some (vs, args) \<Rightarrow>
         if is_endian c then Some (vs, args)
         else (case value_repeat n c args of None \<Rightarrow> None | Some (vs', r) \<Rightarrow> Some (vs @ vs', r)))"

fun value_codes :: "(u8 \<times> u32 option) list \<Rightarrow> larg list \<Rightarrow> lval list option" where
  "value_codes [] args = Some []"
| "value_codes ((c, N) # cs) args =
    (case value_repeat (repeats N) c args of None \<Rightarrow> None
     | Some (vs, args) \<Rightarrow> (case value_codes cs args of None \<Rightarrow> None | Some vs' \<Rightarrow> if c = OP_STRING then None else Some (vs @ vs')))"

lemma str_region_middle:
  assumes "length (pre @ b @ post) < 2 ^ 31" "length b = n"
  shows "str_region (pre @ b @ post) (of_nat (length pre)) n = Some b"
    "of_nat (length pre) + of_nat n = (of_nat (length (pre @ b)) :: u32)"
    "(of_nat (length (pre @ b @ post)) < (of_nat (length (pre @ b)) :: u32)) = False"
proof -
  have "unat (of_nat (length pre) :: u32) = length pre" using assms by (intro unat_of_nat_small) simp
  then show "str_region (pre @ b @ post) (of_nat (length pre)) n = Some b" using assms(2) by (simp add: str_region_def)
  show "of_nat (length pre) + of_nat n = (of_nat (length (pre @ b)) :: u32)" using assms(2) by simp
  have "unat (of_nat (length (pre @ b)) :: u32) = length (pre @ b)" using assms by (intro unat_of_nat_small) simp
  moreover have "unat (of_nat (length (pre @ b @ post)) :: u32) = length (pre @ b @ post)"
    using assms by (intro unat_of_nat_small) simp
  ultimately show "(of_nat (length (pre @ b @ post)) < (of_nat (length (pre @ b)) :: u32)) = False"
    by (simp add: word_less_nat_alt del: of_nat_add)
qed

lemma UNPACKNUMBER_middle:
  assumes "length (pre @ b @ post) < 2 ^ 31" "doswap swap (num_bytes m x) = b" "0 < m"
  shows "UNPACKNUMBER m sg swap (pre @ b @ post) (of_nat (length pre)) =
    Inr (Step [Number (widen m sg x)] (of_nat (length (pre @ b))) swap False)"
proof -
  have m: "length b = m" using assms(2) by (simp flip: assms(2))
  have "le_number (doswap swap b) = take_bit (8 * m) x" by (simp add: le_number_bytes flip: assms(2))
  then show ?thesis
    unfolding UNPACKNUMBER_def str_region_middle [OF assms(1) m] by (simp add: widen_take_bit assms(3))
qed

lemma UNPACKSTRING_middle:
  assumes "length (pre @ (h @ t) @ post) < 2 ^ 31" "doswap swap (num_bytes m (of_nat (length t))) = h" "length t < 2 ^ (8 * m)"
  shows "UNPACKSTRING m swap (pre @ (h @ t) @ post) (of_nat (length pre)) =
    Inr (Step [Str t] (of_nat (length (pre @ h @ t))) swap False)"
proof -
  have m: "length h = m" by (simp flip: assms(2))
  have lt: "length (pre @ h @ (t @ post)) < 2 ^ 31" "length ((pre @ h) @ t @ post) < 2 ^ 31" using assms(1) by simp_all
  have "take_bit (8 * m) (length t) = length t" using assms(3) by (simp add: take_bit_nat_eq_self)
  then have "take_bit (8 * m) (of_nat (length t)) = (of_nat (length t) :: u32)" by (metis take_bit_of_nat)
  then have l: "le_number (doswap swap h) = of_nat (length t)" by (simp add: le_number_bytes flip: assms(2))
  have u: "unat (of_nat (length t) :: u32) = length t" using lt(1) by (intro unat_of_nat_small) simp
  note 1 = str_region_middle [OF lt(1) m] and 2 = str_region_middle [OF lt(2) refl]
  have e: "pre @ (h @ t) @ post = pre @ h @ (t @ post)" by simp
  have e': "pre @ h @ (t @ post) = (pre @ h) @ t @ post" by simp
  show ?thesis
    unfolding UNPACKSTRING_def e 1 Let_def l option.case if_False u 2(2)
    unfolding e' 2 by simp
qed

lemma unpack_zstring:
  assumes "0 \<notin> set t" "length (pre @ (t @ [0]) @ post) < 2 ^ 31"
  shows "unpack_step OP_ZSTRING N swap (pre @ (t @ [0]) @ post) (of_nat (length pre)) =
    Inr (Step [Str t] (of_nat (length (pre @ t @ [0]))) swap False)"
proof -
  let ?s = "pre @ (t @ [0]) @ post"
  have i: "unat (of_nat (length pre) :: u32) = length pre" using assms(2) by (intro unat_of_nat_small) simp
  moreover have "unat (of_nat (length ?s) :: u32) = length ?s" using assms(2) by (intro unat_of_nat_small) simp
  ultimately have "(of_nat (length ?s) \<le> (of_nat (length pre) :: u32)) = False" by (simp add: word_le_nat_alt del: of_nat_add)
  moreover have "\<forall>x \<in> set t. x \<noteq> 0" using assms(1) by blast
  then have "takeWhile (\<lambda>b. b \<noteq> 0) (drop (length pre) ?s) = t" by (simp add: takeWhile_tail)
  moreover have "\<not> is_endian OP_ZSTRING" "OP_ZSTRING \<noteq> OP_STRING" by code_simp+
  ultimately show ?thesis unfolding unpack_step_def Let_def i by (simp add: add.assoc)
qed

lemma unpack_pack_step:
  assumes "value_step c args = Some (vs, args')"
  shows "\<exists>b swap'. pack_step c swap args = Inr (b, swap', args', is_endian c) \<and>
    (\<forall>pre post N. length (pre @ b @ post) < 2 ^ 31 \<longrightarrow>
      unpack_step c N swap (pre @ b @ post) (of_nat (length pre)) = Inr (Step vs (of_nat (length (pre @ b))) swap' (is_endian c)))"
proof -
  consider "is_endian c" | "\<not> is_endian c" "is_blank c" | a rest where "\<not> is_endian c" "\<not> is_blank c" "c \<noteq> OP_STRING" "args = a # rest"
    using assms by (auto simp: value_step_def split: if_splits list.splits)
  then show ?thesis
  proof cases
    case 1
    then show ?thesis using assms by (auto simp: value_step_def pack_step_def unpack_step_def)
  next
    case 2
    moreover have "c \<noteq> OP_STRING" "c \<noteq> OP_ZSTRING" using 2 by (auto simp: is_blank_def)
    ultimately show ?thesis using assms by (auto simp: value_step_def pack_step_def unpack_step_def)
  next
    case 3
    note V = assms [unfolded value_step_def, simplified 3, simplified]
    consider "c = OP_ZSTRING" | m where "c \<noteq> OP_ZSTRING" "str_code c = Some m"
      | m sg where "c \<noteq> OP_ZSTRING" "str_code c = None" "num_code c = Some (m, sg)"
      using V by (cases "c = OP_ZSTRING") (auto split: option.splits)
    then show ?thesis
    proof cases
      case 1
      then obtain t where t: "as_string a = Some t" "0 \<notin> set t" "vs = [Str t]" "args' = rest"
        using V by (auto split: option.splits if_splits)
      have "pack_step c swap args = Inr (t @ [0], swap, args', is_endian c)"
        using 3 1 t by (simp add: pack_step_def)
      then show ?thesis using unpack_zstring [OF t(2)] 1 3 t(3) by (intro exI conjI allI impI) auto
    next
      case (2 m)
      then obtain t where t: "as_string a = Some t" "length t < 2 ^ (8 * m)" "vs = [Str t]" "args' = rest"
        using V by (auto split: option.splits if_splits)
      have "pack_step c swap args = Inr (doswap swap (num_bytes m (of_nat (length t))) @ t, swap, args', is_endian c)"
        using 3 2 t by (simp add: pack_step_def)
      moreover have "unpack_step c N swap s i = UNPACKSTRING m swap s i" for N s i
        using 3 2 by (simp add: unpack_step_def)
      ultimately show ?thesis
        using UNPACKSTRING_middle [OF _ refl t(2)] 3 t(3) by (intro exI conjI allI impI) auto
    next
      case (3 m sg)
      then obtain x where x: "as_number a = Some x" "vs = [Number (widen m sg x)]" "args' = rest"
        using V by (auto split: option.splits if_splits)
      note c = \<open>\<not> is_endian c\<close> \<open>\<not> is_blank c\<close> \<open>c \<noteq> OP_STRING\<close> \<open>args = a # rest\<close>
      have "pack_step c swap args = Inr (doswap swap (num_bytes m x), swap, args', is_endian c)"
        using c 3 x by (simp add: pack_step_def)
      moreover have "unpack_step c N swap s i = UNPACKNUMBER m sg swap s i" for N s i
        using c 3 by (simp add: unpack_step_def)
      moreover have "0 < m" using num_code_size [OF 3(3)] by auto
      ultimately show ?thesis
        using UNPACKNUMBER_middle [OF _ refl] c x(2) by (intro exI conjI allI impI) auto
    qed
  qed
qed
lemma unpack_pack_repeat:
  assumes "value_repeat n c args = Some (vs, args')"
  shows "\<exists>b swap'. pack_repeat n c swap args = Inr (b, swap', args') \<and>
    (\<forall>pre post. length (pre @ b @ post) < 2 ^ 31 \<longrightarrow>
      unpack_repeat n c swap (pre @ b @ post) (of_nat (length pre)) = Inr (vs, of_nat (length (pre @ b)), swap', False))"
  using assms
proof (induction n arbitrary: args vs swap)
  case (Suc n)
  obtain v1 args1 where v1: "value_step c args = Some (v1, args1)" using Suc.prems by (auto split: option.splits)
  obtain b1 swap1 where p1: "pack_step c swap args = Inr (b1, swap1, args1, is_endian c)"
    and u1: "\<And>pre post N. length (pre @ b1 @ post) < 2 ^ 31 \<Longrightarrow>
      unpack_step c N swap (pre @ b1 @ post) (of_nat (length pre)) = Inr (Step v1 (of_nat (length (pre @ b1))) swap1 (is_endian c))"
    using unpack_pack_step [OF v1] by blast
  show ?case
  proof (cases "is_endian c")
    case True
    then show ?thesis using Suc.prems v1 p1 u1 by auto
  next
    case False
    then obtain v2 where v2: "value_repeat n c args1 = Some (v2, args')" "vs = v1 @ v2"
      using Suc.prems v1 by (auto split: option.splits)
    obtain b2 swap2 where p2: "pack_repeat n c swap1 args1 = Inr (b2, swap2, args')"
      and u2: "\<And>pre post. length (pre @ b2 @ post) < 2 ^ 31 \<Longrightarrow>
        unpack_repeat n c swap1 (pre @ b2 @ post) (of_nat (length pre)) = Inr (v2, of_nat (length (pre @ b2)), swap2, False)"
      using Suc.IH [OF v2(1)] by blast
    have "unpack_repeat (Suc n) c swap (pre @ (b1 @ b2) @ post) (of_nat (length pre)) = Inr (vs, of_nat (length (pre @ b1 @ b2)), swap2, False)"
      if "length (pre @ (b1 @ b2) @ post) < 2 ^ 31" for pre post
      using u1 [of pre "b2 @ post"] u2 [of "pre @ b1" post] that False v2(2) by simp
    moreover have "pack_repeat (Suc n) c swap args = Inr (b1 @ b2, swap2, args')" using p1 p2 False by simp
    ultimately show ?thesis by blast
  qed
qed simp

lemma unpack_pack_codes:
  assumes "value_codes cs args = Some vs"
  shows "\<exists>b. pack_codes cs swap args = Inr b \<and>
    (\<forall>pre post. length (pre @ b @ post) < 2 ^ 31 \<longrightarrow>
      unpack_codes cs swap (pre @ b @ post) (of_nat (length pre)) = Inr (vs, of_nat (length (pre @ b))))"
  using assms
proof (induction cs swap args arbitrary: vs rule: pack_codes.induct)
  case (2 c N cs swap args)
  obtain v1 args1 v2 where v: "value_repeat (repeats N) c args = Some (v1, args1)" "value_codes cs args1 = Some v2"
    "c \<noteq> OP_STRING" "vs = v1 @ v2"
    using "2.prems" by (auto split: option.splits if_splits)
  obtain b1 swap1 where p1: "pack_repeat (repeats N) c swap args = Inr (b1, swap1, args1)"
    and u1: "\<And>pre post. length (pre @ b1 @ post) < 2 ^ 31 \<Longrightarrow>
      unpack_repeat (repeats N) c swap (pre @ b1 @ post) (of_nat (length pre)) = Inr (v1, of_nat (length (pre @ b1)), swap1, False)"
    using unpack_pack_repeat [OF v(1)] by blast
  obtain b2 where p2: "pack_codes cs swap1 args1 = Inr b2"
    and u2: "\<And>pre post. length (pre @ b2 @ post) < 2 ^ 31 \<Longrightarrow>
      unpack_codes cs swap1 (pre @ b2 @ post) (of_nat (length pre)) = Inr (v2, of_nat (length (pre @ b2)))"
    using "2.IH" [OF p1 refl refl v(2)] by blast
  have "unpack_codes ((c, N) # cs) swap (pre @ (b1 @ b2) @ post) (of_nat (length pre)) = Inr (vs, of_nat (length (pre @ b1 @ b2)))"
    if "length (pre @ (b1 @ b2) @ post) < 2 ^ 31" for pre post
    using u1 [of pre "b2 @ post"] u2 [of "pre @ b1" post] that v(3,4) by simp
  moreover have "pack_codes ((c, N) # cs) swap args = Inr (b1 @ b2)" using p1 p2 by simp
  ultimately show ?case by blast
qed simp

text \<open>C32: Packing the arguments under a format succeeds when the written form can carry them, and unpacking a result below
  2 GB under the same format gives the strings back and the numbers cut to the size of their code, together with the
  position after the last byte.  This covers counts, changes of the byte order within the format and strings with
  their length.  What the written form can carry: known codes other than A, whose length is not written, with an argument
  of its kind for each; no zero byte in a string under z, and no string longer than the field of its length says.\<close>
theorem pack_roundtrip:
  assumes "value_codes (codes f) args = Some vs"
  shows "\<exists>s. l_pack f args = Inr s \<and> (length s < 2 ^ 31 \<longrightarrow> l_unpack s f None = Inr (of_nat (length s) + 1, vs))"
proof -
  obtain b where p: "l_pack f args = Inr b"
    and u: "\<And>pre post. length (pre @ b @ post) < 2 ^ 31 \<Longrightarrow>
      unpack_codes (codes f) False (pre @ b @ post) (of_nat (length pre)) = Inr (vs, of_nat (length (pre @ b)))"
    using unpack_pack_codes [OF assms, of False] unfolding l_pack_def by blast
  have "l_unpack b f None = Inr (of_nat (length b) + 1, vs)" if "length b < 2 ^ 31"
    using u [of "[]" "[]"] that by (simp add: l_unpack_def)
  with p show ?thesis by blast
qed

abbreviation num :: "u32 \<Rightarrow> larg" where "num x \<equiv> \<lparr>as_number = Some x, as_string = None\<rparr>"
abbreviation str :: "bytes \<Rightarrow> larg" where "str t \<equiv> \<lparr>as_number = None, as_string = Some t\<rparr>"

text \<open>The format \<open>>h2bz<P\<close>.\<close>

theorem pack_roundtrip_witness:
  "\<exists>s. l_pack [62, 104, 50, 98, 122, 60, 80] [num (- 2), num 1, num 511, str [65, 66], str [1, 0]] = Inr s \<and>
    (length s < 2 ^ 31 \<longrightarrow> l_unpack s [62, 104, 50, 98, 122, 60, 80] None =
      Inr (of_nat (length s) + 1, [Number (- 2), Number 1, Number 255, Str [65, 66], Str [1, 0]]))"
proof -
  have c: "codes [62, 104, 50, 98, 122, 60, 80] = [(62, None), (104, Some 2), (98, None), (122, None), (60, None), (80, None)]"
    by code_simp
  have r: "repeats (Some 2) = Suc (Suc 0)" "repeats None = Suc 0" by (simp_all add: repeats_def)
  have "value_codes (codes [62, 104, 50, 98, 122, 60, 80]) [num (- 2), num 1, num 511, str [65, 66], str [1, 0]] =
    Some [Number (- 2), Number 1, Number 255, Str [65, 66], Str [1, 0]]"
    unfolding c
    by (simp add: r value_step_def is_endian_def is_blank_def str_code_def num_code_def widen_def)
  then show ?thesis by (rule pack_roundtrip)
qed
subsection \<open>Staying inside the string\<close>

definition in_str :: "bytes \<Rightarrow> u32 \<Rightarrow> bool" where
  "in_str s i \<longleftrightarrow> unat i \<le> length s + 1"

text \<open>What a step does to the position: never out of bounds, and a new position at most one byte after the string.\<close>

definition step_inside :: "bytes \<Rightarrow> pk_error + ustep \<Rightarrow> bool" where
  "step_inside s r = (case r of Inl e \<Rightarrow> e \<noteq> Out_of_bounds | Inr Done \<Rightarrow> True | Inr (Step vs i swap stop) \<Rightarrow> in_str s i)"

lemma step_inside_simps [simp]:
  "step_inside s (Inl e) = (e \<noteq> Out_of_bounds)" "step_inside s (Inr Done)" "step_inside s (Inr (Step vs i swap stop)) = in_str s i"
  by (simp_all add: step_inside_def)

lemma advance_pos:
  assumes "length s < 2 ^ 30" "in_str s i" "unat n < 2 ^ 31"
  shows "unat (i + n) = unat i + unat n" "of_nat (length s) < i + n \<longleftrightarrow> length s < unat i + unat n"
    "\<not> of_nat (length s) < i + n \<Longrightarrow> in_str s (i + n) \<and> unat i + unat n \<le> length s"
proof -
  show u: "unat (i + n) = unat i + unat n" using assms by (simp add: in_str_def unat_word_ariths)
  have "unat (of_nat (length s) :: u32) = length s" using assms(1) by (intro unat_of_nat_small) simp
  then show "of_nat (length s) < i + n \<longleftrightarrow> length s < unat i + unat n" by (simp add: word_less_nat_alt u)
  then show "\<not> of_nat (length s) < i + n \<Longrightarrow> in_str s (i + n) \<and> unat i + unat n \<le> length s" by (simp add: in_str_def u)
qed

lemma UNPACKNUMBER_inside:
  assumes "length s < 2 ^ 30" "in_str s i" "m \<le> 4"
  shows "step_inside s (UNPACKNUMBER m sg swap s i)"
proof -
  have m: "unat (of_nat m :: u32) = m" using assms(3) by (intro unat_of_nat_small) simp
  show ?thesis using advance_pos(3) [OF assms(1,2), of "of_nat m"] assms(3) m
    by (auto simp: UNPACKNUMBER_def str_region_def)
qed

lemma le_number_bit: "bit (le_number bs) n \<Longrightarrow> n < 8 * length bs"
proof (induction bs arbitrary: n)
  case (Cons b bs)
  show ?case
  proof (cases "n < 8")
    case False
    then have "bit (le_number bs) (n - 8)" using Cons.prems by (auto simp: bit_simps dest: bit_imp_le_length)
    then show ?thesis using Cons.IH [of "n - 8"] False by simp
  qed simp
qed simp

lemma le_number_less: "unat (le_number bs) < 2 ^ (8 * length bs)"
proof -
  have "le_number bs = take_bit (8 * length bs) (le_number bs)"
    by (rule bit_word_eqI) (auto simp: bit_simps dest: le_number_bit)
  then have "unat (le_number bs) = take_bit (8 * length bs) (unat (le_number bs))" by (metis unsigned_take_bit_eq)
  then show ?thesis by (metis take_bit_nat_less_exp)
qed

lemma UNPACKSTRING_inside:
  assumes "length s < 2 ^ 30" "in_str s i" "m \<le> 2"
  shows "step_inside s (UNPACKSTRING m swap s i)"
proof (cases "of_nat (length s) < i + of_nat m")
  case False
  let ?a = "take m (drop (unat i) s)"
  let ?l = "le_number (doswap swap ?a)"
  have m: "unat (of_nat m :: u32) = m" using assms(3) by (intro unat_of_nat_small) simp
  have i: "in_str s (i + of_nat m)" "unat i + m \<le> length s" "unat (i + of_nat m) = unat i + m"
    using advance_pos [OF assms(1,2), of "of_nat m"] False assms(3) m by simp_all
  have "unat ?l < 2 ^ (8 * 2)"
    by (rule less_le_trans [OF le_number_less]) (use assms(3) i(2) power_increasing [of "8 * m" 16 "2 :: nat"] in simp)
  then show ?thesis using advance_pos(3) [OF assms(1) i(1), of ?l] False i
    by (auto simp: UNPACKSTRING_def str_region_def Let_def)
qed (simp add: UNPACKSTRING_def)

lemma unpack_step_inside:
  assumes "length s < 2 ^ 30" "in_str s i" "unat N < 2 ^ 31" "c \<noteq> 97"
  shows "step_inside s (unpack_step c N swap s i)"
proof -
  have z: "in_str s (i + of_nat (length (takeWhile (\<lambda>b. b \<noteq> 0) (drop (unat i) s))) + 1)" if "\<not> of_nat (length s) \<le> i"
  proof -
    let ?t = "takeWhile (\<lambda>b. b \<noteq> 0) (drop (unat i) s)"
    have "unat (of_nat (length s) :: u32) = length s" using assms(1) by (intro unat_of_nat_small) simp
    then have i: "unat i < length s" using that by (simp add: word_le_nat_alt not_le)
    have t: "length ?t \<le> length s - unat i" using length_takeWhile_le [of "\<lambda>b. b \<noteq> 0" "drop (unat i) s"] by simp
    then have "unat (of_nat (length ?t) :: u32) = length ?t" using assms(1) by (intro unat_of_nat_small) simp
    then show ?thesis using i t assms(1) by (simp add: in_str_def unat_word_ariths)
  qed
  have "str_code c = Some m \<Longrightarrow> m \<le> 2" for m using assms(4) by (auto simp: str_code_def split: if_splits)
  moreover have "num_code c = Some (m, sg) \<Longrightarrow> m \<le> 4" for m sg using num_code_size by fastforce
  ultimately show ?thesis
    using UNPACKNUMBER_inside [OF assms(1,2)] UNPACKSTRING_inside [OF assms(1,2)] advance_pos(3) [OF assms(1-3)] assms(2) z
    by (auto simp: unpack_step_def badcode_def str_region_def Let_def split: option.splits)
qed
lemma unpack_repeat_inside:
  assumes "length s < 2 ^ 30" "in_str s i" "n < 2 ^ 31" "c \<noteq> 97"
  shows "case unpack_repeat n c swap s i of Inl e \<Rightarrow> e \<noteq> Out_of_bounds | Inr (vs, i', r) \<Rightarrow> in_str s i'"
  using assms(2,3)
proof (induction n arbitrary: i swap)
  case (Suc n)
  have "unat (of_nat (Suc n) :: u32) = Suc n" using Suc.prems(2) by (intro unat_of_nat_small) simp
  then have "step_inside s (unpack_step c (of_nat (Suc n)) swap s i)"
    using unpack_step_inside [OF assms(1) Suc.prems(1) _ assms(4)] Suc.prems(2) by simp
  moreover have "case unpack_repeat n c sw s i1 of Inl e \<Rightarrow> e \<noteq> Out_of_bounds | Inr (vs, i', r) \<Rightarrow> in_str s i'"
    if "in_str s i1" for i1 sw using Suc.IH [OF that] Suc.prems(2) by simp
  ultimately show ?case
    using Suc.prems(1) by (fastforce simp: step_inside_def simp del: of_nat_Suc split: sum.splits ustep.splits)
qed simp

lemma unpack_codes_inside:
  assumes "length s < 2 ^ 30" "\<forall>(c, N) \<in> set cs. c \<noteq> 97 \<and> repeats N < 2 ^ 31" "in_str s i"
  shows "unpack_codes cs swap s i \<noteq> Inl Out_of_bounds"
  using assms(2,3)
proof (induction cs arbitrary: i swap)
  case (Cons p cs)
  obtain c N where p: "p = (c, N)" by (cases p)
  have "case unpack_repeat (repeats N) c swap s i of Inl e \<Rightarrow> e \<noteq> Out_of_bounds | Inr (vs, i', r) \<Rightarrow> in_str s i'"
    by (rule unpack_repeat_inside) (use assms(1) Cons.prems p in auto)
  then show ?case using Cons p by (auto simp: Let_def split: sum.splits if_splits)
qed simp

lemmas unpack_eval = l_unpack_def unpack_step_def is_endian_def is_blank_def str_code_def num_code_def str_region_def

lemma unpack_before: "l_unpack [1, 2, 3] [98] (Some 0) = Inl Out_of_bounds"
proof -
  have "codes [98] = [(98, None)]" "repeats None = Suc 0" by (code_simp, simp add: repeats_def)
  moreover have "(- 1 :: u32) = 0xFFFFFFFF" by simp
  then have "unat (- 1 :: u32) = unat (0xFFFFFFFF :: u32)" by (rule arg_cong)
  then have "unat (- 1 :: u32) = 4294967295" by simp
  ultimately show ?thesis by (simp add: unpack_eval UNPACKNUMBER_def)
qed

lemma unpack_long: "l_unpack [0xFF, 0xFF, 0xFF, 0xFF, 7] [97] None = Inl Out_of_bounds"
proof -
  have "codes [97] = [(97, None)]" "repeats None = Suc 0" by (code_simp, simp add: repeats_def)
  moreover have "le_number [0xFF, 0xFF, 0xFF, 0xFF] = 0xFFFFFFFF" by code_simp
  ultimately show ?thesis by (simp add: unpack_eval UNPACKSTRING_def doswap_rev Let_def)
qed

text \<open>Unpacking never reads outside of the string when the start is not before it, no count reaches \<open>2 ^ 31\<close> and
  the code \<open>a\<close> does not occur.  Each of the first and the last condition is needed: with the start 0 a byte before the
  string is read, and a length of \<open>a\<close> near \<open>2 ^ 32\<close> passes the check of the end.\<close>
theorem unpack_stays_inside:
  assumes "length s < 2 ^ 30" "\<forall>(c, N) \<in> set (codes f). c \<noteq> 97 \<and> repeats N < 2 ^ 31" "0 < unat p \<and> unat p \<le> length s + 2"
  shows "l_unpack s f (Some p) \<noteq> Inl Out_of_bounds \<and> l_unpack [1, 2, 3] [98] (Some 0) = Inl Out_of_bounds
    \<and> l_unpack [0xFF, 0xFF, 0xFF, 0xFF, 7] [97] None = Inl Out_of_bounds"
proof -
  have "p \<noteq> 0" using assms(3) by auto
  then have "unat (p - 1) = unat p - 1" by (rule unat_minus_one)
  then have "in_str s (p - 1)" using assms(3) unfolding in_str_def by linarith
  then have "l_unpack s f (Some p) \<noteq> Inl Out_of_bounds"
    using unpack_codes_inside [OF assms(1,2), of "p - 1" False] by (auto simp: l_unpack_def split: sum.splits)
  then show ?thesis using unpack_before unpack_long by blast
qed

theorem unpack_stays_inside_witness: "l_unpack [65, 66] [122, 98] (Some 1) \<noteq> Inl Out_of_bounds"
proof -
  have "codes [122, 98] = [(122, None), (98, None)]" by code_simp
  then show ?thesis using unpack_stays_inside [of "[65, 66]" "[122, 98]" 1] by (simp add: repeats_def)
qed

end
