(* ===== verification/Power_On.thy ===== *)
theory Power_On
  imports Uart Rtos
begin

text \<open>
  The main file of the application (\<^verbatim>\<open>platform/coolsand/src/platform_main.c\<close>): the start, the callbacks of the
  base system for power management and for the AT channel, and the task that passes the AT data on; with
  \<^verbatim>\<open>platform_pmd.c\<close> and \<^verbatim>\<open>modules/src/pmd.c\<close>, the power management of scripts.

  The callbacks run in tasks of the base system, the script in another one; an action below is one of their calls, and
  a list of actions one of the ways they can be interleaved.  What the base system reports (voltage and charger, success
  of an allocation) is an argument.
\<close>

subsection \<open>Data\<close>

datatype poweron_reason = BY_KEY | BY_CHARGER | BY_ALARM | BY_RESET | BY_OTHER | BY_INVALID | BY_EXCEPTION | BY_HOST | BY_WATCHDOG

text \<open>Messages of the power management with the field of the union that is read; \<^verbatim>\<open>BAT_CHR_STOP\<close> says whether the
  reason is a missing charger.\<close>

datatype pm_msg =
    POWERON_ON_IND poweron_reason
  | CHR_PRESENT_IND bool
  | BAT_PRESENT_IND bool
  | BAT_LEVEL_IND u8
  | BAT_CHARGING u8
  | BAT_CHR_FULL u8
  | BAT_CHR_STOP bool
  | BAT_CHR_ERR
  | OTHER_EVT

text \<open>\<^verbatim>\<open>get_batteryStatus\<close> and \<^verbatim>\<open>get_chargerStatus\<close>, as far as they are used.\<close>

record batt_status =
  batteryVolt :: u16
  plugged_in :: bool

record PlatformPmdData =
  battStatus :: bool
  chargerStatus :: bool
  chargeState :: u8
  battLevel :: u8
  battVolt :: u16

abbreviation PLATFORM_BATT_NOT_CHARGING :: u8 where "PLATFORM_BATT_NOT_CHARGING \<equiv> 0"
abbreviation PLATFORM_BATT_CHARING :: u8 where "PLATFORM_BATT_CHARING \<equiv> 1"
abbreviation PLATFORM_BATT_CHARGE_STOP :: u8 where "PLATFORM_BATT_CHARGE_STOP \<equiv> 2"

definition pmdData_start :: PlatformPmdData where
  "pmdData_start = \<lparr>battStatus = True, chargerStatus = False, chargeState = PLATFORM_BATT_NOT_CHARGING, battLevel = 0xFF, battVolt = 0\<rparr>"

text \<open>A message of the task; without data (an allocation failed) its length is not set either.\<close>

datatype CustMessage = OPENAT_VAT_MSG "bytes option"

datatype cust_call = Set_enc_data_ok | Init_at | Init_pmd | Create_task | Print_info | Poweron_system

text \<open>\<^verbatim>\<open>poweronSyncSemaphore\<close> is the count of the semaphore, when there is one; \<open>at_read\<close> records what the script has
  read from the AT channel.  \<^verbatim>\<open>cust_poweron_system\<close> is called from the task and from the script, with no lock around
  its check and its assignment: \<open>task_between\<close> and \<open>script_between\<close> say that the one or the other has passed the
  check and has not yet set the flag.\<close>

record cust =
  reason :: poweron_reason
  poweronSyncSemaphore :: "nat option"
  hasPoweron :: bool
  pmdData :: PlatformPmdData
  mailbox :: "CustMessage list"
  in_loop :: bool
  task_between :: bool
  script_between :: bool
  cust_uart :: uart_sys
  cust_rtos :: rtos_sys
  at_read :: bytes
  cust_calls :: "cust_call list"

definition clog :: "cust_call list \<Rightarrow> cust \<Rightarrow> cust" where
  "clog cs s = s\<lparr>cust_calls := cust_calls s @ cs\<rparr>"

subsection \<open>Start\<close>

definition cust_init :: "uart_sys \<Rightarrow> rtos_sys \<Rightarrow> cust" where
  "cust_init u r = \<lparr>reason = BY_INVALID, poweronSyncSemaphore = None, hasPoweron = False, pmdData = pmdData_start,
     mailbox = [], in_loop = False, task_between = False, script_between = False, cust_uart = u, cust_rtos = r, at_read = [], cust_calls = []\<rparr>"

definition cust_poweron_reason_init :: "cust \<Rightarrow> cust" where
  "cust_poweron_reason_init s = (if poweronSyncSemaphore s = None then s\<lparr>poweronSyncSemaphore := Some 0\<rparr> else s)"

definition cust_main :: "cust \<Rightarrow> cust" where
  "cust_main s =
    (let s = cust_poweron_reason_init (clog [Set_enc_data_ok] s);
         s = s\<lparr>cust_uart := platform_setup_vat_queue (cust_uart s)\<rparr>
     in clog [Init_at, Init_pmd, Print_info, Create_task, Create_task] s)"

subsection \<open>Power management messages\<close>

text \<open>The end of the handler: the data are sent to the script.\<close>

definition pmd_send :: "cust \<Rightarrow> cust" where
  "pmd_send s =
    (let d = pmdData s
     in s\<lparr>cust_rtos := snd (platform_rtos_send
          (RTOS_MSG_PMD (battStatus d) (chargerStatus d) (chargeState d) (battLevel d) (battVolt d)) (cust_rtos s))\<rparr>)"

definition set_pmd :: "(PlatformPmdData \<Rightarrow> PlatformPmdData) \<Rightarrow> cust \<Rightarrow> cust" where
  "set_pmd f s = s\<lparr>pmdData := f (pmdData s)\<rparr>"

definition cust_pm_message :: "batt_status \<Rightarrow> pm_msg \<Rightarrow> cust \<Rightarrow> cust" where
  "cust_pm_message bt m s =
    (let d = pmdData s in
     case m of
       POWERON_ON_IND r \<Rightarrow>
         pmd_send (if reason s = BY_INVALID
           then (let s = set_pmd (\<lambda>d. d\<lparr>battVolt := batteryVolt bt, chargerStatus := plugged_in bt\<rparr>) s
                 in s\<lparr>reason := r, poweronSyncSemaphore := map_option Suc (poweronSyncSemaphore s)\<rparr>)
           else s)
     | CHR_PRESENT_IND p \<Rightarrow>
         pmd_send (set_pmd (\<lambda>d. if p then d\<lparr>chargerStatus := p\<rparr>
           else d\<lparr>chargerStatus := p, chargeState := PLATFORM_BATT_NOT_CHARGING\<rparr>) s)
     | BAT_PRESENT_IND p \<Rightarrow> pmd_send (set_pmd (\<lambda>d. d\<lparr>battStatus := p\<rparr>) s)
     | BAT_LEVEL_IND l \<Rightarrow>
         if battLevel d = l then s
         else pmd_send (set_pmd (\<lambda>d. d\<lparr>battLevel := l, battVolt := batteryVolt bt\<rparr>) s)
     | BAT_CHARGING l \<Rightarrow>
         if chargeState d = PLATFORM_BATT_CHARING \<and> battLevel d = l then s
         else pmd_send (set_pmd (\<lambda>d. d\<lparr>chargeState := PLATFORM_BATT_CHARING, battLevel := l, battVolt := batteryVolt bt\<rparr>) s)
     | BAT_CHR_FULL l \<Rightarrow>
         pmd_send (set_pmd (\<lambda>d. d\<lparr>chargeState := PLATFORM_BATT_CHARGE_STOP, battLevel := l, battVolt := batteryVolt bt\<rparr>) s)
     | BAT_CHR_STOP no_charger \<Rightarrow>
         pmd_send (set_pmd (\<lambda>d. d\<lparr>chargeState := if no_charger then PLATFORM_BATT_NOT_CHARGING else PLATFORM_BATT_CHARGE_STOP\<rparr>) s)
     | BAT_CHR_ERR \<Rightarrow> pmd_send (set_pmd (\<lambda>d. d\<lparr>chargeState := PLATFORM_BATT_CHARGE_STOP\<rparr>) s)
     | OTHER_EVT \<Rightarrow> pmd_send s)"

subsection \<open>AT data and the task\<close>

text \<open>The arguments say which of the two allocations succeed.\<close>

definition cust_at_message :: "bool \<Rightarrow> bool \<Rightarrow> bytes \<Rightarrow> cust \<Rightarrow> cust" where
  "cust_at_message ok_msg ok_data pData s =
    (if ok_msg then s\<lparr>mailbox := mailbox s @ [OPENAT_VAT_MSG (if ok_data then Some pData else None)]\<rparr> else s)"

text \<open>The check, and what follows it when the system was not started yet.  \<open>cust_poweron_system\<close> is the call that
  nobody interrupts.\<close>

definition cust_poweron_check :: "cust \<Rightarrow> bool" where
  "cust_poweron_check s \<longleftrightarrow> \<not> hasPoweron s"

definition cust_poweron_set :: "cust \<Rightarrow> cust" where
  "cust_poweron_set s = (clog [Poweron_system] s)\<lparr>hasPoweron := True\<rparr>"

definition cust_poweron_system :: "cust \<Rightarrow> cust" where
  "cust_poweron_system s = (if cust_poweron_check s then cust_poweron_set s else s)"

text \<open>The task blocks (\<open>None\<close>) while the semaphore is 0; it deletes the semaphore.\<close>

definition cust_wait_for_poweron_reason :: "cust \<Rightarrow> cust option" where
  "cust_wait_for_poweron_reason s =
    (case poweronSyncSemaphore s of Some (Suc n) \<Rightarrow> Some (s\<lparr>poweronSyncSemaphore := None\<rparr>) | _ \<Rightarrow> None)"

definition cust_task_start :: "cust \<Rightarrow> cust option" where
  "cust_task_start s =
    (case cust_wait_for_poweron_reason s of
       None \<Rightarrow> None
     | Some s \<Rightarrow> Some (if reason s \<noteq> BY_CHARGER \<and> cust_poweron_check s then s\<lparr>task_between := True\<rparr> else s\<lparr>in_loop := True\<rparr>))"

definition cust_task_set :: "cust \<Rightarrow> cust" where
  "cust_task_set s = (cust_poweron_set s)\<lparr>task_between := False, in_loop := True\<rparr>"

text \<open>One turn of the loop, for a message that has arrived.  A message without data makes
  \<^verbatim>\<open>RILAPI_ReceiveData\<close> read from the null pointer: undefined.\<close>

definition cust_dispatch :: "cust \<Rightarrow> cust option" where
  "cust_dispatch s =
    (case mailbox s of
       [] \<Rightarrow> Some s
     | OPENAT_VAT_MSG None # ms \<Rightarrow> None
     | OPENAT_VAT_MSG (Some d) # ms \<Rightarrow> Some (s\<lparr>mailbox := ms, cust_uart := RILAPI_ReceiveData d (cust_uart s)\<rparr>))"

definition cust_task_turn :: "cust \<Rightarrow> cust option" where
  "cust_task_turn s =
    (if in_loop s then cust_dispatch s
     else if task_between s then Some (cust_task_set s)
     else case cust_task_start s of None \<Rightarrow> Some s | Some s' \<Rightarrow> Some s')"

definition cust_get_poweron_reason :: "cust \<Rightarrow> poweron_reason" where
  "cust_get_poweron_reason s = reason s"

text \<open>The script's side: \<^verbatim>\<open>rtos.poweron\<close>, the attempt at its first \<^verbatim>\<open>rtos.receive\<close>, \<^verbatim>\<open>rtos.poweroff\<close>, and reading
  from the AT channel.  The first two call \<^verbatim>\<open>cust_poweron_system\<close> when \<open>Rtos\<close> records that they do; the script
  does nothing else before that call is over (\<open>script_set\<close>).  \<open>cause\<close> is what the base system answers to
  \<^verbatim>\<open>get_poweronCasue\<close>.\<close>

definition on_rtos :: "(rtos_sys \<Rightarrow> rtos_sys) \<Rightarrow> cust \<Rightarrow> cust" where
  "on_rtos f s =
    (let r = f (cust_rtos s); s' = s\<lparr>cust_rtos := r\<rparr>
     in if rtos_calls r \<noteq> rtos_calls (cust_rtos s) \<and> cust_poweron_check s' then s'\<lparr>script_between := True\<rparr> else s')"

definition script_set :: "cust \<Rightarrow> cust" where
  "script_set s = (cust_poweron_set s)\<lparr>script_between := False\<rparr>"

definition script_poweron :: "int \<Rightarrow> cust \<Rightarrow> cust" where
  "script_poweron flag = on_rtos (\<lambda>r. snd (platform_rtos_poweron flag r))"

definition script_poweron_try :: "cust \<Rightarrow> cust" where
  "script_poweron_try = on_rtos platform_poweron_try"

definition script_poweroff :: "poweron_reason \<Rightarrow> cust \<Rightarrow> cust" where
  "script_poweroff cause s = s\<lparr>cust_rtos := snd (platform_rtos_poweroff (cause = BY_CHARGER) (cust_rtos s))\<rparr>"

definition script_read :: "nat \<Rightarrow> cust \<Rightarrow> cust" where
  "script_read n s = (let (d, u) = vatc_read n (cust_uart s) in s\<lparr>cust_uart := u, at_read := at_read s @ d\<rparr>)"

text \<open>The actions: the two callbacks, a step of the task, the script.  A call of the script that comes to
  \<^verbatim>\<open>cust_poweron_system\<close> is over with \<open>Script_resume\<close>; until then the script's other actions are skipped.\<close>

datatype action =
    Pm batt_status pm_msg
  | At bool bool bytes
  | Task_turn
  | Script_poweron int
  | Script_poweron_try
  | Script_poweroff poweron_reason
  | Script_read nat
  | Script_resume

definition script_act :: "(cust \<Rightarrow> cust) \<Rightarrow> cust \<Rightarrow> cust" where
  "script_act f s = (if script_between s then s else f s)"

definition act :: "action \<Rightarrow> cust \<Rightarrow> cust option" where
  "act a s =
    (case a of
       Pm bt m \<Rightarrow> Some (cust_pm_message bt m s)
     | At ok1 ok2 d \<Rightarrow> Some (cust_at_message ok1 ok2 d s)
     | Task_turn \<Rightarrow> cust_task_turn s
     | Script_poweron flag \<Rightarrow> Some (script_act (script_poweron flag) s)
     | Script_poweron_try \<Rightarrow> Some (script_act script_poweron_try s)
     | Script_poweroff cause \<Rightarrow> Some (script_act (script_poweroff cause) s)
     | Script_read n \<Rightarrow> Some (script_act (script_read n) s)
     | Script_resume \<Rightarrow> Some (if script_between s then script_set s else s))"

fun acts :: "action list \<Rightarrow> cust \<Rightarrow> cust option" where
  "acts [] s = Some s"
| "acts (a # as) s = (case act a s of None \<Rightarrow> None | Some s \<Rightarrow> acts as s)"

subsection \<open>Power management for scripts\<close>

abbreviation PMD_CFG_INVALID_VALUE :: u16 where "PMD_CFG_INVALID_VALUE \<equiv> 0xFFFF"

record PlatformPmdCfg =
  battFullLevel :: u16
  battRechargeLevel :: u16
  c_poweronLevel :: u16
  c_poweroffLevel :: u16
  c_currentFirst :: u16
  battlevelFirst :: u16
  c_currentSecond :: u16
  battlevelSecond :: u16
  c_currentThird :: u16
  c_batdetectEnable :: u16
  intervaltimeFirst :: u16
  intervaltimeSecond :: u16
  intervaltimeThird :: u16
  pluschgctlEnable :: u16
  pluschgonTime :: u16
  pluschgoffTime :: u16

text \<open>\<^verbatim>\<open>T_AMOPENAT_PMD_CFG\<close>, the fields that are assigned.\<close>

record openat_pmd_cfg =
  batdetectEnable :: bool
  batfullLevel :: u16
  batPreChargLevel :: u16
  poweronLevel :: u16
  poweroffLevel :: u16
  currentFirst :: u16
  intervalTimeFirst :: u16
  batLevelFirst :: u16
  currentSecond :: u16
  intervalTimeSecond :: u16
  batLevelSecond :: u16
  currentThird :: u16
  intervalTimeThird :: u16
  plusChgControlEnable :: bool
  plusChgOnTime :: u16
  plusChgOffTime :: u16

definition openatCurrentVal :: "u16 list" where
  "openatCurrentVal = [0, 50, 100, 150, 200, 300, 400, 500, 600, 700, 800]"

abbreviation OPENAT_PM_CHARGE_CURRENT_QTY :: nat where "OPENAT_PM_CHARGE_CURRENT_QTY \<equiv> 11"

text \<open>The search over the rest \<open>vs\<close> of the table, which starts at the index \<open>i\<close>.\<close>

fun current_loop :: "u16 \<Rightarrow> nat \<Rightarrow> u16 list \<Rightarrow> nat" where
  "current_loop current i [] = OPENAT_PM_CHARGE_CURRENT_QTY"
| "current_loop current i (v # vs) =
    (if v = current then i else if current < v then OPENAT_PM_CHARGE_CURRENT_QTY else current_loop current (i + 1) vs)"

definition getOpenatCurrent :: "u16 \<Rightarrow> nat" where
  "getOpenatCurrent current = current_loop current 1 (tl openatCurrentVal)"

text \<open>\<^verbatim>\<open>CHECK_FILED\<close>: the field after the check, which stores the code in it; \<open>None\<close> is the error.\<close>

definition CHECK_FILED :: "u16 \<Rightarrow> u16 option" where
  "CHECK_FILED v =
    (if v \<noteq> PMD_CFG_INVALID_VALUE
     then (let c = getOpenatCurrent v in if c = OPENAT_PM_CHARGE_CURRENT_QTY then None else Some (of_nat c))
     else Some v)"

definition GET_FILED_VAL :: "u16 \<Rightarrow> u16 \<Rightarrow> u16" where
  "GET_FILED_VAL v dEFault = (if v = PMD_CFG_INVALID_VALUE then dEFault else v)"

text \<open>The configuration that \<^verbatim>\<open>cust_pmd_init\<close> passes on; the codes 7, 5 and 2 are 500, 300 and 100 mA.\<close>

definition cust_pmd_cfg :: "PlatformPmdCfg \<Rightarrow> openat_pmd_cfg" where
  "cust_pmd_cfg cfg = \<lparr>
     batdetectEnable = GET_FILED_VAL (c_batdetectEnable cfg) 1 = 1,
     batfullLevel = GET_FILED_VAL (battFullLevel cfg) 4200,
     batPreChargLevel = GET_FILED_VAL (battRechargeLevel cfg) 4050,
     poweronLevel = GET_FILED_VAL (c_poweronLevel cfg) 3450,
     poweroffLevel = GET_FILED_VAL (c_poweroffLevel cfg) 3400,
     currentFirst = GET_FILED_VAL (c_currentFirst cfg) 7,
     intervalTimeFirst = GET_FILED_VAL (intervaltimeFirst cfg) (9 * 60),
     batLevelFirst = GET_FILED_VAL (battlevelFirst cfg) 4150,
     currentSecond = GET_FILED_VAL (c_currentSecond cfg) 5,
     intervalTimeSecond = GET_FILED_VAL (intervaltimeSecond cfg) (6 * 60),
     batLevelSecond = GET_FILED_VAL (battlevelSecond cfg) 4190,
     currentThird = GET_FILED_VAL (c_currentThird cfg) 2,
     intervalTimeThird = GET_FILED_VAL (intervaltimeThird cfg) (3 * 60),
     plusChgControlEnable = GET_FILED_VAL (pluschgctlEnable cfg) 0 = 1,
     plusChgOnTime = GET_FILED_VAL (pluschgonTime cfg) 5,
     plusChgOffTime = GET_FILED_VAL (pluschgoffTime cfg) 1\<rparr>"

text \<open>\<open>init_pmd\<close> is the function of the base system.\<close>

definition cust_pmd_init :: "(openat_pmd_cfg \<Rightarrow> bool) \<Rightarrow> PlatformPmdCfg \<Rightarrow> bool" where
  "cust_pmd_init init_pmd cfg = init_pmd (cust_pmd_cfg cfg)"

definition platform_pmd_init :: "(openat_pmd_cfg \<Rightarrow> bool) \<Rightarrow> PlatformPmdCfg \<Rightarrow> int" where
  "platform_pmd_init init_pmd cfg =
    (case CHECK_FILED (c_currentFirst cfg) of None \<Rightarrow> PLATFORM_ERR
     | Some c1 \<Rightarrow> (case CHECK_FILED (c_currentSecond cfg) of None \<Rightarrow> PLATFORM_ERR
     | Some c2 \<Rightarrow> (case CHECK_FILED (c_currentThird cfg) of None \<Rightarrow> PLATFORM_ERR
     | Some c3 \<Rightarrow>
         if cust_pmd_init init_pmd (cfg\<lparr>c_currentFirst := c1, c_currentSecond := c2, c_currentThird := c3\<rparr>)
         then PLATFORM_OK else PLATFORM_ERR)))"

text \<open>A table of Lua gives a field or not; its number is cut to 16 bits.\<close>

definition getFiledInt :: "(string \<Rightarrow> int option) \<Rightarrow> string \<Rightarrow> u16" where
  "getFiledInt tab key = (case tab key of None \<Rightarrow> PMD_CFG_INVALID_VALUE | Some n \<Rightarrow> of_int n)"

definition pmd_cfg_of :: "(string \<Rightarrow> int option) \<Rightarrow> PlatformPmdCfg" where
  "pmd_cfg_of tab = \<lparr>
     battFullLevel = getFiledInt tab ''battFullLevel'', battRechargeLevel = getFiledInt tab ''battRechargeLevel'',
     c_poweronLevel = getFiledInt tab ''poweronLevel'', c_poweroffLevel = getFiledInt tab ''poweroffLevel'',
     c_currentFirst = getFiledInt tab ''currentFirst'', battlevelFirst = getFiledInt tab ''battlevelFirst'',
     c_currentSecond = getFiledInt tab ''currentSecond'', battlevelSecond = getFiledInt tab ''battlevelSecond'',
     c_currentThird = getFiledInt tab ''currentThird'', c_batdetectEnable = getFiledInt tab ''batdetectEnable'',
     intervaltimeFirst = getFiledInt tab ''intervaltimeFirst'', intervaltimeSecond = getFiledInt tab ''intervaltimeSecond'',
     intervaltimeThird = getFiledInt tab ''intervaltimeThird'', pluschgctlEnable = getFiledInt tab ''pluschgctlEnable'',
     pluschgonTime = getFiledInt tab ''pluschgonTime'', pluschgoffTime = getFiledInt tab ''pluschgoffTime''\<rparr>"

definition pmd_init :: "(openat_pmd_cfg \<Rightarrow> bool) \<Rightarrow> (string \<Rightarrow> int option) \<Rightarrow> int" where
  "pmd_init init_pmd tab = platform_pmd_init init_pmd (pmd_cfg_of tab)"

datatype ldo = LDO_KEYPDA | LDO_LCD | LDO_KP_LEDR | LDO_KP_LEDG | LDO_KP_LEDB | LDO_VIB | LDO_VLCD | LDO_ASW | LDO_MMC | LDO_CAM

definition ldo2OpenatLdo :: "ldo list" where
  "ldo2OpenatLdo = [LDO_KEYPDA, LDO_LCD, LDO_KP_LEDR, LDO_KP_LEDG, LDO_KP_LEDB, LDO_VIB, LDO_VLCD, LDO_ASW, LDO_MMC, LDO_CAM]"

datatype sys_freq = OPENAT_SYS_FREQ_32K | OPENAT_SYS_FREQ_208M

datatype pmd_call = Poweron_ldo ldo int | Sys_request_freq sys_freq | Enter_deepsleep | Exit_deepsleep

text \<open>No entry of the table is invalid; an index outside of it is undefined.\<close>

definition platform_ldo_set :: "u32 \<Rightarrow> int \<Rightarrow> pmd_call list \<Rightarrow> pmd_call list option" where
  "platform_ldo_set i level cs =
    (if unat i < length ldo2OpenatLdo then Some (cs @ [Poweron_ldo (ldo2OpenatLdo ! unat i) level]) else None)"

fun pmd_ldo_set :: "int \<Rightarrow> u32 list \<Rightarrow> pmd_call list \<Rightarrow> pmd_call list option" where
  "pmd_ldo_set level [] cs = Some cs"
| "pmd_ldo_set level (l # ls) cs = (case platform_ldo_set l level cs of None \<Rightarrow> None | Some cs \<Rightarrow> pmd_ldo_set level ls cs)"

definition platform_pmd_powersave :: "int \<Rightarrow> pmd_call list \<Rightarrow> int \<times> pmd_call list" where
  "platform_pmd_powersave sleep_wake cs =
    (PLATFORM_OK, cs @ (if sleep_wake \<noteq> 0 then [Sys_request_freq OPENAT_SYS_FREQ_32K, Enter_deepsleep] else [Exit_deepsleep, Sys_request_freq OPENAT_SYS_FREQ_208M]))"

definition pmd_deepsleep :: "int \<Rightarrow> pmd_call list \<Rightarrow> pmd_call list" where
  "pmd_deepsleep sleep cs = snd (platform_pmd_powersave sleep cs)"

text \<open>\<^verbatim>\<open>get_chargerHwStatus\<close> returns 2 for a charger that is on.\<close>

definition platform_pmd_get_charger :: "nat \<Rightarrow> int" where
  "platform_pmd_get_charger status = (if status = 2 then 1 else 0)"

definition pmd_charger :: "nat \<Rightarrow> bool" where
  "pmd_charger status \<longleftrightarrow> platform_pmd_get_charger status \<noteq> 0"

text \<open>The parameters of charging that the base system gives, in the order they are pushed.\<close>

definition pmd_chg_param_get :: "PlatformPmdData \<Rightarrow> bool \<times> int \<times> int \<times> bool \<times> int" where
  "pmd_chg_param_get d = (battStatus d, uint (battVolt d), uint (battLevel d), chargerStatus d, uint (chargeState d))"

subsection \<open>The system is started once\<close>

definition start :: "nat \<Rightarrow> cust" where
  "start console = cust_main (cust_init (uart_sys_init console) rtos_sys_init)"

definition started :: "cust \<Rightarrow> nat" where
  "started s = length (filter (\<lambda>c. c = Poweron_system) (cust_calls s))"

definition asked :: "cust \<Rightarrow> bool" where
  "asked s \<longleftrightarrow> Cust_poweron_system \<in> set (rtos_calls (cust_rtos s))"

text \<open>Both callers have passed the check and neither has set the flag: the race.\<close>

definition both_between :: "cust \<Rightarrow> bool" where
  "both_between s \<longleftrightarrow> task_between s \<and> script_between s"

fun raced :: "action list \<Rightarrow> cust \<Rightarrow> bool" where
  "raced [] s = both_between s"
| "raced (a # as) s = (both_between s \<or> (case act a s of None \<Rightarrow> False | Some s' \<Rightarrow> raced as s'))"

text \<open>How often the system was or is about to be started.\<close>

definition starts :: "cust \<Rightarrow> nat" where
  "starts s = started s + of_bool (task_between s) + of_bool (script_between s)"

definition power_inv :: "bool \<Rightarrow> cust \<Rightarrow> bool" where
  "power_inv r s \<longleftrightarrow> (if hasPoweron s then 1 \<le> started s else started s = 0) \<and>
     starts s \<le> (if r then 2 else 1) \<and>
     (0 < starts s \<longleftrightarrow> (in_loop s \<or> task_between s) \<and> reason s \<noteq> BY_CHARGER \<or> asked s) \<and>
     (cust_sys_flag (cust_rtos s) \<longleftrightarrow> asked s) \<and>
     poweronSyncSemaphore s = (if in_loop s \<or> task_between s then None else Some (if reason s = BY_INVALID then 0 else 1)) \<and>
     (in_loop s \<or> task_between s \<longrightarrow> reason s \<noteq> BY_INVALID) \<and> (task_between s \<longrightarrow> \<not> in_loop s \<and> reason s \<noteq> BY_CHARGER)"

definition valid_reason :: "action \<Rightarrow> bool" where
  "valid_reason a = (case a of Pm bt (POWERON_ON_IND r) \<Rightarrow> r \<noteq> BY_INVALID | _ \<Rightarrow> True)"

lemma power_inv_start: "power_inv False (start console)"
  by (simp add: power_inv_def starts_def start_def started_def asked_def cust_main_def cust_init_def cust_poweron_reason_init_def clog_def
      rtos_sys_init_def Let_def)

lemma asked_send [simp]: "asked (pmd_send s) = asked s"
  by (simp add: asked_def pmd_send_def platform_rtos_send_def rlog_def Let_def)

lemma pmd_send_fields [simp]:
  "reason (pmd_send s) = reason s" "poweronSyncSemaphore (pmd_send s) = poweronSyncSemaphore s" "hasPoweron (pmd_send s) = hasPoweron s"
  "pmdData (pmd_send s) = pmdData s" "mailbox (pmd_send s) = mailbox s" "in_loop (pmd_send s) = in_loop s"
  "task_between (pmd_send s) = task_between s" "script_between (pmd_send s) = script_between s"
  "cust_uart (pmd_send s) = cust_uart s" "at_read (pmd_send s) = at_read s" "cust_calls (pmd_send s) = cust_calls s"
  by (simp_all add: pmd_send_def Let_def)

lemma set_pmd_fields [simp]:
  "reason (set_pmd f s) = reason s" "poweronSyncSemaphore (set_pmd f s) = poweronSyncSemaphore s" "hasPoweron (set_pmd f s) = hasPoweron s"
  "pmdData (set_pmd f s) = f (pmdData s)" "mailbox (set_pmd f s) = mailbox s" "in_loop (set_pmd f s) = in_loop s"
  "task_between (set_pmd f s) = task_between s" "script_between (set_pmd f s) = script_between s"
  "cust_uart (set_pmd f s) = cust_uart s" "cust_rtos (set_pmd f s) = cust_rtos s" "at_read (set_pmd f s) = at_read s"
  "cust_calls (set_pmd f s) = cust_calls s"
  by (simp_all add: set_pmd_def)

lemma flag_send [simp]: "cust_sys_flag (cust_rtos (pmd_send s)) = cust_sys_flag (cust_rtos s)"
  by (simp add: pmd_send_def platform_rtos_send_def rlog_def Let_def)

lemma power_inv_cong:
  "reason s' = reason s \<Longrightarrow> poweronSyncSemaphore s' = poweronSyncSemaphore s \<Longrightarrow> hasPoweron s' = hasPoweron s \<Longrightarrow>
    in_loop s' = in_loop s \<Longrightarrow> task_between s' = task_between s \<Longrightarrow> script_between s' = script_between s \<Longrightarrow>
    cust_calls s' = cust_calls s \<Longrightarrow> asked s' = asked s \<Longrightarrow> cust_sys_flag (cust_rtos s') = cust_sys_flag (cust_rtos s) \<Longrightarrow>
    power_inv r s' = power_inv r s"
  unfolding power_inv_def started_def starts_def by simp

lemma set_pmd_id: "set_pmd (\<lambda>d. d) s = s"
  by (simp add: set_pmd_def)

lemma asked_set_pmd [simp]: "asked (set_pmd f s) = asked s"
  by (simp add: asked_def)

lemma asked_upd [simp]: "asked (s\<lparr>reason := r, poweronSyncSemaphore := n\<rparr>) = asked s"
  by (simp add: asked_def)

lemma pm_other:
  "case m of CHR_PRESENT_IND _ \<Rightarrow> True | BAT_PRESENT_IND _ \<Rightarrow> True | BAT_CHR_FULL _ \<Rightarrow> True | BAT_CHR_STOP _ \<Rightarrow> True
     | BAT_CHR_ERR \<Rightarrow> True | _ \<Rightarrow> False \<Longrightarrow> \<exists>f. cust_pm_message bt m s = pmd_send (set_pmd f s)"
  by (cases m) (simp_all only: cust_pm_message_def Let_def pm_msg.case, (rule exI, rule refl)+)

lemma pm_message_cases:
  obtains (same) "cust_pm_message bt m s = s" "\<forall>r. m \<noteq> POWERON_ON_IND r"
  | (sent) f where "cust_pm_message bt m s = pmd_send (set_pmd f s)" "\<forall>r. m = POWERON_ON_IND r \<longrightarrow> reason s \<noteq> BY_INVALID"
  | (on) r f where "m = POWERON_ON_IND r" "reason s = BY_INVALID"
    "cust_pm_message bt m s = pmd_send ((set_pmd f s)\<lparr>reason := r, poweronSyncSemaphore := map_option Suc (poweronSyncSemaphore s)\<rparr>)"
proof (cases m)
  case (POWERON_ON_IND r)
  show ?thesis
  proof (cases "reason s = BY_INVALID")
    case True
    then show ?thesis using on [OF POWERON_ON_IND] POWERON_ON_IND by (simp add: cust_pm_message_def Let_def)
  next
    case False
    then show ?thesis using sent [of "\<lambda>d. d", unfolded set_pmd_id] POWERON_ON_IND by (simp add: cust_pm_message_def)
  qed
next
  case OTHER_EVT
  then show ?thesis using sent [of "\<lambda>d. d", unfolded set_pmd_id] by (simp add: cust_pm_message_def)
next
  case (BAT_LEVEL_IND l)
  then show ?thesis using same sent by (cases "battLevel (pmdData s) = l") (simp_all add: cust_pm_message_def Let_def)
next
  case (BAT_CHARGING l)
  then show ?thesis using same sent
    by (cases "chargeState (pmdData s) = PLATFORM_BATT_CHARING \<and> battLevel (pmdData s) = l") (simp_all add: cust_pm_message_def Let_def)
next
  case (CHR_PRESENT_IND p)
  then show ?thesis using pm_other [of m bt s] sent by auto
next
  case (BAT_PRESENT_IND p)
  then show ?thesis using pm_other [of m bt s] sent by auto
next
  case (BAT_CHR_FULL l)
  then show ?thesis using pm_other [of m bt s] sent by auto
next
  case (BAT_CHR_STOP b)
  then show ?thesis using pm_other [of m bt s] sent by auto
next
  case BAT_CHR_ERR
  then show ?thesis using pm_other [of m bt s] sent by auto
qed

lemma power_inv_pm:
  assumes "power_inv r s" "valid_reason (Pm bt m)"
  shows "power_inv r (cust_pm_message bt m s)"
proof (cases rule: pm_message_cases [of bt m s])
  case same
  then show ?thesis using assms(1) by simp
next
  case (sent f)
  have "power_inv r (pmd_send (set_pmd f s)) = power_inv r s" by (rule power_inv_cong) simp_all
  then show ?thesis using assms(1) sent(1) by simp
next
  case (on x f)
  then have "x \<noteq> BY_INVALID" using assms(2) by (simp add: valid_reason_def)
  then show ?thesis using assms(1) on(2) unfolding on(3) power_inv_def starts_def started_def by auto
qed

lemma cust_poweron_fields [simp]:
  "reason (cust_poweron_set s) = reason s" "poweronSyncSemaphore (cust_poweron_set s) = poweronSyncSemaphore s"
  "hasPoweron (cust_poweron_set s)" "pmdData (cust_poweron_set s) = pmdData s" "mailbox (cust_poweron_set s) = mailbox s"
  "in_loop (cust_poweron_set s) = in_loop s" "cust_uart (cust_poweron_set s) = cust_uart s"
  "task_between (cust_poweron_set s) = task_between s" "script_between (cust_poweron_set s) = script_between s"
  "cust_rtos (cust_poweron_set s) = cust_rtos s" "at_read (cust_poweron_set s) = at_read s"
  "asked (cust_poweron_set s) = asked s" "started (cust_poweron_set s) = started s + 1"
  by (simp_all add: cust_poweron_set_def clog_def started_def asked_def)

lemma started_upd [simp]:
  "started (s\<lparr>poweronSyncSemaphore := n\<rparr>) = started s" "asked (s\<lparr>poweronSyncSemaphore := n\<rparr>) = asked s"
  "started (s\<lparr>in_loop := b\<rparr>) = started s" "started (s\<lparr>task_between := b\<rparr>) = started s" "started (s\<lparr>script_between := b\<rparr>) = started s"
  "started (s\<lparr>cust_rtos := x\<rparr>) = started s"
  "asked (s\<lparr>in_loop := b\<rparr>) = asked s" "asked (s\<lparr>task_between := b\<rparr>) = asked s" "asked (s\<lparr>script_between := b\<rparr>) = asked s"
  by (simp_all add: started_def asked_def)

text \<open>A step of the task or of the script keeps the invariant, a race being noticed.\<close>

lemma power_inv_start_task:
  assumes "power_inv r s" "\<not> in_loop s" "\<not> task_between s" "cust_task_start s = Some s'"
  shows "power_inv (r \<or> both_between s') s' \<and> (in_loop s' \<or> task_between s')"
proof -
  let ?w = "s\<lparr>poweronSyncSemaphore := None\<rparr>"
  have l: "reason s \<noteq> BY_INVALID"
    using assms by (auto simp: power_inv_def cust_task_start_def cust_wait_for_poweron_reason_def split: option.splits if_splits nat.splits)
  have s': "s' = (if reason s \<noteq> BY_CHARGER \<and> \<not> hasPoweron s then ?w\<lparr>task_between := True\<rparr> else ?w\<lparr>in_loop := True\<rparr>)"
    using assms(4) by (auto simp: cust_task_start_def cust_poweron_check_def cust_wait_for_poweron_reason_def split: option.splits nat.splits)
  then show ?thesis using assms(1,2,3) l unfolding s' power_inv_def
    by (auto simp: starts_def both_between_def split: if_splits)
qed

lemma power_inv_task_set: "power_inv r s \<Longrightarrow> task_between s \<Longrightarrow> power_inv r (cust_task_set s)"
  by (auto simp: power_inv_def cust_task_set_def starts_def split: if_splits)

lemma power_inv_script_set: "power_inv r s \<Longrightarrow> script_between s \<Longrightarrow> power_inv r (script_set s)"
  by (auto simp: power_inv_def script_set_def starts_def split: if_splits)

lemma power_inv_mono: "power_inv r s \<Longrightarrow> r \<longrightarrow> r' \<Longrightarrow> power_inv r' s"
  by (auto simp: power_inv_def split: if_splits)

lemma power_inv_on_rtos:
  assumes "power_inv r s" "\<not> script_between s"
    and "rtos_calls (f (cust_rtos s)) = rtos_calls (cust_rtos s) \<and> cust_sys_flag (f (cust_rtos s)) = cust_sys_flag (cust_rtos s)
      \<or> rtos_calls (f (cust_rtos s)) = rtos_calls (cust_rtos s) @ [Cust_poweron_system] \<and> cust_sys_flag (f (cust_rtos s))"
  shows "power_inv (r \<or> both_between (on_rtos f s)) (on_rtos f s)"
  using assms(3)
proof
  assume c: "rtos_calls (f (cust_rtos s)) = rtos_calls (cust_rtos s) \<and> cust_sys_flag (f (cust_rtos s)) = cust_sys_flag (cust_rtos s)"
  then have "on_rtos f s = s\<lparr>cust_rtos := f (cust_rtos s)\<rparr>" by (simp add: on_rtos_def Let_def)
  moreover have "power_inv r (s\<lparr>cust_rtos := f (cust_rtos s)\<rparr>) = power_inv r s"
    using c by (intro power_inv_cong) (simp_all add: asked_def)
  ultimately show ?thesis using assms(1) by (simp add: power_inv_mono)
next
  assume c: "rtos_calls (f (cust_rtos s)) = rtos_calls (cust_rtos s) @ [Cust_poweron_system] \<and> cust_sys_flag (f (cust_rtos s))"
  then have "asked (s\<lparr>cust_rtos := f (cust_rtos s)\<rparr>)" by (simp add: asked_def)
  then show ?thesis using assms(1,2) c
    by (auto simp: on_rtos_def Let_def cust_poweron_check_def power_inv_def starts_def both_between_def split: if_splits)
qed

lemma poweron_calls:
  "rtos_calls (snd (platform_rtos_poweron flag r)) = rtos_calls r @ (if flag = 1 then [Cust_poweron_system] else [])"
  "rtos_calls (platform_poweron_try r) = rtos_calls r @ (if poweron_flag r = - 1 then [Cust_poweron_system] else [])"
  by (simp_all add: platform_rtos_poweron_def platform_poweron_try_def start_system_def rlog_def)

lemma poweron_flags:
  "cust_sys_flag (snd (platform_rtos_poweron flag r)) \<longleftrightarrow> cust_sys_flag r \<or> flag = 1"
  "cust_sys_flag (platform_poweron_try r) \<longleftrightarrow> cust_sys_flag r \<or> poweron_flag r = - 1"
  "cust_sys_flag (snd (platform_rtos_poweroff b r)) = cust_sys_flag r"
  by (simp_all add: platform_rtos_poweron_def platform_poweron_try_def platform_rtos_poweroff_def start_system_def rlog_def Let_def)

lemma power_inv_at: "power_inv r s \<Longrightarrow> power_inv r (cust_at_message ok1 ok2 d s)"
  by (subst power_inv_cong [of _ s]) (simp_all add: cust_at_message_def asked_def)

lemma power_inv_dispatch:
  assumes "power_inv r s" "cust_dispatch s = Some s'"
  shows "power_inv r s'"
proof -
  have "s' = s \<or> (\<exists>ms u. s' = s\<lparr>mailbox := ms, cust_uart := u\<rparr>)"
    using assms(2) by (auto simp: cust_dispatch_def split: list.splits CustMessage.splits option.splits)
  moreover have "power_inv r (s\<lparr>mailbox := ms, cust_uart := u\<rparr>) = power_inv r s" for ms u
    by (rule power_inv_cong) (simp_all add: asked_def)
  ultimately show ?thesis using assms(1) by auto
qed

lemma power_inv_read: "power_inv r s \<Longrightarrow> power_inv r (script_read n s)"
  by (subst power_inv_cong [of _ s]) (simp_all add: script_read_def asked_def case_prod_beta)

lemma asked_poweroff: "asked (script_poweroff cause s) = asked s"
  by (simp add: script_poweroff_def asked_def platform_rtos_poweroff_def rlog_def)

lemma power_inv_poweroff: "power_inv r s \<Longrightarrow> power_inv r (script_poweroff cause s)"
  by (subst power_inv_cong [of _ s]) (simp_all add: asked_poweroff, simp_all add: script_poweroff_def poweron_flags)

lemma power_inv_turn:
  assumes "power_inv r s" "cust_task_turn s = Some s'"
  shows "power_inv (r \<or> both_between s') s'"
proof (cases "in_loop s \<or> task_between s")
  case True
  then show ?thesis using power_inv_dispatch [OF assms(1)] power_inv_task_set [OF assms(1)] assms(2)
    by (auto simp: cust_task_turn_def split: if_splits intro: power_inv_mono)
next
  case False
  then show ?thesis using assms power_inv_start_task [OF assms(1)]
    by (cases "cust_task_start s") (auto simp: cust_task_turn_def intro: power_inv_mono)
qed

lemma power_inv_poweron: "power_inv r s \<Longrightarrow> \<not> script_between s \<Longrightarrow>
    power_inv (r \<or> both_between (script_poweron flag s)) (script_poweron flag s)"
  unfolding script_poweron_def by (rule power_inv_on_rtos) (simp_all add: poweron_calls poweron_flags)

lemma power_inv_try: "power_inv r s \<Longrightarrow> \<not> script_between s \<Longrightarrow>
    power_inv (r \<or> both_between (script_poweron_try s)) (script_poweron_try s)"
  unfolding script_poweron_try_def by (rule power_inv_on_rtos) (simp_all add: poweron_calls poweron_flags)

lemma act_simps:
  "act (Pm bt m) s = Some s' \<longleftrightarrow> s' = cust_pm_message bt m s"
  "act (At ok1 ok2 d) s = Some s' \<longleftrightarrow> s' = cust_at_message ok1 ok2 d s"
  "act Task_turn s = Some s' \<longleftrightarrow> cust_task_turn s = Some s'"
  "act (Script_poweron flag) s = Some s' \<longleftrightarrow> s' = script_act (script_poweron flag) s"
  "act Script_poweron_try s = Some s' \<longleftrightarrow> s' = script_act script_poweron_try s"
  "act (Script_poweroff cause) s = Some s' \<longleftrightarrow> s' = script_act (script_poweroff cause) s"
  "act (Script_read n) s = Some s' \<longleftrightarrow> s' = script_act (script_read n) s"
  "act Script_resume s = Some s' \<longleftrightarrow> s' = (if script_between s then script_set s else s)"
  unfolding act_def by auto

lemma power_inv_script:
  assumes "power_inv r s" "\<not> script_between s \<Longrightarrow> power_inv (r \<or> both_between (f s)) (f s)"
  shows "power_inv (r \<or> both_between (script_act f s)) (script_act f s)"
  using assms by (auto simp: script_act_def intro: power_inv_mono)

lemma power_inv_act:
  assumes "power_inv r s" "valid_reason a" "act a s = Some s'"
  shows "power_inv (r \<or> both_between s') s'"
proof (cases a)
  case (Pm bt m)
  then show ?thesis using assms power_inv_pm [OF assms(1)] by (auto simp: act_simps intro: power_inv_mono)
next
  case (At ok1 ok2 d)
  then show ?thesis using assms power_inv_at [OF assms(1)] by (auto simp: act_simps intro: power_inv_mono)
next
  case Task_turn
  then show ?thesis using assms power_inv_turn by (simp add: act_simps)
next
  case Script_resume
  then show ?thesis using assms power_inv_script_set by (auto simp: act_simps intro: power_inv_mono)
next
  case (Script_poweroff cause)
  then show ?thesis using assms power_inv_script [of r s "script_poweroff cause"] power_inv_poweroff [OF assms(1)]
    by (auto simp: act_simps intro: power_inv_mono)
next
  case (Script_read n)
  then show ?thesis using assms power_inv_script [of r s "script_read n"] power_inv_read [OF assms(1)]
    by (auto simp: act_simps intro: power_inv_mono)
qed (use assms power_inv_script power_inv_poweron power_inv_try in \<open>simp_all add: act_simps\<close>)

lemma power_inv_acts:
  "power_inv r s \<Longrightarrow> \<forall>a \<in> set as. valid_reason a \<Longrightarrow> acts as s = Some s' \<Longrightarrow> power_inv (r \<or> raced as s) s'"
proof (induction as arbitrary: r s)
  case (Cons a as)
  then obtain s1 where s1: "act a s = Some s1" "acts as s1 = Some s'" by (auto split: option.splits)
  have "power_inv ((r \<or> both_between s1) \<or> raced as s1) s'"
    by (rule Cons.IH [OF power_inv_act [OF Cons.prems(1) _ s1(1)] _ s1(2)]) (use Cons.prems(2) in auto)
  moreover have "both_between s1 \<longrightarrow> raced as s1" by (cases as) simp_all
  ultimately show ?case using s1(1) by (auto intro: power_inv_mono)
qed (auto intro: power_inv_mono)

text \<open>C33: However the callbacks, the task and the script interleave, step by step, once the base system gives valid
  reasons: the system is started at most once, unless task and script were at one moment both between the check and
  the assignment of \<^verbatim>\<open>hasPoweron\<close>, and then at most twice; and it was started, or is about to be, exactly when the
  script has asked for it, or the task has come past its wait after a start that is not due to the charger.\<close>
theorem system_started_once:
  assumes "acts as (start console) = Some s" "\<forall>a \<in> set as. valid_reason a"
  shows "starts s \<le> (if raced as (start console) then 2 else 1) \<and>
    (0 < starts s \<longleftrightarrow> (in_loop s \<or> task_between s) \<and> reason s \<noteq> BY_CHARGER \<or> asked s)"
  using power_inv_acts [OF power_inv_start assms(2,1)] by (simp add: power_inv_def)

lemma start_simps [simp]:
  "reason (start c) = BY_INVALID" "poweronSyncSemaphore (start c) = Some 0" "\<not> hasPoweron (start c)" "\<not> in_loop (start c)"
  "\<not> task_between (start c)" "\<not> script_between (start c)" "pmdData (start c) = pmdData_start" "mailbox (start c) = []" "cust_rtos (start c) = rtos_sys_init" "at_read (start c) = []"
  "cust_uart (start c) = platform_setup_vat_queue (uart_sys_init c)"
  by (simp_all add: start_def cust_main_def cust_init_def cust_poweron_reason_init_def clog_def Let_def)

lemmas step_defs = act_def cust_pm_message_def cust_task_turn_def cust_task_start_def cust_wait_for_poweron_reason_def
  cust_task_set_def script_set_def script_act_def script_poweron_def script_poweron_try_def on_rtos_def cust_poweron_check_def
  both_between_def

theorem system_started_once_witness:
  "\<exists>s. acts [Pm \<lparr>batteryVolt = 3900, plugged_in = True\<rparr> (POWERON_ON_IND BY_CHARGER), Task_turn, Script_poweron 1, Script_resume, Script_poweron_try]
      (start 0) = Some s \<and> asked s \<and> starts s = 1"
proof -
  let ?as = "[Pm \<lparr>batteryVolt = 3900, plugged_in = True\<rparr> (POWERON_ON_IND BY_CHARGER), Task_turn, Script_poweron 1, Script_resume, Script_poweron_try]"
  obtain s where s: "acts ?as (start 0) = Some s" "asked s" "\<not> raced ?as (start 0)"
    by (simp add: step_defs Let_def poweron_calls asked_def)
  have "\<forall>a \<in> set ?as. valid_reason a" by (simp add: valid_reason_def)
  from system_started_once [OF s(1) this] s show ?thesis by auto
qed

text \<open>The race: after a start by key the task passes the check; the script's \<^verbatim>\<open>rtos.poweron(1)\<close> passes it as well before
  the task has set the flag.  \<^verbatim>\<open>poweron_system\<close> is called twice.\<close>

lemma system_started_twice:
  "\<exists>s. acts [Pm \<lparr>batteryVolt = 3900, plugged_in = False\<rparr> (POWERON_ON_IND BY_KEY), Task_turn, Script_poweron 1, Task_turn, Script_resume]
      (start 0) = Some s \<and> started s = 2"
proof -
  have "started (start 0) = 0" using power_inv_start [of 0] by (simp add: power_inv_def)
  then show ?thesis by (simp add: step_defs Let_def poweron_calls started_def cust_poweron_set_def clog_def)
qed

text \<open>Steps that nobody comes between amount to the call as it is written.\<close>

lemma task_start_uninterrupted:
  assumes "\<not> in_loop s" "\<not> task_between s" "cust_wait_for_poweron_reason s = Some s1" "reason s \<noteq> BY_CHARGER" "\<not> hasPoweron s"
  shows "acts [Task_turn, Task_turn] s = Some ((cust_poweron_system s1)\<lparr>task_between := False, in_loop := True\<rparr>)"
  using assms by (auto simp: act_def cust_task_turn_def cust_task_start_def cust_task_set_def cust_poweron_system_def
      cust_poweron_check_def cust_poweron_set_def clog_def cust_wait_for_poweron_reason_def split: option.splits nat.splits)

text \<open>The base system gives the same reason in its message and in its answers to \<^verbatim>\<open>get_poweronCasue\<close>.\<close>

definition same_cause :: "poweron_reason \<Rightarrow> action \<Rightarrow> bool" where
  "same_cause cause a = (case a of Pm bt (POWERON_ON_IND r) \<Rightarrow> r = cause | Script_poweroff c \<Rightarrow> c = cause | _ \<Rightarrow> True)"

lemma reason_kept:
  assumes "act a s = Some s'" "same_cause cause a" "reason s \<in> {BY_INVALID, cause}"
  shows "reason s' \<in> {BY_INVALID, cause}"
proof (cases a)
  case (Pm bt m)
  then show ?thesis using assms
    by (cases rule: pm_message_cases [of bt m s]) (auto simp: act_simps same_cause_def)
next
  case Task_turn
  then have "reason s' = reason s" using assms(1)
    by (auto simp: act_simps cust_task_turn_def cust_dispatch_def cust_task_start_def cust_task_set_def cust_wait_for_poweron_reason_def
        split: if_splits list.splits CustMessage.splits option.splits nat.splits)
  then show ?thesis using assms(3) by simp
qed (use assms in \<open>auto simp: act_simps cust_at_message_def script_act_def script_poweron_def script_poweron_try_def on_rtos_def
    script_poweroff_def script_read_def script_set_def Let_def case_prod_beta\<close>)

lemma reason_kept_acts:
  "acts as s = Some s' \<Longrightarrow> \<forall>a \<in> set as. same_cause cause a \<Longrightarrow> reason s \<in> {BY_INVALID, cause} \<Longrightarrow> reason s' \<in> {BY_INVALID, cause}"
proof (induction as arbitrary: s)
  case (Cons a as)
  then obtain s1 where s1: "act a s = Some s1" "acts as s1 = Some s'" by (auto split: option.splits)
  show ?case by (rule Cons.IH [OF s1(2) _ reason_kept [OF s1(1)]]) (use Cons.prems in auto)
qed simp

text \<open>C11: Whatever happened before, when the base system gives the same valid reason in its message and to
  \<^verbatim>\<open>get_poweronCasue\<close>, \<^verbatim>\<open>rtos.poweroff\<close> shuts the chip down exactly when the start is due to the charger and the
  script has not asked for the system - and then nobody has started the system, the task included, and nobody is about
  to; in all other cases it uses the system's own power-off.\<close>
theorem shut_down_before_start:
  assumes "acts as (start console) = Some s" "\<not> script_between s" "cause \<noteq> BY_INVALID" "\<forall>a \<in> set as. same_cause cause a"
  shows "act (Script_poweroff cause) s =
      Some (s\<lparr>cust_rtos := rlog [if cause = BY_CHARGER \<and> \<not> asked s then Shut_down else Poweroff_system] (cust_rtos s)\<rparr>) \<and>
    (if cause = BY_CHARGER \<and> \<not> asked s then starts s = 0 else True)"
proof -
  have "\<forall>a \<in> set as. valid_reason a" using assms(3,4)
    by (auto simp: valid_reason_def same_cause_def split: action.splits pm_msg.splits)
  from power_inv_acts [OF power_inv_start this assms(1)] have inv: "power_inv (raced as (start console)) s" by simp
  have "reason s \<in> {BY_INVALID, cause}" by (rule reason_kept_acts [OF assms(1,4)]) simp
  with inv have "starts s = 0" if "cause = BY_CHARGER" "\<not> asked s" using that by (auto simp: power_inv_def)
  moreover have "cust_sys_flag (cust_rtos s) \<longleftrightarrow> asked s" using inv by (simp add: power_inv_def)
  ultimately show ?thesis using assms(2)
    by (simp add: act_def script_act_def script_poweroff_def platform_rtos_poweroff_def)
qed

theorem shut_down_before_start_witness:
  "\<exists>s. acts [Pm \<lparr>batteryVolt = 3900, plugged_in = True\<rparr> (POWERON_ON_IND BY_CHARGER), Task_turn, Script_poweron 0, Script_poweron_try]
      (start 0) = Some s \<and> starts s = 0 \<and> act (Script_poweroff BY_CHARGER) s = Some (s\<lparr>cust_rtos := rlog [Shut_down] (cust_rtos s)\<rparr>)"
proof -
  let ?as = "[Pm \<lparr>batteryVolt = 3900, plugged_in = True\<rparr> (POWERON_ON_IND BY_CHARGER), Task_turn, Script_poweron 0, Script_poweron_try]"
  obtain s where s: "acts ?as (start 0) = Some s" "\<not> asked s" "\<not> script_between s"
    by (simp add: step_defs Let_def poweron_calls asked_def)
      (simp add: platform_poweron_try_def platform_rtos_poweron_def rtos_sys_init_def pmd_send_def set_pmd_def platform_rtos_send_def rlog_def Let_def)
  have "\<forall>a \<in> set ?as. same_cause BY_CHARGER a" by (simp add: same_cause_def)
  from shut_down_before_start [OF s(1,3) _ this] s show ?thesis by auto
qed

text \<open>The flag the script's side looks at does not know of the task's start: after a start by key the task has started the
  system and \<^verbatim>\<open>cust_sys_flag\<close> is not set.\<close>

lemma task_start_not_flagged:
  "\<exists>s. acts [Pm \<lparr>batteryVolt = 3900, plugged_in = False\<rparr> (POWERON_ON_IND BY_KEY), Task_turn, Task_turn] (start 0) = Some s \<and>
    hasPoweron s \<and> \<not> cust_sys_flag (cust_rtos s)"
  by (simp add: step_defs Let_def) (simp add: rtos_sys_init_def pmd_send_def set_pmd_def platform_rtos_send_def rlog_def Let_def)

subsection \<open>The script knows the state of the battery\<close>

text \<open>The power management messages the script is sent.\<close>

definition pmd_of :: "rtos_call \<Rightarrow> PlatformPmdData option" where
  "pmd_of c = (case c of Send_message (RTOS_MSG_PMD b ch st l v) \<Rightarrow>
     Some \<lparr>battStatus = b, chargerStatus = ch, chargeState = st, battLevel = l, battVolt = v\<rparr> | _ \<Rightarrow> None)"

definition sent_pmd :: "cust \<Rightarrow> PlatformPmdData list" where
  "sent_pmd s = List.map_filter pmd_of (rtos_calls (cust_rtos s))"

definition reported :: "cust \<Rightarrow> bool" where
  "reported s \<longleftrightarrow> (if sent_pmd s = [] then pmdData s = pmdData_start else last (sent_pmd s) = pmdData s)"

lemma reported_send: "reported (pmd_send s)"
  by (simp add: reported_def sent_pmd_def pmd_send_def platform_rtos_send_def rlog_def Let_def map_filter_def pmd_of_def)

lemma reported_cong: "sent_pmd s' = sent_pmd s \<Longrightarrow> pmdData s' = pmdData s \<Longrightarrow> reported s' = reported s"
  unfolding reported_def by simp

lemma reported_pm: "reported s \<Longrightarrow> reported (cust_pm_message bt m s)"
  by (cases rule: pm_message_cases [of bt m s]) (auto simp: reported_send)

lemma reported_turn:
  assumes "cust_task_turn s = Some s'"
  shows "reported s' = reported s"
  by (rule reported_cong) (use assms in \<open>auto simp: cust_task_turn_def cust_dispatch_def cust_task_start_def
      cust_wait_for_poweron_reason_def cust_task_set_def cust_poweron_set_def clog_def sent_pmd_def split: if_splits list.splits CustMessage.splits option.splits nat.splits\<close>)

lemma reported_on_rtos:
  assumes "\<And>r. rtos_calls (f r) = rtos_calls r \<or> rtos_calls (f r) = rtos_calls r @ [Cust_poweron_system]"
  shows "reported (on_rtos f s) = reported s"
proof (rule reported_cong)
  show "sent_pmd (on_rtos f s) = sent_pmd s" using assms [of "cust_rtos s"]
    by (auto simp: sent_pmd_def on_rtos_def Let_def map_filter_def pmd_of_def)
qed (simp add: on_rtos_def Let_def)

lemma reported_act:
  assumes "act a s = Some s'" "reported s"
  shows "reported s'"
proof -
  have at: "reported (cust_at_message ok1 ok2 d s) = reported s" for ok1 ok2 d
    by (rule reported_cong) (simp_all add: cust_at_message_def sent_pmd_def)
  have rd: "reported (script_read n s) = reported s" for n
    by (rule reported_cong) (simp_all add: script_read_def sent_pmd_def case_prod_beta)
  have on: "reported (script_poweron flag s) = reported s" "reported (script_poweron_try s) = reported s" for flag
    unfolding script_poweron_def script_poweron_try_def by (rule reported_on_rtos, simp add: poweron_calls)+
  have off: "reported (script_poweroff cause s) = reported s" for cause
    by (rule reported_cong) (simp_all add: script_poweroff_def platform_rtos_poweroff_def rlog_def sent_pmd_def map_filter_def pmd_of_def)
  have res: "reported (script_set s) = reported s"
    by (rule reported_cong) (simp_all add: script_set_def sent_pmd_def cust_poweron_set_def clog_def)
  show ?thesis using assms reported_pm [OF assms(2)] reported_turn [of s s'] at rd on off res
    by (cases a) (auto simp: act_simps script_act_def split: if_splits)
qed

lemma reported_acts: "reported s \<Longrightarrow> acts as s = Some s' \<Longrightarrow> reported s'"
  by (induction as arbitrary: s) (auto split: option.splits intro: reported_act)

text \<open>C34: At any time the last power management message the script was sent holds the current state: the messages that
  \<open>cust_pm_message\<close> drops as unchanged are really unchanged.  What \<open>rtos.receive\<close> makes of it has all fields.\<close>
theorem pmd_message_current:
  assumes "acts as (start console) = Some s"
  shows "if sent_pmd s = [] then pmdData s = pmdData_start else last (sent_pmd s) = pmdData s"
proof -
  have "reported (start console)"
    by (simp add: reported_def sent_pmd_def start_def cust_main_def cust_init_def cust_poweron_reason_init_def clog_def
        rtos_sys_init_def Let_def map_filter_def)
  from reported_acts [OF this assms] show ?thesis by (simp add: reported_def)
qed
theorem pmd_message_current_witness:
  "\<exists>s. acts [Pm \<lparr>batteryVolt = 3900, plugged_in = False\<rparr> (BAT_LEVEL_IND 80), Pm \<lparr>batteryVolt = 3800, plugged_in = False\<rparr> (BAT_LEVEL_IND 80)]
      (start 0) = Some s \<and> sent_pmd s \<noteq> [] \<and> last (sent_pmd s) = pmdData s"
proof -
  let ?as = "[Pm \<lparr>batteryVolt = 3900, plugged_in = False\<rparr> (BAT_LEVEL_IND 80), Pm \<lparr>batteryVolt = 3800, plugged_in = False\<rparr> (BAT_LEVEL_IND 80)]"
  obtain s where s: "acts ?as (start 0) = Some s" "pmdData s \<noteq> pmdData_start"
    by (simp add: act_def cust_pm_message_def Let_def pmdData_start_def)
  from pmd_message_current [OF s(1)] s show ?thesis by (auto split: if_splits)
qed

subsection \<open>The AT channel\<close>

definition mail :: "cust \<Rightarrow> bytes" where
  "mail s = concat (map (\<lambda>m. case m of OPENAT_VAT_MSG (Some d) \<Rightarrow> d | OPENAT_VAT_MSG None \<Rightarrow> []) (mailbox s))"

definition at_data :: "action \<Rightarrow> bytes" where
  "at_data a = (case a of At ok1 ok2 d \<Rightarrow> if ok1 \<and> ok2 then d else [] | _ \<Rightarrow> [])"

definition at_inv :: "bytes \<Rightarrow> cust \<Rightarrow> bool" where
  "at_inv ds s \<longleftrightarrow> vatc_wf (cust_uart s) \<and> q_size (vatcRx_Q (cust_uart s)) = 8192 \<and>
     subseq (at_read s @ vatc_pending (cust_uart s) @ mail s) ds \<and>
     (length ds \<le> 8192 \<longrightarrow> at_read s @ vatc_pending (cust_uart s) @ mail s = ds)"

lemma at_inv_cong:
  "cust_uart s' = cust_uart s \<Longrightarrow> at_read s' = at_read s \<Longrightarrow> mailbox s' = mailbox s \<Longrightarrow> at_inv ds s' = at_inv ds s"
  unfolding at_inv_def mail_def by simp

lemma vatc_read_size [simp]: "q_size (vatcRx_Q (snd (vatc_read n s))) = q_size (vatcRx_Q s)"
  by (induction n arbitrary: s) (simp_all add: Let_def case_prod_beta vatc_refill_def)

lemma RILAPI_size [simp]: "q_size (vatcRx_Q (RILAPI_ReceiveData d s)) = q_size (vatcRx_Q s)"
  by (simp add: RILAPI_ReceiveData_eq)

lemma at_inv_at:
  assumes "at_inv ds s"
  shows "at_inv (ds @ at_data (At ok1 ok2 d)) (cust_at_message ok1 ok2 d s)"
proof -
  let ?s = "cust_at_message ok1 ok2 d s" and ?d = "at_data (At ok1 ok2 d)"
  have f: "cust_uart ?s = cust_uart s" "at_read ?s = at_read s" and m: "mail ?s = mail s @ ?d"
    by (simp_all add: cust_at_message_def at_data_def mail_def)
  have "subseq ((at_read s @ vatc_pending (cust_uart s) @ mail s) @ ?d) (ds @ ?d)"
    by (rule list_emb_append_mono) (use assms in \<open>simp_all add: at_inv_def\<close>)
  then show ?thesis using assms by (simp add: at_inv_def f m)
qed

lemma at_inv_read:
  assumes "at_inv ds s"
  shows "at_inv ds (script_read n s)"
proof -
  have wf: "vatc_wf (cust_uart s)" using assms by (simp add: at_inv_def)
  have "fst (vatc_read n (cust_uart s)) @ vatc_pending (snd (vatc_read n (cust_uart s))) = vatc_pending (cust_uart s)"
    using vs.del_out [OF wf, of n] vs.del_contents [OF wf, of n] by (simp add: vatc_get_def)
  moreover have "vatc_wf (snd (vatc_read n (cust_uart s)))" using vs.del_inv [OF wf, of n] by (simp add: vatc_get_def)
  ultimately show ?thesis using assms by (simp add: at_inv_def script_read_def case_prod_beta mail_def) (metis append_assoc)
qed

lemma at_inv_dispatch:
  assumes "at_inv ds s" "mailbox s = OPENAT_VAT_MSG (Some d) # ms"
  shows "at_inv ds (s\<lparr>mailbox := ms, cust_uart := RILAPI_ReceiveData d (cust_uart s)\<rparr>)"
proof -
  let ?u = "cust_uart s" and ?s = "s\<lparr>mailbox := ms, cust_uart := RILAPI_ReceiveData d (cust_uart s)\<rparr>"
  have wf: "vatc_wf ?u" and size: "q_size (vatcRx_Q ?u) = 8192" and m: "mail s = d @ mail ?s"
    using assms by (simp_all add: at_inv_def mail_def)
  have rx: "vatc_rx ?u d = cust_uart ?s" by (simp add: vatc_rx_def)
  have sub: "subseq (vatc_pending (cust_uart ?s)) (vatc_pending ?u @ d)" using vs.ins_subseq [OF wf, of d] by (simp add: rx)
  have "subseq (at_read s @ vatc_pending (cust_uart ?s) @ mail ?s) (at_read s @ (vatc_pending ?u @ d) @ mail ?s)"
    by (intro list_emb_append_mono sub subseq_order.order_refl)
  then have s1: "subseq (at_read s @ vatc_pending (cust_uart ?s) @ mail ?s) ds"
    using assms(1) m by (auto simp: at_inv_def elim: subseq_order.order_trans)
  have "at_read s @ vatc_pending (cust_uart ?s) @ mail ?s = ds" if l: "length ds \<le> 8192"
  proof -
    have ds: "ds = at_read s @ vatc_pending ?u @ d @ mail ?s" using assms(1) l m by (simp add: at_inv_def)
    have "length (q_list (vatcRx_Q ?u)) \<le> length (vatc_pending ?u)" by (simp add: vatc_pending_def)
    then have "length d \<le> vatc_room ?u" using l size unfolding ds by (simp add: vatc_room_def)
    from vs.ins_room [OF wf this] show ?thesis using ds rx by simp
  qed
  then show ?thesis using s1 vs.ins_inv [OF wf, of d] size rx by (simp add: at_inv_def)
qed

lemma at_inv_act:
  assumes "at_inv ds s" "act a s = Some s'"
  shows "at_inv (ds @ at_data a) s'"
proof -
  have pm: "at_inv ds (cust_pm_message bt m s) = at_inv ds s" for bt m
    by (rule at_inv_cong) (cases rule: pm_message_cases [of bt m s]; simp)+
  have on: "at_inv ds (on_rtos f s) = at_inv ds s" for f
    by (rule at_inv_cong) (simp_all add: on_rtos_def Let_def)
  have turn: "at_inv ds s'" if "cust_task_turn s = Some s'"
  proof (cases "in_loop s")
    case True
    then show ?thesis using that assms(1) at_inv_dispatch [OF assms(1)]
      by (auto simp: cust_task_turn_def cust_dispatch_def split: list.splits CustMessage.splits option.splits)
  next
    case False
    have "at_inv ds s' = at_inv ds s" using False that
      by (intro at_inv_cong) (auto simp: cust_task_turn_def cust_task_start_def cust_task_set_def cust_wait_for_poweron_reason_def
          split: option.splits nat.splits if_splits)
    with assms(1) show ?thesis by simp
  qed
  have off: "at_inv ds (script_poweroff cause s) = at_inv ds s" "at_inv ds (script_set s) = at_inv ds s" for cause
    by (rule at_inv_cong; simp add: script_poweroff_def script_set_def)+
  show ?thesis
    using assms turn at_inv_at [OF assms(1)] at_inv_read [OF assms(1)] pm on off
    by (cases a) (auto simp: act_simps at_data_def script_act_def script_poweron_def script_poweron_try_def split: if_splits)
qed

lemma at_inv_acts: "at_inv ds s \<Longrightarrow> acts as s = Some s' \<Longrightarrow> at_inv (ds @ concat (map at_data as)) s'"
proof (induction as arbitrary: ds s)
  case (Cons a as)
  then obtain s1 where "act a s = Some s1" "acts as s1 = Some s'" by (auto split: option.splits)
  with Cons.IH [OF at_inv_act [OF Cons.prems(1)]] show ?case by simp
qed simp

lemma at_inv_start: "at_inv [] (start c)"
proof -
  let ?u = "platform_setup_vat_queue (uart_sys_init c)"
  have "vatc_wf (uart_sys_init c)" using uart_wf_init [of c] by (simp add: uart_wf_def)
  then have "vatc_wf ?u" by (simp add: vatc_wf_def platform_setup_vat_queue_def log_call_def q_wf_clean)
  moreover have "vatc_pending ?u = []"
    by (simp add: vatc_pending_def platform_setup_vat_queue_def log_call_def uart_sys_init_def)
  moreover have "q_size (vatcRx_Q ?u) = 8192"
    by (simp add: platform_setup_vat_queue_def log_call_def uart_sys_init_def QueueClean_def)
  ultimately show ?thesis by (simp add: at_inv_def mail_def)
qed

text \<open>What the base system gives to the callback of the AT channel reaches the script in order: what the script has read,
  what is still in the channel's ring and in the mailbox of the task is a subsequence of it, and all of it as long as
  it is at most 8192 bytes.  This holds for any interleaving of the callback, the task and the script, as long as no
  message without data is processed.\<close>
theorem at_channel_in_order:
  assumes "acts as (start console) = Some s"
  shows "subseq (at_read s @ vatc_pending (cust_uart s) @ mail s) (concat (map at_data as)) \<and>
    (length (concat (map at_data as)) \<le> 8192 \<longrightarrow> at_read s @ vatc_pending (cust_uart s) @ mail s = concat (map at_data as))"
  using at_inv_acts [OF at_inv_start assms] by (simp add: at_inv_def)

text \<open>No message without data ever comes from the callback when no allocation of data fails.\<close>

definition at_ok :: "action \<Rightarrow> bool" where
  "at_ok a = (case a of At ok1 ok2 d \<Rightarrow> ok1 \<longrightarrow> ok2 | _ \<Rightarrow> True)"

definition full_mail :: "cust \<Rightarrow> bool" where
  "full_mail s \<longleftrightarrow> OPENAT_VAT_MSG None \<notin> set (mailbox s)"

lemma mailbox_pm [simp]: "mailbox (cust_pm_message bt m s) = mailbox s" "in_loop (cust_pm_message bt m s) = in_loop s"
  by (cases rule: pm_message_cases [of bt m s]; simp)+

lemma on_rtos_fields [simp]: "mailbox (on_rtos f s) = mailbox s" "reason (on_rtos f s) = reason s" "in_loop (on_rtos f s) = in_loop s"
  by (simp_all add: on_rtos_def Let_def)

lemma script_fields [simp]: "mailbox (script_read n s) = mailbox s" "reason (script_read n s) = reason s" "in_loop (script_read n s) = in_loop s"
    "mailbox (script_poweroff c s) = mailbox s" "reason (script_poweroff c s) = reason s"
    "mailbox (script_set s) = mailbox s" "reason (script_set s) = reason s"
  by (simp_all add: script_read_def script_poweroff_def script_set_def case_prod_beta)

lemma full_mail_turn:
  assumes "full_mail s"
  shows "\<exists>s'. cust_task_turn s = Some s' \<and> full_mail s' \<and> (if in_loop s then in_loop s' \<and> mailbox s' = tl (mailbox s)
    else mailbox s' = mailbox s) \<and> reason s' = reason s"
proof (cases "in_loop s")
  case True
  then show ?thesis using assms
    by (auto simp: full_mail_def cust_task_turn_def cust_dispatch_def split: list.splits CustMessage.splits option.splits)
next
  case False
  then show ?thesis using assms
    by (auto simp: full_mail_def cust_task_turn_def cust_task_start_def cust_task_set_def cust_wait_for_poweron_reason_def
        split: option.splits nat.splits)
qed

lemma full_mail_act:
  assumes "full_mail s" "at_ok a"
  shows "\<exists>s'. act a s = Some s' \<and> full_mail s'"
proof (cases a)
  case (At ok1 ok2 d)
  then show ?thesis using assms by (auto simp: act_def full_mail_def cust_at_message_def at_ok_def)
next
  case Task_turn
  then show ?thesis using full_mail_turn [OF assms(1)] by (auto simp: act_def)
qed (use assms(1) in \<open>auto simp: act_def full_mail_def script_act_def script_poweron_def script_poweron_try_def\<close>)

lemma full_mail_acts: "full_mail s \<Longrightarrow> \<forall>a \<in> set as. at_ok a \<Longrightarrow> \<exists>s'. acts as s = Some s' \<and> full_mail s'"
proof (induction as arbitrary: s)
  case (Cons a as)
  then obtain s1 where "act a s = Some s1" "full_mail s1" using full_mail_act [of s a] by auto
  then show ?case using Cons.IH [of s1] Cons.prems(2) by simp
qed simp

lemma acts_append: "acts (as @ bs) s = (case acts as s of None \<Rightarrow> None | Some s' \<Rightarrow> acts bs s')"
  by (induction as arbitrary: s) (auto split: option.splits)

text \<open>Two turns after the reason is known the task is in the loop; later turns empty the mailbox.\<close>

lemma turn_enters:
  assumes "power_inv r s" "reason s \<noteq> BY_INVALID" "full_mail s"
  shows "\<exists>s'. acts [Task_turn, Task_turn] s = Some s' \<and> in_loop s' \<and> full_mail s'"
proof -
  obtain s1 where s1: "cust_task_turn s = Some s1" "full_mail s1" using full_mail_turn [OF assms(3)] by auto
  obtain s2 where s2: "cust_task_turn s1 = Some s2" "full_mail s2" "in_loop s1 \<longrightarrow> in_loop s2"
    using full_mail_turn [OF s1(2)] by (auto split: if_splits)
  have "in_loop s1 \<or> task_between s1"
  proof (cases "in_loop s \<or> task_between s")
    case True
    then show ?thesis using s1(1) full_mail_turn [OF assms(3)] by (auto simp: cust_task_turn_def cust_task_set_def split: if_splits)
  next
    case False
    then have "poweronSyncSemaphore s = Some 1" using assms(1,2) by (simp add: power_inv_def)
    then show ?thesis using False s1(1)
      by (auto simp: cust_task_turn_def cust_task_start_def cust_wait_for_poweron_reason_def split: if_splits)
  qed
  then have "in_loop s2" using s2(1,3) by (auto simp: cust_task_turn_def cust_task_set_def split: if_splits)
  then show ?thesis using s1(1) s2(1,2) by (simp add: act_def)
qed

lemma turns_drain:
  "in_loop s \<Longrightarrow> full_mail s \<Longrightarrow> length (mailbox s) \<le> k \<Longrightarrow> \<exists>s'. acts (replicate k Task_turn) s = Some s' \<and> mailbox s' = []"
proof (induction k arbitrary: s)
  case (Suc k)
  then obtain s1 where "cust_task_turn s = Some s1" "in_loop s1" "full_mail s1" "mailbox s1 = tl (mailbox s)"
    using full_mail_turn [of s] by auto
  then show ?case using Suc.IH [of s1] Suc.prems(3) by (simp add: act_def)
qed simp

definition has_reason :: "action \<Rightarrow> bool" where
  "has_reason a = (case a of Pm bt (POWERON_ON_IND r) \<Rightarrow> True | _ \<Rightarrow> False)"

lemma reason_act:
  assumes "act a s = Some s'" "valid_reason a" "has_reason a \<or> reason s \<noteq> BY_INVALID"
  shows "reason s' \<noteq> BY_INVALID"
proof (cases a)
  case (Pm bt m)
  then show ?thesis using assms
    by (cases rule: pm_message_cases [of bt m s]) (auto simp: act_simps has_reason_def valid_reason_def split: pm_msg.splits)
next
  case Task_turn
  then have "reason s \<noteq> BY_INVALID" using assms(3) by (simp add: has_reason_def)
  then show ?thesis using Task_turn assms(1)
    by (auto simp: act_simps cust_task_turn_def cust_dispatch_def cust_task_start_def cust_task_set_def cust_wait_for_poweron_reason_def
        split: if_splits list.splits CustMessage.splits option.splits nat.splits)
qed (use assms in \<open>auto simp: act_simps has_reason_def cust_at_message_def script_act_def script_poweron_def script_poweron_try_def\<close>)

lemma reason_acts:
  "acts as s = Some s' \<Longrightarrow> \<forall>a \<in> set as. valid_reason a \<Longrightarrow> (\<exists>a \<in> set as. has_reason a) \<or> reason s \<noteq> BY_INVALID \<Longrightarrow> reason s' \<noteq> BY_INVALID"
proof (induction as arbitrary: s)
  case (Cons a as)
  then obtain s1 where s1: "act a s = Some s1" "acts as s1 = Some s'" by (auto split: option.splits)
  then show ?case using Cons.IH [of s1] reason_act [OF s1(1)] Cons.prems(2,3) by auto
qed simp

text \<open>C35: Whatever happened before, once the base system has given a valid reason of the start and no allocation failed,
  the firmware has not crashed, and after enough turns of the task and a read the script has all the AT data, as
  long as they are at most 8192 bytes over the whole run.\<close>
theorem at_data_delivered:
  assumes "\<forall>a \<in> set as. valid_reason a \<and> at_ok a" "\<exists>a \<in> set as. has_reason a" "length (concat (map at_data as)) \<le> 8192"
  shows "\<exists>k s. acts (as @ replicate k Task_turn @ [Script_resume, Script_read 8192]) (start console) = Some s \<and>
    at_read s = concat (map at_data as)"
proof -
  have "full_mail (start console)" by (simp add: full_mail_def)
  then obtain s1 where s1: "acts as (start console) = Some s1" "full_mail s1"
    using full_mail_acts [of "start console" as] assms(1) by blast
  have "power_inv (False \<or> raced as (start console)) s1" by (rule power_inv_acts [OF power_inv_start _ s1(1)]) (use assms(1) in blast)
  moreover have "reason s1 \<noteq> BY_INVALID" by (rule reason_acts [OF s1(1)]) (use assms(1,2) in blast)+
  ultimately obtain s2 where s2: "acts [Task_turn, Task_turn] s1 = Some s2" "in_loop s2" "full_mail s2"
    using turn_enters s1(2) by blast
  obtain s3 where s3: "acts (replicate (length (mailbox s2)) Task_turn) s2 = Some s3" "mailbox s3 = []"
    using turns_drain [OF s2(2,3) order_refl] by blast
  let ?k = "Suc (Suc (length (mailbox s2)))" and ?d = "concat (map at_data as)"
  have turns: "replicate ?k Task_turn = [Task_turn, Task_turn] @ replicate (length (mailbox s2)) Task_turn" by simp
  have "acts (as @ replicate ?k Task_turn) (start console) = Some s3"
    unfolding turns using s1(1) s2(1) s3(1) by (simp only: acts_append option.case)
  moreover obtain s4 where s4: "act Script_resume s3 = Some s4" "mailbox s4 = []" "\<not> script_between s4"
    using s3(2) by (cases "script_between s3") (simp_all add: act_def script_set_def)
  ultimately have run4: "acts (as @ replicate ?k Task_turn @ [Script_resume]) (start console) = Some s4"
    using acts_append [of "as @ replicate ?k Task_turn" "[Script_resume]"] by simp
  let ?s = "script_read 8192 s4"
  have run: "acts (as @ replicate ?k Task_turn @ [Script_resume, Script_read 8192]) (start console) = Some ?s"
    using acts_append [of "as @ replicate ?k Task_turn @ [Script_resume]" "[Script_read 8192]" "start console"] run4 s4(3)
    by (simp add: act_def script_act_def)
  have data: "concat (map at_data (as @ replicate ?k Task_turn @ [Script_resume])) = ?d"
    by (simp add: at_data_def map_replicate_const concat_replicate_trivial)
  have inv4: "at_inv ?d s4" using at_inv_acts [OF at_inv_start run4] data by simp
  have "vatc_wf (cust_uart s4)" using inv4 by (simp add: at_inv_def)
  moreover have "length (vatc_pending (cust_uart s4)) \<le> 8192"
    using inv4 assms(3) by (auto simp: at_inv_def dest!: arg_cong [of _ _ length])
  ultimately have "vatc_pending (cust_uart ?s) = []"
    using vs.del_contents [of "cust_uart s4" 8192] by (simp add: script_read_def case_prod_beta vatc_get_def)
  moreover have "mail ?s = []" using s4(2) by (simp add: mail_def)
  moreover have "at_read ?s @ vatc_pending (cust_uart ?s) @ mail ?s = ?d"
    using at_inv_read [OF inv4, of 8192] assms(3) by (simp add: at_inv_def)
  ultimately have "at_read ?s = ?d" by simp
  then show ?thesis using run by blast
qed

theorem at_channel_in_order_witness:
  "\<exists>s. acts [At True True [79, 75], At True True [13]] (start 0) = Some s \<and> at_read s @ vatc_pending (cust_uart s) @ mail s = [79, 75, 13]"
proof -
  let ?as = "[At True True [79, 75], At True True [13]]"
  obtain s where s: "acts ?as (start 0) = Some s" by (simp add: act_def)
  then show ?thesis using at_channel_in_order [OF s] by (simp add: at_data_def)
qed

theorem at_data_delivered_witness:
  "\<exists>k s. acts ([Pm \<lparr>batteryVolt = 3900, plugged_in = False\<rparr> (POWERON_ON_IND BY_KEY), At True True [79, 75]] @
      replicate k Task_turn @ [Script_resume, Script_read 8192]) (start 0) = Some s \<and> at_read s = [79, 75]"
  using at_data_delivered [of "[Pm \<lparr>batteryVolt = 3900, plugged_in = False\<rparr> (POWERON_ON_IND BY_KEY), At True True [79, 75]]" 0]
  by (simp add: valid_reason_def at_ok_def has_reason_def at_data_def)

text \<open>An allocation that fails in the callback crashes the task when it comes to that message.\<close>

lemma at_without_memory:
  "acts [Pm bt (POWERON_ON_IND BY_KEY), At True False [79, 75], Task_turn, Task_turn, Task_turn] (start console) = None"
  by (simp add: step_defs cust_at_message_def cust_dispatch_def Let_def)

subsection \<open>Charging currents\<close>

definition current_codes :: "(u16 \<times> u16) list" where
  "current_codes = [(50, 1), (100, 2), (150, 3), (200, 4), (300, 5), (400, 6), (500, 7), (600, 8), (700, 9), (800, 10)]"

lemma getOpenatCurrent_table:
  "getOpenatCurrent c = (case map_of current_codes c of None \<Rightarrow> OPENAT_PM_CHARGE_CURRENT_QTY | Some n \<Rightarrow> unat n)"
  by (simp add: getOpenatCurrent_def openatCurrentVal_def current_codes_def)

lemma current_codes_range: "map_of current_codes c = Some n \<Longrightarrow> unat n < OPENAT_PM_CHARGE_CURRENT_QTY"
  by (auto simp: current_codes_def split: if_splits)

lemma CHECK_FILED_table: "CHECK_FILED c = (if c = PMD_CFG_INVALID_VALUE then Some c else map_of current_codes c)"
  using current_codes_range [of c] by (auto simp: CHECK_FILED_def getOpenatCurrent_table Let_def split: option.splits)

text \<open>A charging configuration is refused, before the base system sees it, exactly when a current that is given is not
  one of the ten of the table; else the base system gets the codes of the currents, the default of each field that was
  left out, and the other fields as they are.\<close>
theorem pmd_init_currents:
  "platform_pmd_init init_pmd cfg =
    (let code = (\<lambda>c. if c = PMD_CFG_INVALID_VALUE then Some c else map_of current_codes c)
     in case (code (c_currentFirst cfg), code (c_currentSecond cfg), code (c_currentThird cfg)) of
          (Some c1, Some c2, Some c3) \<Rightarrow>
            if init_pmd ((cust_pmd_cfg cfg)\<lparr>currentFirst := GET_FILED_VAL c1 7, currentSecond := GET_FILED_VAL c2 5, currentThird := GET_FILED_VAL c3 2\<rparr>)
            then PLATFORM_OK else PLATFORM_ERR
        | _ \<Rightarrow> PLATFORM_ERR)"
  by (simp add: platform_pmd_init_def CHECK_FILED_table cust_pmd_init_def cust_pmd_cfg_def Let_def split: option.splits)

text \<open>The value \<open>- 1\<close> of a field of the script's table counts as left out.\<close>

lemma minus_one_is_default: "tab key = Some (- 1) \<Longrightarrow> getFiledInt tab key = PMD_CFG_INVALID_VALUE"
  by (simp add: getFiledInt_def)

lemma ldo_outside: "unat i \<ge> 10 \<Longrightarrow> platform_ldo_set i level cs = None"
  by (simp add: platform_ldo_set_def ldo2OpenatLdo_def)

end
