(* ===== verification/Audio.thy ===== *)
theory Audio
  imports Stdio Rtos
begin

text \<open>
  Playing sounds: \<^verbatim>\<open>platform/coolsand/src/platform_audio.c\<close> and \<^verbatim>\<open>modules/src/audio.c\<close>.

  The base system plays one sound at a time and reports its end by a callback from a task of its own.  A buffer that is
  played belongs to the platform layer until then.  The results of allocations and of the base system are arguments.
\<close>

subsection \<open>The platform layer\<close>

datatype play_result = ERR_NO | ERR_END_OF_FILE | ERR_other

datatype play_mode = MODE_AMR122 | MODE_MP3 | MODE_PCM | MODE_WAV | MODE_MIDI

datatype file_format = FORMAT_AMR | FORMAT_MP3 | FORMAT_MIDI

datatype play_call = Play_buffer play_mode bytes | Play_file file_format "u16 list"

datatype aud_call =
    Play_music play_call
  | Stop_music
  | Set_channel u32
  | Set_speaker_gain u32
  | Set_mic_gain u32
  | Audio_loopback bool u32 bool u32

text \<open>\<open>playing\<close> is what the base system plays, and \<open>blocks\<close> counts the blocks of memory taken and not yet given back.\<close>

record aud =
  isPlaying :: bool
  audplaybuffer :: "bytes option"
  playing :: "play_call option"
  blocks :: int
  aud_calls :: "aud_call list"
  aud_msgs :: "platform_msg list"

definition aud_start :: aud where
  "aud_start = \<lparr>isPlaying = False, audplaybuffer = None, playing = None, blocks = 0, aud_calls = [], aud_msgs = []\<rparr>"

definition free_buffer :: "aud \<Rightarrow> aud" where
  "free_buffer a = (if audplaybuffer a \<noteq> None then a\<lparr>audplaybuffer := None, blocks := blocks a - 1\<rparr> else a)"

text \<open>The callback takes no notice of which sound it is called for, or whether one plays.\<close>

definition audio_play_callback :: "play_result \<Rightarrow> aud \<Rightarrow> aud" where
  "audio_play_callback result a =
    (let a = (free_buffer a)\<lparr>isPlaying := False\<rparr>;
         good = (result = ERR_NO \<or> result = ERR_END_OF_FILE)
     in a\<lparr>aud_msgs := aud_msgs a @ [RTOS_MSG_AUDIO good (\<not> good)]\<rparr>)"

fun strstr_bytes :: "bytes \<Rightarrow> bytes \<Rightarrow> bool" where
  "strstr_bytes [] t = (t = [])"
| "strstr_bytes (c # s) t = (take (length t) (c # s) = t \<or> strstr_bytes s t)"

definition getFileFormat :: "bytes \<Rightarrow> file_format option" where
  "getFileFormat filename =
    (if strstr_bytes filename (lit ''.amr'') \<or> strstr_bytes filename (lit ''.AMR'') then Some FORMAT_AMR
     else if strstr_bytes filename (lit ''.mp3'') \<or> strstr_bytes filename (lit ''.MP3'') then Some FORMAT_MP3
     else if strstr_bytes filename (lit ''.mid'') \<or> strstr_bytes filename (lit ''.MID'') then Some FORMAT_MIDI
     else None)"

definition getDataFormat :: "u32 \<Rightarrow> play_mode option" where
  "getDataFormat f =
    (let mode = [MODE_AMR122, MODE_MP3, MODE_PCM, MODE_WAV, MODE_MIDI]
     in if unat f < length mode then Some (mode ! unat f) else None)"

text \<open>\<^verbatim>\<open>AudioPlayParam\<close>: the format and the data of a buffer, or a file name.\<close>

datatype AudioPlayParam = P_buffer u32 bytes | P_file bytes

text \<open>The call of \<^verbatim>\<open>play_music\<close>.  With \<open>early\<close> the sound ends and the callback comes before the flag is set.\<close>

definition start_music :: "bool \<Rightarrow> play_result option \<Rightarrow> play_call \<Rightarrow> aud \<Rightarrow> int \<times> aud" where
  "start_music ok early p a =
    (let a = a\<lparr>aud_calls := aud_calls a @ [Play_music p]\<rparr>
     in if \<not> ok then (PLATFORM_ERR, free_buffer a)
        else (let a = a\<lparr>playing := Some p\<rparr>;
                  a = (case early of None \<Rightarrow> a | Some r \<Rightarrow> audio_play_callback r (a\<lparr>playing := None\<rparr>))
              in (PLATFORM_OK, a\<lparr>isPlaying := True\<rparr>)))"

definition platform_audio_play :: "bool \<Rightarrow> bool \<Rightarrow> play_result option \<Rightarrow> AudioPlayParam \<Rightarrow> aud \<Rightarrow> int \<times> aud" where
  "platform_audio_play got_memory ok early param a =
    (if isPlaying a then (PLATFORM_ERR, a)
     else case param of
         P_buffer f data \<Rightarrow>
           (if audplaybuffer a \<noteq> None then (PLATFORM_ERR, a)
            else case getDataFormat f of
                None \<Rightarrow> (PLATFORM_ERR, a)
              | Some m \<Rightarrow>
                  (if \<not> got_memory then (PLATFORM_ERR, a)
                   else start_music ok early (Play_buffer m data) (a\<lparr>audplaybuffer := Some data, blocks := blocks a + 1\<rparr>)))
       | P_file name \<Rightarrow>
           (if 100 - 1 < length name then (PLATFORM_ERR, a)
            else case getFileFormat name of
                None \<Rightarrow> (PLATFORM_ERR, a)
              | Some f \<Rightarrow> start_music ok early (Play_file f (strtows name)) a))"

definition platform_audio_stop :: "aud \<Rightarrow> int \<times> aud" where
  "platform_audio_stop a =
    (PLATFORM_OK,
     if \<not> isPlaying a then a
     else (free_buffer (a\<lparr>aud_calls := aud_calls a @ [Stop_music], playing := None\<rparr>))\<lparr>isPlaying := False\<rparr>)"

definition platform_audio_set_channel :: "u32 \<Rightarrow> aud \<Rightarrow> int \<times> aud" where
  "platform_audio_set_channel channel a =
    (if 14 \<le> channel then (PLATFORM_ERR, a) else (PLATFORM_OK, a\<lparr>aud_calls := aud_calls a @ [Set_channel channel]\<rparr>))"

definition platform_audio_set_vol :: "u32 \<Rightarrow> aud \<Rightarrow> int \<times> aud" where
  "platform_audio_set_vol vol a =
    (if 8 \<le> vol then (PLATFORM_ERR, a) else (PLATFORM_OK, a\<lparr>aud_calls := aud_calls a @ [Set_speaker_gain vol]\<rparr>))"

definition platform_audio_set_mic_vol :: "u32 \<Rightarrow> aud \<Rightarrow> int \<times> aud" where
  "platform_audio_set_mic_vol vol a =
    (if 15 < vol then (PLATFORM_ERR, a) else (PLATFORM_OK, a\<lparr>aud_calls := aud_calls a @ [Set_mic_gain vol]\<rparr>))"

definition platform_audio_set_loopback :: "bool \<Rightarrow> u32 \<Rightarrow> bool \<Rightarrow> u32 \<Rightarrow> aud \<Rightarrow> int \<times> aud" where
  "platform_audio_set_loopback flag typ setvol vol a =
    (if 5 \<le> typ then (PLATFORM_ERR, a) else (PLATFORM_OK, a\<lparr>aud_calls := aud_calls a @ [Audio_loopback flag typ setvol vol]\<rparr>))"

subsection \<open>The module\<close>

text \<open>What a script sees of the modelled functions: a truth value, or nothing after an error.  The functions on the
  stream \<open>f\<close> are arguments, \<open>None\<close> being undefined; \<open>tmp\<close> says whether the temporary buffer can be allocated.  The
  last result is the stream if it was left open.\<close>

definition aud_format_of :: "bytes \<Rightarrow> u32 option" where
  "aud_format_of name =
    (if strstr_bytes name (lit ''.amr'') \<or> strstr_bytes name (lit ''.AMR'') then Some 0
     else if strstr_bytes name (lit ''.mp3'') \<or> strstr_bytes name (lit ''.MP3'') then Some 1 else None)"

text \<open>Reading the sound behind the header of an AMR file: \<open>None\<close> inside stands for the two errors.\<close>

definition read_sound ::
  "(int \<Rightarrow> whence \<Rightarrow> 'f \<Rightarrow> (int \<times> 'f) option) \<Rightarrow> ('f \<Rightarrow> (int \<times> 'f) option) \<Rightarrow> (u32 \<Rightarrow> u32 \<Rightarrow> 'f \<Rightarrow> (u32 \<times> bytes \<times> 'f) option) \<Rightarrow>
    bool \<Rightarrow> u32 \<Rightarrow> 'f \<Rightarrow> (bytes option \<times> 'f) option" where
  "read_sound seek tell rdf tmp fmt f = do {
     (r, f) \<leftarrow> seek 0 SEEK_END f;
     (len, f) \<leftarrow> tell f;
     (r, f) \<leftarrow> seek (if fmt = 0 then 6 else 0) SEEK_SET f;
     let len = (if fmt = 0 then len - 6 else len);
     if \<not> tmp then Some (None, f)
     else do {
       (n, b, f) \<leftarrow> rdf 1 (of_int len) f;
       Some (if n \<noteq> of_int len then None else Some b, f)
     }
   }"

definition l_audio_play_file ::
  "(int \<Rightarrow> whence \<Rightarrow> 'f \<Rightarrow> (int \<times> 'f) option) \<Rightarrow> ('f \<Rightarrow> (int \<times> 'f) option) \<Rightarrow> (u32 \<Rightarrow> u32 \<Rightarrow> 'f \<Rightarrow> (u32 \<times> bytes \<times> 'f) option) \<Rightarrow>
    bool \<Rightarrow> bool \<Rightarrow> bool \<Rightarrow> play_result option \<Rightarrow> bytes \<Rightarrow> 'f option \<Rightarrow> aud \<Rightarrow> (bool option \<times> aud \<times> 'f option) option" where
  "l_audio_play_file seek tell rdf tmp got_memory ok early name file a =
    (case file of
       None \<Rightarrow> Some (None, a, None)
     | Some f \<Rightarrow>
         (case aud_format_of name of
            Some fmt \<Rightarrow> do {
              (sound, f) \<leftarrow> read_sound seek tell rdf tmp fmt f;
              case sound of
                None \<Rightarrow> Some (None, a, None)
              | Some b \<Rightarrow> (let (r, a) = platform_audio_play got_memory ok early (P_buffer fmt b) a in Some (Some (r = PLATFORM_OK), a, None))
            }
          | None \<Rightarrow> do {
              (r, f) \<leftarrow> seek 0 SEEK_END f;
              (len, f) \<leftarrow> tell f;
              let (r, a) = platform_audio_play got_memory ok early (P_file name) a;
              Some (Some (r = PLATFORM_OK), a, Some f)
            }))"

definition l_audio_play_data :: "bool \<Rightarrow> bool \<Rightarrow> play_result option \<Rightarrow> bytes \<Rightarrow> u32 \<Rightarrow> aud \<Rightarrow> bool \<times> aud" where
  "l_audio_play_data got_memory ok early data format a =
    (let (r, a) = platform_audio_play got_memory ok early (P_buffer format data) a in (r = PLATFORM_OK, a))"

definition l_audio_stop :: "aud \<Rightarrow> aud" where
  "l_audio_stop a = snd (platform_audio_stop a)"

text \<open>The setters push the result as a number; the values are those of the script.\<close>

definition l_audio_set_channel :: "u32 \<Rightarrow> aud \<Rightarrow> int \<times> aud" where
  "l_audio_set_channel = platform_audio_set_channel"

definition l_audio_set_vol :: "u32 \<Rightarrow> aud \<Rightarrow> int \<times> aud" where
  "l_audio_set_vol = platform_audio_set_vol"

definition l_audio_set_mic_vol :: "u32 \<Rightarrow> aud \<Rightarrow> int \<times> aud" where
  "l_audio_set_mic_vol = platform_audio_set_mic_vol"

definition l_audio_set_loopback :: "u32 \<Rightarrow> u32 \<Rightarrow> u32 \<Rightarrow> u32 \<Rightarrow> aud \<Rightarrow> int \<times> aud" where
  "l_audio_set_loopback flag typ setvol = platform_audio_set_loopback (flag \<noteq> 0) typ (setvol \<noteq> 0)"

subsection \<open>Buffers and the state of the player\<close>

text \<open>\<open>Ended\<close> is the end of the sound that is played, if any, with its callback; \<open>Late\<close> a callback that comes for a
  sound that was stopped before, whatever is played now.  Each call and each callback is one step.\<close>

datatype aud_op =
    Play bool bool "play_result option" AudioPlayParam
  | Ended play_result
  | Late play_result
  | Stop
  | Setting u32

definition aud_act :: "aud_op \<Rightarrow> aud \<Rightarrow> aud" where
  "aud_act op a = (case op of
     Play got ok early p \<Rightarrow> snd (platform_audio_play got ok early p a)
   | Ended r \<Rightarrow> audio_play_callback r (a\<lparr>playing := None\<rparr>)
   | Late r \<Rightarrow> audio_play_callback r a
   | Stop \<Rightarrow> snd (platform_audio_stop a)
   | Setting v \<Rightarrow> snd (platform_audio_set_vol v a))"

abbreviation aud_run :: "aud_op list \<Rightarrow> aud \<Rightarrow> aud" where
  "aud_run ops a \<equiv> fold aud_act ops a"

text \<open>The buffer that is played is the one that is kept; none is kept otherwise, and no other block is.\<close>

definition aud_inv :: "aud \<Rightarrow> bool" where
  "aud_inv a \<longleftrightarrow> blocks a = (if audplaybuffer a = None then 0 else 1) \<and>
     (\<forall>m d. playing a = Some (Play_buffer m d) \<longrightarrow> audplaybuffer a = Some d) \<and>
     (audplaybuffer a \<noteq> None \<longrightarrow> (\<exists>m d. playing a = Some (Play_buffer m d))) \<and>
     (playing a \<noteq> None \<longrightarrow> isPlaying a)"

lemma aud_inv_start: "aud_inv aud_start"
  by (simp add: aud_inv_def aud_start_def)

lemma aud_inv_callback: "aud_inv a \<Longrightarrow> aud_inv (audio_play_callback r (a\<lparr>playing := None\<rparr>))"
  by (auto simp: aud_inv_def audio_play_callback_def free_buffer_def Let_def)

lemma aud_inv_start_music:
  assumes "blocks a = (if audplaybuffer a = None then 0 else 1)" "playing a = None"
    "case p of Play_buffer m d \<Rightarrow> audplaybuffer a = Some d | Play_file f n \<Rightarrow> audplaybuffer a = None"
  shows "aud_inv (snd (start_music ok early p a))"
  using assms
  by (cases p; cases early) (auto simp: start_music_def aud_inv_def audio_play_callback_def free_buffer_def Let_def)

lemma aud_inv_play:
  assumes "aud_inv a"
  shows "aud_inv (snd (platform_audio_play got ok early p a))"
proof (cases "isPlaying a")
  case True
  then show ?thesis using assms by (simp add: platform_audio_play_def)
next
  case False
  then have n: "playing a = None" "audplaybuffer a = None" "blocks a = 0" using assms by (auto simp: aud_inv_def)
  show ?thesis
  proof (cases p)
    case (P_buffer f d)
    then show ?thesis using assms n by (auto simp: platform_audio_play_def intro!: aud_inv_start_music split: option.splits)
  next
    case (P_file name)
    then show ?thesis using assms n by (auto simp: platform_audio_play_def intro!: aud_inv_start_music split: option.splits)
  qed
qed

definition not_late :: "aud_op \<Rightarrow> bool" where
  "not_late op = (case op of Late r \<Rightarrow> False | _ \<Rightarrow> True)"

lemma aud_inv_act: "not_late op \<Longrightarrow> aud_inv a \<Longrightarrow> aud_inv (aud_act op a)"
proof (cases op)
  case (Ended r)
  then show "aud_inv a \<Longrightarrow> aud_inv (aud_act op a)" using aud_inv_callback by (simp add: aud_act_def)
next
  case Stop
  then show "aud_inv a \<Longrightarrow> aud_inv (aud_act op a)"
    by (auto simp: aud_act_def platform_audio_stop_def aud_inv_def free_buffer_def)
next
  case (Setting v)
  then show "aud_inv a \<Longrightarrow> aud_inv (aud_act op a)"
    by (auto simp: aud_act_def platform_audio_set_vol_def aud_inv_def)
qed (simp_all add: aud_act_def aud_inv_play not_late_def)

lemma aud_inv_run: "list_all not_late ops \<Longrightarrow> aud_inv a \<Longrightarrow> aud_inv (aud_run ops a)"
  by (induction ops arbitrary: a) (simp_all add: aud_inv_act)

text \<open>C36: Whatever a script does and whenever sounds end, also before \<open>play_music\<close> returns, as long as no callback comes for a
  sound that was stopped before, and the calls and callbacks do not interrupt each other: memory is held exactly for a
  buffer that the base system is playing, which is never given back while it is played, and stopping leaves nothing
  playing and no memory held.\<close>
theorem audio_buffer_lives:
  assumes "list_all not_late ops"
  shows "let a = aud_run ops aud_start
   in (case playing a of Some (Play_buffer m d) \<Rightarrow> audplaybuffer a = Some d \<and> blocks a = 1 | _ \<Rightarrow> blocks a = 0) \<and>
      (let b = snd (platform_audio_stop a) in playing b = None \<and> blocks b = 0 \<and> \<not> isPlaying b)"
proof -
  have "aud_inv (aud_run ops aud_start)" by (rule aud_inv_run [OF assms aud_inv_start])
  then show ?thesis
    by (auto simp: Let_def aud_inv_def platform_audio_stop_def free_buffer_def split: option.splits play_call.splits)
qed

theorem audio_buffer_lives_witness:
  "blocks (aud_run [Play True True None (P_buffer 1 [1]), Stop, Play True True None (P_buffer 1 [2]), Ended ERR_NO,
      Play True True None (P_buffer 0 [3])] aud_start) = 1"
proof -
  let ?ops = "[Play True True None (P_buffer 1 [1]), Stop, Play True True None (P_buffer 1 [2]), Ended ERR_NO,
      Play True True None (P_buffer 0 [3])]"
  have "playing (aud_run ?ops aud_start) = Some (Play_buffer MODE_AMR122 [3])" by code_simp
  moreover have "list_all not_late ?ops" by (simp add: not_late_def)
  ultimately show ?thesis using audio_buffer_lives [of ?ops] by (simp only: Let_def option.case play_call.case)
qed

text \<open>A callback that comes for a stopped sound gives the buffer of the next one back while it is played.\<close>

lemma late_callback_frees:
  "let a = aud_run [Play True True None (P_buffer 1 [1]), Stop, Play True True None (P_buffer 1 [2]), Late ERR_other] aud_start
   in playing a = Some (Play_buffer MODE_MP3 [2]) \<and> audplaybuffer a = None \<and> blocks a = 0 \<and> \<not> isPlaying a"
  by code_simp

text \<open>The callback and the stop of the script both look at the pointer before they release the buffer, without a lock:
  when both have seen it, it is released twice.\<close>

lemma released_twice:
  assumes "audplaybuffer a = Some d"
  shows "blocks (free_buffer ((free_buffer a)\<lparr>audplaybuffer := Some d\<rparr>)) = blocks a - 2"
  using assms by (simp add: free_buffer_def)

text \<open>A sound that ends before \<open>play_music\<close> returns leaves the flag set: nothing plays, and no further sound is accepted
  until the script stops the player.\<close>

lemma early_end_blocks:
  assumes "platform_audio_play True True (Some r) p aud_start = (PLATFORM_OK, a)"
  shows "playing a = None \<and> isPlaying a \<and> (\<forall>got ok early q. platform_audio_play got ok early q a = (PLATFORM_ERR, a))"
  using assms
  by (auto simp: platform_audio_play_def start_music_def audio_play_callback_def free_buffer_def aud_start_def Let_def
      split: if_splits option.splits AudioPlayParam.splits)

subsection \<open>Playing a file\<close>

text \<open>What reading a sound needs of a stream: seeks inside its contents \<open>clear f\<close>, its position, and reads.\<close>

locale seekable =
  fixes seek :: "int \<Rightarrow> whence \<Rightarrow> 'f \<Rightarrow> (int \<times> 'f) option"
    and tell :: "'f \<Rightarrow> (int \<times> 'f) option"
    and rdf :: "u32 \<Rightarrow> u32 \<Rightarrow> 'f \<Rightarrow> (u32 \<times> bytes \<times> 'f) option"
    and clear :: "'f \<Rightarrow> bytes"
    and at :: "nat \<Rightarrow> 'f \<Rightarrow> bool"
  assumes seek_set: "at p f \<Longrightarrow> q \<le> length (clear f) \<Longrightarrow> \<exists>r f'. seek (int q) SEEK_SET f = Some (r, f') \<and> at q f' \<and> clear f' = clear f"
    and seek_end: "at p f \<Longrightarrow> \<exists>r f'. seek 0 SEEK_END f = Some (r, f') \<and> at (length (clear f)) f' \<and> clear f' = clear f"
    and tell_at: "at p f \<Longrightarrow> \<exists>f'. tell f = Some (int p, f') \<and> at p f' \<and> clear f' = clear f"
    and read_rest: "at p f \<Longrightarrow> length (clear f) < 2 ^ 31 - 1024 \<Longrightarrow> n = length (clear f) - p \<Longrightarrow>
      \<exists>f'. rdf 1 (of_nat n) f = Some (of_nat n, drop p (clear f), f') \<and> at (length (clear f)) f' \<and> clear f' = clear f"
begin

lemma read_sound_rest:
  assumes "at p f" "length (clear f) < 2 ^ 31 - 1024" "k = (if fmt = 0 then 6 else 0)" "k \<le> length (clear f)"
  shows "\<exists>f'. read_sound seek tell rdf True fmt f = Some (Some (drop k (clear f)), f')"
proof -
  let ?d = "clear f"
  obtain r1 f1 where 1: "seek 0 SEEK_END f = Some (r1, f1)" "at (length ?d) f1" "clear f1 = ?d"
    using seek_end [OF assms(1)] by blast
  obtain f2 where 2: "tell f1 = Some (int (length ?d), f2)" "at (length ?d) f2" "clear f2 = ?d" using tell_at [OF 1(2)] 1(3) by auto
  obtain r3 f3 where 3: "seek (int k) SEEK_SET f2 = Some (r3, f3)" "at k f3" "clear f3 = ?d"
    using seek_set [OF 2(2), of k] assms(4) 2(3) by auto
  let ?n = "length ?d - k"
  obtain f4 where 4: "rdf 1 (of_nat ?n) f3 = Some (of_nat ?n, drop k ?d, f4)"
    using read_rest [OF 3(2) _ refl] assms(2) 3(3) by auto
  have s: "seek (if fmt = 0 then 6 else 0) SEEK_SET f2 = Some (r3, f3)" using 3(1) assms(3) by (auto split: if_splits)
  have n: "(if fmt = 0 then int (length ?d) - 6 else int (length ?d)) = int ?n"
    using assms(3,4) by (auto split: if_splits)
  have "read_sound seek tell rdf True fmt f = Some (Some (drop k ?d), f4)"
    unfolding read_sound_def by (simp add: 1(1) 2(1) Let_def s n 4 del: of_int_diff)
  then show ?thesis by blast
qed

lemma play_file:
  assumes "at p f" "length (clear f) < 2 ^ 31 - 1024" "aud_format_of name = Some fmt" "k = (if fmt = 0 then 6 else 0)"
    and "k \<le> length (clear f)" "aud_inv a" "\<not> isPlaying a" "m = (if fmt = 0 then MODE_AMR122 else MODE_MP3)"
  shows "\<exists>a'. l_audio_play_file seek tell rdf True True True None name (Some f) a = Some (Some True, a', None) \<and>
    playing a' = Some (Play_buffer m (drop k (clear f))) \<and> aud_calls a' = aud_calls a @ [Play_music (Play_buffer m (drop k (clear f)))]"
proof -
  obtain f' where r: "read_sound seek tell rdf True fmt f = Some (Some (drop k (clear f)), f')"
    using read_sound_rest [OF assms(1,2,4,5)] by blast
  have fmt: "fmt = 0 \<or> fmt = 1" using assms(3) by (auto simp: aud_format_of_def split: if_splits)
  then have "getDataFormat fmt = Some m" using assms(8) by (auto simp: getDataFormat_def)
  moreover have "audplaybuffer a = None" using assms(6,7) by (auto simp: aud_inv_def)
  ultimately have "platform_audio_play True True None (P_buffer fmt (drop k (clear f))) a = (PLATFORM_OK,
      a\<lparr>audplaybuffer := Some (drop k (clear f)), blocks := blocks a + 1,
        aud_calls := aud_calls a @ [Play_music (Play_buffer m (drop k (clear f)))],
        playing := Some (Play_buffer m (drop k (clear f))), isPlaying := True\<rparr>)"
    using assms(7) by (simp add: platform_audio_play_def start_music_def Let_def)
  then show ?thesis by (simp add: l_audio_play_file_def assms(3) r)
qed

end

text \<open>An open stream on the file system, with its contents in the clear.\<close>

definition slot_at :: "'s fs_ops \<Rightarrow> storage \<Rightarrow> int \<Rightarrow> ('s \<Rightarrow> bytes) \<Rightarrow> ('s \<Rightarrow> nat) \<Rightarrow> nat \<Rightarrow> FILE \<times> 's sys \<Rightarrow> bool" where
  "slot_at os st fd content pos p = (\<lambda>(fp, s). driver_ok os fd content pos \<and> (fl_enc fp \<longrightarrow> decodes_words st) \<and>
    file_at fd content pos (fl_enc fp) (has_flag (SWR OR SRW) fp) p (content (sys_fs s)) fp s)"

definition slot_text :: "storage \<Rightarrow> ('s \<Rightarrow> bytes) \<Rightarrow> FILE \<times> 's sys \<Rightarrow> bytes" where
  "slot_text st content = (\<lambda>(fp, s). clear_text st (fl_enc fp) (content (sys_fs s)))"

interpretation slot_file: seekable
  "\<lambda>off w (fp, s). fseek (boot_dm os) off w fp s" "\<lambda>(fp, s). ftell (boot_dm os) fp s"
  "\<lambda>sz n (fp, s). fread (boot_dm os) st sz n fp s" "slot_text st content" "slot_at os st fd content pos"
  for os st fd content pos
proof
  fix p q :: nat and f
  assume a: "slot_at os st fd content pos p f"
  obtain fp s where f: "f = (fp, s)" by (cases f)
  let ?c = "content (sys_fs s)" and ?w = "has_flag (SWR OR SRW) fp"
  have d: "driver_ok os fd content pos" "fl_enc fp \<longrightarrow> decodes_words st" and at: "file_at fd content pos (fl_enc fp) ?w p ?c fp s"
    using a by (simp_all add: slot_at_def f)
  have same: "slot_at os st fd content pos p' (fp', s') \<and> slot_text st content (fp', s') = slot_text st content f"
    if "file_at fd content pos (fl_enc fp) ?w p' ?c fp' s'" for p' fp' s'
    using that d by (auto simp: slot_at_def slot_text_def f file_at_def)
  have len: "length (slot_text st content f) = length ?c" using length_clear_text [OF d(2)] by (simp add: slot_text_def f)
  show "\<exists>r f'. (case f of (fp, s) \<Rightarrow> fseek (boot_dm os) (int q) SEEK_SET fp s) = Some (r, f') \<and>
      slot_at os st fd content pos q f' \<and> slot_text st content f' = slot_text st content f"
    if "q \<le> length (slot_text st content f)"
  proof -
    obtain fp' s' where "fseek (boot_dm os) (int q) SEEK_SET fp s = Some (0, fp', s')"
      and at': "file_at fd content pos (fl_enc fp) ?w q ?c fp' s'"
      using fseek_set_at [OF d(1) at, of q] \<open>q \<le> length (slot_text st content f)\<close> len by auto
    then show ?thesis using same [OF at'] unfolding f prod.case by blast
  qed
  show "\<exists>r f'. (case f of (fp, s) \<Rightarrow> fseek (boot_dm os) 0 SEEK_END fp s) = Some (r, f') \<and>
      slot_at os st fd content pos (length (slot_text st content f)) f' \<and> slot_text st content f' = slot_text st content f"
  proof -
    have e: "length (slot_text st content f) = length ?c" by (rule len)
    obtain fp' s' where "fseek (boot_dm os) 0 SEEK_END fp s = Some (0, fp', s')"
      and at': "file_at fd content pos (fl_enc fp) ?w (length ?c) ?c fp' s'"
      using fseek_at [OF d(1) at refl, of 0 SEEK_END] by (auto simp: seek_target_def)
    then show ?thesis using same [OF at'] unfolding e unfolding f prod.case by blast
  qed
  show "\<exists>f'. (case f of (fp, s) \<Rightarrow> ftell (boot_dm os) fp s) = Some (int p, f') \<and> slot_at os st fd content pos p f' \<and>
      slot_text st content f' = slot_text st content f"
  proof -
    obtain fp' s' where "ftell (boot_dm os) fp s = Some (int p, fp', s')"
      and at': "file_at fd content pos (fl_enc fp) ?w p ?c fp' s'"
      using ftell_at [OF d(1) at] by blast
    then show ?thesis using same [OF at'] unfolding f prod.case by blast
  qed
  show "\<exists>f'. (case f of (fp, s) \<Rightarrow> fread (boot_dm os) st 1 (of_nat n) fp s) = Some (of_nat n, drop p (slot_text st content f), f') \<and>
      slot_at os st fd content pos (length (slot_text st content f)) f' \<and> slot_text st content f' = slot_text st content f"
    if "length (slot_text st content f) < 2 ^ 31 - 1024" "n = length (slot_text st content f) - p" for n
  proof -
    let ?d = "clear_text st (fl_enc fp) ?c"
    have n: "n = length ?d - p" "n < 2 ^ 31 - 1024" "slot_text st content f = ?d" using that by (auto simp: slot_text_def f)
    have u: "unat (of_nat n * 1 :: u32) = n" using n(2) by (simp add: unat_of_nat_small)
    have p: "p \<le> length ?d" using at d(2) by (simp add: file_at_def length_clear_text)
    have b: "drop p ?d = take (unat (of_nat n * 1 :: u32)) (drop p ?d)" "length (drop p ?d) = n" using u n(1) by simp_all
    have e: "p + length (drop p ?d) = length ?d" using p by simp
    have c: "unat (of_nat n * 1 :: u32) < 2 ^ 31 - 1024" using u n(2) by simp
    obtain fp' s' where "fread (boot_dm os) st 1 (of_nat n) fp s = Some (of_nat n, drop p ?d, fp', s')"
      and at': "file_at fd content pos (fl_enc fp) ?w (length ?d) ?c fp' s'"
      using fread_at [OF d(1) at d(2) c b(1)] unfolding e unfolding b(2) by auto
    then show ?thesis using same [OF at'] unfolding n(3) unfolding f prod.case by blast
  qed
qed

text \<open>A plain file in the flash table; seeks take and give back words.\<close>

definition table_at :: "storage \<Rightarrow> nat \<Rightarrow> ext_file \<Rightarrow> bool" where
  "table_at st p fp \<longleftrightarrow> x_ok st fp \<and> x_pos fp = p"

interpretation table_file: seekable
  "\<lambda>off w fp. Some (map_prod of_bool id (fseek_ext fp (of_int off) w))" "\<lambda>fp. Some (uint (ftell_ext fp), fp)"
  "\<lambda>sz n fp. Some (fread_ext st sz n fp)" "x_content st" "table_at st"
  for st
proof
  fix p q n :: nat and fp
  assume a: "table_at st p fp"
  have ok: "x_ok st fp" and p: "x_pos fp = p" using a by (simp_all add: table_at_def)
  let ?d = "x_content st fp"
  have small: "length ?d < 2 ^ 31" by (rule x_content_small [OF ok])
  have moved: "table_at st k (fp\<lparr>x_offset := of_nat k\<rparr>) \<and> x_content st (fp\<lparr>x_offset := of_nat k\<rparr>) = ?d" if "k \<le> length ?d" for k
    using x_ok_upd [OF ok that] that small by (simp add: table_at_def x_pos_def unat_of_nat_small)
  show "\<exists>r f'. Some (map_prod of_bool id (fseek_ext fp (of_int (int q)) SEEK_SET)) = Some (r, f') \<and> table_at st q f' \<and> x_content st f' = ?d"
    if "q \<le> length ?d"
  proof -
    have "sint (of_int (int q) :: u32) = int q" using that small by (simp add: sint_low unat_of_nat_small)
    then have "fseek_ext fp (of_int (int q)) SEEK_SET = (True, fp\<lparr>x_offset := of_nat q\<rparr>)"
      using fseek_ext_eq [OF ok, of SEEK_SET "of_int (int q)"] that by (simp add: a_seek_def)
    then show ?thesis using moved [OF that] by simp
  qed
  show "\<exists>r f'. Some (map_prod of_bool id (fseek_ext fp (of_int 0) SEEK_END)) = Some (r, f') \<and> table_at st (length ?d) f' \<and>
      x_content st f' = ?d"
    using fseek_ext_eq [OF ok, of SEEK_END 0] moved [of "length ?d"] by (simp add: a_seek_def)
  show "\<exists>f'. Some (uint (ftell_ext fp), fp) = Some (int p, f') \<and> table_at st p f' \<and> x_content st f' = ?d"
    using a p [symmetric] by (simp add: ftell_ext_def x_pos_def)
  show "\<exists>f'. Some (fread_ext st 1 (of_nat n) fp) = Some (of_nat n, drop p ?d, f') \<and> table_at st (length ?d) f' \<and> x_content st f' = ?d"
    if "length ?d < 2 ^ 31 - 1024" "n = length ?d - p"
  proof -
    have u: "unat (of_nat n * 1 :: u32) = n" using that by (simp add: unat_of_nat_small)
    have k: "n = min (unat (of_nat n * 1 :: u32)) (length ?d - x_pos fp)" using u that(2) p by simp
    have e: "x_pos fp + n = length ?d" using x_pos_le [OF ok] that(2) p by simp
    have "fread_ext st 1 (of_nat n) fp = (of_nat n, drop p ?d, fp\<lparr>x_offset := of_nat (length ?d)\<rparr>)"
      using fread_ext_eq [OF ok k] unfolding e unfolding p using that(2) by simp
    then show ?thesis using moved [of "length ?d"] by simp
  qed
qed

text \<open>C37: An AMR or MP3 file is played from a buffer that holds its clear contents, those of an AMR file without the header:
  whatever the position of the stream, and for an encrypted file as well.\<close>
theorem audio_plays_file:
  assumes "slot_at os st fd content pos p f" "length (slot_text st content f) < 2 ^ 31 - 1024" "aud_format_of name = Some fmt"
    and "d = drop (if fmt = 0 then 6 else 0) (slot_text st content f)" "(if fmt = 0 then 6 else 0) \<le> length (slot_text st content f)"
    and "aud_inv a" "\<not> isPlaying a"
  shows "\<exists>a'. l_audio_play_file (\<lambda>off w (fp, s). fseek (boot_dm os) off w fp s) (\<lambda>(fp, s). ftell (boot_dm os) fp s)
      (\<lambda>sz n (fp, s). fread (boot_dm os) st sz n fp s) True True True None name (Some f) a = Some (Some True, a', None) \<and>
    playing a' = Some (Play_buffer (if fmt = 0 then MODE_AMR122 else MODE_MP3) d)"
  using slot_file.play_file [OF assms(1-3) refl assms(5-7) refl] assms(4) by blast

theorem audio_plays_file_witness:
  "\<exists>a'. l_audio_play_file (\<lambda>off w (fp, s). fseek (boot_dm mem_os) off w fp s) (\<lambda>(fp, s). ftell (boot_dm mem_os) fp s)
      (\<lambda>sz n (fp, s). fread (boot_dm mem_os) demo_storage sz n fp s) True True True None (lit ''a.mp3'') (Some (mem_file, mem_sys)) aud_start
      = Some (Some True, a', None) \<and> playing a' = Some (Play_buffer MODE_MP3 [1, 2, 3, 4])"
proof -
  have at: "slot_at mem_os demo_storage 5 fst snd 0 (mem_file, mem_sys)"
    using mem_os_ok by (simp add: slot_at_def file_at_def mem_file_def mem_sys_def has_flag_def)
  have c: "slot_text demo_storage fst (mem_file, mem_sys) = [1, 2, 3, 4]"
    by (simp add: slot_text_def clear_text_def mem_file_def mem_sys_def)
  have f: "aud_format_of (lit ''a.mp3'') = Some 1" by code_simp
  show ?thesis
    using audio_plays_file [OF at _ f refl _ aud_inv_start] by (simp add: c aud_start_def)
qed

text \<open>The same for a file of the preset table.\<close>

lemma audio_plays_table_file:
  assumes "x_ok st fp" "length (x_content st fp) < 2 ^ 31 - 1024" "aud_format_of name = Some fmt" "k = (if fmt = 0 then 6 else 0)"
    and "k \<le> length (x_content st fp)" "aud_inv a" "\<not> isPlaying a"
  shows "\<exists>a'. l_audio_play_file (\<lambda>off w fp. Some (map_prod of_bool id (fseek_ext fp (of_int off) w)))
      (\<lambda>fp. Some (uint (ftell_ext fp), fp)) (\<lambda>sz n fp. Some (fread_ext st sz n fp)) True True True None name (Some fp) a =
      Some (Some True, a', None) \<and>
    playing a' = Some (Play_buffer (if fmt = 0 then MODE_AMR122 else MODE_MP3) (drop k (x_content st fp)))"
proof -
  have "table_at st (x_pos fp) fp" using assms(1) by (simp add: table_at_def)
  from table_file.play_file [OF this assms(2-7) refl] show ?thesis by blast
qed

end
