(* ===== verification/Clib.thy ===== *)
theory Clib
  imports Prelude
begin

text \<open>
  The scanner \<^verbatim>\<open>sscanf\<close> that the firmware brings along in
  \<^verbatim>\<open>platform/coolsand/src/cust_vsscanf.c\<close>.

  A pointer into a string is the rest of the object it points into, with the terminating zero; reading or moving behind the
  object is \<open>None\<close>.  The results of \<^verbatim>\<open>sscanf\<close> are the values it stores, in order.
\<close>

subsection \<open>Characters and numbers of the standard library\<close>

definition is_space :: "u8 \<Rightarrow> bool" where
  "is_space c \<longleftrightarrow> c = 32 \<or> 9 \<le> c \<and> c \<le> 13"

definition digit_of :: "u8 \<Rightarrow> nat option" where
  "digit_of c =
    (if 48 \<le> c \<and> c \<le> 57 then Some (unat c - 48)
     else if 97 \<le> c \<and> c \<le> 122 then Some (unat c - 87)
     else if 65 \<le> c \<and> c \<le> 90 then Some (unat c - 55)
     else None)"

fun digits_num :: "nat \<Rightarrow> nat \<Rightarrow> bytes \<Rightarrow> nat" where
  "digits_num base n [] = n"
| "digits_num base n (c # cs) =
    (case digit_of c of
       None \<Rightarrow> n
     | Some d \<Rightarrow> if d < base then digits_num base (base * n + d) cs else n)"

text \<open>The sign and the value of the digits, behind the prefix of a hexadecimal number.\<close>

definition number_of :: "nat \<Rightarrow> bytes \<Rightarrow> bool \<times> nat" where
  "number_of base s =
    (let (neg, s) = (case s of [] \<Rightarrow> (False, s) | c # cs \<Rightarrow> if c = 45 then (True, cs) else if c = 43 then (False, cs) else (False, s));
         s = (if base = 16 then (case s of z # x # ds \<Rightarrow> if z = 48 \<and> (x = 120 \<or> x = 88) then ds else s | _ \<Rightarrow> s) else s)
     in (neg, digits_num base 0 s))"

definition strtol :: "nat \<Rightarrow> bytes \<Rightarrow> u32" where
  "strtol base s =
    (let (neg, n) = number_of base s; v = (if neg then - int n else int n)
     in of_int (max (- (2 ^ 31)) (min (2 ^ 31 - 1) v)))"

definition strtoul :: "nat \<Rightarrow> bytes \<Rightarrow> u32" where
  "strtoul base s =
    (let (neg, n) = number_of base s
     in if 2 ^ 32 \<le> n then - 1 else if neg then - of_nat n else of_nat n)"

subsection \<open>Directives\<close>

record directive =
  d_width :: u32
  d_long :: bool
  d_short :: bool
  d_shortshort :: bool
  d_suppress :: bool
  d_noskip :: bool
  d_pfxok :: bool

definition no_flags :: directive where
  "no_flags = \<lparr>d_width = 0, d_long = False, d_short = False, d_shortshort = False, d_suppress = False, d_noskip = False,
     d_pfxok = False\<rparr>"

datatype ccfn = Strtol | Strtoul

text \<open>What the first switch finds: a conversion, with its base and function, or another character of the format.  The
  characters 0, 2 and 3 are the codes of the conversions \<^verbatim>\<open>CT_CHAR\<close>, \<^verbatim>\<open>CT_STRING\<close> and \<^verbatim>\<open>CT_INT\<close>.\<close>

datatype conversion = C_percent | C_read | C_int nat ccfn | C_other u8

fun directive_of :: "directive \<Rightarrow> bytes \<Rightarrow> (directive \<times> conversion \<times> bytes) option" where
  "directive_of d [] = None"
| "directive_of d (c # f) =
    (if c = 37 then Some (d, C_percent, f)
     else if c = 42 then directive_of (d\<lparr>d_suppress := True\<rparr>) f
     else if c = 104 then
       (case f of
          [] \<Rightarrow> None
        | c' # f' \<Rightarrow>
            if c' = 104 then directive_of (d\<lparr>d_shortshort := True\<rparr>) f'
            else directive_of (d\<lparr>d_short := True\<rparr>) f)
     else if c = 108 then directive_of (d\<lparr>d_long := True\<rparr>) f
     else if 48 \<le> c \<and> c \<le> 57 then directive_of (d\<lparr>d_width := d_width d * 10 + ucast c - 48\<rparr>) f
     else if c = 100 then Some (d, C_int 10 Strtol, f)
     else if c = 105 then Some (d, C_int 0 Strtol, f)
     else if c = 111 then Some (d, C_int 8 Strtoul, f)
     else if c = 117 then Some (d, C_int 10 Strtoul, f)
     else if c = 120 then Some (d\<lparr>d_pfxok := True\<rparr>, C_int 16 Strtoul, f)
     else if c = 115 then Some (d, C_other 2, f)
     else if c = 99 then Some (d\<lparr>d_noskip := True\<rparr>, C_other 0, f)
     else if c = 110 then Some (d, C_read, f)
     else Some (d, C_other c, f))"

subsection \<open>Scanning\<close>

datatype stored = S_char u8 | S_string bytes | S_byte u8 | S_short u16 | S_int u32 | S_long u32

record scan_state =
  sc_fp :: bytes
  sc_fmt :: bytes
  nread :: u32
  nassigned :: int
  base :: nat
  fn :: "ccfn option"
  stores :: "stored list"

text \<open>\<open>None\<close> is an access outside the strings or a call through a null pointer; then there is a result of
  \<^verbatim>\<open>vsscanf\<close>, or the scan goes on.\<close>

type_synonym scanned = "(int option \<times> scan_state) option"

abbreviation go :: "scan_state \<Rightarrow> scanned" where "go s \<equiv> Some (None, s)"

definition input_failure :: "scan_state \<Rightarrow> scanned" where
  "input_failure s = Some (Some (if nassigned s \<noteq> 0 then nassigned s else - 1), s)"

definition match_failure :: "scan_state \<Rightarrow> scanned" where
  "match_failure s = Some (Some (nassigned s), s)"

definition put_stored :: "stored \<Rightarrow> scan_state \<Rightarrow> scan_state" where
  "put_stored x s = s\<lparr>stores := stores s @ [x]\<rparr>"

definition assign :: "stored \<Rightarrow> scan_state \<Rightarrow> scan_state" where
  "assign x s = (put_stored x s)\<lparr>nassigned := nassigned s + 1\<rparr>"

text \<open>\<^verbatim>\<open>INT_MAX\<close> is a pointer here, 2 to the 31; \<open>e\<close> is the address behind the scanned string.\<close>

definition below :: "nat \<Rightarrow> bytes \<Rightarrow> bool" where
  "below e fp \<longleftrightarrow> int e - int (length fp) < 2 ^ 31"

text \<open>White space in the format.\<close>

fun blank_loop :: "bytes \<Rightarrow> u32 \<Rightarrow> (bytes \<times> u32) option" where
  "blank_loop [] n = None"
| "blank_loop (b # fp) n = (if is_space b then blank_loop fp (n + 1) else Some (fp, n))"

definition literal :: "u8 \<Rightarrow> scan_state \<Rightarrow> scanned" where
  "literal c s = (case sc_fp s of
     [] \<Rightarrow> None
   | b # fp \<Rightarrow> if b = 0 then input_failure s else if sint b \<noteq> uint c then match_failure s
              else go (s\<lparr>sc_fp := fp, nread := nread s + 1\<rparr>))"

text \<open>White space before a conversion: \<open>None\<close> inside is the end of the input.\<close>

fun skip_loop :: "nat \<Rightarrow> bytes \<Rightarrow> u32 \<Rightarrow> (bytes \<times> u32) option option" where
  "skip_loop e [] n = None"
| "skip_loop e (b # fp) n =
    (if \<not> is_space b then Some (Some (b # fp, n))
     else if \<not> below e fp then Some None
     else case fp of [] \<Rightarrow> None | c # _ \<Rightarrow> if c = 0 then Some None else skip_loop e fp (n + 1))"

text \<open>The loop of a suppressed \<^verbatim>\<open>%c\<close>: the rest of the width, the string and the count.\<close>

fun chars_loop :: "nat \<Rightarrow> nat \<Rightarrow> bytes \<Rightarrow> u32 \<Rightarrow> (nat \<times> bytes \<times> u32) option" where
  "chars_loop e 0 fp n = Some (0, fp, n)"
| "chars_loop e (Suc w) [] n = None"
| "chars_loop e (Suc w) (b # fp) n =
    (if \<not> below e (b # fp) then Some (Suc w, fp, n)
     else case fp of [] \<Rightarrow> None | c # _ \<Rightarrow> if c = 0 then Some (Suc w, fp, n) else chars_loop e w fp (n + 1))"

definition conv_char :: "nat \<Rightarrow> directive \<Rightarrow> scan_state \<Rightarrow> scanned" where
  "conv_char e d s =
    (if d_suppress d then
       (case chars_loop e (unat (if d_width d = 0 then 1 else d_width d)) (sc_fp s) 0 of
          None \<Rightarrow> None
        | Some (w, fp, k) \<Rightarrow>
            if w \<noteq> 0 then input_failure (s\<lparr>sc_fp := fp\<rparr>) else go (s\<lparr>sc_fp := fp, nread := nread s + k\<rparr>))
     else case sc_fp s of [] \<Rightarrow> None | b # _ \<Rightarrow> go (assign (S_char b) (s\<lparr>nread := nread s + 1\<rparr>)))"

fun string_loop :: "nat \<Rightarrow> u32 \<Rightarrow> bytes \<Rightarrow> (bytes \<times> bytes) option" where
  "string_loop e w [] = None"
| "string_loop e w (b # fp) =
    (if is_space b \<or> \<not> below e (b # fp) then Some ([], b # fp)
     else if w - 1 = 0 then Some ([b], fp)
     else case fp of
         [] \<Rightarrow> None
       | c # _ \<Rightarrow> if c = 0 then Some ([b], fp) else map_option (\<lambda>(t, r). (b # t, r)) (string_loop e (w - 1) fp))"

definition conv_string :: "nat \<Rightarrow> directive \<Rightarrow> scan_state \<Rightarrow> scanned" where
  "conv_string e d s =
    (case string_loop e (if d_width d = 0 then - 1 else d_width d) (sc_fp s) of
       None \<Rightarrow> None
     | Some (t, fp) \<Rightarrow>
         (let s = s\<lparr>sc_fp := fp, nread := nread s + of_nat (length t)\<rparr>
          in go (if d_suppress d then s else assign (S_string t) s)))"

record int_scan =
  signok :: bool
  havesign :: bool
  ndigits :: bool
  nzdigits :: bool
  pfxok :: bool
  ibase :: nat
  buf :: bytes

definition basefix :: "nat list" where
  "basefix = [10, 1, 2, 3, 4, 5, 6, 7, 8, 9, 10, 11, 12, 13, 14, 15, 16]"

text \<open>Whether a character is accepted as part of the number.\<close>

definition int_char :: "u8 \<Rightarrow> int_scan \<Rightarrow> int_scan option" where
  "int_char c i =
    (if c = 48 then
       (let i = (if ibase i = 0 then i\<lparr>ibase := 8, pfxok := True\<rparr> else i)
        in Some (if nzdigits i then i\<lparr>signok := False, nzdigits := False, ndigits := False\<rparr>
                 else i\<lparr>signok := False, pfxok := False, ndigits := False\<rparr>))
     else if 49 \<le> c \<and> c \<le> 55 then
       Some (i\<lparr>ibase := basefix ! ibase i, signok := False, pfxok := False, ndigits := False\<rparr>)
     else if c = 56 \<or> c = 57 then
       (if basefix ! ibase i \<le> 8 then None
        else Some (i\<lparr>ibase := basefix ! ibase i, signok := False, pfxok := False, ndigits := False\<rparr>))
     else if 65 \<le> c \<and> c \<le> 70 \<or> 97 \<le> c \<and> c \<le> 102 then
       (if ibase i \<le> 10 then None else Some (i\<lparr>signok := False, pfxok := False, ndigits := False\<rparr>))
     else if c = 43 \<or> c = 45 then
       (if signok i then Some (i\<lparr>signok := False, havesign := True\<rparr>) else None)
     else if c = 120 \<or> c = 88 then
       (if pfxok i \<and> length (buf i) = 1 + (if havesign i then 1 else 0) then Some (i\<lparr>ibase := 16, pfxok := False\<rparr>) else None)
     else None)"

fun int_loop :: "nat \<Rightarrow> int_scan \<Rightarrow> bytes \<Rightarrow> (int_scan \<times> bytes) option" where
  "int_loop 0 i fp = Some (i, fp)"
| "int_loop (Suc w) i [] = None"
| "int_loop (Suc w) i (c # fp) =
    (case int_char c i of
       None \<Rightarrow> Some (i, c # fp)
     | Some i' \<Rightarrow>
         (let i' = i'\<lparr>buf := buf i @ [c]\<rparr>
          in case fp of [] \<Rightarrow> None | c' # _ \<Rightarrow> if c' = 0 \<or> is_space c' then Some (i', fp) else int_loop w i' fp))"

definition int_store :: "directive \<Rightarrow> u32 \<Rightarrow> stored" where
  "int_store d res =
    (if d_long d then S_long res else if d_short d then S_short (ucast res)
     else if d_shortshort d then S_byte (ucast res) else S_int res)"

definition conv_int :: "directive \<Rightarrow> scan_state \<Rightarrow> scanned" where
  "conv_int d s =
    (case int_loop (if d_width d = 0 \<or> 513 - 1 < d_width d then 512 else unat (d_width d))
            \<lparr>signok = True, havesign = False, ndigits = True, nzdigits = True, pfxok = d_pfxok d, ibase = base s, buf = []\<rparr>
            (sc_fp s) of
       None \<Rightarrow> None
     | Some (i, fp) \<Rightarrow>
         (let s = s\<lparr>sc_fp := fp, base := ibase i\<rparr>
          in if ndigits i then match_failure s
             else (let b = (if last (buf i) = 120 \<or> last (buf i) = 88 then butlast (buf i) else buf i);
                       s = s\<lparr>nread := nread s + of_nat (length b)\<rparr>
                   in if d_suppress d then go s
                      else case fn s of
                          None \<Rightarrow> None
                        | Some Strtol \<Rightarrow> go (assign (int_store d (strtol (ibase i) b)) s)
                        | Some Strtoul \<Rightarrow> go (assign (int_store d (strtoul (ibase i) b)) s))))"

text \<open>\<^verbatim>\<open>%n\<close>.\<close>

definition conv_read :: "directive \<Rightarrow> scan_state \<Rightarrow> scan_state" where
  "conv_read d s =
    (if d_suppress d then s
     else put_stored (if d_short d then S_short (ucast (nread s)) else if d_shortshort d then S_byte (ucast (nread s))
               else if d_long d then S_long (nread s) else S_int (nread s)) s)"

text \<open>The second switch; a character that is no conversion consumes only the white space before it.\<close>

definition convert :: "nat \<Rightarrow> directive \<Rightarrow> u8 \<Rightarrow> scan_state \<Rightarrow> scanned" where
  "convert e d c s =
    (case sc_fp s of
       [] \<Rightarrow> None
     | b # _ \<Rightarrow>
         if b = 0 then input_failure s
         else case (if d_noskip d then Some (Some (sc_fp s, nread s)) else skip_loop e (sc_fp s) (nread s)) of
             None \<Rightarrow> None
           | Some None \<Rightarrow> input_failure s
           | Some (Some (fp, n)) \<Rightarrow>
               (let s = s\<lparr>sc_fp := fp, nread := n\<rparr>
                in if c = 0 then conv_char e d s else if c = 2 then conv_string e d s else if c = 3 then conv_int d s else go s))"

text \<open>One turn of the main loop.\<close>

definition scan_turn :: "nat \<Rightarrow> scan_state \<Rightarrow> scanned" where
  "scan_turn e s =
    (case sc_fmt s of
       [] \<Rightarrow> None
     | c # f \<Rightarrow>
         (let s = s\<lparr>sc_fmt := f\<rparr>
          in if c = 0 then match_failure s
             else if is_space c then
               (case blank_loop (sc_fp s) (nread s) of None \<Rightarrow> None | Some (fp, n) \<Rightarrow> go (s\<lparr>sc_fp := fp, nread := n\<rparr>))
             else if c \<noteq> 37 then literal c s
             else case directive_of no_flags f of
                 None \<Rightarrow> None
               | Some (d, conv, f) \<Rightarrow>
                   (let s = s\<lparr>sc_fmt := f\<rparr>
                    in case conv of
                        C_percent \<Rightarrow> literal 37 s
                      | C_read \<Rightarrow> go (conv_read d s)
                      | C_int b g \<Rightarrow> convert e d 3 (s\<lparr>base := b, fn := Some g\<rparr>)
                      | C_other x \<Rightarrow> convert e d x s)))"

text \<open>Every turn takes characters from the format.\<close>

lemma directive_of_both:
  "directive_of d f = Some (d', c, f') \<Longrightarrow> length f' < length f \<and> directive_of d (f @ g) = Some (d', c, f' @ g)"
proof (induction d f rule: directive_of.induct)
  case (2 d c' f)
  show ?case
  proof (cases "c' = 37 \<or> c' = 100 \<or> c' = 105 \<or> c' = 111 \<or> c' = 117 \<or> c' = 120 \<or> c' = 115 \<or> c' = 99 \<or> c' = 110")
    case True
    then show ?thesis using "2.prems" by auto
  next
    case other: False
    consider "c' = 42" | "c' = 104" | "c' = 108" | "48 \<le> c'" "c' \<le> 57" | "c' \<noteq> 42" "c' \<noteq> 104" "c' \<noteq> 108" "\<not> (48 \<le> c' \<and> c' \<le> 57)"
      by blast
    then show ?thesis
    proof cases
      case 1
      then show ?thesis using "2.prems" "2.IH"(1) by simp
    next
      case 2
      then obtain h f2 where f: "f = h # f2" using "2.prems" by (cases f) auto
      have step: "directive_of d (c' # h # t) =
          (if h = 104 then directive_of (d\<lparr>d_shortshort := True\<rparr>) t else directive_of (d\<lparr>d_short := True\<rparr>) (h # t))" for t
        using 2 by (subst directive_of.simps(2)) simp
      show ?thesis
      proof (cases "h = 104")
        case True
        then show ?thesis using "2.prems" "2.IH"(2) [OF _ _ 2 f True] 2 unfolding f append_Cons step by (simp del: directive_of.simps)
      next
        case False
        then show ?thesis using "2.prems" "2.IH"(3) [OF _ _ 2 f False] 2 unfolding f append_Cons step by (simp del: directive_of.simps)
      qed
    next
      case 3
      then show ?thesis using "2.prems" "2.IH"(4) by simp
    next
      case 4
      then have "c' \<noteq> 37" "c' \<noteq> 42" "c' \<noteq> 104" "c' \<noteq> 108" by auto
      then show ?thesis using 4 "2.prems" "2.IH"(5) by simp
    next
      case 5
      then have "(48 \<le> c' \<and> c' \<le> 57) = False" by blast
      then show ?thesis using other "2.prems" 5(1-3) by (simp only: directive_of.simps append_Cons if_False) auto
    qed
  qed
qed simp

lemma directive_of_shorter: "directive_of d f = Some (d', c, f') \<Longrightarrow> length f' < length f"
  using directive_of_both by blast

lemma directive_of_append: "directive_of d f = Some (d', c, f') \<Longrightarrow> directive_of d (f @ g) = Some (d', c, f' @ g)"
  using directive_of_both by blast

definition leaves :: "(scan_state \<Rightarrow> bool) \<Rightarrow> scanned \<Rightarrow> bool" where
  "leaves P x \<longleftrightarrow> (\<forall>r s. x = Some (r, s) \<longrightarrow> P s)"

named_theorems leaves \<open>what the results of a conversion have in common\<close>

lemma leaves_results [leaves]:
  "leaves P None" "leaves P (go s) \<longleftrightarrow> P s" "leaves P (input_failure s) \<longleftrightarrow> P s" "leaves P (match_failure s) \<longleftrightarrow> P s"
  "leaves P (if b then x else y) \<longleftrightarrow> (if b then leaves P x else leaves P y)"
  "leaves P (case ov of None \<Rightarrow> x | Some v \<Rightarrow> f v) \<longleftrightarrow> (case ov of None \<Rightarrow> leaves P x | Some v \<Rightarrow> leaves P (f v))"
  "leaves P (case ys of [] \<Rightarrow> x | z # zs \<Rightarrow> g z zs) \<longleftrightarrow> (case ys of [] \<Rightarrow> leaves P x | z # zs \<Rightarrow> leaves P (g z zs))"
  by (auto simp: leaves_def input_failure_def match_failure_def split: option.splits list.splits)

lemma sc_fmt_simps [simp]:
  "sc_fmt (put_stored x s) = sc_fmt s" "sc_fmt (assign x s) = sc_fmt s" "sc_fmt (conv_read d s) = sc_fmt s"
  by (simp_all add: put_stored_def assign_def conv_read_def)

lemma sc_fmt_literal: "leaves (\<lambda>s'. sc_fmt s' = sc_fmt s) (literal c s)"
  by (simp add: literal_def leaves split: list.split)

lemma sc_fmt_conv:
  "leaves (\<lambda>s'. sc_fmt s' = sc_fmt s) (conv_char e d s)" "leaves (\<lambda>s'. sc_fmt s' = sc_fmt s) (conv_string e d s)"
  "leaves (\<lambda>s'. sc_fmt s' = sc_fmt s) (conv_int d s)"
  by (simp_all add: conv_char_def conv_string_def conv_int_def leaves Let_def split: option.split prod.split list.split ccfn.split)

lemma sc_fmt_convert:
  assumes "sc_fmt s = f"
  shows "leaves (\<lambda>s'. sc_fmt s' = f) (convert e d c s)"
proof -
  have conv: "leaves (\<lambda>s'. sc_fmt s' = f) (conv_char e d t)" "leaves (\<lambda>s'. sc_fmt s' = f) (conv_string e d t)"
    "leaves (\<lambda>s'. sc_fmt s' = f) (conv_int d t)" if "sc_fmt t = f" for t
    using sc_fmt_conv [of t] that by simp_all
  show ?thesis
  proof (cases "sc_fp s")
    case (Cons b fp)
    obtain q where q: "(if d_noskip d then Some (Some (sc_fp s, nread s)) else skip_loop e (sc_fp s) (nread s)) = q" by blast
    show ?thesis
    proof (cases q)
      case None
      then show ?thesis using q assms unfolding convert_def by (simp only: Cons list.case leaves option.case) simp
    next
      case (Some t)
      then show ?thesis
        using q assms conv [of "s\<lparr>sc_fp := fst (the t), nread := snd (the t)\<rparr>"] unfolding convert_def
        by (cases t) (simp_all only: Cons list.case leaves option.case prod.case_eq_if Let_def, simp_all)
    qed
  qed (simp add: convert_def leaves)
qed

lemma scan_turn_shorter: "leaves (\<lambda>s'. length (sc_fmt s') < length (sc_fmt s)) (scan_turn e s)"
proof (cases "sc_fmt s")
  case (Cons c f)
  have same: "leaves (\<lambda>s'. length (sc_fmt s') < length (sc_fmt s)) x"
    if "leaves (\<lambda>s'. sc_fmt s' = f') x" "length f' < length (sc_fmt s)" for x f'
    using that unfolding leaves_def by metis
  show ?thesis
  proof (cases "c = 37")
    case True
    show ?thesis
    proof (cases "directive_of no_flags f")
      case None
      then show ?thesis using Cons True by (simp add: scan_turn_def Let_def is_space_def leaves)
    next
      case (Some t)
      obtain d conv f' where t: "t = (d, conv, f')" by (cases t)
      have f': "length f' < length (sc_fmt s)" using directive_of_shorter [OF Some [unfolded t]] Cons by simp
      have turn: "scan_turn e s = (let s = s\<lparr>sc_fmt := f'\<rparr>
        in case conv of
            C_percent \<Rightarrow> literal 37 s
          | C_read \<Rightarrow> go (conv_read d s)
          | C_int b g \<Rightarrow> convert e d 3 (s\<lparr>base := b, fn := Some g\<rparr>)
          | C_other x \<Rightarrow> convert e d x s)"
        using Cons True Some t by (simp add: scan_turn_def Let_def is_space_def)
      have "leaves (\<lambda>s'. sc_fmt s' = f') (scan_turn e s)"
        using sc_fmt_literal [of "s\<lparr>sc_fmt := f'\<rparr>" 37] unfolding turn Let_def
        by (cases conv) (simp_all add: leaves sc_fmt_convert)
      from same [OF this f'] show ?thesis .
    qed
  next
    case False
    then show ?thesis
      using Cons same [OF sc_fmt_literal _, of "s\<lparr>sc_fmt := f\<rparr>" c]
      by (simp add: scan_turn_def Let_def leaves split: option.split prod.split)
  qed
qed (simp add: scan_turn_def leaves)

lemma scan_turn_less: "scan_turn e s = Some (r, s') \<Longrightarrow> length (sc_fmt s') < length (sc_fmt s)"
  using scan_turn_shorter [of s e] by (simp add: leaves_def)

function vsscanf_loop :: "nat \<Rightarrow> scan_state \<Rightarrow> (int \<times> scan_state) option" where
  "vsscanf_loop e s =
    (case scan_turn e s of
       None \<Rightarrow> None
     | Some (Some r, s) \<Rightarrow> Some (r, s)
     | Some (None, s) \<Rightarrow> vsscanf_loop e s)"
  by pat_completeness auto
termination by (relation "measure (\<lambda>(e, s). length (sc_fmt s))") (auto dest: scan_turn_less)

declare vsscanf_loop.simps [simp del]

definition scan_start :: "bytes \<Rightarrow> bytes \<Rightarrow> scan_state" where
  "scan_start fp fmt0 = \<lparr>sc_fp = fp, sc_fmt = fmt0, nread = 0, nassigned = 0, base = 0, fn = None, stores = []\<rparr>"

text \<open>Both strings with their terminating zeros: the result and what was stored.\<close>

definition vsscanf :: "nat \<Rightarrow> bytes \<Rightarrow> bytes \<Rightarrow> (int \<times> stored list) option" where
  "vsscanf e fp fmt0 = map_option (map_prod id stores) (vsscanf_loop e (scan_start fp fmt0))"

definition sscanf :: "nat \<Rightarrow> bytes \<Rightarrow> bytes \<Rightarrow> (int \<times> stored list) option" where
  "sscanf e string format = vsscanf e (string @ [0]) (format @ [0])"

subsection \<open>Decimal numbers\<close>

fun dec_nat :: "nat \<Rightarrow> bytes" where
  "dec_nat n = (if n < 10 then [of_nat (48 + n)] else dec_nat (n div 10) @ [of_nat (48 + n mod 10)])"

declare dec_nat.simps [simp del]

definition dec :: "int \<Rightarrow> bytes" where
  "dec i = (if i < 0 then 45 # dec_nat (nat (- i)) else dec_nat (nat i))"

abbreviation is_dec :: "u8 \<Rightarrow> bool" where
  "is_dec c \<equiv> 48 \<le> c \<and> c \<le> 57"

lemma dec_digit: "n < 10 \<Longrightarrow> is_dec (of_nat (48 + n)) \<and> digit_of (of_nat (48 + n)) = Some n"
proof -
  assume "n < 10"
  then have u: "unat (of_nat (48 + n) :: u8) = 48 + n" by (intro unat_of_nat_small) simp
  then have "is_dec (of_nat (48 + n))" using \<open>n < 10\<close> by (simp add: word_le_nat_alt del: of_nat_add)
  then show ?thesis using u by (simp add: digit_of_def del: of_nat_add)
qed

lemma digit_of_dec: "is_dec c \<Longrightarrow> digit_of c = Some (unat c - 48) \<and> unat c - 48 < 10"
  by (auto simp: digit_of_def word_le_nat_alt)

lemma dec_nat_digits: "(\<forall>c \<in> set (dec_nat n). is_dec c) \<and> dec_nat n \<noteq> []"
proof (induction n rule: dec_nat.induct)
  case (1 n)
  show ?case
  proof (cases "n < 10")
    case True
    then show ?thesis using dec_digit [OF True] by (simp add: dec_nat.simps [of n] del: of_nat_add)
  next
    case False
    then show ?thesis using 1 dec_digit [of "n mod 10"] by (simp add: dec_nat.simps [of n] del: of_nat_add)
  qed
qed

lemma digits_num_append:
  "\<forall>c \<in> set xs. is_dec c \<Longrightarrow> digits_num 10 m (xs @ ys) = digits_num 10 (digits_num 10 m xs) ys"
  by (induction xs arbitrary: m) (simp_all add: digit_of_dec)

lemma digits_num_dec: "digits_num 10 0 (dec_nat n) = n"
proof (induction n rule: dec_nat.induct)
  case (1 n)
  show ?case
  proof (cases "n < 10")
    case True
    then show ?thesis using dec_digit [OF True] by (simp add: dec_nat.simps [of n] del: of_nat_add)
  next
    case False
    then have "digits_num 10 0 (dec_nat n) = digits_num 10 (n div 10) [of_nat (48 + n mod 10)]"
      using 1 dec_nat_digits [of "n div 10"] by (simp add: dec_nat.simps [of n] digits_num_append del: of_nat_add)
    also have "\<dots> = n" using dec_digit [of "n mod 10"] by (simp del: of_nat_add)
    finally show ?thesis .
  qed
qed

lemma dec_nat_length: "n < 10 ^ k \<Longrightarrow> length (dec_nat n) \<le> max 1 k"
proof (induction n arbitrary: k rule: dec_nat.induct)
  case (1 n)
  show ?case
  proof (cases "n < 10")
    case True
    then show ?thesis by (simp add: dec_nat.simps [of n])
  next
    case False
    then obtain j where k: "k = Suc j" using 1(2) by (cases k) auto
    then have j: "n div 10 < 10 ^ j" using 1(2) by (simp add: less_mult_imp_div_less mult.commute)
    then have "1 \<le> j" using False by (cases j) auto
    then show ?thesis using 1(1) [OF False j] False k by (simp add: dec_nat.simps [of n])
  qed
qed

lemma dec_nat_not_special: "\<forall>c \<in> set (dec_nat n). c \<noteq> 0 \<and> c \<noteq> 45 \<and> c \<noteq> 43 \<and> c \<noteq> 120 \<and> c \<noteq> 88 \<and> \<not> is_space c"
  using dec_nat_digits [of n] by (fastforce simp: is_space_def word_le_nat_alt)

lemma dec_head:
  obtains c cs where "dec i = c # cs" "c \<noteq> 0" "\<not> is_space c" "c = 45 \<or> is_dec c"
proof (cases "i < 0")
  case True
  then show ?thesis using that [of 45 "dec_nat (nat (- i))"] by (simp add: dec_def is_space_def)
next
  case False
  then obtain c cs where c: "dec i = c # cs" "dec i = dec_nat (nat i)" using dec_nat_digits by (cases "dec i") (auto simp: dec_def)
  then show ?thesis using that [of c cs] dec_nat_digits [of "nat i"] dec_nat_not_special [of "nat i"] by simp
qed

lemma strtol_dec:
  assumes "- (2 ^ 31) \<le> i" "i < 2 ^ 31"
  shows "strtol 10 (dec i) = of_int i"
proof -
  have "number_of 10 (dec i) = (i < 0, nat \<bar>i\<bar>)"
  proof (cases "i < 0")
    case True
    then show ?thesis by (simp add: dec_def number_of_def digits_num_dec)
  next
    case False
    obtain c cs where c: "dec_nat (nat i) = c # cs" using dec_nat_digits [of "nat i"] by (cases "dec_nat (nat i)") auto
    then have "c \<noteq> 45" "c \<noteq> 43" using dec_nat_not_special [of "nat i"] by auto
    then show ?thesis using False digits_num_dec [of "nat i"] by (simp add: dec_def number_of_def c)
  qed
  then show ?thesis using assms by (simp add: strtol_def)
qed

lemma dec_length: "- (2 ^ 31) \<le> i \<Longrightarrow> i < 2 ^ 31 \<Longrightarrow> length (dec i) \<le> 11"
  using dec_nat_length [of "nat i" 10] dec_nat_length [of "nat (- i)" 10] by (cases "i < 0") (simp_all add: dec_def nat_less_iff)

subsection \<open>Scanning decimal numbers\<close>

lemma int_char_dec:
  assumes "is_dec c" "ibase i = 10" "\<not> pfxok i"
  shows "\<exists>i'. int_char c i = Some i' \<and> ibase i' = 10 \<and> \<not> pfxok i' \<and> \<not> signok i' \<and> \<not> ndigits i' \<and> buf i' = buf i"
proof -
  have "c = 48 \<or> 49 \<le> c \<and> c \<le> 55 \<or> c = 56 \<or> c = 57"
    using assms(1) by (auto simp: word_le_nat_alt word_unat_eq_iff)
  then show ?thesis using assms(2,3) by (auto simp: int_char_def basefix_def word_le_nat_alt)
qed

lemma int_char_stop:
  assumes "\<not> is_dec c" "ibase i = 10" "\<not> pfxok i" "\<not> signok i"
  shows "int_char c i = None"
proof -
  have "\<not> (49 \<le> c \<and> c \<le> 55)" "c \<noteq> 48" "c \<noteq> 56" "c \<noteq> 57" using assms(1) by (auto simp: word_le_nat_alt)
  then show ?thesis using assms(2-) by (simp only: int_char_def) simp
qed

lemma int_loop_dec:
  assumes "\<forall>d \<in> set ds. is_dec d" "length ds \<le> w" "\<not> is_dec c" "ibase i = 10" "\<not> pfxok i" "signok i \<longrightarrow> ds \<noteq> []"
  shows "\<exists>i'. int_loop w i (ds @ c # r) = Some (i', c # r) \<and> buf i' = buf i @ ds \<and> ibase i' = 10 \<and> (ndigits i' \<longleftrightarrow> ndigits i \<and> ds = [])"
  using assms
proof (induction ds arbitrary: w i)
  case Nil
  then show ?case using int_char_stop [of c i] by (cases w) simp_all
next
  case (Cons d ds)
  obtain v where w: "w = Suc v" using Cons.prems(2) by (cases w) auto
  have "is_dec d" using Cons.prems(1) by simp
  from int_char_dec [OF this Cons.prems(4,5)]
  obtain j where j: "int_char d i = Some j" "ibase j = 10" "\<not> pfxok j" "\<not> signok j" "\<not> ndigits j" "buf j = buf i" by blast
  let ?k = "j\<lparr>buf := buf i @ [d]\<rparr>"
  show ?case
  proof (cases ds)
    case Nil
    have "int_loop v ?k (c # r) = Some (?k, c # r)" using j int_char_stop [OF Cons.prems(3), of ?k] by (cases v) simp_all
    then show ?thesis using Nil j w by (auto simp: Let_def)
  next
    case (Cons d' ds')
    have d': "d' \<noteq> 0" "\<not> is_space d'" using \<open>\<forall>x\<in>set (d # ds). is_dec x\<close> Cons by (auto simp: is_space_def word_le_nat_alt)
    obtain i' where "int_loop v ?k (ds @ c # r) = Some (i', c # r)" "buf i' = buf ?k @ ds" "ibase i' = 10"
      "ndigits i' \<longleftrightarrow> ndigits ?k \<and> ds = []"
      using Cons.IH [of v ?k] Cons.prems j w by auto
    then show ?thesis using j w d' Cons by (auto simp: Let_def)
  qed
qed

lemma int_loop_step:
  assumes "int_char c i = Some j" "c' \<noteq> 0" "\<not> is_space c'"
  shows "int_loop (Suc w) i (c # c' # r) = int_loop w (j\<lparr>buf := buf i @ [c]\<rparr>) (c' # r)"
  using assms by (simp add: Let_def)

lemma int_loop_number:
  assumes "- (2 ^ 31) \<le> n" "n < 2 ^ 31" "\<not> is_dec c" "ibase i = 10" "\<not> pfxok i" "signok i" "buf i = []"
  shows "\<exists>i'. int_loop 512 i (dec n @ c # r) = Some (i', c # r) \<and> buf i' = dec n \<and> ibase i' = 10 \<and> \<not> ndigits i'"
proof (cases "n < 0")
  case True
  let ?ds = "dec_nat (nat (- n))" and ?i = "i\<lparr>signok := False, havesign := True, buf := [45]\<rparr>"
  have ds: "\<forall>d \<in> set ?ds. is_dec d" "?ds \<noteq> []" "length ?ds \<le> 511"
    using dec_nat_digits [of "nat (- n)"] dec_length [OF assms(1,2)] True by (auto simp: dec_def)
  obtain d ds' where d: "?ds = d # ds'" using ds(2) by (cases ?ds) auto
  have special: "d \<noteq> 0" "\<not> is_space d" using dec_nat_not_special [of "nat (- n)"] d by auto
  have "int_char 45 i = Some (i\<lparr>signok := False, havesign := True\<rparr>)" using assms(6) by (simp add: int_char_def)
  from int_loop_step [OF this special, of 511 "ds' @ c # r"]
  have "int_loop (Suc 511) i (45 # ?ds @ c # r) = int_loop 511 ?i (?ds @ c # r)" by (simp only: assms(7) d append.simps)
  then show ?thesis using int_loop_dec [OF ds(1,3) assms(3), of ?i r] ds(2) assms(4,5) True by (auto simp: dec_def)
next
  case False
  let ?ds = "dec_nat (nat n)"
  have ds: "\<forall>d \<in> set ?ds. is_dec d" "?ds \<noteq> []" "length ?ds \<le> 512"
    using dec_nat_digits [of "nat n"] dec_length [OF assms(1,2)] False by (auto simp: dec_def)
  from int_loop_dec [OF ds(1,3) assms(3-5), of r] show ?thesis using ds(2) assms(7) False by (auto simp: dec_def)
qed

lemma scan_number:
  assumes "- (2 ^ 31) \<le> n" "n < 2 ^ 31" "\<not> is_dec c" "sc_fp s = dec n @ c # r" "sc_fmt s = 37 # 100 # f"
  shows "\<exists>g. scan_turn e s = go (assign (S_int (of_int n)) (s\<lparr>sc_fmt := f, base := 10, fn := g, sc_fp := c # r,
    nread := nread s + of_nat (length (dec n))\<rparr>))"
proof -
  let ?i = "\<lparr>signok = True, havesign = False, ndigits = True, nzdigits = True, pfxok = False, ibase = 10, buf = []\<rparr>"
  let ?s = "s\<lparr>sc_fmt := f, base := 10, fn := Some Strtol\<rparr>"
  obtain i where i: "int_loop 512 ?i (dec n @ c # r) = Some (i, c # r)" "buf i = dec n" "ibase i = 10" "\<not> ndigits i"
    using int_loop_number [OF assms(1-3), of ?i r] by auto
  obtain d ds where d: "dec n = d # ds" "d \<noteq> 0" "\<not> is_space d" by (rule dec_head)
  have "last (dec n) \<in> set (dec n)" using d(1) by (simp only: last_in_set list.distinct not_False_eq_True)
  moreover have "\<forall>x \<in> set (dec n). x \<noteq> 120 \<and> x \<noteq> 88"
    using dec_nat_not_special [of "nat n"] dec_nat_not_special [of "nat (- n)"] by (auto simp: dec_def)
  ultimately have last: "last (dec n) \<noteq> 120" "last (dec n) \<noteq> 88" by auto
  have "conv_int no_flags ?s = go (assign (S_int (of_int n)) (?s\<lparr>sc_fp := c # r, nread := nread s + of_nat (length (dec n))\<rparr>))"
    using i last assms(4) strtol_dec [OF assms(1,2)]
    by (cases s) (simp add: conv_int_def no_flags_def Let_def int_store_def assign_def put_stored_def)
  moreover have "scan_turn e s = convert e no_flags 3 ?s"
    using assms(5) by (simp add: scan_turn_def Let_def is_space_def)
  moreover have "convert e no_flags 3 ?s = conv_int no_flags ?s"
    using assms(4) d by (cases s) (simp add: convert_def Let_def no_flags_def)
  ultimately show ?thesis by auto
qed

lemma scan_literal:
  assumes "sc_fp s = c # r" "sc_fmt s = c # f" "0 < c" "c < 128" "\<not> is_space c" "c \<noteq> 37"
  shows "scan_turn e s = go (s\<lparr>sc_fmt := f, sc_fp := r, nread := nread s + 1\<rparr>)"
proof -
  have "sint c = uint c"
    using assms(4) signed_take_bit_int_eq_self [of 7 "uint c"] unsigned_greater_eq [of c, where ?'a = int]
    by (simp add: sint_uint word_less_def)
  moreover have "c \<noteq> 0" using assms(3) by auto
  ultimately show ?thesis using assms by (simp add: scan_turn_def Let_def literal_def)
qed

lemma scan_read:
  assumes "sc_fmt s = 37 # 110 # f"
  shows "scan_turn e s = go (put_stored (S_int (nread s)) (s\<lparr>sc_fmt := f\<rparr>))"
  using assms by (simp add: scan_turn_def Let_def is_space_def conv_read_def no_flags_def)

definition sep_ok :: "u8 \<Rightarrow> bool" where
  "sep_ok c \<longleftrightarrow> 0 < c \<and> c < 128 \<and> c \<noteq> 37 \<and> \<not> is_space c \<and> \<not> is_dec c"

abbreviation an_int :: "int \<Rightarrow> bool" where
  "an_int n \<equiv> - (2 ^ 31) \<le> n \<and> n < 2 ^ 31"

text \<open>Numbers with single characters between them, and the format that reads them and the count of characters.\<close>

definition numbers_text :: "(u8 \<times> int) list \<Rightarrow> bytes" where
  "numbers_text xs = concat (map (\<lambda>(c, n). c # dec n) xs)"

definition numbers_format :: "(u8 \<times> int) list \<Rightarrow> bytes" where
  "numbers_format xs = concat (map (\<lambda>(c, n). [c, 37, 100]) xs)"

lemma numbers_text_head:
  assumes "\<forall>(c, n) \<in> set xs. sep_ok c \<and> an_int n"
  shows "\<exists>d r. numbers_text xs @ [0] = d # r \<and> \<not> is_dec d"
proof (cases xs)
  case (Cons y ys)
  then obtain d m where "y = (d, m)" "sep_ok d" using assms by (cases y) auto
  then show ?thesis using Cons by (simp add: numbers_text_def sep_ok_def)
qed (simp add: numbers_text_def)

lemma vsscanf_go: "scan_turn e s = go s' \<Longrightarrow> vsscanf_loop e s = vsscanf_loop e s'"
  by (subst vsscanf_loop.simps) simp

lemma scan_numbers:
  assumes "\<forall>(c, n) \<in> set xs. sep_ok c \<and> an_int n" "sc_fp s = numbers_text xs @ [0]" "sc_fmt s = numbers_format xs @ [37, 110, 0]"
  shows "map_option (map_prod id stores) (vsscanf_loop e s) = Some (nassigned s + int (length xs),
    stores s @ map (\<lambda>(c, n). S_int (of_int n)) xs @ [S_int (nread s + of_nat (length (numbers_text xs)))])"
  using assms
proof (induction xs arbitrary: s)
  case Nil
  have t: "scan_turn e s = go (put_stored (S_int (nread s)) (s\<lparr>sc_fmt := [0]\<rparr>))"
    using Nil by (intro scan_read) (simp add: numbers_format_def)
  show ?case
    unfolding vsscanf_go [OF t]
    by (subst vsscanf_loop.simps) (simp add: scan_turn_def match_failure_def put_stored_def numbers_text_def)
next
  case (Cons x xs)
  obtain c n where x: "x = (c, n)" by (cases x)
  have c: "0 < c" "c < 128" "\<not> is_space c" "c \<noteq> 37" and n: "- (2 ^ 31) \<le> n" "n < 2 ^ 31"
    using Cons.prems(1) by (simp_all add: x sep_ok_def)
  obtain d r where d: "numbers_text xs @ [0] = d # r" "\<not> is_dec d"
    using numbers_text_head [of xs] Cons.prems(1) by auto
  let ?s = "s\<lparr>sc_fmt := 37 # 100 # numbers_format xs @ [37, 110, 0], sc_fp := dec n @ d # r, nread := nread s + 1\<rparr>"
  have t1: "scan_turn e s = go ?s"
    using Cons.prems(2,3) d(1) by (intro scan_literal [OF _ _ c]) (simp_all add: x numbers_text_def numbers_format_def)
  have "\<exists>g. scan_turn e ?s = go (assign (S_int (of_int n)) (?s\<lparr>sc_fmt := numbers_format xs @ [37, 110, 0], base := 10, fn := g,
      sc_fp := d # r, nread := nread ?s + of_nat (length (dec n))\<rparr>))"
    by (rule scan_number [OF n d(2)]) simp_all
  then obtain g where t2: "scan_turn e ?s = go (assign (S_int (of_int n)) (?s\<lparr>sc_fmt := numbers_format xs @ [37, 110, 0],
      base := 10, fn := g, sc_fp := d # r, nread := nread ?s + of_nat (length (dec n))\<rparr>))" by blast
  have len: "nread s + of_nat (length (numbers_text (x # xs))) = nread s + 1 + of_nat (length (dec n)) + of_nat (length (numbers_text xs))"
    by (simp add: x numbers_text_def)
  show ?case
    unfolding vsscanf_go [OF t1] vsscanf_go [OF t2] len
    by (subst Cons.IH) (use Cons.prems(1) d(1) in \<open>simp_all add: x assign_def put_stored_def\<close>)
qed

text \<open>C38: Scanning reads back what was printed: from numbers of 32 bits in decimal, with single characters below 128 other than digits, white space and
  the percent sign between them, \<^verbatim>\<open>%d\<close> with the same characters between reads the numbers, and
  \<^verbatim>\<open>%n\<close> the count of all characters.  (The names of pins are read in this way.)\<close>
theorem sscanf_numbers:
  assumes "an_int n" "\<forall>(c, m) \<in> set xs. sep_ok c \<and> an_int m"
  shows "sscanf e (dec n @ numbers_text xs) ([37, 100] @ numbers_format xs @ [37, 110]) =
    Some (1 + int (length xs),
      S_int (of_int n) # map (\<lambda>(c, m). S_int (of_int m)) xs @ [S_int (of_nat (length (dec n @ numbers_text xs)))])"
proof -
  obtain d r where d: "numbers_text xs @ [0] = d # r" "\<not> is_dec d" using numbers_text_head [OF assms(2)] by blast
  let ?s = "scan_start ((dec n @ numbers_text xs) @ [0]) (([37, 100] @ numbers_format xs @ [37, 110]) @ [0])"
  have n: "- (2 ^ 31) \<le> n" "n < 2 ^ 31" using assms(1) by simp_all
  obtain g where t: "scan_turn e ?s = go (assign (S_int (of_int n)) (?s\<lparr>sc_fmt := numbers_format xs @ [37, 110, 0], base := 10,
      fn := g, sc_fp := d # r, nread := nread ?s + of_nat (length (dec n))\<rparr>))"
    using scan_number [OF n d(2), of ?s r "numbers_format xs @ [37, 110, 0]" e] d(1) by (auto simp: scan_start_def)
  show ?thesis
    unfolding sscanf_def vsscanf_def vsscanf_go [OF t]
    by (subst scan_numbers [OF assms(2)]) (simp_all add: d(1) scan_start_def assign_def put_stored_def)
qed

theorem sscanf_numbers_witness:
  "sscanf 0 (dec 12 @ numbers_text [(95, - 3)]) ([37, 100] @ numbers_format [(95, - 3)] @ [37, 110]) =
    Some (2, [S_int 12, S_int (- 3), S_int 5])"
proof -
  have l: "length (dec 12 @ numbers_text [(95, - 3)]) = 5" by code_simp
  show ?thesis using sscanf_numbers [of 12 "[(95, - 3)]" 0] unfolding l by (simp add: sep_ok_def is_space_def)
qed

subsection \<open>Staying inside the strings\<close>

definition safe :: "(scan_state \<Rightarrow> bool) \<Rightarrow> scanned \<Rightarrow> bool" where
  "safe P x \<longleftrightarrow> (\<exists>r s. x = Some (r, s) \<and> P s)"

lemma safe_results [leaves]:
  "\<not> safe P None" "safe P (go s) \<longleftrightarrow> P s" "safe P (input_failure s) \<longleftrightarrow> P s" "safe P (match_failure s) \<longleftrightarrow> P s"
  by (auto simp: safe_def input_failure_def match_failure_def)

abbreviation ended :: "bytes \<Rightarrow> bool" where "ended fp \<equiv> 0 \<in> set fp"

lemma safe_literal: "ended (sc_fp s) \<Longrightarrow> safe (\<lambda>s'. ended (sc_fp s')) (literal c s)"
  by (cases "sc_fp s") (auto simp: literal_def leaves)

lemma skip_loop_ended:
  "ended fp \<Longrightarrow> hd fp \<noteq> 0 \<Longrightarrow> skip_loop e fp n = Some None \<or> (\<exists>b fp' m. skip_loop e fp n = Some (Some (b # fp', m)) \<and> b \<noteq> 0 \<and> ended fp')"
proof (induction fp arbitrary: n)
  case (Cons b fp)
  show ?case
  proof (cases "is_space b \<and> below e fp \<and> hd fp \<noteq> 0")
    case True
    then obtain a l where fp: "fp = a # l" "ended fp" using Cons.prems by (cases fp) auto
    then have "skip_loop e (b # fp) n = skip_loop e fp (n + 1)" using True by simp
    then show ?thesis using Cons.IH [OF fp(2), of "n + 1"] True by simp
  next
    case False
    then show ?thesis using Cons.prems by (cases fp) auto
  qed
qed simp

lemma chars_loop_ended:
  "ended fp \<Longrightarrow> hd fp \<noteq> 0 \<Longrightarrow> \<exists>w' fp' n'. chars_loop e w fp n = Some (w', fp', n') \<and> ended fp'"
proof (induction e w fp n rule: chars_loop.induct)
  case (3 e w b fp n)
  then show ?case by (cases fp) auto
qed auto

lemma string_loop_ended:
  "ended fp \<Longrightarrow> hd fp \<noteq> 0 \<Longrightarrow> \<exists>t fp'. string_loop e w fp = Some (t, fp') \<and> ended fp'"
proof (induction e w fp rule: string_loop.induct)
  case (2 e w b fp)
  show ?case
  proof (cases "is_space b \<or> \<not> below e (b # fp) \<or> w - 1 = 0 \<or> hd fp = 0")
    case True
    then show ?thesis using "2.prems" by (cases fp) auto
  next
    case False
    then obtain a l where fp: "fp = a # l" "a \<noteq> 0" "ended fp" using "2.prems" by (cases fp) auto
    have "string_loop e w (b # fp) = map_option (\<lambda>(t, r). (b # t, r)) (string_loop e (w - 1) fp)"
      using False fp(1,2) by (subst string_loop.simps(2)) simp
    then show ?thesis using "2.IH" [OF _ _ fp(1,2,3)] False fp by auto
  qed
qed simp

lemma int_char_0: "int_char 0 i = None"
  by (simp add: int_char_def)

lemma int_loop_ended: "ended fp \<Longrightarrow> \<exists>i' fp'. int_loop w i fp = Some (i', fp') \<and> ended fp'"
proof (induction w i fp rule: int_loop.induct)
  case (3 w i c fp)
  show ?case
  proof (cases "int_char c i")
    case (Some j)
    then have "c \<noteq> 0" using int_char_0 [of i] by auto
    then have "ended fp" using "3.prems" by simp
    then show ?thesis using "3.IH" [OF Some refl] Some by (cases fp) (auto simp: Let_def)
  qed (use "3.prems" in simp)
qed auto

lemma safe_conv:
  assumes "ended (sc_fp s)" "hd (sc_fp s) \<noteq> 0"
  shows "safe (\<lambda>s'. ended (sc_fp s')) (conv_char e d s)" "safe (\<lambda>s'. ended (sc_fp s')) (conv_string e d s)"
    "fn s \<noteq> None \<Longrightarrow> safe (\<lambda>s'. ended (sc_fp s')) (conv_int d s)"
proof -
  obtain b fp where fp: "sc_fp s = b # fp" using assms(1) by (cases "sc_fp s") auto
  obtain w' fp' n' where "chars_loop e (unat (if d_width d = 0 then 1 else d_width d)) (sc_fp s) 0 = Some (w', fp', n')" "ended fp'"
    using chars_loop_ended [OF assms] by blast
  then show "safe (\<lambda>s'. ended (sc_fp s')) (conv_char e d s)"
    using assms fp by (cases "d_suppress d") (auto simp: conv_char_def leaves assign_def put_stored_def)
  obtain t fp'' where "string_loop e (if d_width d = 0 then - 1 else d_width d) (sc_fp s) = Some (t, fp'')" "ended fp''"
    using string_loop_ended [OF assms] by blast
  then show "safe (\<lambda>s'. ended (sc_fp s')) (conv_string e d s)"
    by (simp add: conv_string_def Let_def leaves assign_def put_stored_def)
  assume "fn s \<noteq> None"
  then obtain g where g: "fn s = Some g" by auto
  define i w where "i = \<lparr>signok = True, havesign = False, ndigits = True, nzdigits = True, pfxok = d_pfxok d, ibase = base s, buf = []\<rparr>"
    and "w = (if d_width d = 0 \<or> 513 - 1 < d_width d then 512 else unat (d_width d))"
  obtain i' r where "int_loop w i (sc_fp s) = Some (i', r)" "ended r" using int_loop_ended [OF assms(1)] by blast
  then show "safe (\<lambda>s'. ended (sc_fp s')) (conv_int d s)"
    using g unfolding conv_int_def i_def [symmetric] w_def [symmetric]
    by (cases g) (simp_all add: Let_def leaves assign_def put_stored_def)
qed

lemma safe_convert:
  assumes "ended (sc_fp s)" "c = 3 \<longrightarrow> fn s \<noteq> None"
  shows "safe (\<lambda>s'. ended (sc_fp s')) (convert e d c s)"
proof -
  obtain b fp where fp: "sc_fp s = b # fp" using assms(1) by (cases "sc_fp s") auto
  show ?thesis
  proof (cases "b = 0")
    case True
    then show ?thesis using fp by (simp add: convert_def leaves)
  next
    case False
    let ?q = "if d_noskip d then Some (Some (sc_fp s, nread s)) else skip_loop e (sc_fp s) (nread s)"
    have "ended fp" using assms(1) False by (auto simp: fp)
    then have "?q = Some None \<or> (\<exists>b fp' m. ?q = Some (Some (b # fp', m)) \<and> b \<noteq> 0 \<and> ended fp')"
      using skip_loop_ended [OF assms(1), of e "nread s"] fp False assms(1) by auto
    then consider (over) "?q = Some None" | (on) b' fp' m where "?q = Some (Some (b' # fp', m))" "b' \<noteq> 0" "ended fp'" by blast
    then show ?thesis
    proof cases
      case over
      then show ?thesis using assms(1) unfolding convert_def fp list.case over [unfolded fp] by (auto simp: leaves fp)
    next
      case on
      let ?s = "s\<lparr>sc_fp := b' # fp', nread := m\<rparr>"
      have "convert e d c s = (if c = 0 then conv_char e d ?s else if c = 2 then conv_string e d ?s else if c = 3 then conv_int d ?s else go ?s)"
        using False unfolding convert_def on(1) Let_def by (simp add: fp)
      moreover have "ended (b' # fp')" using on(2,3) by simp
      ultimately show ?thesis using safe_conv [of ?s] assms(2) on(2) by (simp add: leaves)
    qed
  qed
qed

text \<open>A format without white space whose directives are complete.\<close>

function fmt_ok :: "bytes \<Rightarrow> bool" where
  "fmt_ok f =
    (case f of
       [] \<Rightarrow> True
     | c # f \<Rightarrow>
         if is_space c then False
         else if c \<noteq> 37 then fmt_ok f
         else case directive_of no_flags f of
             None \<Rightarrow> False
           | Some (d, conv, f) \<Rightarrow> conv \<noteq> C_other 3 \<and> fmt_ok f)"
  by pat_completeness auto
termination by (relation "measure length") (auto dest: directive_of_shorter)

declare fmt_ok.simps [simp del]

lemma scan_turn_safe:
  assumes "ended (sc_fp s)" "sc_fmt s = f @ [0]" "fmt_ok f"
  shows "\<exists>r s'. scan_turn e s = Some (r, s') \<and> (r = None \<longrightarrow> ended (sc_fp s') \<and> (\<exists>f'. sc_fmt s' = f' @ [0] \<and> fmt_ok f'))"
proof (cases f)
  case Nil
  then show ?thesis using assms(2) by (simp add: scan_turn_def Let_def match_failure_def)
next
  case (Cons c g)
  have sp: "\<not> is_space c" using assms(3) by (simp add: Cons fmt_ok.simps [of "c # g"] split: if_splits)
  have found: ?thesis if x: "scan_turn e s = x" "safe (\<lambda>s'. ended (sc_fp s')) x" "leaves (\<lambda>s'. sc_fmt s' = f' @ [0]) x" "fmt_ok f'" for x f'
    using that by (auto simp: safe_def leaves_def)
  show ?thesis
  proof (cases "c = 37")
    case False
    have "fmt_ok g" using assms(3) False sp by (simp add: Cons fmt_ok.simps [of "c # g"])
    show ?thesis
    proof (cases "c = 0")
      case True
      then show ?thesis using assms(2) by (simp add: scan_turn_def Let_def match_failure_def Cons)
    next
      case c: False
      have t: "scan_turn e s = literal c (s\<lparr>sc_fmt := g @ [0]\<rparr>)" using assms(2) False sp c by (simp add: scan_turn_def Let_def Cons)
      show ?thesis
        using found [OF t safe_literal, of g] sc_fmt_literal [of "s\<lparr>sc_fmt := g @ [0]\<rparr>" c] assms(1) \<open>fmt_ok g\<close> by simp
    qed
  next
    case True
    obtain d conv f' where d: "directive_of no_flags g = Some (d, conv, f')" "conv \<noteq> C_other 3" "fmt_ok f'"
      using assms(3) True sp by (auto simp: Cons fmt_ok.simps [of "37 # g"] split: option.splits)
    have "directive_of no_flags (g @ [0]) = Some (d, conv, f' @ [0])" by (rule directive_of_append [OF d(1)])
    then have t: "scan_turn e s = (let s = s\<lparr>sc_fmt := f' @ [0]\<rparr>
        in case conv of
            C_percent \<Rightarrow> literal 37 s
          | C_read \<Rightarrow> go (conv_read d s)
          | C_int b g \<Rightarrow> convert e d 3 (s\<lparr>base := b, fn := Some g\<rparr>)
          | C_other x \<Rightarrow> convert e d x s)"
      using assms(2) True by (simp add: scan_turn_def Let_def is_space_def Cons)
    show ?thesis
    proof (rule found [OF t _ _ d(3)])
      show "leaves (\<lambda>s'. sc_fmt s' = f' @ [0]) (let s = s\<lparr>sc_fmt := f' @ [0]\<rparr>
        in case conv of
            C_percent \<Rightarrow> literal 37 s
          | C_read \<Rightarrow> go (conv_read d s)
          | C_int b g \<Rightarrow> convert e d 3 (s\<lparr>base := b, fn := Some g\<rparr>)
          | C_other x \<Rightarrow> convert e d x s)"
        using sc_fmt_literal [of "s\<lparr>sc_fmt := f' @ [0]\<rparr>" 37]
        by (cases conv) (simp_all add: Let_def leaves sc_fmt_convert)
      show "safe (\<lambda>s'. ended (sc_fp s')) (let s = s\<lparr>sc_fmt := f' @ [0]\<rparr>
        in case conv of
            C_percent \<Rightarrow> literal 37 s
          | C_read \<Rightarrow> go (conv_read d s)
          | C_int b g \<Rightarrow> convert e d 3 (s\<lparr>base := b, fn := Some g\<rparr>)
          | C_other x \<Rightarrow> convert e d x s)"
        using d(2) assms(1)
        by (cases conv) (simp_all add: Let_def leaves safe_convert safe_literal, simp add: conv_read_def put_stored_def)
    qed
  qed
qed

lemma vsscanf_loop_ends:
  "ended (sc_fp s) \<Longrightarrow> sc_fmt s = f @ [0] \<Longrightarrow> fmt_ok f \<Longrightarrow> vsscanf_loop e s \<noteq> None"
proof (induction e s arbitrary: f rule: vsscanf_loop.induct)
  case (1 e s)
  obtain r s' where t: "scan_turn e s = Some (r, s')" "r = None \<longrightarrow> ended (sc_fp s') \<and> (\<exists>f'. sc_fmt s' = f' @ [0] \<and> fmt_ok f')"
    using scan_turn_safe [OF "1.prems", of e] by blast
  show ?case
  proof (cases r)
    case None
    then obtain f' where "ended (sc_fp s')" "sc_fmt s' = f' @ [0]" "fmt_ok f'" using t(2) by blast
    then show ?thesis using "1.IH" [OF t(1) _ None] None t(1) by (subst vsscanf_loop.simps) simp
  qed (simp add: vsscanf_loop.simps [of e s] t(1))
qed

text \<open>C39: With a format whose directives are complete and that contains no white space, scanning ends, whatever the input, and reads
  neither behind the string nor behind the format.\<close>
theorem sscanf_stays_inside:
  assumes "fmt_ok format"
  shows "sscanf e string format \<noteq> None"
  using vsscanf_loop_ends [of "scan_start (string @ [0]) (format @ [0])" format e] assms
  by (simp add: sscanf_def vsscanf_def scan_start_def)

theorem sscanf_stays_inside_witness: "sscanf 2147483649 [49, 50, 95] (map of_char ''%d_%3s%*c%n'') \<noteq> None"
proof (rule sscanf_stays_inside)
  show "fmt_ok (map of_char ''%d_%3s%*c%n'')" by code_simp
qed

subsection \<open>White space and characters\<close>

lemma scan_blank:
  assumes "sc_fmt s = 32 # f" "sc_fp s = 32 # d # r" "\<not> is_space d"
  shows "scan_turn e s = go (s\<lparr>sc_fmt := f, sc_fp := r, nread := nread s + 1\<rparr>)"
proof -
  have "blank_loop (32 # d # r) (nread s) = Some (r, nread s + 1)" using assms(3) by (simp add: is_space_def [of 32])
  then show ?thesis using assms(1,2) by (simp only: scan_turn_def Let_def) (simp add: is_space_def)
qed

lemma vsscanf_done: "sc_fmt s = [0] \<Longrightarrow> vsscanf_loop e s = Some (nassigned s, s\<lparr>sc_fmt := []\<rparr>)"
  by (subst vsscanf_loop.simps) (simp add: scan_turn_def match_failure_def)

text \<open>White space in a format takes one character too many, so that the second of two numbers loses its first digit, and when the
  input ends there the next directive reads behind the string.  A character read by \<^verbatim>\<open>%c\<close> stays in the input.\<close>
lemma sscanf_white_space:
  assumes "an_int m" "an_int n" "\<not> is_space d" "a \<noteq> 0"
  shows "sscanf e (dec m @ [32, d] @ dec n) [37, 100, 32, 37, 100] = Some (2, [S_int (of_int m), S_int (of_int n)]) \<and>
    sscanf e (dec m) [37, 100, 32, 37, 100] = None \<and>
    sscanf e [a, b] [37, 99, 37, 99] = Some (2, [S_char a, S_char a])"
proof (intro conjI)
  have m: "- (2 ^ 31) \<le> m" "m < 2 ^ 31" and n: "- (2 ^ 31) \<le> n" "n < 2 ^ 31" using assms(1,2) by simp_all
  have nd: "\<not> is_dec 32" "\<not> is_dec 0" by simp_all
  let ?s = "scan_start ((dec m @ [32, d] @ dec n) @ [0]) [37, 100, 32, 37, 100, 0]"
  obtain g where t1: "scan_turn e ?s = go (assign (S_int (of_int m)) (?s\<lparr>sc_fmt := [32, 37, 100, 0], base := 10, fn := g,
      sc_fp := 32 # d # dec n @ [0], nread := nread ?s + of_nat (length (dec m))\<rparr>))"
    using scan_number [OF m nd(1), of ?s "d # dec n @ [0]" "[32, 37, 100, 0]" e] by (auto simp: scan_start_def)
  let ?s1 = "assign (S_int (of_int m)) (?s\<lparr>sc_fmt := [32, 37, 100, 0], base := 10, fn := g,
      sc_fp := 32 # d # dec n @ [0], nread := nread ?s + of_nat (length (dec m))\<rparr>)"
  have t2: "scan_turn e ?s1 = go (?s1\<lparr>sc_fmt := [37, 100, 0], sc_fp := dec n @ [0], nread := nread ?s1 + 1\<rparr>)"
    by (rule scan_blank [OF _ _ assms(3)]) (simp_all add: assign_def put_stored_def)
  let ?s2 = "?s1\<lparr>sc_fmt := [37, 100, 0], sc_fp := dec n @ [0], nread := nread ?s1 + 1\<rparr>"
  obtain h where t3: "scan_turn e ?s2 = go (assign (S_int (of_int n)) (?s2\<lparr>sc_fmt := [0], base := 10, fn := h,
      sc_fp := [0], nread := nread ?s2 + of_nat (length (dec n))\<rparr>))"
    using scan_number [OF n nd(2), of ?s2 "[]" "[0]" e] by auto
  show "sscanf e (dec m @ [32, d] @ dec n) [37, 100, 32, 37, 100] = Some (2, [S_int (of_int m), S_int (of_int n)])"
  proof -
    have start: "sscanf e (dec m @ [32, d] @ dec n) [37, 100, 32, 37, 100] = map_option (map_prod id stores) (vsscanf_loop e ?s)"
      by (simp only: sscanf_def vsscanf_def append.simps)
    show ?thesis
      unfolding start vsscanf_go [OF t1] vsscanf_go [OF t2] vsscanf_go [OF t3]
      by (subst vsscanf_done) (simp_all add: assign_def put_stored_def scan_start_def)
  qed
  let ?t = "scan_start (dec m @ [0]) [37, 100, 32, 37, 100, 0]"
  obtain g' where u1: "scan_turn e ?t = go (assign (S_int (of_int m)) (?t\<lparr>sc_fmt := [32, 37, 100, 0], base := 10, fn := g',
      sc_fp := [0], nread := nread ?t + of_nat (length (dec m))\<rparr>))"
    using scan_number [OF m nd(2), of ?t "[]" "[32, 37, 100, 0]" e] by (auto simp: scan_start_def)
  let ?t1 = "assign (S_int (of_int m)) (?t\<lparr>sc_fmt := [32, 37, 100, 0], base := 10, fn := g',
      sc_fp := [0], nread := nread ?t + of_nat (length (dec m))\<rparr>)"
  have u2: "scan_turn e ?t1 = go (?t1\<lparr>sc_fmt := [37, 100, 0], sc_fp := []\<rparr>)"
    by (simp add: scan_turn_def Let_def is_space_def assign_def put_stored_def)
  have u3: "scan_turn e (?t1\<lparr>sc_fmt := [37, 100, 0], sc_fp := []\<rparr>) = None"
    by (simp add: scan_turn_def Let_def is_space_def convert_def)
  show "sscanf e (dec m) [37, 100, 32, 37, 100] = None"
    unfolding sscanf_def vsscanf_def append.simps vsscanf_go [OF u1] vsscanf_go [OF u2]
    by (subst vsscanf_loop.simps) (simp add: u3)
  show "sscanf e [a, b] [37, 99, 37, 99] = Some (2, [S_char a, S_char a])"
    using assms(4)
    by (simp add: sscanf_def vsscanf_def scan_start_def scan_turn_def Let_def is_space_def
      no_flags_def convert_def conv_char_def assign_def put_stored_def match_failure_def vsscanf_loop.simps)
qed

text \<open>Beyond the address \<^verbatim>\<open>INT_MAX\<close> a string conversion takes nothing and still counts as assigned.\<close>

lemma sscanf_high_string:
  assumes "2 ^ 31 \<le> int e - int (length string) - 1" "string = b # r" "b \<noteq> 0" "\<not> is_space b"
  shows "sscanf e string [37, 115] = Some (1, [S_string []])"
  using assms
  by (simp add: sscanf_def vsscanf_def scan_start_def scan_turn_def Let_def is_space_def [of 37]
    no_flags_def convert_def conv_string_def below_def assign_def put_stored_def match_failure_def vsscanf_loop.simps)

end
