(* ===== verification/Serial.thy ===== *)
theory Serial
  imports Uart Table_Files Clib
begin

text \<open>
  Serial ports for scripts: \<^verbatim>\<open>modules/src/uart.c\<close> on the shared layers
  \<^verbatim>\<open>platform/src/common_uart.c\<close> and \<^verbatim>\<open>common_tmr.c\<close>, as this build has them: without the multiplexer, without
  buffers and without virtual timers.  \<^verbatim>\<open>modules/src/i2c.c\<close> with \<^verbatim>\<open>platform_i2c.c\<close> follows.

  Loops that depend on what arrives are partial functions: \<open>None\<close> is a loop that does not end, a wait that does not
  return, or a division by zero.
\<close>

subsection \<open>Timers\<close>

datatype timer_op = OP_START | OP_READ | OP_GET_MAX_DELAY | OP_GET_MIN_DELAY | OP_SET_CLOCK | OP_GET_CLOCK

text \<open>The platform has no timer of this kind: every operation gives 0.\<close>

definition platform_s_timer_op :: "nat \<Rightarrow> timer_op \<Rightarrow> u32 \<Rightarrow> u32" where
  "platform_s_timer_op i op data = 0"

definition platform_timer_op :: "nat \<Rightarrow> timer_op \<Rightarrow> u32 \<Rightarrow> u32" where
  "platform_timer_op i op data = platform_s_timer_op i op data"

definition platform_timer_get_diff_us :: "nat \<Rightarrow> u32 \<Rightarrow> u32 \<Rightarrow> u32 option" where
  "platform_timer_get_diff_us i end_time start_time =
    (let freq = platform_timer_op i OP_GET_CLOCK 0;
         (end_time, start_time) = (if start_time < end_time then (start_time, end_time) else (end_time, start_time))
     in if freq = 0 then None
        else Some (ucast ((ucast (start_time - end_time) * 1000000 :: u64) div ucast freq)))"

definition platform_os_sleep :: "u32 \<Rightarrow> u32" where
  "platform_os_sleep ms = ms * 16384 div 1000"

subsection \<open>The shared layer of serial ports\<close>

definition platform_uart_exists :: "nat \<Rightarrow> bool" where
  "platform_uart_exists i \<longleftrightarrow> i < NUM_UART \<or> i = PLATFORM_UART_ID_ATC"

definition cmn_recv_helper :: "(nat \<Rightarrow> nat \<Rightarrow> u32 \<Rightarrow> bytes) \<Rightarrow> nat \<Rightarrow> int \<Rightarrow> uart_sys \<Rightarrow> (int \<times> uart_sys) option" where
  "cmn_recv_helper rdf i timeout s = platform_s_uart_recv rdf i timeout s"

partial_function (option) recv_wait ::
  "(nat \<Rightarrow> nat \<Rightarrow> u32 \<Rightarrow> bytes) \<Rightarrow> nat \<Rightarrow> nat \<Rightarrow> int \<Rightarrow> u32 \<Rightarrow> uart_sys \<Rightarrow> (int \<times> uart_sys) option" where
  "recv_wait rdf i timer_id timeout tmr_start s =
    (case cmn_recv_helper rdf i 0 s of
       None \<Rightarrow> None
     | Some (res, s) \<Rightarrow>
         if 0 \<le> res then Some (res, s)
         else case platform_timer_get_diff_us timer_id (platform_timer_op timer_id OP_READ 0) tmr_start of
             None \<Rightarrow> None
           | Some d \<Rightarrow> if of_int timeout \<le> d then Some (res, s) else recv_wait rdf i timer_id timeout tmr_start s)"

definition platform_uart_recv ::
  "(nat \<Rightarrow> nat \<Rightarrow> u32 \<Rightarrow> bytes) \<Rightarrow> nat \<Rightarrow> nat \<Rightarrow> int \<Rightarrow> uart_sys \<Rightarrow> (int \<times> uart_sys) option" where
  "platform_uart_recv rdf i timer_id timeout s =
    (if timeout = 0 then cmn_recv_helper rdf i timeout s
     else if timeout = - 1 then cmn_recv_helper rdf i timeout s
     else recv_wait rdf i timer_id timeout (platform_timer_op timer_id OP_START 0) s)"

definition platform_uart_send :: "(nat \<Rightarrow> bytes \<Rightarrow> bool \<Rightarrow> u32) \<Rightarrow> nat \<Rightarrow> u8 \<Rightarrow> uart_sys \<Rightarrow> u32 \<times> uart_sys" where
  "platform_uart_send wr i data s = platform_s_uart_send wr i data s"

definition platform_uart_sync_send :: "(nat \<Rightarrow> bytes \<Rightarrow> bool \<Rightarrow> u32) \<Rightarrow> nat \<Rightarrow> u8 \<Rightarrow> uart_sys \<Rightarrow> u32 \<times> uart_sys" where
  "platform_uart_sync_send wr i data s = platform_s_uart_sync_send wr i data s"

text \<open>The length is cut to 16 bits.\<close>

definition platform_uart_send_buff :: "(nat \<Rightarrow> bytes \<Rightarrow> bool \<Rightarrow> u32) \<Rightarrow> nat \<Rightarrow> bytes \<Rightarrow> uart_sys \<Rightarrow> u32 \<times> uart_sys" where
  "platform_uart_send_buff wr i buff s = platform_s_uart_send_buff wr i (take (length buff mod 2 ^ 16) buff) s"

definition platform_uart_set_buffer :: "nat \<Rightarrow> nat \<Rightarrow> int" where
  "platform_uart_set_buffer i log2size = (if i = 0xFFFF then PLATFORM_ERR else PLATFORM_ERR)"

definition platform_s_uart_set_flow_control :: "nat \<Rightarrow> int \<Rightarrow> int" where
  "platform_s_uart_set_flow_control i typ = PLATFORM_ERR"

definition platform_uart_set_flow_control :: "nat \<Rightarrow> int \<Rightarrow> int" where
  "platform_uart_set_flow_control i typ = (if 0xD0 \<le> i then PLATFORM_ERR else platform_s_uart_set_flow_control i typ)"

subsection \<open>The module\<close>

text \<open>What a function gives to the script: an error message, or a value.\<close>

datatype uart_val = U_string bytes | U_int u32 | U_nothing

type_synonym uart_result = "string + uart_val"

definition uart_setup ::
  "(nat \<Rightarrow> uart_param \<Rightarrow> bool) \<Rightarrow> bool \<Rightarrow> nat \<Rightarrow> u32 \<Rightarrow> int \<Rightarrow> int \<Rightarrow> int \<Rightarrow> u32 \<Rightarrow> uart_sys \<Rightarrow> uart_result \<times> uart_sys" where
  "uart_setup config_uart host_init i baud databits parity stopbits mode s =
    (if \<not> platform_uart_exists i then (Inl ''uart does not exist'', s)
     else if 0xD0 \<le> i \<and> i \<noteq> PLATFORM_UART_ID_ATC then (Inl ''uart.setup can't be called on virtual UARTs'', s)
     else (let (res, s) = platform_uart_setup config_uart host_init i baud databits parity stopbits mode s
           in if res \<noteq> baud then (Inl ''uart.setup error'', s) else (Inr (U_int res), s)))"

definition uart_close :: "(nat \<Rightarrow> bool) \<Rightarrow> nat \<Rightarrow> uart_sys \<Rightarrow> uart_result \<times> uart_sys" where
  "uart_close close_uart i s = (let (res, s) = platform_uart_close close_uart i s in (Inr (U_int (of_int res)), s))"

datatype write_arg = W_int int | W_string bytes | W_other

text \<open>What was sent before an error stays sent.\<close>

fun write_loop ::
  "(u8 \<Rightarrow> uart_sys \<Rightarrow> u32 \<times> uart_sys) \<Rightarrow> (bytes \<Rightarrow> uart_sys \<Rightarrow> u32 \<times> uart_sys) \<Rightarrow> write_arg list \<Rightarrow> u32 \<Rightarrow> uart_sys \<Rightarrow>
    uart_result \<times> uart_sys" where
  "write_loop send sendb [] wrote s = (Inr (U_int wrote), s)"
| "write_loop send sendb (W_int n # args) wrote s =
    (let len = of_int n :: u32
     in if 255 < len then (Inl ''invalid number'', s)
        else (let (r, s) = send (ucast len) s in write_loop send sendb args (wrote + r) s))"
| "write_loop send sendb (W_string b # args) wrote s = (let (r, s) = sendb b s in write_loop send sendb args (wrote + r) s)"
| "write_loop send sendb (W_other # args) wrote s = (Inl ''string expected'', s)"

definition uart_write :: "(nat \<Rightarrow> bytes \<Rightarrow> bool \<Rightarrow> u32) \<Rightarrow> nat \<Rightarrow> write_arg list \<Rightarrow> uart_sys \<Rightarrow> uart_result \<times> uart_sys" where
  "uart_write wr i args s =
    (if \<not> platform_uart_exists i then (Inl ''uart does not exist'', s)
     else write_loop (platform_uart_send wr i) (platform_uart_send_buff wr i) args 0 s)"

definition uart_sync_write :: "(nat \<Rightarrow> bytes \<Rightarrow> bool \<Rightarrow> u32) \<Rightarrow> nat \<Rightarrow> write_arg list \<Rightarrow> uart_sys \<Rightarrow> uart_result \<times> uart_sys" where
  "uart_sync_write wr i args s =
    (if \<not> platform_uart_exists i then (Inl ''uart does not exist'', s)
     else write_loop (platform_uart_sync_send wr i) (platform_uart_send_buff wr i) args 0 s)"

datatype read_mode = MODE_LINE | MODE_NUMBER | MODE_SPACE | MODE_MAXSIZE

datatype read_format = Max_size int | Format bytes

definition read_mode_of :: "read_format \<Rightarrow> string + read_mode \<times> int" where
  "read_mode_of f =
    (case f of
       Max_size n \<Rightarrow> if n < 0 then Inl ''invalid max size'' else Inr (MODE_MAXSIZE, n)
     | Format t \<Rightarrow>
         if t = lit ''*l'' then Inr (MODE_LINE, 0)
         else if t = lit ''*n'' then Inr (MODE_NUMBER, 0)
         else if t = lit ''*s'' then Inr (MODE_SPACE, 0)
         else Inl ''invalid format'')"

text \<open>The optional timeout, and the timer that a finite one needs.\<close>

definition timeout_of :: "int option \<Rightarrow> nat option \<Rightarrow> string + int \<times> nat" where
  "timeout_of timeout timer =
    (case timeout of
       None \<Rightarrow> Inr (- 1, 0)
     | Some t \<Rightarrow>
         if t < 0 \<and> t \<noteq> - 1 then Inl ''invalid timeout value''
         else if t \<noteq> - 1 \<and> t \<noteq> 0 then (case timer of None \<Rightarrow> Inl ''number expected'' | Some i \<Rightarrow> Inr (t, i))
         else Inr (t, 0))"

partial_function (option) read_loop ::
  "('s \<Rightarrow> (int \<times> 's) option) \<Rightarrow> read_mode \<Rightarrow> int \<Rightarrow> int \<Rightarrow> 's \<Rightarrow> (bytes \<times> 's) option" where
  "read_loop recv mode maxsize count s =
    (case recv s of
       None \<Rightarrow> None
     | Some (res, s) \<Rightarrow>
         if res = - 1 then Some ([], s)
         else (let cres = of_int res :: u8;
                   count = count + 1;
                   issign = (count = 1 \<and> (res = 45 \<or> res = 43))
               in if cres = 10 \<and> mode = MODE_LINE then Some ([cres], s)
                  else if \<not> is_dec cres \<and> \<not> issign \<and> mode = MODE_NUMBER then Some ([], s)
                  else if is_space cres \<and> mode = MODE_SPACE then Some ([], s)
                  else if count = maxsize \<and> mode = MODE_MAXSIZE then Some ([cres], s)
                  else Option.bind (read_loop recv mode maxsize count s) (\<lambda>(b, s). Some (cres # b, s))))"

definition uart_read ::
  "(nat \<Rightarrow> nat \<Rightarrow> u32 \<Rightarrow> bytes) \<Rightarrow> nat \<Rightarrow> read_format \<Rightarrow> int option \<Rightarrow> nat option \<Rightarrow> uart_sys \<Rightarrow> (uart_result \<times> uart_sys) option" where
  "uart_read rdf i fmt timeout timer s =
    (if \<not> platform_uart_exists i then Some (Inl ''uart does not exist'', s)
     else case read_mode_of fmt of
         Inl e \<Rightarrow> Some (Inl e, s)
       | Inr (mode, maxsize) \<Rightarrow>
           (case timeout_of timeout timer of
              Inl e \<Rightarrow> Some (Inl e, s)
            | Inr (t, timer_id) \<Rightarrow>
                (case read_loop (platform_uart_recv rdf i timer_id t) mode maxsize 0 s of
                   None \<Rightarrow> None
                 | Some (b, s) \<Rightarrow> Some (Inr (if mode = MODE_NUMBER then U_int (strtol 10 b) else U_string b), s))))"

definition uart_getchar ::
  "(nat \<Rightarrow> nat \<Rightarrow> u32 \<Rightarrow> bytes) \<Rightarrow> nat \<Rightarrow> int option \<Rightarrow> nat option \<Rightarrow> uart_sys \<Rightarrow> (uart_result \<times> uart_sys) option" where
  "uart_getchar rdf i timeout timer s =
    (if \<not> platform_uart_exists i then Some (Inl ''uart does not exist'', s)
     else case timeout_of timeout timer of
         Inl e \<Rightarrow> Some (Inl e, s)
       | Inr (t, timer_id) \<Rightarrow>
           (case platform_uart_recv rdf i timer_id t s of
              None \<Rightarrow> None
            | Some (res, s) \<Rightarrow> Some (Inr (U_string (if res = - 1 then [] else [of_int res])), s)))"

fun intlog2_loop :: "nat \<Rightarrow> nat \<Rightarrow> nat" where
  "intlog2_loop v r = (if v div 2 = 0 then r else intlog2_loop (v div 2) (r + 1))"

declare intlog2_loop.simps [simp del]

definition intlog2 :: "u32 \<Rightarrow> nat" where
  "intlog2 v = intlog2_loop (unat v) 0"

definition uart_set_buffer :: "nat \<Rightarrow> u32 \<Rightarrow> uart_result" where
  "uart_set_buffer i sz =
    (if \<not> platform_uart_exists i then Inl ''uart does not exist''
     else if sz \<noteq> 0 \<and> sz AND (sz - 1) \<noteq> 0 then Inl ''the buffer size must be a power of 2 or 0''
     else if sz = 0 \<and> 0xD0 \<le> i then Inl ''disabling buffers on virtual UARTs is not allowed''
     else if platform_uart_set_buffer i (intlog2 sz) = PLATFORM_ERR then Inl ''unable to set UART buffer''
     else Inr U_nothing)"

definition uart_set_flow_control :: "nat \<Rightarrow> int \<Rightarrow> uart_result" where
  "uart_set_flow_control i typ =
    (if \<not> platform_uart_exists i then Inl ''uart does not exist''
     else if platform_uart_set_flow_control i typ \<noteq> PLATFORM_OK then Inl ''unable to set the flow control'' else Inr U_nothing)"

definition os_sleep :: "int \<Rightarrow> u32" where
  "os_sleep ms = platform_os_sleep (of_int ms)"

subsection \<open>I2C\<close>

text \<open>The slave addresses that were preset for the three ports, all 0 at first, and the calls of the base system.\<close>

datatype i2c_call = Open_i2c nat u32 | Close_i2c nat | Write_i2c nat u16 u8 bytes | Read_i2c nat u16 u8 u32

record i2c_sys =
  i2cSlaveAddr :: "u16 list"
  i2c_calls :: "i2c_call list"

abbreviation (input) I2C_NULL_SLAVE_ADDR :: u16 where "I2C_NULL_SLAVE_ADDR \<equiv> 0xffff"

definition i2c_start :: i2c_sys where
  "i2c_start = \<lparr>i2cSlaveAddr = replicate 3 0, i2c_calls = []\<rparr>"

definition i2c_log :: "i2c_call \<Rightarrow> i2c_sys \<Rightarrow> i2c_sys" where
  "i2c_log c s = s\<lparr>i2c_calls := i2c_calls s @ [c]\<rparr>"

definition platform_i2c_exists :: "nat \<Rightarrow> bool" where
  "platform_i2c_exists i \<longleftrightarrow> i = 1"

definition platform_i2c_setup :: "bool \<Rightarrow> nat \<Rightarrow> u32 \<Rightarrow> u16 \<Rightarrow> i2c_sys \<Rightarrow> u32 \<times> i2c_sys" where
  "platform_i2c_setup opened_ok i speed slave s =
    (if opened_ok then speed else 0, i2c_log (Open_i2c i speed) (s\<lparr>i2cSlaveAddr := (i2cSlaveAddr s)[i := slave]\<rparr>))"

definition platform_i2c_close :: "bool \<Rightarrow> nat \<Rightarrow> i2c_sys \<Rightarrow> u32 \<times> i2c_sys" where
  "platform_i2c_close ok i s = (of_bool ok, i2c_log (Close_i2c i) s)"

text \<open>The results of the base system are arguments: the count written, or the bytes read.\<close>

definition platform_i2c_send_data :: "u32 \<Rightarrow> nat \<Rightarrow> u16 \<Rightarrow> u8 \<Rightarrow> bytes \<Rightarrow> i2c_sys \<Rightarrow> u32 \<times> i2c_sys" where
  "platform_i2c_send_data wrote i slave reg bs s =
    (let slave = (if slave = I2C_NULL_SLAVE_ADDR then i2cSlaveAddr s ! i else slave)
     in if slave = I2C_NULL_SLAVE_ADDR then (0, s) else (wrote, i2c_log (Write_i2c i slave reg bs) s))"

definition platform_i2c_recv_data :: "bytes \<Rightarrow> nat \<Rightarrow> u16 \<Rightarrow> u8 \<Rightarrow> u32 \<Rightarrow> i2c_sys \<Rightarrow> bytes \<times> i2c_sys" where
  "platform_i2c_recv_data got i slave reg len s =
    (let slave = (if slave = I2C_NULL_SLAVE_ADDR then i2cSlaveAddr s ! i else slave)
     in if slave = I2C_NULL_SLAVE_ADDR then ([], s) else (got, i2c_log (Read_i2c i slave reg len) s))"

definition i2c_setup :: "bool \<Rightarrow> nat \<Rightarrow> u32 \<Rightarrow> int \<Rightarrow> i2c_sys \<Rightarrow> uart_result \<times> i2c_sys" where
  "i2c_setup opened_ok i speed slave s =
    (if \<not> platform_i2c_exists i then (Inl ''i2c does not exist'', s)
     else (let (r, s) = platform_i2c_setup opened_ok i speed (ucast (of_int slave :: u8)) s in (Inr (U_int r), s)))"

definition i2c_close :: "bool \<Rightarrow> nat \<Rightarrow> i2c_sys \<Rightarrow> uart_result \<times> i2c_sys" where
  "i2c_close ok i s =
    (if \<not> platform_i2c_exists i then (Inl ''i2c does not exist'', s)
     else (let (r, s) = platform_i2c_close ok i s in (Inr (U_int r), s)))"

text \<open>A slave address is given with four arguments.  A table is a list of numbers here; its buffer is taken to be allocated.\<close>

datatype i2c_data = D_number int | D_string bytes | D_table "int list" | D_other

definition i2c_write :: "u32 \<Rightarrow> nat \<Rightarrow> int option \<Rightarrow> int \<Rightarrow> i2c_data \<Rightarrow> i2c_sys \<Rightarrow> uart_result \<times> i2c_sys" where
  "i2c_write wrote i slave reg data s =
    (let slave_addr = (case slave of None \<Rightarrow> I2C_NULL_SLAVE_ADDR | Some a \<Rightarrow> of_int a)
     in if \<not> platform_i2c_exists i then (Inl ''i2c does not exist'', s)
        else case (case data of D_number n \<Rightarrow> Some [of_int n] | D_string b \<Rightarrow> Some b | D_table ns \<Rightarrow> Some (map of_int ns) | D_other \<Rightarrow> None) of
            None \<Rightarrow> (Inl ''i2c.write: data must be number,string,table'', s)
          | Some b \<Rightarrow> (let (r, s) = platform_i2c_send_data wrote i slave_addr (of_int reg) b s in (Inr (U_int r), s)))"

definition i2c_read :: "bytes \<Rightarrow> nat \<Rightarrow> int option \<Rightarrow> int \<Rightarrow> int \<Rightarrow> u32 \<Rightarrow> i2c_sys \<Rightarrow> uart_result \<times> i2c_sys" where
  "i2c_read got i slave reg n bufsiz s =
    (let slave_addr = (case slave of None \<Rightarrow> I2C_NULL_SLAVE_ADDR | Some a \<Rightarrow> of_int a); len = of_int n :: u32
     in if \<not> platform_i2c_exists i then (Inl ''i2c does not exist'', s)
        else if len = 0 then (Inr U_nothing, s)
        else if bufsiz \<le> len then (Inl ''i2c.read: size must < LUAL_BUFFERSIZE'', s)
        else (let (b, s) = platform_i2c_recv_data got i slave_addr (of_int reg) len s in (Inr (U_string b), s)))"

subsection \<open>Reading from a port as reading a stream\<close>

text \<open>What a read returns and what it leaves, given the bytes that wait.  In the modes for numbers and words the byte that
  ends them is lost.\<close>

definition number_token :: "bytes \<Rightarrow> bytes" where
  "number_token bs =
    (case bs of [] \<Rightarrow> [] | b # r \<Rightarrow> if b = 45 \<or> b = 43 then b # takeWhile is_dec r else takeWhile is_dec bs)"

definition read_result :: "read_mode \<Rightarrow> int \<Rightarrow> bytes \<Rightarrow> bytes \<times> bytes" where
  "read_result mode n bs =
    (case mode of
       MODE_LINE \<Rightarrow> (line_of bs, drop (length (line_of bs)) bs)
     | MODE_NUMBER \<Rightarrow> (number_token bs, drop (length (number_token bs) + 1) bs)
     | MODE_SPACE \<Rightarrow> (takeWhile (\<lambda>c. \<not> is_space c) bs, drop (length (takeWhile (\<lambda>c. \<not> is_space c) bs) + 1) bs)
     | MODE_MAXSIZE \<Rightarrow> if n = 0 then (bs, []) else (take (nat n) bs, drop (nat n) bs))"

text \<open>The same after \<open>k\<close> bytes.\<close>

definition read_on :: "read_mode \<Rightarrow> int \<Rightarrow> int \<Rightarrow> bytes \<Rightarrow> bytes \<times> bytes" where
  "read_on mode n k bs =
    (if mode = MODE_NUMBER \<and> k \<noteq> 0 then (takeWhile is_dec bs, drop (length (takeWhile is_dec bs) + 1) bs)
     else if mode = MODE_MAXSIZE \<and> n \<noteq> 0 then (take (nat (n - k)) bs, drop (nat (n - k)) bs)
     else read_result mode n bs)"

lemma read_on_Nil: "read_on mode n k [] = ([], [])"
  by (cases mode) (simp_all add: read_on_def read_result_def number_token_def)

definition stops :: "read_mode \<Rightarrow> int \<Rightarrow> u8 \<Rightarrow> bool" where
  "stops mode k b \<longleftrightarrow> mode = MODE_NUMBER \<and> \<not> is_dec b \<and> \<not> (k = 0 \<and> (b = 45 \<or> b = 43)) \<or> mode = MODE_SPACE \<and> is_space b"

lemma read_on_Cons:
  assumes "0 \<le> k" "mode = MODE_MAXSIZE \<longrightarrow> n = 0 \<or> k < n"
  shows "read_on mode n k (b # bs) =
    (if b = 10 \<and> mode = MODE_LINE then ([b], bs)
     else if stops mode k b then ([], bs)
     else if k + 1 = n \<and> mode = MODE_MAXSIZE then ([b], bs)
     else (b # fst (read_on mode n (k + 1) bs), snd (read_on mode n (k + 1) bs)))"
proof (cases mode)
  case MODE_NUMBER
  then show ?thesis using assms(1) by (auto simp: read_on_def read_result_def stops_def number_token_def)
next
  case MODE_MAXSIZE
  have "nat (n - k) = Suc (nat (n - (k + 1)))" if "k < n" using that by simp
  then show ?thesis using MODE_MAXSIZE assms by (auto simp: read_on_def read_result_def stops_def)
qed (auto simp: read_on_def read_result_def stops_def)

locale recv_source =
  fixes recv :: "'s \<Rightarrow> (int \<times> 's) option" and unread :: "'s \<Rightarrow> bytes" and valid :: "'s \<Rightarrow> bool"
  assumes recv_none: "valid t \<Longrightarrow> unread t = [] \<Longrightarrow> \<exists>t'. recv t = Some (- 1, t') \<and> valid t' \<and> unread t' = []"
    and recv_byte: "valid t \<Longrightarrow> unread t = b # bs \<Longrightarrow> \<exists>t'. recv t = Some (uint b, t') \<and> valid t' \<and> unread t' = bs"
begin

lemma read_loop_on:
  "valid t \<Longrightarrow> 0 \<le> k \<Longrightarrow> (mode = MODE_MAXSIZE \<longrightarrow> n = 0 \<or> k < n) \<Longrightarrow>
    \<exists>t'. read_loop recv mode n k t = Some (fst (read_on mode n k (unread t)), t') \<and> valid t' \<and>
      unread t' = snd (read_on mode n k (unread t))"
proof (induction "unread t" arbitrary: t k)
  case Nil
  then obtain t' where t': "recv t = Some (- 1, t')" "valid t'" "unread t' = []" using recv_none by metis
  then show ?case using Nil(1) by (subst read_loop.simps) (simp add: read_on_Nil flip: Nil(1))
next
  case (Cons b bs)
  obtain t1 where t1: "recv t = Some (uint b, t1)" "valid t1" "unread t1 = bs" using recv_byte [OF Cons.prems(1)] Cons.hyps(2) by metis
  have "0 \<le> uint b" by simp
  then have u: "uint b \<noteq> - 1" "(uint b = 45) = (b = 45)" "(uint b = 43) = (b = 43)" "(of_int (uint b) :: u8) = b"
    by (linarith, auto simp: word_uint_eq_iff)
  note step = read_on_Cons [OF Cons.prems(2,3), of b bs]
  let ?done = "b = 10 \<and> mode = MODE_LINE \<or> stops mode k b \<or> k + 1 = n \<and> mode = MODE_MAXSIZE"
  have loop: "read_loop recv mode n k t =
    (if b = 10 \<and> mode = MODE_LINE then Some ([b], t1)
     else if stops mode k b then Some ([], t1)
     else if k + 1 = n \<and> mode = MODE_MAXSIZE then Some ([b], t1)
     else Option.bind (read_loop recv mode n (k + 1) t1) (\<lambda>(c, s). Some (b # c, s)))"
    by (subst read_loop.simps) (auto simp: t1(1) u Let_def stops_def)
  show ?case
  proof (cases ?done)
    case True
    then show ?thesis unfolding loop Cons.hyps(2) [symmetric] step using t1 by auto
  next
    case False
    obtain t2 where "read_loop recv mode n (k + 1) t1 = Some (fst (read_on mode n (k + 1) bs), t2)" "valid t2"
      "unread t2 = snd (read_on mode n (k + 1) bs)"
      using Cons.hyps(1) [OF t1(3) [symmetric] t1(2), of "k + 1"] Cons.prems False t1(3) by auto
    moreover have "\<not> (b = 10 \<and> mode = MODE_LINE)" "\<not> stops mode k b" "\<not> (k + 1 = n \<and> mode = MODE_MAXSIZE)"
      using False by blast+
    ultimately show ?thesis unfolding loop Cons.hyps(2) [symmetric] step by (simp only: if_False) simp
  qed
qed

lemma read_loop_stream:
  assumes "valid t" "0 \<le> n"
  shows "\<exists>t'. read_loop recv mode n 0 t = Some (fst (read_result mode n (unread t)), t') \<and> valid t' \<and>
    unread t' = snd (read_result mode n (unread t))"
proof -
  have same: "read_on mode n 0 = read_result mode n" by (cases mode) (auto simp: read_on_def read_result_def)
  have "mode = MODE_MAXSIZE \<longrightarrow> n = 0 \<or> 0 < n" using assms(2) by auto
  then show ?thesis using read_loop_on [OF assms(1) order_refl, of mode n] by (simp add: same)
qed

end

text \<open>The ports, in message mode, and the AT channel.\<close>

definition serial_ok :: "nat \<Rightarrow> uart_sys \<Rightarrow> bool" where
  "serial_ok i s \<longleftrightarrow> (if i = PLATFORM_UART_ID_ATC then vatc_wf s else uart_msg_mode i s)"

definition serial_pending :: "nat \<Rightarrow> uart_sys \<Rightarrow> bytes" where
  "serial_pending i s = (if i = PLATFORM_UART_ID_ATC then vatc_pending s else port_pending i s)"

lemma serial_recv:
  assumes "serial_ok i s"
  shows "\<exists>s'. platform_s_uart_recv rdf i t s = Some (case serial_pending i s of [] \<Rightarrow> - 1 | b # _ \<Rightarrow> uint b, s') \<and>
    serial_ok i s' \<and> serial_pending i s' = drop 1 (serial_pending i s)"
proof (cases "i = PLATFORM_UART_ID_ATC")
  case True
  obtain bs s' where r: "vatc_read 1 s = (bs, s')" by (cases "vatc_read 1 s")
  have "vatc_wf s" using assms True by (simp add: serial_ok_def)
  from vr.loop_correct [OF this, of 1] have bs: "bs = take 1 (vatc_pending s)" and s': "vatc_wf s'" "vatc_pending s' = drop 1 (vatc_pending s)"
    unfolding r by simp_all
  have "platform_s_uart_recv rdf i t s = Some (case bs of [] \<Rightarrow> - 1 | b # _ \<Rightarrow> uint b, s')"
    using True r by (simp add: platform_s_uart_recv_def del: One_nat_def vatc_read.simps)
  then show ?thesis using s' True unfolding bs serial_ok_def serial_pending_def
    by (cases "vatc_pending s") simp_all
next
  case False
  have m: "uart_msg_mode i s" using assms False by (simp add: serial_ok_def)
  then have i: "i < 4" by (simp add: uart_msg_mode_def)
  obtain bs s' where r: "uart_phy_read rdf i 1 (of_int t) s = (bs, s')" by (cases "uart_phy_read rdf i 1 (of_int t) s")
  have bs: "bs = take 1 (port_pending i s)" and s': "uart_msg_mode i s'" "port_pending i s' = drop 1 (port_pending i s)"
    using uart_phy_read_eq [OF m, of rdf 1 "of_int t"] unfolding r by simp_all
  have "platform_s_uart_recv rdf i t s = Some (case bs of [] \<Rightarrow> - 1 | b # _ \<Rightarrow> uint b, s')"
    using False r i by (simp add: platform_s_uart_recv_def del: One_nat_def)
  then show ?thesis using s' False unfolding bs serial_ok_def serial_pending_def
    by (cases "port_pending i s") simp_all
qed

interpretation serial: recv_source "platform_s_uart_recv rdf i t" "serial_pending i" "serial_ok i" for rdf i t
proof
  fix s assume "serial_ok i s" "serial_pending i s = []"
  then show "\<exists>s'. platform_s_uart_recv rdf i t s = Some (- 1, s') \<and> serial_ok i s' \<and> serial_pending i s' = []"
    using serial_recv [of i s rdf t] by auto
next
  fix s b bs assume "serial_ok i s" "serial_pending i s = b # bs"
  then show "\<exists>s'. platform_s_uart_recv rdf i t s = Some (uint b, s') \<and> serial_ok i s' \<and> serial_pending i s' = bs"
    using serial_recv [of i s rdf t] by auto
qed

lemma serial_exists: "serial_ok i s \<Longrightarrow> platform_uart_exists i"
  by (auto simp: serial_ok_def platform_uart_exists_def uart_msg_mode_def split: if_splits)

lemma read_mode_of_size: "read_mode_of fmt = Inr (mode, n) \<Longrightarrow> 0 \<le> n"
  by (auto simp: read_mode_of_def split: read_format.splits if_splits)

text \<open>C40: Without a timeout, \<^verbatim>\<open>uart.read\<close> on a port in message mode or on the AT channel returns, whatever waits there: a line with its
  end, a number, a word or a number of bytes from the front, and leaves the rest, but for the byte that ends a number or a word.\<close>
theorem uart_read_stream:
  assumes "serial_ok i s" "read_mode_of fmt = Inr (mode, n)" "timeout \<in> {None, Some 0, Some (- 1)}"
    and "(b, rest) = read_result mode n (serial_pending i s)"
  shows "\<exists>s'. uart_read rdf i fmt timeout timer s = Some (Inr (if mode = MODE_NUMBER then U_int (strtol 10 b) else U_string b), s') \<and>
    serial_ok i s' \<and> serial_pending i s' = rest"
proof -
  obtain t where t: "timeout_of timeout timer = Inr (t, 0)" "t = 0 \<or> t = - 1"
    using assms(3) by (auto simp: timeout_of_def)
  have recv: "platform_uart_recv rdf i 0 t = platform_s_uart_recv rdf i t"
    using t(2) by (auto simp: platform_uart_recv_def cmn_recv_helper_def fun_eq_iff)
  obtain s' where "read_loop (platform_s_uart_recv rdf i t) mode n 0 s = Some (b, s')" "serial_ok i s'" "serial_pending i s' = rest"
    using serial.read_loop_stream [OF assms(1) read_mode_of_size [OF assms(2)], of rdf t mode] assms(4)
    by (metis fst_conv snd_conv)
  then show ?thesis using assms(2) t(1) recv serial_exists [OF assms(1)] by (simp add: uart_read_def)
qed

theorem uart_read_stream_witness:
  "\<exists>s'. uart_read (\<lambda>_ _ _. []) PLATFORM_UART_ID_ATC (Format (lit ''*l'')) None None (vatc_rx (uart_sys_init 0) [79, 75, 10, 65]) =
      Some (Inr (U_string [79, 75, 10]), s') \<and> serial_pending PLATFORM_UART_ID_ATC s' = [65]"
proof -
  let ?s = "uart_sys_init 0" and ?d = "[79, 75, 10, 65] :: bytes"
  have ok: "vatc_wf ?s" using uart_wf_init [of 0] by (simp add: uart_wf_def)
  have "vatc_pending ?s = []" by (simp add: uart_sys_init_def vatc_pending_def)
  moreover have "length ?d \<le> vatc_room ?s" by (simp add: uart_sys_init_def vatc_room_def)
  ultimately have p: "vatc_pending (vatc_rx ?s ?d) = ?d" using vs.ins_room [OF ok, of ?d] by simp
  have m: "read_mode_of (Format (lit ''*l'')) = Inr (MODE_LINE, 0)" by (simp add: read_mode_of_def)
  have r: "([79, 75, 10], [65]) = read_result MODE_LINE 0 (serial_pending PLATFORM_UART_ID_ATC (vatc_rx ?s ?d))"
    by (simp add: serial_pending_def p read_result_def)
  have "serial_ok PLATFORM_UART_ID_ATC (vatc_rx ?s ?d)" using vs.ins_inv [OF ok] by (simp add: serial_ok_def)
  from uart_read_stream [OF this m _ r, of None "\<lambda>_ _ _. []" None] show ?thesis by auto
qed

text \<open>With a timeout, a read that finds no byte divides by the clock of the timer, which is 0.\<close>

lemma timeout_divides_by_zero:
  assumes "serial_ok i s" "serial_pending i s = []" "0 < timeout"
  shows "uart_getchar rdf i (Some timeout) (Some timer_id) s = None"
proof -
  obtain s' where "platform_s_uart_recv rdf i 0 s = Some (- 1, s')" using serial.recv_none [OF assms(1,2)] by blast
  then have "platform_uart_recv rdf i timer_id timeout s = None"
    using assms(3) by (simp add: platform_uart_recv_def recv_wait.simps cmn_recv_helper_def platform_timer_get_diff_us_def
        platform_timer_op_def platform_s_timer_op_def)
  then show ?thesis using assms(3) serial_exists [OF assms(1)] by (simp add: uart_getchar_def timeout_of_def)
qed

text \<open>A string of 65536 bytes is not sent at all, one that is longer only in part.\<close>

lemma long_string_cut:
  "uart_write wr PLATFORM_UART_ID_ATC [W_string b] s =
    (Inr (U_int (of_nat (length b mod 2 ^ 16))), log_call (Send_at_command (take (length b mod 2 ^ 16) b)) s)"
proof -
  have "length b mod 2 ^ 16 \<le> length b" by (rule mod_less_eq_dividend)
  then show ?thesis
    by (simp add: uart_write_def platform_uart_exists_def platform_uart_send_buff_def platform_s_uart_send_buff_def min_absorb2)
qed

text \<open>The multiplication in \<^verbatim>\<open>platform_os_sleep\<close> wraps: 262144 milliseconds are no time at all.\<close>

lemma long_sleep_wraps: "os_sleep 262144 = 0"
  by (simp add: os_sleep_def platform_os_sleep_def)

lemma no_buffers: "\<exists>e. uart_set_buffer i sz = Inl e" "\<exists>e. uart_set_flow_control i typ = Inl e"
  by (auto simp: uart_set_buffer_def platform_uart_set_buffer_def uart_set_flow_control_def platform_uart_set_flow_control_def platform_s_uart_set_flow_control_def)

subsection \<open>Slave addresses\<close>

text \<open>Without a slave address in the call, the preset one is used, of which only eight bits are kept; before any setup it is 0,
  so that the check for a missing address never applies.\<close>

lemma i2c_preset:
  assumes "length (i2cSlaveAddr s) = 3"
  shows "i2c_write wrote 1 None reg (D_string b) (snd (i2c_setup ok 1 speed a s)) =
    (Inr (U_int wrote), i2c_log (Write_i2c 1 (ucast (of_int a :: u8)) (of_int reg) b) (snd (i2c_setup ok 1 speed a s)))"
    "i2c_write wrote 1 None reg (D_string b) i2c_start = (Inr (U_int wrote), i2c_log (Write_i2c 1 0 (of_int reg) b) i2c_start)"
proof -
  have "(ucast (of_int a :: u8) :: u16) \<noteq> 0xffff"
  proof
    assume "(ucast (of_int a :: u8) :: u16) = 0xffff"
    then have "bit (ucast (of_int a :: u8) :: u16) 15 = bit (0xffff :: u16) 15" by simp
    then show False by (simp add: bit_simps)
  qed
  then show "i2c_write wrote 1 None reg (D_string b) (snd (i2c_setup ok 1 speed a s)) =
    (Inr (U_int wrote), i2c_log (Write_i2c 1 (ucast (of_int a :: u8)) (of_int reg) b) (snd (i2c_setup ok 1 speed a s)))"
    using assms
    by (simp add: i2c_write_def i2c_setup_def platform_i2c_exists_def platform_i2c_setup_def platform_i2c_send_data_def i2c_log_def Let_def)
qed (simp add: i2c_write_def platform_i2c_exists_def platform_i2c_send_data_def i2c_start_def i2c_log_def Let_def)

end
