(* ===== verification/Spec2Isabelle.thy ===== *)
theory Spec2Isabelle
  imports Uart Digest Crc Base64 Interrupts Rtos Aes Calendar Pio Display Lcd Iconv Luadb Table_Files Boot Devices Stdio Bits Pack Power_On Audio Clib Serial
begin

text \<open>
  Verification library of the Air200 firmware core, the C code under
  \<^verbatim>\<open>src/core/cust_src/elua\<close> (paths below are relative to it).

  The firmware runs Lua scripts on a GPRS module.  Its task starts the script engine, which calls C modules
  (\<^verbatim>\<open>modules/src\<close>); these call the platform layer (\<^verbatim>\<open>platform/src\<close> for what
  all platforms share, \<^verbatim>\<open>platform/coolsand/src\<close> for this one), which calls the vendor's operating system
  through a table of functions (\<^verbatim>\<open>IVTBL\<close>).  Events come back from that system as callbacks: they fill
  rings, send messages to the task or queue interrupts, which the engine picks up between instructions.
\<close>

section \<open>The theories and the code\<close>

text \<open>
  \<^item> \<^verbatim>\<open>Prelude\<close>: types of machine words and bytes, collections of simplification rules, lemmas on lists,
    words and results that several theories use.

  \<^item> \<^verbatim>\<open>Cycle_Queue\<close>: the byte ring of \<^verbatim>\<open>platform/coolsand/src/cycle_queue.c\<close> with its
    indices and its full and overflow flags, byte by byte.  An invariant relates it to the list of bytes it holds;
    its three operations refine a bounded queue that drops the oldest bytes.  The interface is a locale.

  \<^item> \<^verbatim>\<open>Uart\<close>: \<^verbatim>\<open>platform_uart.c\<close>: table of ports, sending, receiving through the ring or through
    the AT channel's buffer, the chunked debug port, baud rates.  The driver's calls are logged.

  \<^item> \<^verbatim>\<open>Interrupts\<close>: \<^verbatim>\<open>platform/src/elua_int.c\<close>, \<^verbatim>\<open>common.c\<close>,
    \<^verbatim>\<open>platform_int.c\<close> and \<^verbatim>\<open>modules/src/cpu.c\<close>: the ring of queued
    interrupts, enable bits, and the hook that runs handlers between instructions, also when a handler raises an error.

  \<^item> \<^verbatim>\<open>Rtos\<close>: \<^verbatim>\<open>platform_rtos.c\<close> and \<^verbatim>\<open>modules/src/rtos.c\<close>: the table of
    timers, messages to the script, power-on and power-off.

  \<^item> \<^verbatim>\<open>Pio\<close>: \<^verbatim>\<open>modules/src/pio.c\<close> with the pin operations of
    \<^verbatim>\<open>platform.c\<close>: pin codes, names, directions and values.

  \<^item> \<^verbatim>\<open>Display\<close>, \<^verbatim>\<open>Lcd\<close>: the frame buffer of \<^verbatim>\<open>platform/src/common_disp.c\<close>
    (text, images, rectangles, clipping), and \<^verbatim>\<open>platform_lcd.c\<close> with \<^verbatim>\<open>modules/src/disp.c\<close>, which
    send it to the panel.  A page-addressed panel is modelled by the commands the source's comments name, as the
    other side of the bus.

  \<^item> \<^verbatim>\<open>Digest\<close>, \<^verbatim>\<open>Aes\<close>, \<^verbatim>\<open>Crc\<close>, \<^verbatim>\<open>Base64\<close>:
    \<^verbatim>\<open>lib/crypto/src\<close> and \<^verbatim>\<open>platform/src/crc.c\<close>, compared with the definitions of the
    standards (FIPS 180, RFC 1321, RFC 2104, FIPS 197, the polynomial divisions, RFC 4648).

  \<^item> \<^verbatim>\<open>Calendar\<close>: \<^verbatim>\<open>newlib/libc/src/time.c\<close>: broken-down times, compared with the Gregorian
    calendar, with every 32-bit overflow check.

  \<^item> \<^verbatim>\<open>Iconv\<close>: \<^verbatim>\<open>lib/iconv/src\<close> and \<^verbatim>\<open>modules/src/luaiconv.c\<close>: the
    converters between UTF-8, UCS-2 and GB2312 and the loop that applies them.

  \<^item> \<^verbatim>\<open>Luadb\<close>, \<^verbatim>\<open>Table_Files\<close>: \<^verbatim>\<open>platform/src/preload.c\<close> and
    \<^verbatim>\<open>lib/lzma/src/LzmaLib.c\<close>: images of preset files (parser, checks, installation), and the
    streams on files that stay in the flash or in the update file.

  \<^item> \<^verbatim>\<open>Boot\<close>: \<^verbatim>\<open>shell/src/shell.c\<close>: updates, the ROM image, the choice of the entry
    script and of the file that is opened for it, and sequences of boots.

  \<^item> \<^verbatim>\<open>Devices\<close>, \<^verbatim>\<open>Stdio\<close>: the C library glue: \<^verbatim>\<open>newlib/src\<close> (\<^verbatim>\<open>stubs.c\<close>,
    \<^verbatim>\<open>genstd.c\<close>, \<^verbatim>\<open>devman.c\<close>) with the table of devices, the console and
    \<^verbatim>\<open>platform_fs.c\<close>; and the streams of \<^verbatim>\<open>newlib/libc/src/stdio.c\<close>, also on encrypted files.

  \<^item> \<^verbatim>\<open>Bits\<close>, \<^verbatim>\<open>Pack\<close>: the modules \<^verbatim>\<open>bit.c\<close>, \<^verbatim>\<open>bitarray.c\<close> and
    \<^verbatim>\<open>lpack.c\<close> of \<^verbatim>\<open>modules/src\<close>.

  \<^item> \<^verbatim>\<open>Power_On\<close>: \<^verbatim>\<open>platform_main.c\<close>, \<^verbatim>\<open>platform_pmd.c\<close> and
    \<^verbatim>\<open>modules/src/pmd.c\<close>: the start of the application, AT data and power management between the callbacks of the base system,
    the task and the script, as interleavings of steps.  The check and the assignment of \<^verbatim>\<open>hasPoweron\<close> in
    \<^verbatim>\<open>cust_poweron_system\<close> are separate steps of the task and of the script; the other functions are one step each.

  \<^item> \<^verbatim>\<open>Audio\<close>: \<^verbatim>\<open>platform_audio.c\<close> and \<^verbatim>\<open>modules/src/audio.c\<close>: playing sounds, with
    the callback at the end of a sound, or late for a stopped one, as a step of its own, and reading them from the streams of \<^verbatim>\<open>Stdio\<close> and
    \<^verbatim>\<open>Table_Files\<close>.

  \<^item> \<^verbatim>\<open>Clib\<close>: the \<^verbatim>\<open>sscanf\<close> of \<^verbatim>\<open>platform/coolsand/src/cust_vsscanf.c\<close>.

  \<^item> \<^verbatim>\<open>Serial\<close>: \<^verbatim>\<open>modules/src/uart.c\<close> on \<^verbatim>\<open>platform/src/common_uart.c\<close> and
    \<^verbatim>\<open>common_tmr.c\<close>, over the ports of \<^verbatim>\<open>Uart\<close>; and \<^verbatim>\<open>modules/src/i2c.c\<close> with
    \<^verbatim>\<open>platform_i2c.c\<close>.
\<close>

section \<open>How the code is modelled\<close>

text \<open>
  A structure is a record, with the integers of the code at their width; global variables are records that
  operations take and return.  What belongs to the operating system, the drivers, libpng, the LZMA decoder or the
  allocator is an argument: a function of the model's parameters, or a result given to the operation; calls whose
  effect lies outside are recorded in a log in the order in which they are made.  Failures are sums, options or the
  code's own status values.  An access outside an allocated object is the value \<open>None\<close> where the code can
  reach it, and theorems on such operations say when it does not.

  Loops are structural recursions or have a termination proof; no operation uses fuel.  The loops of
  \<^verbatim>\<open>Serial\<close> that wait for what arrives are partial functions, and the theorem on them says when they return.  Bounds on lengths in
  theorems (such as images of less than 2 to the 32 bytes) are those of the address space or of the word in which the
  code keeps the length.
\<close>

section \<open>What the lemmas show\<close>

text \<open>
  \<^item> Data structures: the ring, the interrupt ring, the table of timers and the table of files refine lists or maps;
    the streams of \<^verbatim>\<open>Uart\<close>, \<^verbatim>\<open>Table_Files\<close> and \<^verbatim>\<open>Stdio\<close> deliver, for
    every sequence of operations, what a position in a byte sequence delivers.

  \<^item> Interfaces: readers with a buffer, byte streams, sources of characters and files with a position are locales; their
    clients (\<^verbatim>\<open>fgets\<close>, the loop of \<^verbatim>\<open>uart.read\<close>, reading a sound) are verified once, for ports, the AT
    channel, preset files and files of the file system.

  \<^item> Algorithms: digests for every way to cut the input into pieces, key expansion and rounds of AES, checksums,
    calendar dates agree with their standards; decoders invert encoders (Base64, AES modes, UTF-8, pin codes,
    images of files, packed values, scanned numbers).

  \<^item> Safety: drawing (other than PNG images and rectangles with a negative corner) stays inside the frame buffer; every
    timer handle is either in the table or deleted; the chip is shut down only when nobody has started the system; the
    system is started once, and twice only in the race of task and script that \<^verbatim>\<open>system_started_twice\<close> shows; files
    of an accepted image whose end does not wrap lie inside it; memory for sounds is released once and not while they
    play, unless a callback comes late for a stopped sound (\<^verbatim>\<open>late_callback_frees\<close>) or interrupts the stop
    (\<^verbatim>\<open>released_twice\<close>); formats without white space keep the scanner inside its strings.

  \<^item> Interrupts: accepted interrupts are delivered in order as long as no handler raises an error while nothing waits
    (\<^verbatim>\<open>handler_error_loses_interrupt\<close>).

  \<^item> Messages: the script's last power management message holds the current state, and AT data reach the script in order,
    all of them up to the size of the ring.

  \<^item> Progress: conversions end for every input; an update causes one restart, whatever it contains, except for plain
    data files that can be written, with which every boot restarts.

  \<^item> Defects: theorems such as \<^verbatim>\<open>reboot_loop\<close>, \<^verbatim>\<open>liconv_repeats\<close>,
    \<^verbatim>\<open>disp_unclipped\<close>, \<^verbatim>\<open>cbc_partial_block_overrun\<close>,
    \<^verbatim>\<open>seek_end_leaves_file\<close> state what the code does where it does not do what it means to.
\<close>

section \<open>Not modelled\<close>

text \<open>
  Third-party code: the Lua virtual machine with its libraries, zlib, libpng, the LZMA decoder, cjson, dlmalloc, the
  \<^verbatim>\<open>strncat\<close> of the GNU C library.  What the modules use of Lua (arguments, results, errors) appears in their definitions.

  Generated or constant data: code pages, fonts, the table of access points with its linear search, the vendor's headers.  The Win32
  simulator.

  Code that this build leaves out: the buffers of \<^verbatim>\<open>platform/src/buf.c\<close>, the serial multiplexer, virtual timers.

  Modules whose functions are one call of a driver without a state or a check of their own (ADC, GPS, watchdog); functions that
  register modules; stubs that set \<^verbatim>\<open>errno\<close> or assert.  The application scripts.
\<close>

end
